(* ===== verification/Xv6_Prelude.thy ===== *)
theory Xv6_Prelude
  imports Main "HOL-Library.Word"
begin

text \<open>
  Shared vocabulary of the development: the C integer types, the outcome of a kernel
  routine, the table scan that most of the kernel's loops are, and generic lemmas on lists
  and words.  Nothing here translates a particular source line, except the constants of
  \<^verbatim>\<open>src/xv6/param.h\<close>, \<^verbatim>\<open>src/xv6/fs.h\<close> and \<^verbatim>\<open>src/xv6/mmu.h\<close>.
\<close>

unbundle bit_operations_syntax

section \<open>C types\<close>

text \<open>\<^verbatim>\<open>uint\<close>, \<^verbatim>\<open>ushort\<close> and \<^verbatim>\<open>uchar\<close> of \<^verbatim>\<open>src/xv6/types.h\<close>: addition wraps around.\<close>

type_synonym uint = "32 word"
type_synonym ushort = "16 word"
type_synonym uchar = "8 word"

section \<open>Constants of param.h, fs.h and mmu.h\<close>

abbreviation (input) NPROC :: nat where "NPROC \<equiv> 64"
abbreviation (input) NCPU :: nat where "NCPU \<equiv> 8"
abbreviation (input) NOFILE :: nat where "NOFILE \<equiv> 16"
abbreviation (input) NFILE :: nat where "NFILE \<equiv> 100"
abbreviation (input) NINODE :: nat where "NINODE \<equiv> 50"
abbreviation (input) NDEV :: nat where "NDEV \<equiv> 10"
abbreviation (input) ROOTDEV :: uint where "ROOTDEV \<equiv> 1"
abbreviation (input) ROOTINO :: uint where "ROOTINO \<equiv> 1"
abbreviation (input) MAXOPBLOCKS :: nat where "MAXOPBLOCKS \<equiv> 10"
abbreviation (input) LOGSIZE :: nat where "LOGSIZE \<equiv> 30"
abbreviation (input) NBUF :: nat where "NBUF \<equiv> 30"
abbreviation (input) FSSIZE :: nat where "FSSIZE \<equiv> 1000"
abbreviation (input) BSIZE :: nat where "BSIZE \<equiv> 512"
abbreviation (input) PGSIZE :: uint where "PGSIZE \<equiv> 4096"

section \<open>Outcome of a kernel routine\<close>

text \<open>
  A kernel routine returns a value, stops the machine by calling \<^verbatim>\<open>panic(msg)\<close>, or goes to
  sleep with nothing changed, to be tried again when it is woken up.
\<close>

datatype 'a outcome = Ok 'a | Panic string | Blocked

primrec obind :: "'a outcome \<Rightarrow> ('a \<Rightarrow> 'b outcome) \<Rightarrow> 'b outcome" where
  "obind (Ok x) f = f x"
| "obind (Panic m) f = Panic m"
| "obind Blocked f = Blocked"

section \<open>Table scans\<close>

text \<open>
  \<^verbatim>\<open>for(p = table; p < &table[N]; p++) if(P(p)) ...\<close>: the index of the first entry with
  \<open>P\<close>, if there is one.
\<close>

primrec find_idx_from :: "nat \<Rightarrow> ('a \<Rightarrow> bool) \<Rightarrow> 'a list \<Rightarrow> nat option" where
  "find_idx_from i P [] = None"
| "find_idx_from i P (x # xs) = (if P x then Some i else find_idx_from (Suc i) P xs)"

definition find_idx :: "('a \<Rightarrow> bool) \<Rightarrow> 'a list \<Rightarrow> nat option" where
  "find_idx P xs = find_idx_from 0 P xs"

section \<open>Lemmas on outcomes\<close>

named_theorems outcome_simps \<open>inversion rules for routines that return normally\<close>

lemma obind_eq_Ok [outcome_simps]: "obind m f = Ok y \<longleftrightarrow> (\<exists>x. m = Ok x \<and> f x = Ok y)"
  by (cases m) auto

lemma obind_cong [fundef_cong]:
  "m = m' \<Longrightarrow> (\<And>x. m' = Ok x \<Longrightarrow> f x = g x) \<Longrightarrow> obind m f = obind m' g"
  by (cases m') auto

lemma obind_split: "P (obind m f) \<longleftrightarrow>
    (\<forall>x. m = Ok x \<longrightarrow> P (f x)) \<and> (\<forall>e. m = Panic e \<longrightarrow> P (Panic e)) \<and> (m = Blocked \<longrightarrow> P Blocked)"
  by (cases m) auto

lemma obind_assoc: "obind (obind m f) g = obind m (\<lambda>x. obind (f x) g)"
  by (cases m) auto

section \<open>Lemmas on table scans\<close>

lemma find_idx_from_Some:
  "find_idx_from k P xs = Some i \<longleftrightarrow>
     k \<le> i \<and> i - k < length xs \<and> P (xs ! (i - k)) \<and> (\<forall>j < i - k. \<not> P (xs ! j))"
proof (induction xs arbitrary: k)
  case Nil
  then show ?case by simp
next
  case (Cons x xs)
  show ?case
  proof (cases "P x")
    case True
    then show ?thesis
      by (auto simp: nth_Cons' split: if_splits)
  next
    case False
    have step: "(\<forall>j < i - k. \<not> P ((x # xs) ! j)) \<longleftrightarrow> (\<forall>j < i - Suc k. \<not> P (xs ! j))"
      if "Suc k \<le> i"
      using False that by (auto simp: nth_Cons' less_diff_conv split: if_splits)
    from False Cons.IH step show ?thesis
      by (cases "Suc k \<le> i") (auto simp: nth_Cons' not_le less_Suc_eq_le)
  qed
qed

lemma find_idx_Some_iff:
  "find_idx P xs = Some i \<longleftrightarrow> i < length xs \<and> P (xs ! i) \<and> (\<forall>j < i. \<not> P (xs ! j))"
  by (simp add: find_idx_def find_idx_from_Some)

lemma find_idx_from_None: "find_idx_from k P xs = None \<longleftrightarrow> (\<forall>x \<in> set xs. \<not> P x)"
  by (induction xs arbitrary: k) auto

lemma find_idx_None_iff: "find_idx P xs = None \<longleftrightarrow> (\<forall>x \<in> set xs. \<not> P x)"
  by (simp add: find_idx_def find_idx_from_None)

lemma find_idx_SomeD:
  assumes "find_idx P xs = Some i"
  shows "i < length xs" and "P (xs ! i)" and "\<And>j. j < i \<Longrightarrow> \<not> P (xs ! j)"
  using assms by (auto simp: find_idx_Some_iff)

lemma find_idx_from_update:
  "(i < length xs \<Longrightarrow> P (xs ! i) \<longleftrightarrow> P x) \<Longrightarrow> find_idx_from k P (xs[i := x]) = find_idx_from k P xs"
proof (induction xs arbitrary: i k)
  case (Cons y ys)
  show ?case
  proof (cases i)
    case 0
    with Cons.prems show ?thesis by simp
  next
    case (Suc j)
    with Cons.prems have "find_idx_from (Suc k) P (ys[j := x]) = find_idx_from (Suc k) P ys"
      by (intro Cons.IH) simp
    with Suc show ?thesis by simp
  qed
qed simp

lemma find_idx_update:
  "(i < length xs \<Longrightarrow> P (xs ! i) \<longleftrightarrow> P x) \<Longrightarrow> find_idx P (xs[i := x]) = find_idx P xs"
  unfolding find_idx_def by (rule find_idx_from_update)

lemma find_idx_exists: "x \<in> set xs \<Longrightarrow> P x \<Longrightarrow> \<exists>i. find_idx P xs = Some i"
  using find_idx_None_iff [of P xs] by (cases "find_idx P xs") auto

section \<open>Lemmas on words\<close>

lemma unat_uint_less: "unat (x :: uint) < 2 ^ 32"
  using unsigned_less [of x] by simp

lemma unat_uint_sub:
  "unat (x - y :: uint) = (if unat y \<le> unat x then unat x - unat y else unat x + 2 ^ 32 - unat y)"
  by (simp add: unat_sub_if_size word_size)

lemma unat_uint_add:
  "unat (x + y :: uint) = (if unat x + unat y < 2 ^ 32 then unat x + unat y else unat x + unat y - 2 ^ 32)"
  by (simp add: unat_plus_if')

lemma unat_of_nat_uint: "n < 2 ^ 32 \<Longrightarrow> unat (of_nat n :: uint) = n"
  unfolding unat_of_nat by (simp add: take_bit_nat_eq_self)

end
