(* ===== verification/Xv6_String.thy ===== *)
theory Xv6_String
  imports Xv6_Prelude
begin

text \<open>
  Memory and the C library of the kernel, \<^verbatim>\<open>src/xv6/string.c\<close>.  Memory is a map from 32-bit
  addresses to bytes; a C array that is only read, or that cannot overlap its source, is a
  map from indices to bytes.  The main results are that the word-wise \<^verbatim>\<open>memset\<close> and the
  two-directional \<^verbatim>\<open>memmove\<close> agree with their one-line specifications, overlap included, and
  that \<^verbatim>\<open>strncmp\<close>, \<^verbatim>\<open>strncpy\<close> and \<^verbatim>\<open>safestrcpy\<close> do what their comments promise.
\<close>

section \<open>Memory\<close>

type_synonym mem = "uint \<Rightarrow> uchar"
type_synonym carray = "nat \<Rightarrow> uchar"

text \<open>Little-endian words: what a 32-bit load or store of the x86 does.\<close>

definition byte_of :: "nat \<Rightarrow> uint \<Rightarrow> uchar" where
  "byte_of i v = ucast (drop_bit (8 * i) v)"

definition le32 :: "uchar \<Rightarrow> uchar \<Rightarrow> uchar \<Rightarrow> uchar \<Rightarrow> uint" where
  "le32 a b c d = ucast a OR push_bit 8 (ucast b) OR push_bit 16 (ucast c) OR push_bit 24 (ucast d)"

definition load32 :: "mem \<Rightarrow> uint \<Rightarrow> uint" where
  "load32 m a = le32 (m a) (m (a + 1)) (m (a + 2)) (m (a + 3))"

definition store32 :: "mem \<Rightarrow> uint \<Rightarrow> uint \<Rightarrow> mem" where
  "store32 m a v = m(a := byte_of 0 v, a + 1 := byte_of 1 v, a + 2 := byte_of 2 v, a + 3 := byte_of 3 v)"

section \<open>string.c\<close>

text \<open>\<^verbatim>\<open>rep stosb\<close> and \<^verbatim>\<open>rep stosl\<close> of \<^verbatim>\<open>src/xv6/x86.h\<close>.\<close>

primrec stosb :: "mem \<Rightarrow> uint \<Rightarrow> uchar \<Rightarrow> nat \<Rightarrow> mem" where
  "stosb m dst c 0 = m"
| "stosb m dst c (Suc n) = stosb (m(dst := c)) (dst + 1) c n"

primrec stosl :: "mem \<Rightarrow> uint \<Rightarrow> uint \<Rightarrow> nat \<Rightarrow> mem" where
  "stosl m dst w 0 = m"
| "stosl m dst w (Suc n) = stosl (store32 m dst w) (dst + 4) w n"

definition memset :: "mem \<Rightarrow> uint \<Rightarrow> uint \<Rightarrow> uint \<Rightarrow> mem" where
  "memset m dst c n =
     (if dst mod 4 = 0 \<and> n mod 4 = 0
      then (let c = c AND 0xFF
            in stosl m dst (push_bit 24 c OR push_bit 16 c OR push_bit 8 c OR c) (unat (n div 4)))
      else stosb m dst (ucast c) (unat n))"

primrec memcmp :: "carray \<Rightarrow> carray \<Rightarrow> nat \<Rightarrow> nat \<Rightarrow> int" where
  "memcmp s1 s2 i 0 = 0"
| "memcmp s1 s2 i (Suc n) =
     (if s1 i \<noteq> s2 i then Word.uint (s1 i) - Word.uint (s2 i) else memcmp s1 s2 (Suc i) n)"

text \<open>The two loops of \<^verbatim>\<open>memmove\<close>: \<^verbatim>\<open>*d++ = *s++\<close> and \<^verbatim>\<open>*--d = *--s\<close>.\<close>

primrec copy_fwd :: "mem \<Rightarrow> uint \<Rightarrow> uint \<Rightarrow> nat \<Rightarrow> mem" where
  "copy_fwd m d s 0 = m"
| "copy_fwd m d s (Suc n) = copy_fwd (m(d := m s)) (d + 1) (s + 1) n"

primrec copy_bwd :: "mem \<Rightarrow> uint \<Rightarrow> uint \<Rightarrow> nat \<Rightarrow> mem" where
  "copy_bwd m d s 0 = m"
| "copy_bwd m d s (Suc n) = copy_bwd (m(d - 1 := m (s - 1))) (d - 1) (s - 1) n"

definition memmove :: "mem \<Rightarrow> uint \<Rightarrow> uint \<Rightarrow> uint \<Rightarrow> mem" where
  "memmove m dst src n =
     (if src < dst \<and> src + n > dst
      then copy_bwd m (dst + n) (src + n) (unat n)
      else copy_fwd m dst src (unat n))"

definition memcpy :: "mem \<Rightarrow> uint \<Rightarrow> uint \<Rightarrow> uint \<Rightarrow> mem" where
  "memcpy m dst src n = memmove m dst src n"

primrec strncmp_from :: "carray \<Rightarrow> carray \<Rightarrow> nat \<Rightarrow> nat \<Rightarrow> int" where
  "strncmp_from p q i 0 = 0"
| "strncmp_from p q i (Suc n) =
     (if p i \<noteq> 0 \<and> p i = q i then strncmp_from p q (Suc i) n
      else Word.uint (p i) - Word.uint (q i))"

definition strncmp :: "carray \<Rightarrow> carray \<Rightarrow> nat \<Rightarrow> int" where
  "strncmp p q n = strncmp_from p q 0 n"

text \<open>
  \<^verbatim>\<open>strncpy\<close>: the first loop copies up to and including the first NUL, the second one
  fills what is left of the \<open>n\<close> bytes with NULs.
\<close>

primrec zero_fill :: "carray \<Rightarrow> nat \<Rightarrow> nat \<Rightarrow> carray" where
  "zero_fill s i 0 = s"
| "zero_fill s i (Suc n) = zero_fill (s(i := 0)) (Suc i) n"

primrec strncpy_from :: "carray \<Rightarrow> carray \<Rightarrow> nat \<Rightarrow> nat \<Rightarrow> carray" where
  "strncpy_from s t i 0 = s"
| "strncpy_from s t i (Suc n) =
     (if t i \<noteq> 0 then strncpy_from (s(i := t i)) t (Suc i) n
      else zero_fill (s(i := t i)) (Suc i) n)"

definition strncpy :: "carray \<Rightarrow> carray \<Rightarrow> int \<Rightarrow> carray" where
  "strncpy s t n = strncpy_from s t 0 (nat n)"

text \<open>\<^verbatim>\<open>safestrcpy\<close>: the loop \<^verbatim>\<open>while(--n > 0 && (*s++ = *t++) != 0)\<close> and the final \<^verbatim>\<open>*s = 0\<close>.\<close>

primrec safestrcpy_from :: "carray \<Rightarrow> carray \<Rightarrow> nat \<Rightarrow> nat \<Rightarrow> carray" where
  "safestrcpy_from s t i 0 = s(i := 0)"
| "safestrcpy_from s t i (Suc n) =
     (if t i \<noteq> 0 then safestrcpy_from (s(i := t i)) t (Suc i) n
      else (s(i := t i))(Suc i := 0))"

definition safestrcpy :: "carray \<Rightarrow> carray \<Rightarrow> int \<Rightarrow> carray" where
  "safestrcpy s t n = (if n \<le> 0 then s else safestrcpy_from s t 0 (nat (n - 1)))"

partial_function (option) strlen_from :: "carray \<Rightarrow> nat \<Rightarrow> nat option" where
  "strlen_from s n = (if s n = 0 then Some n else strlen_from s (Suc n))"

definition strlen :: "carray \<Rightarrow> nat option" where
  "strlen s = strlen_from s 0"

section \<open>Loads and stores\<close>

lemma bit_8_out [simp]: "8 \<le> n \<Longrightarrow> \<not> bit (a :: uchar) n"
  by (auto dest: bit_imp_le_length)

lemma byte_of_le32 [simp]:
  "byte_of 0 (le32 a b c d) = a" "byte_of (Suc 0) (le32 a b c d) = b"
  "byte_of 2 (le32 a b c d) = c" "byte_of 3 (le32 a b c d) = d"
  by (intro bit_word_eqI; auto simp: byte_of_def le32_def bit_simps)+

lemma le32_byte_of [simp]:
  "le32 (byte_of 0 v) (byte_of (Suc 0) v) (byte_of 2 v) (byte_of 3 v) = v"
proof (rule bit_word_eqI)
  fix n :: nat
  assume "n < LENGTH(32)"
  then consider "n < 8" | "8 \<le> n" "n < 16" | "16 \<le> n" "n < 24" | "24 \<le> n" "n < 32"
    by fastforce
  then show "bit (le32 (byte_of 0 v) (byte_of (Suc 0) v) (byte_of 2 v) (byte_of 3 v)) n = bit v n"
    by cases (auto simp: byte_of_def le32_def bit_simps)
qed

lemma load_store32_same [simp]: "load32 (store32 m a v) a = v"
  by (simp add: load32_def store32_def)

text \<open>Offsets inside an aligned object do not wrap around.\<close>

lemma unat_aligned_add:
  assumes al: "2 ^ k dvd unat (a :: uint)" and i: "i < 2 ^ k" and k: "k \<le> 32"
  shows "unat (a + of_nat i) = unat a + i"
proof -
  have "unat a < 2 ^ 32" using unsigned_less [of a] by simp
  moreover have d32: "(2 :: nat) ^ k dvd 2 ^ 32" by (rule le_imp_power_dvd) (rule k)
  ultimately have "2 ^ k \<le> 2 ^ 32 - unat a"
    using al by (intro dvd_imp_le dvd_diff_nat) auto
  with i have lt: "unat a + i < 2 ^ 32" by linarith
  then have "unat (of_nat i :: uint) = i" by (simp add: unat_of_nat)
  with lt show ?thesis by (simp add: unat_word_ariths)
qed

text \<open>Two different aligned words do not overlap.\<close>

lemma aligned_disjoint:
  assumes "2 ^ k dvd unat (a :: uint)" and "2 ^ k dvd unat b" and "a \<noteq> b"
    and "i < 2 ^ k" and "j < 2 ^ k" and "k \<le> 32"
  shows "a + of_nat i \<noteq> b + of_nat j"
proof
  assume "a + of_nat i = b + of_nat j"
  then have eq: "unat a + i = unat b + j"
    using assms by (metis unat_aligned_add)
  then have "(unat a + i) div 2 ^ k = (unat b + j) div 2 ^ k" by simp
  then have "unat a div 2 ^ k = unat b div 2 ^ k"
    using assms(1,2,4,5) by (auto elim!: dvdE)
  then have "unat a = unat b" using assms(1,2) by (metis dvd_mult_div_cancel)
  with assms(3) show False by (simp add: word_unat_eq_iff)
qed

lemma load_store32_other:
  assumes "4 dvd unat a" and "4 dvd unat b" and "a \<noteq> b"
  shows "load32 (store32 m a v) b = load32 m b"
proof -
  have d: "b + of_nat j \<noteq> a + of_nat i" if "i < 4" "j < 4" for i j :: nat
    using aligned_disjoint [where k = 2 and a = b and b = a and i = j and j = i] assms that by simp
  have "b + of_nat j \<notin> {a, a + 1, a + 2, a + 3}" if "j < 4" for j :: nat
    using that d [of 0 j] d [of 1 j] d [of 2 j] d [of 3 j] by simp
  from this [of 0] this [of 1] this [of 2] this [of 3] show ?thesis
    by (simp add: load32_def store32_def)
qed

section \<open>memset\<close>

lemma unat_diff_Suc:
  "a \<noteq> dst \<Longrightarrow> unat (a - dst :: uint) = Suc (unat (a - (dst + 1)))"
proof -
  assume "a \<noteq> dst"
  then have "a - dst \<noteq> 0" by simp
  then have "unat (a - dst - 1) = unat (a - dst) - 1" and "0 < unat (a - dst)"
    by (simp_all add: unat_minus_one unat_gt_0)
  moreover have "a - dst - 1 = a - (dst + 1)" by simp
  ultimately show ?thesis by simp
qed

lemma stosb_spec: "stosb m dst c n = (\<lambda>a. if unat (a - dst) < n then c else m a)"
proof (induction n arbitrary: m dst)
  case 0
  then show ?case by simp
next
  case (Suc n)
  show ?case
  proof
    fix a
    show "stosb m dst c (Suc n) a = (if unat (a - dst) < Suc n then c else m a)"
      by (cases "a = dst") (auto simp: Suc unat_diff_Suc)
  qed
qed

lemma stosl_stosb:
  assumes "w = le32 c c c c"
  shows "stosl m dst w n = stosb m dst c (4 * n)"
proof (induction n arbitrary: m dst)
  case (Suc n)
  have "store32 m dst w = m(dst := c, dst + 1 := c, dst + 2 := c, dst + 3 := c)"
    by (simp add: assms store32_def)
  also have "\<dots> = stosb m dst c 4"
    by (simp add: eval_nat_numeral add.assoc)
  finally have "store32 m dst w = stosb m dst c 4" .
  then have "stosl m dst w (Suc n) = stosb (stosb m dst c 4) (dst + 4) c (4 * n)"
    by (simp add: Suc)
  also have "\<dots> = stosb m dst c (4 * Suc n)"
    by (simp add: eval_nat_numeral add.assoc)
  finally show ?case .
qed simp

lemma memset_fill_word:
  "push_bit 24 (c AND 0xFF) OR push_bit 16 (c AND 0xFF) OR push_bit 8 (c AND 0xFF) OR (c AND 0xFF) =
   le32 (ucast c) (ucast c) (ucast c) (ucast c)"
proof -
  have "(0xFF :: uint) = mask 8" by (simp add: mask_eq_exp_minus_1)
  then have "c AND 0xFF = (ucast (ucast c :: uchar) :: uint)"
    by (auto simp: bit_eq_iff bit_simps)
  then show ?thesis by (simp only: le32_def ac_simps)
qed

lemma memset_spec: "memset m dst c n = (\<lambda>a. if a - dst < n then ucast c else m a)"
proof -
  have n4: "4 * unat (n div 4) = unat n" if "n mod 4 = 0"
  proof -
    from that have "unat (n mod 4) = 0" by simp
    then have "unat n mod 4 = 0" by (simp add: unat_mod)
    then have "4 dvd unat n" by (simp add: dvd_eq_mod_eq_0)
    then show ?thesis by (simp add: unat_div)
  qed
  show ?thesis
    unfolding memset_def Let_def memset_fill_word
    by (simp add: stosl_stosb [OF refl] n4 stosb_spec word_less_nat_alt)
qed

section \<open>memmove\<close>

lemma copy_fwd_spec:
  assumes "d = s \<or> n \<le> unat (d - s)" and "n < 2 ^ 32"
  shows "copy_fwd m d s n = (\<lambda>a. if unat (a - d) < n then m (s + (a - d)) else m a)"
  using assms
proof (induction n arbitrary: m d s)
  case (Suc n)
  have IH: "copy_fwd (m(d := m s)) (d + 1) (s + 1) n
      = (\<lambda>a. if unat (a - (d + 1)) < n then (m(d := m s)) (s + 1 + (a - (d + 1))) else (m(d := m s)) a)"
    using Suc.prems by (intro Suc.IH) auto
  show ?case
  proof
    fix a
    show "copy_fwd m d s (Suc n) a = (if unat (a - d) < Suc n then m (s + (a - d)) else m a)"
    proof (cases "a = d")
      case True
      then have "a - (d + 1) = -1" by simp
      then have "unat (a - (d + 1)) = 2 ^ 32 - 1"
        by (simp only: unsigned_minus_1_eq_mask) (simp add: mask_eq_exp_minus_1)
      then have "\<not> unat (a - (d + 1)) < n" using Suc.prems(2) by linarith
      then show ?thesis by (simp only: copy_fwd.simps IH) (simp add: True)
    next
      case False
      then have ne: "s + (a - d) \<noteq> d" if "unat (a - d) < Suc n"
        using that Suc.prems(1) by (metis add_diff_cancel_left' diff_add_cancel not_le)
      have eq: "s + 1 + (a - (d + 1)) = s + (a - d)" by (simp add: algebra_simps)
      have less: "unat (a - (d + 1)) < n \<longleftrightarrow> unat (a - d) < Suc n"
        using unat_diff_Suc [OF False] by linarith
      show ?thesis
        using ne False by (simp only: copy_fwd.simps IH eq less) simp
    qed
  qed
qed simp

lemma copy_bwd_spec:
  assumes "d = s \<or> n \<le> unat (s - d)" and "n < 2 ^ 32"
  shows "copy_bwd m d s n = (\<lambda>a. if unat (d - 1 - a) < n then m (s - (d - a)) else m a)"
  using assms
proof (induction n arbitrary: m d s)
  case (Suc n)
  have IH: "copy_bwd (m(d - 1 := m (s - 1))) (d - 1) (s - 1) n
      = (\<lambda>a. if unat (d - 1 - 1 - a) < n then (m(d - 1 := m (s - 1))) (s - 1 - (d - 1 - a))
             else (m(d - 1 := m (s - 1))) a)"
    using Suc.prems by (intro Suc.IH) auto
  show ?case
  proof
    fix a
    show "copy_bwd m d s (Suc n) a = (if unat (d - 1 - a) < Suc n then m (s - (d - a)) else m a)"
    proof (cases "a = d - 1")
      case True
      then have "d - 1 - 1 - a = -1" by simp
      then have "unat (d - 1 - 1 - a) = 2 ^ 32 - 1"
        by (simp only: unsigned_minus_1_eq_mask) (simp add: mask_eq_exp_minus_1)
      then have "\<not> unat (d - 1 - 1 - a) < n" using Suc.prems(2) by linarith
      then show ?thesis by (simp only: copy_bwd.simps IH) (simp add: True)
    next
      case False
      have ne: "s - (d - a) \<noteq> d - 1" if "unat (d - 1 - a) < Suc n"
      proof
        assume "s - (d - a) = d - 1"
        then have "s - d = d - 1 - a" by (simp add: algebra_simps)
        with that Suc.prems(1) False show False by auto
      qed
      have eq: "s - 1 - (d - 1 - a) = s - (d - a)" by simp
      have nz: "d - 1 - a \<noteq> 0" using False by auto
      have swap: "d - 1 - 1 - a = d - 1 - a - 1" by simp
      have less: "unat (d - 1 - 1 - a) < n \<longleftrightarrow> unat (d - 1 - a) < Suc n"
        using unat_minus_one [OF nz] nz [folded unat_gt_0] unfolding swap by linarith
      show ?thesis
        using ne False by (simp only: copy_bwd.simps IH eq less) simp
    qed
  qed
qed simp

text \<open>
  \<^verbatim>\<open>memmove\<close> copies the old contents of the source, whatever the overlap, as long as
  neither range reaches the end of the address space.
\<close>

lemma flip_offset: "unat (dst + n - 1 - a) < unat n \<longleftrightarrow> a - dst < (n :: uint)"
proof (cases "n = 0")
  case False
  let ?x = "a - dst"
  have eq: "dst + n - 1 - a = (n - 1) - ?x" by simp
  have n1: "unat (n - 1) = unat n - 1" and pos: "0 < unat n"
    using False by (simp_all add: unat_minus_one unat_gt_0)
  show ?thesis
    unfolding eq unat_uint_sub [of "n - 1"] n1 word_less_nat_alt
    using unat_uint_less [of ?x] pos by auto
qed simp

lemma memmove_spec:
  assumes "unat src + unat n < 2 ^ 32" and "unat dst + unat n \<le> 2 ^ 32"
  shows "memmove m dst src n = (\<lambda>a. if a - dst < n then m (src + (a - dst)) else m a)"
proof (cases "src < dst \<and> src + n > dst")
  case True
  then have "unat n \<le> unat (src - dst)"
    using assms unfolding unat_uint_sub word_less_nat_alt by auto
  then have cb: "copy_bwd m (dst + n) (src + n) (unat n)
      = (\<lambda>a. if unat (dst + n - 1 - a) < unat n then m (src + n - (dst + n - a)) else m a)"
    using unat_uint_less [of n] by (intro copy_bwd_spec) auto
  have "src + n - (dst + n - a) = src + (a - dst)" for a by (simp add: algebra_simps)
  then have "copy_bwd m (dst + n) (src + n) (unat n)
      = (\<lambda>a. if a - dst < n then m (src + (a - dst)) else m a)"
    by (simp only: cb flip_offset)
  then show ?thesis using True by (simp add: memmove_def)
next
  case False
  then have "dst = src \<or> unat n \<le> unat (dst - src)"
    using assms unfolding unat_uint_sub unat_uint_add word_less_nat_alt word_unat_eq_iff by auto
  then have "copy_fwd m dst src (unat n)
      = (\<lambda>a. if unat (a - dst) < unat n then m (src + (a - dst)) else m a)"
    using unat_uint_less [of n] by (intro copy_fwd_spec) auto
  with False show ?thesis by (auto simp: memmove_def word_less_nat_alt)
qed

section \<open>Strings\<close>

text \<open>The C string in the first \<open>n\<close> bytes of an array: up to its NUL, or all of them.\<close>

definition cstr_from :: "carray \<Rightarrow> nat \<Rightarrow> nat \<Rightarrow> uchar list" where
  "cstr_from p i n = takeWhile (\<lambda>c. c \<noteq> 0) (map p [i ..< i + n])"

definition cstr :: "carray \<Rightarrow> nat \<Rightarrow> uchar list" where
  "cstr p n = cstr_from p 0 n"

lemma cstr_from_0 [simp]: "cstr_from p i 0 = []"
  by (simp add: cstr_from_def)

lemma cstr_from_Suc [simp]:
  "cstr_from p i (Suc n) = (if p i = 0 then [] else p i # cstr_from p (Suc i) n)"
  by (simp add: cstr_from_def upt_conv_Cons del: upt_Suc)

lemma cstr_from_cong:
  "(\<And>k. i \<le> k \<Longrightarrow> k < i + n \<Longrightarrow> p k = q k) \<Longrightarrow> cstr_from p i n = cstr_from q i n"
  unfolding cstr_from_def by (rule arg_cong [where f = "takeWhile (\<lambda>c. c \<noteq> 0)"]) auto

lemma strncmp_from_0: "strncmp_from p q i n = 0 \<longleftrightarrow> cstr_from p i n = cstr_from q i n"
  by (induction n arbitrary: i) (auto simp: uint_0_iff word_uint_eq_iff [symmetric])

lemma strncmp_eq_0: "strncmp p q n = 0 \<longleftrightarrow> cstr p n = cstr q n"
  by (simp add: strncmp_def cstr_def strncmp_from_0)

lemma memcmp_eq_0: "memcmp s1 s2 i n = 0 \<longleftrightarrow> (\<forall>k < n. s1 (i + k) = s2 (i + k))"
  by (induction n arbitrary: i) (auto simp: All_less_Suc2 word_uint_eq_iff [symmetric])

lemma zero_fill_spec: "zero_fill s i n = (\<lambda>k. if i \<le> k \<and> k < i + n then 0 else s k)"
  by (induction n arbitrary: s i) (auto simp: fun_eq_iff)

lemma strncpy_from_outside: "k < i \<or> i + n \<le> k \<Longrightarrow> strncpy_from s t i n k = s k"
  by (induction n arbitrary: s i) (auto simp: zero_fill_spec)

lemma strncpy_from_cstr: "cstr_from (strncpy_from s t i n) i n = cstr_from t i n"
proof (induction n arbitrary: s i)
  case (Suc n)
  have "strncpy_from (s(i := t i)) t (Suc i) n i = t i"
    by (simp add: strncpy_from_outside)
  with Suc show ?case by (auto simp: zero_fill_spec)
qed simp

lemma strncpy_from_padding:
  "i \<le> j \<Longrightarrow> j \<le> k \<Longrightarrow> k < i + n \<Longrightarrow> t j = 0 \<Longrightarrow> strncpy_from s t i n k = 0"
proof (induction n arbitrary: s i)
  case (Suc n)
  show ?case
  proof (cases "t i = 0")
    case True
    with Suc.prems show ?thesis by (auto simp: zero_fill_spec)
  next
    case False
    with Suc.prems have "Suc i \<le> j" by (metis Suc_leI le_eq_less_or_eq)
    with False Suc show ?thesis by simp
  qed
qed simp

lemma safestrcpy_from_outside: "k < i \<or> i + n < k \<Longrightarrow> safestrcpy_from s t i n k = s k"
  by (induction n arbitrary: s i) auto

lemma safestrcpy_from_cstr: "cstr_from (safestrcpy_from s t i n) i (Suc n) = cstr_from t i n"
proof (induction n arbitrary: s i)
  case (Suc n)
  let ?r = "safestrcpy_from (s(i := t i)) t (Suc i) n"
  have ri: "?r i = t i" by (simp add: safestrcpy_from_outside)
  have IH: "cstr_from ?r (Suc i) (Suc n) = cstr_from t (Suc i) n" by (rule Suc)
  show ?case
  proof (cases "t i = 0")
    case False
    then have "cstr_from (safestrcpy_from s t i (Suc n)) i (Suc (Suc n)) = cstr_from ?r i (Suc (Suc n))"
      by simp
    also have "\<dots> = t i # cstr_from ?r (Suc i) (Suc n)"
      using False ri by (simp only: cstr_from_Suc [of ?r i]) simp
    finally show ?thesis using False IH by simp
  qed simp
qed simp

lemma safestrcpy_from_nul: "\<exists>k. i \<le> k \<and> k \<le> i + n \<and> safestrcpy_from s t i n k = 0"
proof (induction n arbitrary: s i)
  case (Suc n)
  show ?case
  proof (cases "t i = 0")
    case True
    then show ?thesis by (intro exI [of _ i]) auto
  next
    case False
    from Suc.IH [of "Suc i" "s(i := t i)"] obtain k where
      "Suc i \<le> k" "k \<le> Suc i + n" "safestrcpy_from (s(i := t i)) t (Suc i) n k = 0" by blast
    with False show ?thesis by (intro exI [of _ k]) auto
  qed
qed auto

lemma strlen_from_least:
  assumes "s k = 0" and "\<And>j. i \<le> j \<Longrightarrow> j < k \<Longrightarrow> s j \<noteq> 0" and "i \<le> k"
  shows "strlen_from s i = Some k"
  using assms
proof (induction "k - i" arbitrary: i)
  case 0
  then show ?case by (simp add: strlen_from.simps)
next
  case (Suc d)
  then have "s i \<noteq> 0" "strlen_from s (Suc i) = Some k" by auto
  then show ?case by (simp add: strlen_from.simps [of s i])
qed

section \<open>Properties\<close>

text \<open>
  C32: \<^verbatim>\<open>memmove\<close> leaves at every address of the destination the byte that the source held
  before the call, and every other byte unchanged, also when the two ranges overlap; the only
  condition is that neither range runs past the end of the 32-bit address space.
\<close>

theorem memmove_correct:
  assumes "unat src + unat n < 2 ^ 32" and "unat dst + unat n \<le> 2 ^ 32"
  shows "memmove m dst src n = (\<lambda>a. if a - dst < n then m (src + (a - dst)) else m a)"
  using assms by (rule memmove_spec)

theorem memmove_correct_witness:
  "unat (0x1000 :: uint) + unat (600 :: uint) < 2 ^ 32 \<and>
   unat (0x1064 :: uint) + unat (600 :: uint) \<le> 2 ^ 32 \<and>
   memmove (\<lambda>a. ucast a) 0x1064 0x1000 600 =
     (\<lambda>a. if a - 0x1064 < 600 then ucast (0x1000 + (a - 0x1064)) else ucast a)"
  by (intro conjI memmove_correct) simp_all

text \<open>
  C35: \<^verbatim>\<open>memset\<close>, which stores whole words when the address and the count are multiples of
  four and single bytes otherwise, always has the effect of a bytewise fill of exactly
  the \<open>n\<close> bytes at \<open>dst\<close> with the low byte of \<open>c\<close>.
\<close>

theorem memset_correct:
  "memset m dst c n = (\<lambda>a. if a - dst < n then ucast c else m a)"
  by (rule memset_spec)

text \<open>
  C33: \<^verbatim>\<open>strncpy(s, t, n)\<close> makes the first \<open>n\<close> bytes of \<open>s\<close> the C string of \<open>t\<close> cut at \<open>n\<close>
  bytes, so that \<^verbatim>\<open>strncmp\<close> finds them equal; it changes nothing past the \<open>n\<close> bytes and pads
  with NULs after the end of the string.
\<close>

theorem strncpy_strncmp_roundtrip:
  "strncmp (strncpy s t (int n)) t n = 0 \<and>
   (\<forall>k. n \<le> k \<longrightarrow> strncpy s t (int n) k = s k) \<and>
   (\<forall>j k. j \<le> k \<and> k < n \<and> t j = 0 \<longrightarrow> strncpy s t (int n) k = 0)"
proof -
  have eq: "strncpy s t (int n) = strncpy_from s t 0 n" by (simp add: strncpy_def)
  show ?thesis
    unfolding eq strncmp_eq_0 cstr_def strncpy_from_cstr
    using strncpy_from_padding [of 0 _ _ n t s] by (auto simp: strncpy_from_outside)
qed

theorem strncpy_strncmp_roundtrip_witness:
  "strncpy (\<lambda>_. 7) (\<lambda>i. if i < 2 then 65 else 0) (int 4) 5 = 7 \<and>
   strncpy (\<lambda>_. 7) (\<lambda>i. if i < 2 then 65 else 0) (int 4) 3 = 0"
proof -
  note r = strncpy_strncmp_roundtrip [of "\<lambda>_. 7" "\<lambda>i. if i < 2 then 65 else 0" 4]
  from r [THEN conjunct2, THEN conjunct1, THEN spec [of _ 5]]
    r [THEN conjunct2, THEN conjunct2, THEN spec [of _ 2], THEN spec [of _ 3]]
  show ?thesis by simp
qed

text \<open>
  C34: \<^verbatim>\<open>safestrcpy\<close> with a positive count always leaves a NUL-terminated string within the
  \<open>n\<close> bytes of the destination, namely the source cut at \<open>n - 1\<close> bytes, and writes nowhere else.
\<close>

theorem safestrcpy_terminated:
  assumes "0 < n"
  shows "(\<exists>k < n. safestrcpy s t (int n) k = 0) \<and>
    cstr (safestrcpy s t (int n)) n = cstr t (n - 1) \<and>
    (\<forall>k \<ge> n. safestrcpy s t (int n) k = s k)"
proof -
  from assms obtain m where n: "n = Suc m" by (cases n) auto
  then have eq: "safestrcpy s t (int n) = safestrcpy_from s t 0 m"
    by (simp add: safestrcpy_def)
  have "\<exists>k < n. safestrcpy_from s t 0 m k = 0"
    using safestrcpy_from_nul [of 0 m s t] by (auto simp: n less_Suc_eq_le)
  moreover have "cstr (safestrcpy_from s t 0 m) n = cstr t (n - 1)"
    unfolding n cstr_def safestrcpy_from_cstr by simp
  moreover have "\<forall>k \<ge> n. safestrcpy_from s t 0 m k = s k"
    by (simp add: n safestrcpy_from_outside)
  ultimately show ?thesis by (simp only: eq)
qed

theorem safestrcpy_terminated_witness:
  "(0 :: nat) < 16 \<and> (\<exists>k < 16. safestrcpy (\<lambda>_. 1) (\<lambda>_. 65) (int 16) k = 0)"
  using safestrcpy_terminated [of 16 "\<lambda>_. 1" "\<lambda>_. 65"] by simp

end
