(* ===== verification/Xv6_Spinlock.thy ===== *)
theory Xv6_Spinlock
  imports Xv6_Prelude
begin

text \<open>
  Spin locks and interrupt nesting: \<^verbatim>\<open>src/xv6/spinlock.c\<close> and \<^verbatim>\<open>mycpu\<close>, \<^verbatim>\<open>cpuid\<close> of
  \<^verbatim>\<open>src/xv6/proc.c\<close>.  The machine has a table of CPUs and, for every APIC id, the interrupt
  flag of that processor; a lock is found by its address.  The sequential routines are
  functions of the calling processor's APIC id; the concurrent behaviour is a step relation
  in which \<^verbatim>\<open>acquire\<close> and \<^verbatim>\<open>release\<close> are cut at their memory accesses, so that other
  processors run between the atomic exchange and the bookkeeping around it.
\<close>

section \<open>State\<close>

record cpu =
  apicid :: uchar
  ncli :: int
  intena :: bool

record spinlock =
  lk_locked :: uint
  lk_name :: string
  lk_cpu :: "nat option"
  lk_pcs :: "uint list"

record machine =
  cpus :: "cpu list"
  flag_if :: "uchar \<Rightarrow> bool"
  locks :: "nat \<Rightarrow> spinlock"

section \<open>Operations\<close>

definition initlock :: "string \<Rightarrow> spinlock \<Rightarrow> spinlock" where
  "initlock nm lk = lk\<lparr>lk_name := nm, lk_locked := 0, lk_cpu := None\<rparr>"

definition mycpu :: "machine \<Rightarrow> uchar \<Rightarrow> nat outcome" where
  "mycpu m me =
     (if flag_if m me then Panic ''mycpu called with interrupts enabled''
      else case find_idx (\<lambda>c. apicid c = me) (cpus m) of
             Some i \<Rightarrow> Ok i
           | None \<Rightarrow> Panic ''unknown apicid'')"

definition set_cpu :: "machine \<Rightarrow> nat \<Rightarrow> cpu \<Rightarrow> machine" where
  "set_cpu m i c = m\<lparr>cpus := (cpus m)[i := c]\<rparr>"

definition cli :: "machine \<Rightarrow> uchar \<Rightarrow> machine" where
  "cli m me = m\<lparr>flag_if := (flag_if m)(me := False)\<rparr>"

definition sti :: "machine \<Rightarrow> uchar \<Rightarrow> machine" where
  "sti m me = m\<lparr>flag_if := (flag_if m)(me := True)\<rparr>"

definition pushcli :: "machine \<Rightarrow> uchar \<Rightarrow> machine outcome" where
  "pushcli m me =
     (let eflags = flag_if m me; m1 = cli m me
      in obind (mycpu m1 me) (\<lambda>i.
           let c = cpus m1 ! i;
               c1 = (if ncli c = 0 then c\<lparr>intena := eflags\<rparr> else c)
           in Ok (set_cpu m1 i (c1\<lparr>ncli := ncli c1 + 1\<rparr>))))"

definition popcli :: "machine \<Rightarrow> uchar \<Rightarrow> machine outcome" where
  "popcli m me =
     (if flag_if m me then Panic ''popcli - interruptible''
      else obind (mycpu m me) (\<lambda>i.
             let c = cpus m ! i; c1 = c\<lparr>ncli := ncli c - 1\<rparr>
             in if ncli c1 < 0 then Panic ''popcli''
                else let m1 = set_cpu m i c1
                     in if ncli c1 = 0 \<and> intena c1 then Ok (sti m1 me) else Ok m1))"

definition holding :: "machine \<Rightarrow> uchar \<Rightarrow> nat \<Rightarrow> (bool \<times> machine) outcome" where
  "holding m me l =
     obind (pushcli m me) (\<lambda>m1.
     obind (if lk_locked (locks m1 l) \<noteq> 0
            then obind (mycpu m1 me) (\<lambda>i. Ok (lk_cpu (locks m1 l) = Some i)) else Ok False) (\<lambda>r.
     obind (popcli m1 me) (\<lambda>m2. Ok (r, m2))))"

text \<open>
  \<^verbatim>\<open>getcallerpcs\<close> follows the chain of saved frame pointers; \<open>rd\<close> reads a word of memory.
\<close>

primrec callerpcs :: "(uint \<Rightarrow> uint) \<Rightarrow> uint \<Rightarrow> nat \<Rightarrow> uint list" where
  "callerpcs rd ebp 0 = []"
| "callerpcs rd ebp (Suc n) =
     (if ebp = 0 \<or> ebp < 0x80000000 \<or> ebp = 0xffffffff then replicate (Suc n) 0
      else rd (ebp + 4) # callerpcs rd (rd ebp) n)"

definition getcallerpcs :: "(uint \<Rightarrow> uint) \<Rightarrow> uint \<Rightarrow> uint list" where
  "getcallerpcs rd v = callerpcs rd (v - 8) 10"

text \<open>
  \<^verbatim>\<open>acquire\<close>, in its three parts: up to the loop, one atomic exchange, and after the loop,
  where \<open>v\<close> is the address of the argument on the stack, from which the callers are found.
\<close>

definition acquire_enter :: "machine \<Rightarrow> uchar \<Rightarrow> nat \<Rightarrow> machine outcome" where
  "acquire_enter m me l =
     obind (pushcli m me) (\<lambda>m1.
     obind (holding m1 me l) (\<lambda>(r, m2). if r then Panic ''acquire'' else Ok m2))"

definition xchg_locked :: "machine \<Rightarrow> nat \<Rightarrow> uint \<times> machine" where
  "xchg_locked m l =
     (lk_locked (locks m l), m\<lparr>locks := (locks m)(l := (locks m l)\<lparr>lk_locked := 1\<rparr>)\<rparr>)"

definition acquire_done :: "machine \<Rightarrow> uchar \<Rightarrow> nat \<Rightarrow> (uint \<Rightarrow> uint) \<Rightarrow> uint \<Rightarrow> machine outcome" where
  "acquire_done m me l rd v =
     obind (mycpu m me) (\<lambda>i.
       Ok (m\<lparr>locks := (locks m)(l := (locks m l)\<lparr>lk_cpu := Some i, lk_pcs := getcallerpcs rd v\<rparr>)\<rparr>))"

text \<open>
  The whole call, on a processor that runs alone: a lock that is taken keeps the loop
  spinning.
\<close>

definition acquire :: "machine \<Rightarrow> uchar \<Rightarrow> nat \<Rightarrow> (uint \<Rightarrow> uint) \<Rightarrow> uint \<Rightarrow> machine outcome" where
  "acquire m me l rd v =
     obind (acquire_enter m me l) (\<lambda>m1.
       case xchg_locked m1 l of (old, m2) \<Rightarrow>
         if old \<noteq> 0 then Blocked else acquire_done m2 me l rd v)"

text \<open>\<^verbatim>\<open>release\<close>: up to the barrier, the store of 0, and \<^verbatim>\<open>popcli\<close>.\<close>

definition release_enter :: "machine \<Rightarrow> uchar \<Rightarrow> nat \<Rightarrow> machine outcome" where
  "release_enter m me l =
     obind (holding m me l) (\<lambda>(r, m1).
       if \<not> r then Panic ''release''
       else let lk = locks m1 l
            in Ok (m1\<lparr>locks := (locks m1)(l := lk\<lparr>lk_pcs := (lk_pcs lk)[0 := 0], lk_cpu := None\<rparr>)\<rparr>))"

definition release_store :: "machine \<Rightarrow> nat \<Rightarrow> machine" where
  "release_store m l = m\<lparr>locks := (locks m)(l := (locks m l)\<lparr>lk_locked := 0\<rparr>)\<rparr>"

definition release :: "machine \<Rightarrow> uchar \<Rightarrow> nat \<Rightarrow> machine outcome" where
  "release m me l = obind (release_enter m me l) (\<lambda>m1. popcli (release_store m1 l) me)"

section \<open>Concurrent processors\<close>

text \<open>
  Where a processor is inside \<^verbatim>\<open>acquire\<close> or \<^verbatim>\<open>release\<close>; which locks it has acquired and not
  released; how many \<^verbatim>\<open>pushcli\<close> calls outside locks it has not yet matched.
\<close>

datatype lkpc = Run | Spin nat | Got nat | Rel nat | RelPop

record lsys =
  mach :: machine
  pc :: "uchar \<Rightarrow> lkpc"
  held :: "uchar \<Rightarrow> nat set"
  extra :: "uchar \<Rightarrow> nat"

inductive lstep :: "lsys \<Rightarrow> lsys \<Rightarrow> bool" where
  acq_enter: "pc s me = Run \<Longrightarrow> acquire_enter (mach s) me l = Ok m \<Longrightarrow>
     lstep s (s\<lparr>mach := m, pc := (pc s)(me := Spin l)\<rparr>)"
| acq_spin: "pc s me = Spin l \<Longrightarrow> xchg_locked (mach s) l = (old, m) \<Longrightarrow> old \<noteq> 0 \<Longrightarrow>
     lstep s (s\<lparr>mach := m\<rparr>)"
| acq_got: "pc s me = Spin l \<Longrightarrow> xchg_locked (mach s) l = (0, m) \<Longrightarrow>
     lstep s (s\<lparr>mach := m, pc := (pc s)(me := Got l)\<rparr>)"
| acq_done: "pc s me = Got l \<Longrightarrow> acquire_done (mach s) me l rd v = Ok m \<Longrightarrow>
     lstep s (s\<lparr>mach := m, pc := (pc s)(me := Run), held := (held s)(me := insert l (held s me))\<rparr>)"
| rel_enter: "pc s me = Run \<Longrightarrow> release_enter (mach s) me l = Ok m \<Longrightarrow>
     lstep s (s\<lparr>mach := m, pc := (pc s)(me := Rel l), held := (held s)(me := held s me - {l})\<rparr>)"
| rel_store: "pc s me = Rel l \<Longrightarrow>
     lstep s (s\<lparr>mach := release_store (mach s) l, pc := (pc s)(me := RelPop)\<rparr>)"
| rel_pop: "pc s me = RelPop \<Longrightarrow> popcli (mach s) me = Ok m \<Longrightarrow>
     lstep s (s\<lparr>mach := m, pc := (pc s)(me := Run)\<rparr>)"
| push: "pc s me = Run \<Longrightarrow> pushcli (mach s) me = Ok m \<Longrightarrow>
     lstep s (s\<lparr>mach := m, extra := (extra s)(me := Suc (extra s me))\<rparr>)"
| pop: "pc s me = Run \<Longrightarrow> extra s me \<noteq> 0 \<Longrightarrow> popcli (mach s) me = Ok m \<Longrightarrow>
     lstep s (s\<lparr>mach := m, extra := (extra s)(me := extra s me - 1)\<rparr>)"

text \<open>Every CPU at nesting depth 0 and every lock just initialised.\<close>

definition lk_start :: "lsys \<Rightarrow> bool" where
  "lk_start s \<longleftrightarrow>
     (\<forall>c \<in> set (cpus (mach s)). ncli c = 0) \<and>
     (\<forall>l. lk_locked (locks (mach s) l) = 0 \<and> lk_cpu (locks (mach s) l) = None) \<and>
     (\<forall>me. pc s me = Run \<and> held s me = {} \<and> extra s me = 0)"

inductive lreach :: "lsys \<Rightarrow> bool" where
  start: "lk_start s \<Longrightarrow> lreach s"
| step: "lreach s \<Longrightarrow> lstep s t \<Longrightarrow> lreach t"

section \<open>The routines on the calling processor\<close>

definition cpu_ix :: "machine \<Rightarrow> uchar \<Rightarrow> nat option" where
  "cpu_ix m me = find_idx (\<lambda>c. apicid c = me) (cpus m)"

definition pushed :: "machine \<Rightarrow> uchar \<Rightarrow> nat \<Rightarrow> machine" where
  "pushed m me i =
     (let c = cpus m ! i
      in set_cpu (cli m me) i
           (c\<lparr>intena := (if ncli c = 0 then flag_if m me else intena c), ncli := ncli c + 1\<rparr>))"

definition popped :: "machine \<Rightarrow> uchar \<Rightarrow> nat \<Rightarrow> machine" where
  "popped m me i =
     (let c = cpus m ! i; m1 = set_cpu m i (c\<lparr>ncli := ncli c - 1\<rparr>)
      in if ncli c = 1 \<and> intena c then sti m1 me else m1)"

lemma cpu_ixD: "cpu_ix m me = Some i \<Longrightarrow> i < length (cpus m) \<and> apicid (cpus m ! i) = me"
  by (auto simp: cpu_ix_def dest: find_idx_SomeD)

lemma cpu_ix_inj: "cpu_ix m a = Some i \<Longrightarrow> cpu_ix m b = Some i \<Longrightarrow> a = b"
  by (auto dest!: cpu_ixD)

lemma cpu_ix_frame [simp]:
  "cpu_ix (cli m a) me = cpu_ix m me" "cpu_ix (sti m a) me = cpu_ix m me"
  "cpu_ix (m\<lparr>locks := f\<rparr>) me = cpu_ix m me" "cpu_ix (release_store m l) me = cpu_ix m me"
  by (simp_all add: cpu_ix_def cli_def sti_def release_store_def)

lemma cpu_ix_set_cpu:
  "(i < length (cpus m) \<Longrightarrow> apicid c = apicid (cpus m ! i)) \<Longrightarrow> cpu_ix (set_cpu m i c) me = cpu_ix m me"
  by (auto simp: cpu_ix_def set_cpu_def intro!: find_idx_update)

lemma cpu_ix_pushed [simp]: "cpu_ix (pushed m a i) me = cpu_ix m me"
  by (simp add: pushed_def Let_def cpu_ix_set_cpu cli_def) (simp add: cpu_ix_def)

lemma cpu_ix_popped [simp]: "cpu_ix (popped m a i) me = cpu_ix m me"
  by (simp add: popped_def Let_def cpu_ix_set_cpu)

lemma mycpu_eq_Ok: "mycpu m me = Ok i \<longleftrightarrow> \<not> flag_if m me \<and> cpu_ix m me = Some i"
  by (auto simp: mycpu_def cpu_ix_def split: option.splits)

lemma cli_simps [simp]:
  "flag_if (cli m me) = (flag_if m)(me := False)" "cpus (cli m me) = cpus m"
  "locks (cli m me) = locks m"
  by (simp_all add: cli_def)

lemma mycpu_None: "cpu_ix m me = None \<Longrightarrow> \<exists>e. mycpu m me = Panic e"
  by (simp add: mycpu_def cpu_ix_def)

lemma pushcli_eq_Ok: "pushcli m me = Ok m1 \<longleftrightarrow> (\<exists>i. cpu_ix m me = Some i \<and> m1 = pushed m me i)"
proof (cases "cpu_ix m me")
  case None
  then obtain e where "mycpu (cli m me) me = Panic e" using mycpu_None [of "cli m me" me] by auto
  then have "pushcli m me = Panic e" by (simp add: pushcli_def)
  with None show ?thesis by simp
next
  case (Some i)
  then have "mycpu (cli m me) me = Ok i" by (simp add: mycpu_eq_Ok)
  then have "pushcli m me = Ok (pushed m me i)"
    by (cases "ncli (cpus m ! i) = 0") (simp_all add: pushcli_def pushed_def Let_def)
  with Some show ?thesis by auto
qed

lemma popcli_eq_Ok:
  "popcli m me = Ok m1 \<longleftrightarrow>
     \<not> flag_if m me \<and> (\<exists>i. cpu_ix m me = Some i \<and> 1 \<le> ncli (cpus m ! i) \<and> m1 = popped m me i)"
proof (cases "cpu_ix m me")
  case None
  then obtain e where "mycpu m me = Panic e" using mycpu_None by blast
  then have "\<exists>e. popcli m me = Panic e" by (simp add: popcli_def)
  with None show ?thesis by auto
next
  case (Some i)
  then have "mycpu m me = Ok i" if "\<not> flag_if m me" using that by (simp add: mycpu_eq_Ok)
  with Some show ?thesis
    by (cases "flag_if m me"; cases "1 \<le> ncli (cpus m ! i)") (auto simp: popcli_def popped_def Let_def)
qed

lemma popped_pushed:
  assumes "cpu_ix m me = Some i" and "\<not> flag_if m me" and "1 \<le> ncli (cpus m ! i)"
  shows "popped (pushed m me i) me i = m"
proof -
  have "i < length (cpus m)" using assms(1) by (simp add: cpu_ixD)
  with assms(2,3) show ?thesis
    by (simp add: popped_def pushed_def set_cpu_def cli_def Let_def fun_upd_idem)
qed

lemma pushed_simps [simp]:
  "flag_if (pushed m me i) = (flag_if m)(me := False)"
  "locks (pushed m me i) = locks m"
  "length (cpus (pushed m me i)) = length (cpus m)"
  by (simp_all add: pushed_def set_cpu_def cli_def Let_def)

lemma popped_simps [simp]:
  "locks (popped m me i) = locks m"
  "length (cpus (popped m me i)) = length (cpus m)"
  by (simp_all add: popped_def set_cpu_def sti_def Let_def)

lemma ncli_pushed:
  "i < length (cpus m) \<Longrightarrow> j < length (cpus m) \<Longrightarrow>
   ncli (cpus (pushed m me i) ! j) = ncli (cpus m ! j) + (if i = j then 1 else 0)"
  by (simp add: pushed_def set_cpu_def cli_def Let_def nth_list_update)

lemma ncli_popped:
  "i < length (cpus m) \<Longrightarrow> j < length (cpus m) \<Longrightarrow>
   ncli (cpus (popped m me i) ! j) = ncli (cpus m ! j) - (if i = j then 1 else 0)"
  by (simp add: popped_def set_cpu_def sti_def Let_def nth_list_update)

lemma flag_if_popped:
  "flag_if (popped m me i) =
     (if ncli (cpus m ! i) = 1 \<and> intena (cpus m ! i) then (flag_if m)(me := True) else flag_if m)"
  by (simp add: popped_def set_cpu_def sti_def Let_def)

text \<open>\<^verbatim>\<open>holding\<close> with interrupts already off tells who has the lock, and changes nothing.\<close>

lemma holding_nested:
  assumes "cpu_ix m me = Some i" and "\<not> flag_if m me" and "1 \<le> ncli (cpus m ! i)"
  shows "holding m me l = Ok (lk_locked (locks m l) \<noteq> 0 \<and> lk_cpu (locks m l) = Some i, m)"
proof -
  let ?p = "pushed m me i"
  have i: "i < length (cpus m)" using assms(1) by (simp add: cpu_ixD)
  have "pushcli m me = Ok ?p" using assms(1) by (simp add: pushcli_eq_Ok)
  moreover have "mycpu ?p me = Ok i" using assms(1) by (simp add: mycpu_eq_Ok)
  moreover have "popcli ?p me = Ok m"
    unfolding popcli_eq_Ok
    using assms i by (intro conjI exI [of _ i] popped_pushed [OF assms, symmetric]) (simp_all add: ncli_pushed)
  ultimately show ?thesis by (simp add: holding_def)
qed

lemma holding_result:
  assumes "holding m me l = Ok (r, m1)"
  shows "\<exists>i. cpu_ix m me = Some i \<and> (r \<longleftrightarrow> lk_locked (locks m l) \<noteq> 0 \<and> lk_cpu (locks m l) = Some i)"
proof -
  from assms obtain p where push: "pushcli m me = Ok p"
    and r: "(if lk_locked (locks p l) \<noteq> 0
       then obind (mycpu p me) (\<lambda>i. Ok (lk_cpu (locks p l) = Some i)) else Ok False) = Ok r"
    unfolding holding_def obind_eq_Ok by blast
  from push obtain i where "cpu_ix m me = Some i" and "p = pushed m me i"
    unfolding pushcli_eq_Ok by blast
  with r show ?thesis
    by (cases "lk_locked (locks m l) = 0") (auto simp: obind_eq_Ok mycpu_eq_Ok)
qed

lemma acquire_enter_eq:
  assumes "cpu_ix m me = Some i" and "0 \<le> ncli (cpus m ! i)"
  shows "acquire_enter m me l =
    (if lk_locked (locks m l) \<noteq> 0 \<and> lk_cpu (locks m l) = Some i then Panic ''acquire''
     else Ok (pushed m me i))"
proof -
  have i: "i < length (cpus m)" using assms(1) by (simp add: cpu_ixD)
  have "pushcli m me = Ok (pushed m me i)" using assms(1) by (simp add: pushcli_eq_Ok)
  moreover have "holding (pushed m me i) me l
      = Ok (lk_locked (locks m l) \<noteq> 0 \<and> lk_cpu (locks m l) = Some i, pushed m me i)"
    using assms i by (subst holding_nested [where i = i]) (auto simp: ncli_pushed)
  ultimately show ?thesis by (simp add: acquire_enter_def)
qed

lemma acquire_enter_ix: "acquire_enter m me l = Ok m1 \<Longrightarrow> \<exists>i. cpu_ix m me = Some i"
  by (auto simp: acquire_enter_def outcome_simps pushcli_eq_Ok)

section \<open>Invariant of the concurrent processors\<close>

text \<open>A processor owns a lock from the exchange that took it to the store that frees it.\<close>

definition owns :: "lsys \<Rightarrow> uchar \<Rightarrow> nat \<Rightarrow> bool" where
  "owns s me l \<longleftrightarrow> pc s me = Got l \<or> pc s me = Rel l \<or> l \<in> held s me"

definition depth :: "lsys \<Rightarrow> uchar \<Rightarrow> nat" where
  "depth s me = card (held s me) + extra s me + (if pc s me = Run then 0 else 1)"

definition cpu_inv :: "lsys \<Rightarrow> uchar \<Rightarrow> bool" where
  "cpu_inv s me \<longleftrightarrow> finite (held s me) \<and>
     (case cpu_ix (mach s) me of
        Some i \<Rightarrow> ncli (cpus (mach s) ! i) = int (depth s me) \<and> (0 < depth s me \<longrightarrow> \<not> flag_if (mach s) me)
      | None \<Rightarrow> depth s me = 0)"

definition lock_inv :: "lsys \<Rightarrow> nat \<Rightarrow> bool" where
  "lock_inv s l \<longleftrightarrow>
     (lk_locked (locks (mach s) l) \<noteq> 0 \<longleftrightarrow> (\<exists>me. owns s me l)) \<and>
     (\<forall>a b. owns s a l \<and> owns s b l \<longrightarrow> a = b) \<and>
     (\<forall>i. lk_cpu (locks (mach s) l) = Some i \<longleftrightarrow> (\<exists>me. cpu_ix (mach s) me = Some i \<and> l \<in> held s me)) \<and>
     (\<forall>me. pc s me = Got l \<or> pc s me = Rel l \<longrightarrow> l \<notin> held s me)"

definition lk_inv :: "lsys \<Rightarrow> bool" where
  "lk_inv s \<longleftrightarrow> (\<forall>me. cpu_inv s me) \<and> (\<forall>l. lock_inv s l)"

lemma cpu_inv_Some:
  "cpu_inv s me \<Longrightarrow> cpu_ix (mach s) me = Some i \<Longrightarrow>
   finite (held s me) \<and> ncli (cpus (mach s) ! i) = int (depth s me) \<and>
   (0 < depth s me \<longrightarrow> \<not> flag_if (mach s) me)"
  by (simp add: cpu_inv_def)

lemma lk_start_inv:
  assumes "lk_start s"
  shows "lk_inv s"
proof -
  have "ncli (cpus (mach s) ! i) = 0" if "cpu_ix (mach s) me = Some i" for me i
    using assms cpu_ixD [OF that] by (simp add: lk_start_def)
  with assms show ?thesis
    by (auto simp: lk_inv_def cpu_inv_def lock_inv_def owns_def depth_def lk_start_def split: option.splits)
qed

text \<open>
  A step of processor \<open>me\<close> that replaces its own CPU entry, program counter, held set
  and nesting count leaves the other processors' part of the invariant alone.
\<close>

lemma cpu_inv_frame:
  assumes "cpu_inv s a" and "a \<noteq> me"
    and "pc t a = pc s a" "held t a = held s a" "extra t a = extra s a"
    and "cpu_ix (mach t) a = cpu_ix (mach s) a"
    and "\<And>i. cpu_ix (mach s) a = Some i \<Longrightarrow> ncli (cpus (mach t) ! i) = ncli (cpus (mach s) ! i)"
    and "flag_if (mach t) a = flag_if (mach s) a"
  shows "cpu_inv t a"
proof -
  have "depth t a = depth s a" using assms(3-5) by (simp add: depth_def)
  with assms show ?thesis by (simp add: cpu_inv_def split: option.splits)
qed

lemma ncli_pushed_other:
  "cpu_ix m me = Some i \<Longrightarrow> a \<noteq> me \<Longrightarrow> cpu_ix m a = Some j \<Longrightarrow>
   ncli (cpus (pushed m me i) ! j) = ncli (cpus m ! j)"
  using ncli_pushed [of i m j me] cpu_ix_inj [of m a j me] cpu_ixD [of m me i] cpu_ixD [of m a j] by auto

lemma ncli_popped_other:
  "cpu_ix m me = Some i \<Longrightarrow> a \<noteq> me \<Longrightarrow> cpu_ix m a = Some j \<Longrightarrow>
   ncli (cpus (popped m me i) ! j) = ncli (cpus m ! j)"
  using ncli_popped [of i m j me] cpu_ix_inj [of m a j me] cpu_ixD [of m me i] cpu_ixD [of m a j] by auto

text \<open>Pushing and popping one level of interrupt nesting.\<close>

lemma cpu_inv_pushed:
  assumes inv: "\<forall>a. cpu_inv s a" and ix: "cpu_ix (mach s) me = Some i"
    and t: "mach t = pushed (mach s) me i" "held t = held s"
      "\<And>a. a \<noteq> me \<Longrightarrow> pc t a = pc s a" "\<And>a. a \<noteq> me \<Longrightarrow> extra t a = extra s a"
    and d: "depth t me = Suc (depth s me)"
  shows "\<forall>a. cpu_inv t a"
proof
  fix a
  have s: "cpu_inv s a" using inv by simp
  show "cpu_inv t a"
  proof (cases "a = me")
    case True
    with s ix t d ncli_pushed [of i "mach s" i me] cpu_ixD [OF ix] show ?thesis
      by (auto simp: cpu_inv_def)
  next
    case False
    with s ix t show ?thesis
      by (intro cpu_inv_frame [OF s]) (auto simp: ncli_pushed_other)
  qed
qed

lemma cpu_inv_popped:
  assumes inv: "\<forall>a. cpu_inv s a" and ix: "cpu_ix (mach s) me = Some i"
    and t: "mach t = popped (mach s) me i" "held t = held s"
      "\<And>a. a \<noteq> me \<Longrightarrow> pc t a = pc s a" "\<And>a. a \<noteq> me \<Longrightarrow> extra t a = extra s a"
    and d: "depth s me = Suc (depth t me)"
  shows "\<forall>a. cpu_inv t a"
proof
  fix a
  have s: "cpu_inv s a" using inv by simp
  show "cpu_inv t a"
  proof (cases "a = me")
    case True
    with s ix t d ncli_popped [of i "mach s" i me] cpu_ixD [OF ix] show ?thesis
      by (auto simp: cpu_inv_def flag_if_popped)
  next
    case False
    with s ix t show ?thesis
      by (intro cpu_inv_frame [OF s]) (auto simp: ncli_popped_other flag_if_popped)
  qed
qed

lemma cpu_inv_same:
  assumes "\<forall>a. cpu_inv s a"
    and "cpus (mach t) = cpus (mach s)" "flag_if (mach t) = flag_if (mach s)"
    and "\<And>a. depth t a = depth s a" "\<And>a. finite (held s a) \<Longrightarrow> finite (held t a)"
  shows "\<forall>a. cpu_inv t a"
proof -
  have "cpu_ix (mach t) a = cpu_ix (mach s) a" for a using assms(2) by (simp add: cpu_ix_def)
  with assms show ?thesis by (fastforce simp: cpu_inv_def split: option.splits)
qed

lemma lock_inv_same:
  assumes "\<forall>l. lock_inv s l" and "locks (mach t) = locks (mach s)" and "held t = held s"
    and "\<And>a. cpu_ix (mach t) a = cpu_ix (mach s) a"
    and "\<And>a l. pc t a = Got l \<longleftrightarrow> pc s a = Got l" "\<And>a l. pc t a = Rel l \<longleftrightarrow> pc s a = Rel l"
  shows "\<forall>l. lock_inv t l"
  using assms by (simp add: lock_inv_def owns_def)

lemma lk_inv_locked: "lk_inv s \<Longrightarrow> lk_locked (locks (mach s) l) \<noteq> 0 \<longleftrightarrow> (\<exists>me. owns s me l)"
  by (simp add: lk_inv_def lock_inv_def)

lemma lk_inv_unique: "lk_inv s \<Longrightarrow> owns s a l \<Longrightarrow> owns s b l \<Longrightarrow> a = b"
  unfolding lk_inv_def lock_inv_def by blast

lemma lk_inv_cpu:
  "lk_inv s \<Longrightarrow> lk_cpu (locks (mach s) l) = Some i \<longleftrightarrow> (\<exists>me. cpu_ix (mach s) me = Some i \<and> l \<in> held s me)"
  by (simp add: lk_inv_def lock_inv_def)

lemma lk_inv_pc: "lk_inv s \<Longrightarrow> pc s me = Got l \<or> pc s me = Rel l \<Longrightarrow> l \<notin> held s me"
  unfolding lk_inv_def lock_inv_def by blast

lemma lk_inv_finite: "lk_inv s \<Longrightarrow> finite (held s me)"
  by (simp add: lk_inv_def cpu_inv_def)

lemma lk_inv_cpus: "lk_inv s \<Longrightarrow> \<forall>a. cpu_inv s a"
  by (simp add: lk_inv_def)

lemma lk_inv_pc_owner:
  assumes "lk_inv s" and "pc s me = Got l \<or> pc s me = Rel l"
  shows "owns s a l \<longleftrightarrow> a = me" and "l \<notin> held s a"
proof -
  have me: "owns s me l" using assms(2) by (auto simp: owns_def)
  then show own: "owns s a l \<longleftrightarrow> a = me" using lk_inv_unique [OF assms(1)] by blast
  show "l \<notin> held s a"
    using own lk_inv_pc [OF assms] by (auto simp: owns_def)
qed

lemma lock_inv_frame:
  assumes "lk_inv s"
    and "\<And>a. pc t a = Got k \<or> pc t a = Rel k \<longleftrightarrow> pc s a = Got k \<or> pc s a = Rel k"
    and "\<And>a. k \<in> held t a \<longleftrightarrow> k \<in> held s a"
    and "lk_locked (locks (mach t) k) \<noteq> 0 \<longleftrightarrow> lk_locked (locks (mach s) k) \<noteq> 0"
    and "lk_cpu (locks (mach t) k) = lk_cpu (locks (mach s) k)"
    and "\<And>a. cpu_ix (mach t) a = cpu_ix (mach s) a"
  shows "lock_inv t k"
proof -
  have "owns t a k \<longleftrightarrow> owns s a k" for a using assms(2,3) by (auto simp: owns_def)
  with assms show ?thesis by (simp add: lk_inv_def lock_inv_def)
qed

lemma lk_inv_acq_got:
  assumes inv: "lk_inv s" and pc: "pc s me = Spin l" and m: "xchg_locked (mach s) l = (0, m)"
  shows "lk_inv (s\<lparr>mach := m, pc := (pc s)(me := Got l)\<rparr>)" (is "lk_inv ?t")
proof -
  have m': "m = (mach s)\<lparr>locks := (locks (mach s))(l := (locks (mach s) l)\<lparr>lk_locked := 1\<rparr>)\<rparr>"
    and free: "lk_locked (locks (mach s) l) = 0"
    using m by (simp_all add: xchg_locked_def)
  have none: "\<not> owns s a l" for a using lk_inv_locked [OF inv] free by blast
  have "\<forall>a. cpu_inv ?t a"
    by (rule cpu_inv_same [OF lk_inv_cpus [OF inv]]) (simp_all add: m' depth_def pc)
  moreover have "lock_inv ?t k" for k
  proof (cases "k = l")
    case True
    have "owns ?t a l \<longleftrightarrow> a = me" for a using none [of a] by (auto simp: owns_def)
    moreover have "l \<notin> held s a" for a using none [of a] by (simp add: owns_def)
    ultimately show ?thesis
      using True lk_inv_cpu [OF inv, of l] by (simp add: lock_inv_def m')
  next
    case False
    with pc show ?thesis by (intro lock_inv_frame [OF inv]) (auto simp: m')
  qed
  ultimately show ?thesis by (simp add: lk_inv_def)
qed

lemma lk_inv_acq_done:
  assumes inv: "lk_inv s" and pc: "pc s me = Got l" and m: "acquire_done (mach s) me l rd v = Ok m"
  shows "lk_inv (s\<lparr>mach := m, pc := (pc s)(me := Run), held := (held s)(me := insert l (held s me))\<rparr>)"
    (is "lk_inv ?t")
proof -
  from m obtain i where ix: "cpu_ix (mach s) me = Some i"
    and m': "m = (mach s)\<lparr>locks := (locks (mach s))(l := (locks (mach s) l)\<lparr>lk_cpu := Some i, lk_pcs := getcallerpcs rd v\<rparr>)\<rparr>"
    unfolding acquire_done_def obind_eq_Ok mycpu_eq_Ok by auto
  note owner = lk_inv_pc_owner [OF inv disjI1 [OF pc]]
  have "depth ?t a = depth s a" for a
    using owner(2) [of me] lk_inv_finite [OF inv, of me] pc by (auto simp: depth_def)
  then have "\<forall>a. cpu_inv ?t a"
    by (intro cpu_inv_same [OF lk_inv_cpus [OF inv]]) (simp_all add: m' lk_inv_finite [OF inv])
  moreover have "lock_inv ?t k" for k
  proof (cases "k = l")
    case True
    have own: "owns ?t a l \<longleftrightarrow> a = me" for a
      using owner [of a] by (auto simp: owns_def)
    have hold: "l \<in> held ?t a \<longleftrightarrow> a = me" for a using owner(2) [of a] by auto
    have "pc ?t a \<noteq> Got l \<and> pc ?t a \<noteq> Rel l" for a
      using owner(1) [of a] by (auto simp: owns_def)
    moreover have "lk_locked (locks m l) \<noteq> 0"
      using lk_inv_locked [OF inv, of l] owner(1) by (auto simp: m')
    moreover have "lk_cpu (locks m l) = Some j \<longleftrightarrow> (\<exists>a. cpu_ix m a = Some j \<and> a = me)" for j
      using ix by (auto simp: m')
    ultimately show ?thesis
      using True own hold by (simp add: lock_inv_def)
  next
    case False
    with pc show ?thesis by (intro lock_inv_frame [OF inv]) (auto simp: m')
  qed
  ultimately show ?thesis by (simp add: lk_inv_def)
qed

lemma release_enter_Ok:
  assumes inv: "lk_inv s" and m: "release_enter (mach s) me l = Ok m"
  shows "l \<in> held s me \<and> m = (mach s)\<lparr>locks := (locks (mach s))(l :=
    (locks (mach s) l)\<lparr>lk_pcs := (lk_pcs (locks (mach s) l))[0 := 0], lk_cpu := None\<rparr>)\<rparr>"
proof -
  from m obtain m1 where hold: "holding (mach s) me l = Ok (True, m1)"
    and m1: "m = m1\<lparr>locks := (locks m1)(l := (locks m1 l)\<lparr>lk_pcs := (lk_pcs (locks m1 l))[0 := 0], lk_cpu := None\<rparr>)\<rparr>"
    unfolding release_enter_def obind_eq_Ok by (auto simp: Let_def split: if_splits)
  from holding_result [OF hold] obtain i where ix: "cpu_ix (mach s) me = Some i"
    and "lk_cpu (locks (mach s) l) = Some i" by auto
  then obtain a where "cpu_ix (mach s) a = Some i" "l \<in> held s a"
    using lk_inv_cpu [OF inv] by blast
  then have h: "l \<in> held s me" using ix cpu_ix_inj by blast
  then have "1 \<le> depth s me"
    using lk_inv_finite [OF inv, of me] by (auto simp: depth_def Suc_le_eq card_gt_0_iff)
  moreover have "cpu_inv s me" using lk_inv_cpus [OF inv] by simp
  ultimately have "1 \<le> ncli (cpus (mach s) ! i)" "\<not> flag_if (mach s) me"
    using cpu_inv_Some [OF _ ix] by fastforce+
  with hold ix have "m1 = mach s" by (simp add: holding_nested)
  with m1 h show ?thesis by simp
qed

lemma lk_inv_rel_enter:
  assumes inv: "lk_inv s" and pc: "pc s me = Run" and m: "release_enter (mach s) me l = Ok m"
  shows "lk_inv (s\<lparr>mach := m, pc := (pc s)(me := Rel l), held := (held s)(me := held s me - {l})\<rparr>)"
    (is "lk_inv ?t")
proof -
  note h = release_enter_Ok [OF inv m, THEN conjunct1]
  note m' = release_enter_Ok [OF inv m, THEN conjunct2]
  have own: "owns s a l \<longleftrightarrow> a = me" for a
    using lk_inv_unique [OF inv, of a l me] h by (auto simp: owns_def)
  have "0 < card (held s me)" using h lk_inv_finite [OF inv] by (auto simp: card_gt_0_iff)
  then have "depth ?t a = depth s a" for a
    using h lk_inv_finite [OF inv] pc by (auto simp: depth_def)
  then have "\<forall>a. cpu_inv ?t a"
    by (intro cpu_inv_same [OF lk_inv_cpus [OF inv]]) (simp_all add: m' lk_inv_finite [OF inv])
  moreover have "lock_inv ?t k" for k
  proof (cases "k = l")
    case True
    have "owns ?t a l \<longleftrightarrow> a = me" for a
      using own [of a] by (auto simp: owns_def)
    moreover have "l \<notin> held ?t a" for a using own [of a] by (auto simp: owns_def)
    moreover have "lk_locked (locks m l) \<noteq> 0"
      using lk_inv_locked [OF inv, of l] own by (auto simp: m')
    ultimately show ?thesis
      using True by (simp add: lock_inv_def m')
  next
    case False
    with pc show ?thesis by (intro lock_inv_frame [OF inv]) (auto simp: m')
  qed
  ultimately show ?thesis by (simp add: lk_inv_def)
qed

lemma lk_inv_rel_store:
  assumes inv: "lk_inv s" and pc: "pc s me = Rel l"
  shows "lk_inv (s\<lparr>mach := release_store (mach s) l, pc := (pc s)(me := RelPop)\<rparr>)" (is "lk_inv ?t")
proof -
  note owner = lk_inv_pc_owner [OF inv disjI2 [OF pc]]
  have "\<forall>a. cpu_inv ?t a"
    by (rule cpu_inv_same [OF lk_inv_cpus [OF inv]]) (simp_all add: release_store_def depth_def pc)
  moreover have "lock_inv ?t k" for k
  proof (cases "k = l")
    case True
    have "\<not> owns ?t a l" for a
      using owner [of a] by (auto simp: owns_def)
    with True owner(2) lk_inv_cpu [OF inv, of l] show ?thesis
      by (simp add: lock_inv_def release_store_def)
  next
    case False
    with pc show ?thesis by (intro lock_inv_frame [OF inv]) (auto simp: release_store_def)
  qed
  ultimately show ?thesis by (simp add: lk_inv_def)
qed

lemma lk_inv_pushed:
  assumes inv: "lk_inv s" and ix: "cpu_ix (mach s) me = Some i"
    and t: "mach t = pushed (mach s) me i" "held t = held s"
      "\<And>a. a \<noteq> me \<Longrightarrow> pc t a = pc s a" "\<And>a. a \<noteq> me \<Longrightarrow> extra t a = extra s a"
    and d: "depth t me = Suc (depth s me)"
    and pc: "\<And>a l. pc t a = Got l \<longleftrightarrow> pc s a = Got l" "\<And>a l. pc t a = Rel l \<longleftrightarrow> pc s a = Rel l"
  shows "lk_inv t"
proof -
  have "\<forall>a. cpu_inv t a" by (rule cpu_inv_pushed [OF lk_inv_cpus [OF inv] ix t d])
  moreover have "lock_inv t k" for k
    by (rule lock_inv_frame [OF inv]) (simp_all add: t pc)
  ultimately show ?thesis by (simp add: lk_inv_def)
qed

lemma lk_inv_popped:
  assumes inv: "lk_inv s" and ix: "cpu_ix (mach s) me = Some i"
    and t: "mach t = popped (mach s) me i" "held t = held s"
      "\<And>a. a \<noteq> me \<Longrightarrow> pc t a = pc s a" "\<And>a. a \<noteq> me \<Longrightarrow> extra t a = extra s a"
    and d: "depth s me = Suc (depth t me)"
    and pc: "\<And>a l. pc t a = Got l \<longleftrightarrow> pc s a = Got l" "\<And>a l. pc t a = Rel l \<longleftrightarrow> pc s a = Rel l"
  shows "lk_inv t"
proof -
  have "\<forall>a. cpu_inv t a" by (rule cpu_inv_popped [OF lk_inv_cpus [OF inv] ix t d])
  moreover have "lock_inv t k" for k
    by (rule lock_inv_frame [OF inv]) (simp_all add: t pc)
  ultimately show ?thesis by (simp add: lk_inv_def)
qed

lemma lk_inv_ncli_nonneg: "lk_inv s \<Longrightarrow> cpu_ix (mach s) me = Some i \<Longrightarrow> 0 \<le> ncli (cpus (mach s) ! i)"
  using cpu_inv_Some [of s me i] by (simp add: lk_inv_def)

lemma lstep_inv: "lstep s t \<Longrightarrow> lk_inv s \<Longrightarrow> lk_inv t"
proof (induction rule: lstep.induct)
  case (acq_enter s me l m)
  from acquire_enter_ix [OF acq_enter(2)] obtain i where ix: "cpu_ix (mach s) me = Some i" by blast
  with acq_enter have "m = pushed (mach s) me i"
    by (simp add: acquire_enter_eq lk_inv_ncli_nonneg split: if_splits)
  with acq_enter ix show ?case
    by (intro lk_inv_pushed [OF acq_enter(3) ix]) (auto simp: depth_def)
next
  case (acq_spin s me l old m)
  have m: "m = (mach s)\<lparr>locks := (locks (mach s))(l := (locks (mach s) l)\<lparr>lk_locked := 1\<rparr>)\<rparr>"
    and old: "lk_locked (locks (mach s) l) \<noteq> 0"
    using acq_spin(2,3) by (auto simp: xchg_locked_def)
  have "\<forall>a. cpu_inv (s\<lparr>mach := m\<rparr>) a"
    by (rule cpu_inv_same [OF lk_inv_cpus [OF acq_spin(4)]]) (simp_all add: m depth_def)
  moreover have "lock_inv (s\<lparr>mach := m\<rparr>) k" for k
    by (rule lock_inv_frame [OF acq_spin(4)]) (simp_all add: m old)
  ultimately show ?case by (simp add: lk_inv_def)
next
  case (acq_got s me l m)
  then show ?case by (intro lk_inv_acq_got)
next
  case (acq_done s me l rd v m)
  then show ?case by (intro lk_inv_acq_done)
next
  case (rel_enter s me l m)
  then show ?case by (intro lk_inv_rel_enter)
next
  case (rel_store s me l)
  then show ?case by (intro lk_inv_rel_store)
next
  case (rel_pop s me m)
  from rel_pop(2) obtain i where ix: "cpu_ix (mach s) me = Some i" and m: "m = popped (mach s) me i"
    unfolding popcli_eq_Ok by blast
  from rel_pop(1) m show ?case
    by (intro lk_inv_popped [OF rel_pop(3) ix]) (auto simp: depth_def)
next
  case (push s me m)
  from push(2) obtain i where ix: "cpu_ix (mach s) me = Some i" and m: "m = pushed (mach s) me i"
    unfolding pushcli_eq_Ok by blast
  from push(1) m show ?case
    by (intro lk_inv_pushed [OF push(3) ix]) (auto simp: depth_def)
next
  case (pop s me m)
  from pop(3) obtain i where ix: "cpu_ix (mach s) me = Some i" and m: "m = popped (mach s) me i"
    unfolding popcli_eq_Ok by blast
  from pop(1,2) m show ?case
    by (intro lk_inv_popped [OF pop(4) ix]) (auto simp: depth_def)
qed

lemma lreach_inv: "lreach s \<Longrightarrow> lk_inv s"
  by (induction rule: lreach.induct) (auto intro: lk_start_inv lstep_inv)

section \<open>A two-processor run\<close>

definition two_cpus :: lsys where
  "two_cpus = \<lparr>mach = \<lparr>cpus = [\<lparr>apicid = 0, ncli = 0, intena = False\<rparr>, \<lparr>apicid = 1, ncli = 0, intena = False\<rparr>],
      flag_if = (\<lambda>_. True),
      locks = (\<lambda>_. \<lparr>lk_locked = 0, lk_name = [], lk_cpu = None, lk_pcs = replicate 10 0\<rparr>)\<rparr>,
    pc = (\<lambda>_. Run), held = (\<lambda>_. {}), extra = (\<lambda>_. 0)\<rparr>"

definition two_cpus_spin :: lsys where
  "two_cpus_spin = two_cpus\<lparr>mach := pushed (mach two_cpus) 0 0, pc := (pc two_cpus)(0 := Spin 7)\<rparr>"

definition two_cpus_got :: lsys where
  "two_cpus_got = two_cpus_spin\<lparr>mach := snd (xchg_locked (mach two_cpus_spin) 7),
     pc := (pc two_cpus_spin)(0 := Got 7)\<rparr>"

definition two_cpus_held :: lsys where
  "two_cpus_held = two_cpus_got\<lparr>mach := (mach two_cpus_got)\<lparr>locks := (locks (mach two_cpus_got))(7 :=
       (locks (mach two_cpus_got) 7)\<lparr>lk_cpu := Some 0, lk_pcs := replicate 10 0\<rparr>)\<rparr>,
     pc := (pc two_cpus_got)(0 := Run), held := (held two_cpus_got)(0 := insert 7 (held two_cpus_got 0))\<rparr>"

lemma two_cpus_ix: "cpu_ix (mach two_cpus) 0 = Some 0" "cpu_ix (mach two_cpus) 1 = Some 1"
  by (simp_all add: two_cpus_def cpu_ix_def find_idx_def)

lemma two_cpus_reach: "lreach two_cpus"
  by (rule lreach.start) (simp add: lk_start_def two_cpus_def)

lemma two_cpus_spin_reach: "lreach two_cpus_spin"
proof -
  have "acquire_enter (mach two_cpus) 0 7 = Ok (pushed (mach two_cpus) 0 0)"
    by (subst acquire_enter_eq [OF two_cpus_ix(1)]) (simp_all add: two_cpus_def)
  then have "lstep two_cpus two_cpus_spin"
    unfolding two_cpus_spin_def by (intro lstep.acq_enter) (simp_all add: two_cpus_def)
  with two_cpus_reach show ?thesis by (rule lreach.step)
qed

lemma two_cpus_got_reach: "lreach two_cpus_got"
proof -
  have "lstep two_cpus_spin two_cpus_got"
    unfolding two_cpus_got_def
    by (intro lstep.acq_got) (simp_all add: two_cpus_spin_def xchg_locked_def, simp add: two_cpus_def)
  with two_cpus_spin_reach show ?thesis by (rule lreach.step)
qed

lemma two_cpus_held_reach: "lreach two_cpus_held"
proof -
  have "mycpu (mach two_cpus_got) 0 = Ok 0"
    using two_cpus_ix(1)
    by (simp add: mycpu_eq_Ok two_cpus_got_def two_cpus_spin_def xchg_locked_def)
  then have "lstep two_cpus_got two_cpus_held"
    unfolding two_cpus_held_def
    by (intro lstep.acq_done [where rd = "\<lambda>_. 0" and v = 8])
      (simp_all add: acquire_done_def two_cpus_got_def getcallerpcs_def eval_nat_numeral)
  with two_cpus_got_reach show ?thesis by (rule lreach.step)
qed

lemma two_cpus_held_simps:
  "7 \<in> held two_cpus_held 0" "pc two_cpus_held 0 = Run" "cpu_ix (mach two_cpus_held) 0 = Some 0"
  using two_cpus_ix(1)
  by (simp_all add: two_cpus_held_def two_cpus_got_def two_cpus_spin_def xchg_locked_def)

section \<open>Properties\<close>

text \<open>
  C5: spin locks give mutual exclusion.  In every reachable state of any number of
  processors running \<^verbatim>\<open>acquire\<close> and \<^verbatim>\<open>release\<close> in any interleaving, at most one processor is
  between taking a lock and freeing it, and its interrupts are off the whole time.
\<close>

theorem spinlock_mutual_exclusion:
  assumes "lreach s" and "owns s a l"
  shows "(owns s b l \<longrightarrow> a = b) \<and> (cpu_ix (mach s) a \<noteq> None \<longrightarrow> \<not> flag_if (mach s) a)"
proof -
  have inv: "lk_inv s" using assms(1) by (rule lreach_inv)
  have "0 < depth s a"
    using assms(2) lk_inv_finite [OF inv, of a] by (auto simp: owns_def depth_def card_gt_0_iff)
  moreover have "cpu_inv s a" using lk_inv_cpus [OF inv] by simp
  ultimately have "cpu_ix (mach s) a \<noteq> None \<longrightarrow> \<not> flag_if (mach s) a"
    using cpu_inv_Some [of s a] by auto
  with lk_inv_unique [OF inv assms(2)] show ?thesis by blast
qed

theorem spinlock_mutual_exclusion_witness:
  "lreach two_cpus_held \<and> owns two_cpus_held 0 7 \<and> \<not> owns two_cpus_held 1 7 \<and>
   \<not> flag_if (mach two_cpus_held) 0"
proof -
  have own: "owns two_cpus_held 0 7" using two_cpus_held_simps by (simp add: owns_def)
  from spinlock_mutual_exclusion [OF two_cpus_held_reach own, of 1] own two_cpus_held_reach
    two_cpus_held_simps show ?thesis by auto
qed

text \<open>What the routines do on a processor of a reachable state.\<close>

lemma lreach_depth:
  assumes "lreach s" and "cpu_ix (mach s) me = Some i" and "0 < depth s me"
  shows "\<not> flag_if (mach s) me" and "1 \<le> ncli (cpus (mach s) ! i)"
  using lreach_inv [OF assms(1)] cpu_inv_Some [OF _ assms(2)] assms(3) by (auto simp: lk_inv_def)

lemma lreach_popcli:
  assumes "lreach s" and "cpu_ix (mach s) me = Some i" and "0 < depth s me"
  shows "popcli (mach s) me = Ok (popped (mach s) me i)"
  using lreach_depth [OF assms] assms(2) by (simp add: popcli_eq_Ok)

lemma lreach_holder:
  assumes "lreach s" and "cpu_ix (mach s) me = Some i"
  shows "lk_locked (locks (mach s) l) \<noteq> 0 \<and> lk_cpu (locks (mach s) l) = Some i \<longleftrightarrow> l \<in> held s me"
proof -
  have inv: "lk_inv s" using assms(1) by (rule lreach_inv)
  have "lk_cpu (locks (mach s) l) = Some i \<longleftrightarrow> l \<in> held s me"
    unfolding lk_inv_cpu [OF inv] using assms(2) cpu_ix_inj by blast
  then show ?thesis using lk_inv_locked [OF inv, of l] by (auto simp: owns_def)
qed

lemma lreach_acquire_enter:
  assumes "lreach s" and "cpu_ix (mach s) me = Some i"
  shows "acquire_enter (mach s) me l =
    (if l \<in> held s me then Panic ''acquire'' else Ok (pushed (mach s) me i))"
  using acquire_enter_eq [OF assms(2) lk_inv_ncli_nonneg [OF lreach_inv [OF assms(1)] assms(2)], of l]
    lreach_holder [OF assms, of l] by simp

lemma lreach_release:
  assumes "lreach s" and ix: "cpu_ix (mach s) me = Some i" and "l \<in> held s me"
  shows "\<exists>m. release (mach s) me l = Ok m \<and> lk_locked (locks m l) = 0"
proof -
  have "0 < depth s me"
    using assms(3) lk_inv_finite [OF lreach_inv [OF assms(1)], of me] by (auto simp: depth_def card_gt_0_iff)
  note d = lreach_depth [OF assms(1,2) this]
  have "holding (mach s) me l = Ok (True, mach s)"
    using holding_nested [OF ix d, of l] lreach_holder [OF assms(1,2), of l] assms(3) by simp
  then obtain m1 where m1: "release_enter (mach s) me l = Ok m1"
    and "cpus m1 = cpus (mach s)" "flag_if m1 = flag_if (mach s)"
    by (simp add: release_enter_def Let_def)
  then have "popcli (release_store m1 l) me = Ok (popped (release_store m1 l) me i)"
    using d ix unfolding popcli_eq_Ok by (auto simp: release_store_def cpu_ix_def)
  with m1 show ?thesis by (simp add: release_def release_store_def)
qed

text \<open>
  C25: on any processor of a reachable state no part of \<^verbatim>\<open>acquire\<close>, \<^verbatim>\<open>release\<close>, \<^verbatim>\<open>pushcli\<close>
  or \<^verbatim>\<open>popcli\<close> panics, except in an \<^verbatim>\<open>acquire\<close> of a lock that the processor has already
  acquired.  Outside these routines \<^verbatim>\<open>pushcli\<close> returns, \<^verbatim>\<open>popcli\<close> returns when a \<^verbatim>\<open>pushcli\<close>
  is unmatched, \<^verbatim>\<open>acquire\<close> reaches its loop unless the lock is held by the caller, and
  \<^verbatim>\<open>release\<close> of a held lock returns with the lock free; inside them, the end of \<^verbatim>\<open>acquire\<close>
  after the exchange and the \<^verbatim>\<open>popcli\<close> that ends \<^verbatim>\<open>release\<close> return.
\<close>

theorem spinlock_no_spurious_panic:
  assumes "lreach s" and "cpu_ix (mach s) me = Some i"
  shows "(pc s me = Run \<longrightarrow>
      (\<exists>m. pushcli (mach s) me = Ok m) \<and>
      (extra s me \<noteq> 0 \<longrightarrow> (\<exists>m. popcli (mach s) me = Ok m)) \<and>
      (if l \<in> held s me
       then acquire_enter (mach s) me l = Panic ''acquire'' \<and>
         (\<exists>m. release (mach s) me l = Ok m \<and> lk_locked (locks m l) = 0)
       else \<exists>m. acquire_enter (mach s) me l = Ok m)) \<and>
    (pc s me = Got l \<longrightarrow> (\<exists>m. acquire_done (mach s) me l rd v = Ok m)) \<and>
    (pc s me = RelPop \<longrightarrow> (\<exists>m. popcli (mach s) me = Ok m))"
proof -
  have "\<exists>m. pushcli (mach s) me = Ok m" using assms(2) by (simp add: pushcli_eq_Ok)
  moreover have "\<exists>m. popcli (mach s) me = Ok m" if "extra s me \<noteq> 0 \<or> pc s me = RelPop"
    using lreach_popcli [OF assms] that by (auto simp: depth_def)
  moreover have "\<exists>m. acquire_done (mach s) me l rd v = Ok m" if "pc s me = Got l"
  proof -
    have "mycpu (mach s) me = Ok i"
      using lreach_depth(1) [OF assms] that assms(2) by (simp add: depth_def mycpu_eq_Ok)
    then show ?thesis by (simp add: acquire_done_def)
  qed
  ultimately show ?thesis
    using lreach_acquire_enter [OF assms, of l] lreach_release [OF assms, of l] by simp
qed

text \<open>The processor that holds lock 7 may release it and may acquire lock 8.\<close>

theorem spinlock_no_spurious_panic_witness:
  "lreach two_cpus_held \<and> pc two_cpus_held 0 = Run \<and> cpu_ix (mach two_cpus_held) 0 = Some 0 \<and>
   (\<exists>m. release (mach two_cpus_held) 0 7 = Ok m \<and> lk_locked (locks m 7) = 0) \<and>
   acquire_enter (mach two_cpus_held) 0 7 = Panic ''acquire'' \<and>
   (\<exists>m. acquire_enter (mach two_cpus_held) 0 8 = Ok m) \<and>
   (\<exists>m. acquire_done (mach two_cpus_got) 0 7 (\<lambda>_. 0) 8 = Ok m)"
proof -
  have "8 \<notin> held two_cpus_held 0" and got: "pc two_cpus_got 0 = Got 7" "cpu_ix (mach two_cpus_got) 0 = Some 0"
    using two_cpus_ix(1)
    by (simp_all add: two_cpus_held_def two_cpus_got_def two_cpus_spin_def two_cpus_def xchg_locked_def)
  then show ?thesis
    using spinlock_no_spurious_panic [OF two_cpus_held_reach two_cpus_held_simps(3), of 7]
      spinlock_no_spurious_panic [OF two_cpus_held_reach two_cpus_held_simps(3), of 8]
      spinlock_no_spurious_panic [OF two_cpus_got_reach got(2), of 7 "\<lambda>_. 0" 8]
      two_cpus_held_reach two_cpus_held_simps by simp
qed

section \<open>Nested calls\<close>

text \<open>
  A sequence of \<^verbatim>\<open>pushcli\<close> and \<^verbatim>\<open>popcli\<close> calls of one processor.  \<open>nesting n\<close> is the number
  of unmatched calls after it, counting from \<open>n\<close>, when no \<^verbatim>\<open>popcli\<close> lacks its \<^verbatim>\<open>pushcli\<close>.
\<close>

datatype cli_op = Push | Pop

primrec cli_op1 :: "cli_op \<Rightarrow> machine \<Rightarrow> uchar \<Rightarrow> machine outcome" where
  "cli_op1 Push m me = pushcli m me"
| "cli_op1 Pop m me = popcli m me"

primrec cli_ops :: "cli_op list \<Rightarrow> machine \<Rightarrow> uchar \<Rightarrow> machine outcome" where
  "cli_ops [] m me = Ok m"
| "cli_ops (a # as) m me = obind (cli_op1 a m me) (\<lambda>m1. cli_ops as m1 me)"

fun nesting :: "nat \<Rightarrow> cli_op list \<Rightarrow> nat option" where
  "nesting n [] = Some n"
| "nesting n (Push # as) = nesting (Suc n) as"
| "nesting 0 (Pop # as) = None"
| "nesting (Suc n) (Pop # as) = nesting n as"

text \<open>The state of processor \<open>me\<close> at depth \<open>d\<close> of a sequence begun in state \<open>m0\<close>.\<close>

definition nested_at :: "machine \<Rightarrow> uchar \<Rightarrow> nat \<Rightarrow> nat \<Rightarrow> machine \<Rightarrow> bool" where
  "nested_at m0 me i d m \<longleftrightarrow> cpu_ix m me = Some i \<and> locks m = locks m0 \<and>
     flag_if m = (flag_if m0)(me := d = 0 \<and> flag_if m0 me) \<and>
     map ncli (cpus m) = (map ncli (cpus m0))[i := ncli (cpus m0 ! i) + int d] \<and>
     (ncli (cpus m0 ! i) = 0 \<and> 0 < d \<longrightarrow> intena (cpus m ! i) = flag_if m0 me)"

lemma nested_at_ncli:
  assumes "nested_at m0 me i d m"
  shows "i < length (cpus m)" and "i < length (cpus m0)" and "ncli (cpus m ! i) = ncli (cpus m0 ! i) + int d"
proof -
  have l: "map ncli (cpus m) = (map ncli (cpus m0))[i := ncli (cpus m0 ! i) + int d]"
    and i: "i < length (cpus m)"
    using assms by (auto simp: nested_at_def dest: cpu_ixD)
  have e: "length (cpus m) = length (cpus m0)" using arg_cong [OF l, of length] by simp
  from i e show "i < length (cpus m)" "i < length (cpus m0)" by simp_all
  then show "ncli (cpus m ! i) = ncli (cpus m0 ! i) + int d"
    using arg_cong [OF l, of "\<lambda>xs. xs ! i"] by simp
qed

lemma map_ncli_pushed:
  "i < length (cpus m) \<Longrightarrow> map ncli (cpus (pushed m me i)) = (map ncli (cpus m))[i := ncli (cpus m ! i) + 1]"
  by (simp add: pushed_def set_cpu_def Let_def map_update)

lemma map_ncli_popped:
  "i < length (cpus m) \<Longrightarrow> map ncli (cpus (popped m me i)) = (map ncli (cpus m))[i := ncli (cpus m ! i) - 1]"
  by (simp add: popped_def set_cpu_def sti_def Let_def map_update)

lemma nested_at_push:
  assumes "nested_at m0 me i d m"
  shows "\<exists>m1. pushcli m me = Ok m1 \<and> nested_at m0 me i (Suc d) m1"
proof -
  note n = nested_at_ncli [OF assms]
  have "intena (cpus (pushed m me i) ! i) = (if ncli (cpus m ! i) = 0 then flag_if m me else intena (cpus m ! i))"
    using n(1) by (simp add: pushed_def set_cpu_def Let_def)
  then have "nested_at m0 me i (Suc d) (pushed m me i)"
    using assms n unfolding nested_at_def by (auto simp: map_ncli_pushed ac_simps)
  then show ?thesis using assms by (auto simp: nested_at_def pushcli_eq_Ok)
qed

lemma nested_at_pop:
  assumes "nested_at m0 me i (Suc d) m" and "0 \<le> ncli (cpus m0 ! i)"
    and "0 < ncli (cpus m0 ! i) \<longrightarrow> \<not> flag_if m0 me"
  shows "\<exists>m1. popcli m me = Ok m1 \<and> nested_at m0 me i d m1"
proof -
  note n = nested_at_ncli [OF assms(1)]
  have "intena (cpus (popped m me i) ! i) = intena (cpus m ! i)"
    using n(1) by (simp add: popped_def set_cpu_def sti_def Let_def)
  moreover have "flag_if (popped m me i) = (flag_if m0)(me := d = 0 \<and> flag_if m0 me)"
    using assms n(3) unfolding nested_at_def by (auto simp: flag_if_popped fun_eq_iff)
  ultimately have "nested_at m0 me i d (popped m me i)"
    using assms n unfolding nested_at_def by (simp add: map_ncli_popped ac_simps)
  moreover have "popcli m me = Ok (popped m me i)"
    unfolding popcli_eq_Ok using assms n by (simp add: nested_at_def)
  ultimately show ?thesis by blast
qed

lemma cli_ops_nested:
  assumes "nested_at m0 me i d m" and "0 \<le> ncli (cpus m0 ! i)"
    and "0 < ncli (cpus m0 ! i) \<longrightarrow> \<not> flag_if m0 me" and "nesting d as = Some d'"
  shows "\<exists>m1. cli_ops as m me = Ok m1 \<and> nested_at m0 me i d' m1"
  using assms(1,4)
proof (induction d as arbitrary: m rule: nesting.induct)
  case (2 n as)
  then show ?case using nested_at_push [OF 2(2)] by auto
next
  case (4 n as)
  then show ?case using nested_at_pop [OF 4(2) assms(2,3)] by auto
qed simp_all

text \<open>
  C31: \<^verbatim>\<open>pushcli\<close> and \<^verbatim>\<open>popcli\<close> are matched.  However a processor nests them, as long as no
  \<^verbatim>\<open>popcli\<close> lacks its \<^verbatim>\<open>pushcli\<close>, every call returns; while some \<^verbatim>\<open>pushcli\<close> is unmatched the
  interrupts of the processor are off; once all are matched its interrupt flag is what it
  was before the first one, on or off.  Its nesting depth counts the unmatched calls, and
  the other processors and the locks are not affected.
\<close>

theorem pushcli_popcli_matched:
  assumes "cpu_ix m me = Some i" and "0 \<le> ncli (cpus m ! i)"
    and "0 < ncli (cpus m ! i) \<longrightarrow> \<not> flag_if m me" and "nesting 0 as = Some d"
  shows "\<exists>m1. cli_ops as m me = Ok m1 \<and>
    flag_if m1 = (flag_if m)(me := (if d = 0 then flag_if m me else False)) \<and>
    map ncli (cpus m1) = (map ncli (cpus m))[i := ncli (cpus m ! i) + int d] \<and> locks m1 = locks m"
proof -
  have "nested_at m me i 0 m" using assms(1) cpu_ixD [OF assms(1)] by (simp add: nested_at_def map_update [symmetric])
  from cli_ops_nested [OF this assms(2-4)] show ?thesis by (auto simp: nested_at_def fun_upd_idem)
qed

text \<open>Two levels on a processor with interrupts on: off after the first \<^verbatim>\<open>popcli\<close>, on again after the second.\<close>

theorem pushcli_popcli_matched_witness:
  "nesting 0 [Push, Push, Pop] = Some 1 \<and> nesting 0 [Push, Push, Pop, Pop] = Some 0 \<and>
   flag_if (mach two_cpus) 0 \<and>
   (\<exists>m1. cli_ops [Push, Push, Pop] (mach two_cpus) 0 = Ok m1 \<and> \<not> flag_if m1 0) \<and>
   (\<exists>m2. cli_ops [Push, Push, Pop, Pop] (mach two_cpus) 0 = Ok m2 \<and> flag_if m2 0)"
proof -
  have n: "ncli (cpus (mach two_cpus) ! 0) = 0" "flag_if (mach two_cpus) 0" by (simp_all add: two_cpus_def)
  show ?thesis
    using pushcli_popcli_matched [OF two_cpus_ix(1), of "[Push, Push, Pop]" 1]
      pushcli_popcli_matched [OF two_cpus_ix(1), of "[Push, Push, Pop, Pop]" 0] n by auto
qed

end
