(* ===== verification/Xv6_Kalloc.thy ===== *)
theory Xv6_Kalloc
  imports Xv6_String Xv6_Spinlock
begin

text \<open>
  The physical page allocator, \<^verbatim>\<open>src/xv6/kalloc.c\<close>.  The free list is threaded through the
  free pages themselves: the first word of a free page holds the address of the next one.
  The list is therefore read from memory, and the theorems say what keeps it intact while
  clients write to the pages they own.  The end of the kernel image, \<^verbatim>\<open>end\<close>, comes from the
  linker and is a parameter.  The spin lock of the list makes each routine one atomic step.
\<close>

section \<open>State and operations\<close>

definition KERNBASE :: uint where "KERNBASE = 0x80000000"
definition PHYSTOP :: uint where "PHYSTOP = 0xE000000"

definition V2P :: "uint \<Rightarrow> uint" where "V2P a = a - KERNBASE"
definition P2V :: "uint \<Rightarrow> uint" where "P2V a = a + KERNBASE"

definition PGROUNDUP :: "uint \<Rightarrow> uint" where
  "PGROUNDUP sz = (sz + PGSIZE - 1) AND NOT (PGSIZE - 1)"

definition PGROUNDDOWN :: "uint \<Rightarrow> uint" where
  "PGROUNDDOWN a = a AND NOT (PGSIZE - 1)"

record kmem =
  klock :: spinlock
  use_lock :: bool
  freelist :: uint
  kmemory :: mem

definition kfree :: "uint \<Rightarrow> kmem \<Rightarrow> uint \<Rightarrow> kmem outcome" where
  "kfree kend s v =
     (if v mod PGSIZE \<noteq> 0 \<or> v < kend \<or> V2P v \<ge> PHYSTOP then Panic ''kfree''
      else let m = memset (kmemory s) v 1 PGSIZE
           in Ok (s\<lparr>kmemory := store32 m v (freelist s), freelist := v\<rparr>))"

definition kalloc :: "kmem \<Rightarrow> uint \<times> kmem" where
  "kalloc s =
     (let r = freelist s
      in if r \<noteq> 0 then (r, s\<lparr>freelist := load32 (kmemory s) r\<rparr>) else (r, s))"

text \<open>
  \<^verbatim>\<open>for(; p + PGSIZE <= vend; p += PGSIZE) kfree(p);\<close> ends because \<^verbatim>\<open>kfree\<close> panics outside
  the kernel's half of the address space, so that \<open>p\<close> cannot wrap around.
\<close>

function freerange_loop :: "uint \<Rightarrow> kmem \<Rightarrow> uint \<Rightarrow> uint \<Rightarrow> kmem outcome" where
  "freerange_loop kend s p vend =
     (if p + PGSIZE \<le> vend
      then obind (kfree kend s p) (\<lambda>s1. freerange_loop kend s1 (p + PGSIZE) vend)
      else Ok s)"
  by pat_completeness auto
termination
proof (relation "measure (\<lambda>(kend, s, p, vend). 2 ^ 32 - unat p)", goal_cases)
  case (2 kend s p vend s1)
  then have "p - KERNBASE < PHYSTOP"
    by (auto simp: kfree_def V2P_def split: if_splits)
  then have lt: "unat p < 0x8E000000"
    by (auto simp: KERNBASE_def PHYSTOP_def word_less_nat_alt unat_uint_sub split: if_splits)
  then have "unat (p + 4096) = unat p + 4096"
    by (simp add: unat_uint_add)
  with lt show ?case by simp
qed simp

definition freerange :: "uint \<Rightarrow> kmem \<Rightarrow> uint \<Rightarrow> uint \<Rightarrow> kmem outcome" where
  "freerange kend s vstart vend = freerange_loop kend s (PGROUNDUP vstart) vend"

definition kinit1 :: "uint \<Rightarrow> kmem \<Rightarrow> uint \<Rightarrow> uint \<Rightarrow> kmem outcome" where
  "kinit1 kend s vstart vend = 
     freerange kend (s\<lparr>klock := initlock ''kmem'' (klock s), use_lock := False\<rparr>) vstart vend"

definition kinit2 :: "uint \<Rightarrow> kmem \<Rightarrow> uint \<Rightarrow> uint \<Rightarrow> kmem outcome" where
  "kinit2 kend s vstart vend =
     obind (freerange kend s vstart vend) (\<lambda>s1. Ok (s1\<lparr>use_lock := True\<rparr>))"

section \<open>The interface of a page allocator\<close>

text \<open>
  What a client may rely on: \<open>inv s ps\<close> says that the allocator is consistent and that
  \<open>ps\<close> are its free pages, in the order they will be handed out.
\<close>

locale page_allocator =
  fixes alloc :: "'s \<Rightarrow> uint \<times> 's"
    and free :: "'s \<Rightarrow> uint \<Rightarrow> 's outcome"
    and client_write :: "(mem \<Rightarrow> mem) \<Rightarrow> 's \<Rightarrow> 's"
    and inv :: "'s \<Rightarrow> uint list \<Rightarrow> bool"
    and valid :: "uint \<Rightarrow> bool"
    and confined :: "(mem \<Rightarrow> mem) \<Rightarrow> uint set \<Rightarrow> bool"
  assumes inv_pages: "inv s ps \<Longrightarrow> distinct ps \<and> (\<forall>p \<in> set ps. valid p)"
    and valid_nonzero: "\<not> valid 0"
    and alloc_Nil: "inv s [] \<Longrightarrow> alloc s = (0, s)"
    and alloc_Cons: "inv s (p # ps) \<Longrightarrow> fst (alloc s) = p \<and> inv (snd (alloc s)) ps"
    and free_valid: "inv s ps \<Longrightarrow> valid p \<Longrightarrow> p \<notin> set ps \<Longrightarrow> \<exists>s'. free s p = Ok s' \<and> inv s' (p # ps)"
    and free_invalid: "\<not> valid p \<Longrightarrow> \<exists>e. free s p = Panic e"
    and write_inv: "inv s ps \<Longrightarrow> confined f A \<Longrightarrow> A \<inter> set ps = {} \<Longrightarrow> (\<forall>p \<in> A. valid p) \<Longrightarrow>
      inv (client_write f s) ps"
begin

text \<open>The pages \<open>A\<close> that clients own and the free pages are disjoint.\<close>

definition owned :: "'s \<Rightarrow> uint set \<Rightarrow> uint list \<Rightarrow> bool" where
  "owned s A ps \<longleftrightarrow> inv s ps \<and> A \<inter> set ps = {} \<and> (\<forall>p \<in> A. valid p)"

lemma alloc_owned:
  assumes "owned s A ps" and "alloc s = (p, s')" and "p \<noteq> 0"
  shows "p \<notin> A \<and> valid p \<and> ps = p # tl ps \<and> owned s' (insert p A) (tl ps)"
proof (cases ps)
  case Nil
  with assms alloc_Nil show ?thesis by (simp add: owned_def)
next
  case (Cons q qs)
  with assms alloc_Cons [of s q qs] have q: "q = p" "inv s' qs" by (auto simp: owned_def)
  moreover have "distinct ps" "\<forall>p \<in> set ps. valid p" using assms(1) inv_pages by (auto simp: owned_def)
  ultimately show ?thesis using assms(1) Cons by (auto simp: owned_def)
qed

lemma alloc_zero_iff: "inv s ps \<Longrightarrow> fst (alloc s) = 0 \<longleftrightarrow> ps = []"
  using alloc_Nil [of s] alloc_Cons [of s "hd ps" "tl ps"] inv_pages [of s ps] valid_nonzero
  by (cases ps) auto

lemma free_owned:
  assumes "owned s A ps" and "p \<in> A"
  shows "\<exists>s'. free s p = Ok s' \<and> owned s' (A - {p}) (p # ps)"
  using assms free_valid [of s ps p] by (auto simp: owned_def)

lemma write_owned: "owned s A ps \<Longrightarrow> confined f A \<Longrightarrow> owned (client_write f s) A ps"
  using write_inv by (auto simp: owned_def)

end

section \<open>The free list in memory\<close>

definition valid_page :: "uint \<Rightarrow> uint \<Rightarrow> bool" where
  "valid_page kend p \<longleftrightarrow> p mod PGSIZE = 0 \<and> kend \<le> p \<and> V2P p < PHYSTOP"

primrec chain :: "mem \<Rightarrow> uint \<Rightarrow> uint list \<Rightarrow> bool" where
  "chain m p [] \<longleftrightarrow> p = 0"
| "chain m p (q # qs) \<longleftrightarrow> p = q \<and> p \<noteq> 0 \<and> chain m (load32 m p) qs"

definition kmem_inv :: "uint \<Rightarrow> kmem \<Rightarrow> uint list \<Rightarrow> bool" where
  "kmem_inv kend s ps \<longleftrightarrow>
     chain (kmemory s) (freelist s) ps \<and> distinct ps \<and> (\<forall>p \<in> set ps. valid_page kend p)"

definition in_page :: "uint \<Rightarrow> uint \<Rightarrow> bool" where
  "in_page p a \<longleftrightarrow> a - p < PGSIZE"

text \<open>A memory update of a client that owns the pages \<open>A\<close>: it leaves every other byte alone.\<close>

definition confined :: "(mem \<Rightarrow> mem) \<Rightarrow> uint set \<Rightarrow> bool" where
  "confined f A \<longleftrightarrow> (\<forall>m a. (\<forall>p \<in> A. \<not> in_page p a) \<longrightarrow> f m a = m a)"

definition client_write :: "(mem \<Rightarrow> mem) \<Rightarrow> kmem \<Rightarrow> kmem" where
  "client_write f s = s\<lparr>kmemory := f (kmemory s)\<rparr>"

lemma valid_page_nonzero: "valid_page kend p \<Longrightarrow> p \<noteq> 0"
  by (auto simp: valid_page_def V2P_def KERNBASE_def PHYSTOP_def)

lemma page_aligned: "p mod PGSIZE = 0 \<longleftrightarrow> 2 ^ 12 dvd unat p"
proof -
  have "p mod PGSIZE = 0 \<longleftrightarrow> unat (p mod PGSIZE) = 0" unfolding word_unat_eq_iff by simp
  also have "\<dots> \<longleftrightarrow> unat p mod 4096 = 0" by (simp only: unat_mod) simp
  finally show ?thesis by (simp add: dvd_eq_mod_eq_0)
qed

lemma valid_page_aligned: "valid_page kend p \<Longrightarrow> 2 ^ 12 dvd unat p"
  using page_aligned [of p] by (simp only: valid_page_def)

lemma in_page_disjoint:
  assumes "2 ^ 12 dvd unat p" "2 ^ 12 dvd unat q" "p \<noteq> q" "in_page p a"
  shows "\<not> in_page q a"
proof
  assume "in_page q a"
  moreover have "p + of_nat (unat (a - p)) \<noteq> q + of_nat (unat (a - q))"
    using assms calculation
    by (intro aligned_disjoint [where k = 12]) (auto simp: in_page_def word_less_nat_alt)
  ultimately show False by simp
qed

lemma in_page_offset: "i < 4 \<Longrightarrow> in_page p (p + i)"
  by (simp add: in_page_def word_less_nat_alt)

lemma load32_cong:
  assumes "\<And>a. in_page p a \<Longrightarrow> m a = m' a"
  shows "load32 m p = load32 m' p"
proof -
  have "in_page p (p + 0)" "in_page p (p + 1)" "in_page p (p + 2)" "in_page p (p + 3)"
    by (rule in_page_offset, simp)+
  then show ?thesis using assms unfolding load32_def by simp
qed

lemma chain_cong:
  "(\<And>p a. p \<in> set ps \<Longrightarrow> in_page p a \<Longrightarrow> m a = m' a) \<Longrightarrow> chain m r ps = chain m' r ps"
proof (induction ps arbitrary: r)
  case (Cons q qs)
  have "load32 m q = load32 m' q" by (intro load32_cong Cons.prems [of q]) simp_all
  moreover have "chain m x qs = chain m' x qs" for x
    by (rule Cons.IH) (meson Cons.prems list.set_intros(2))
  ultimately show ?case by (simp cong: conj_cong)
qed simp

lemma store32_in_page: "\<not> in_page p a \<Longrightarrow> store32 m p v a = m a"
  using in_page_offset [of 0 p] in_page_offset [of 1 p] in_page_offset [of 2 p] in_page_offset [of 3 p]
  by (auto simp: store32_def)

lemma store32_word: "4 \<le> a - p \<Longrightarrow> store32 m p v a = m a"
  by (auto simp: store32_def word_le_nat_alt)

definition freed :: "kmem \<Rightarrow> uint \<Rightarrow> kmem" where
  "freed s p = s\<lparr>kmemory := store32 (\<lambda>a. if in_page p a then 1 else kmemory s a) p (freelist s),
                freelist := p\<rparr>"

lemma kfree_eq:
  "kfree kend s p = (if valid_page kend p then Ok (freed s p) else Panic ''kfree'')"
proof -
  have "(ucast (1 :: uint) :: uchar) = 1" by (simp add: word_unat_eq_iff)
  then have "(\<lambda>a. if a - p < 4096 then ucast (1 :: uint) else kmemory s a) =
      (\<lambda>a. if a - p < 4096 then 1 else kmemory s a)"
    by (auto simp: fun_eq_iff)
  then show ?thesis
    unfolding kfree_def valid_page_def freed_def memset_spec in_page_def Let_def
    by (simp add: not_less not_le)
qed

lemma freed_memory:
  "\<not> in_page p a \<Longrightarrow> kmemory (freed s p) a = kmemory s a"
  "load32 (kmemory (freed s p)) p = freelist s"
  "4 \<le> a - p \<Longrightarrow> in_page p a \<Longrightarrow> kmemory (freed s p) a = 1"
  by (simp_all add: freed_def store32_in_page store32_word)

lemma freed_inv:
  assumes inv: "kmem_inv kend s ps" and v: "valid_page kend p" and p: "p \<notin> set ps"
  shows "kmem_inv kend (freed s p) (p # ps)"
proof -
  have "kmemory (freed s p) a = kmemory s a" if "q \<in> set ps" "in_page q a" for q a
  proof (rule freed_memory(1), rule in_page_disjoint [OF _ _ _ that(2)])
    show "2 ^ 12 dvd unat q" using inv that(1) valid_page_aligned by (auto simp: kmem_inv_def)
    show "2 ^ 12 dvd unat p" using v by (rule valid_page_aligned)
    show "q \<noteq> p" using that(1) p by auto
  qed
  then have "chain (kmemory (freed s p)) (freelist s) ps = chain (kmemory s) (freelist s) ps"
    by (rule chain_cong)
  with inv v p valid_page_nonzero [OF v] show ?thesis
    by (simp add: kmem_inv_def freed_memory(2)) (simp add: freed_def)
qed

lemma kalloc_Cons:
  "kmem_inv kend s (p # ps) \<Longrightarrow>
     kalloc s = (p, s\<lparr>freelist := load32 (kmemory s) p\<rparr>) \<and>
     kmem_inv kend (snd (kalloc s)) ps"
  by (auto simp add: kmem_inv_def kalloc_def)

lemma client_write_inv:
  assumes inv: "kmem_inv kend s ps" and f: "confined f A" and A: "A \<inter> set ps = {}"
    and v: "\<forall>p \<in> A. valid_page kend p"
  shows "kmem_inv kend (client_write f s) ps"
proof -
  have "f (kmemory s) a = kmemory s a" if q: "q \<in> set ps" "in_page q a" for q a
  proof -
    have "\<not> in_page p a" if "p \<in> A" for p
    proof (rule in_page_disjoint [OF _ _ _ q(2)])
      show "2 ^ 12 dvd unat q" using inv q(1) valid_page_aligned by (auto simp: kmem_inv_def)
      show "2 ^ 12 dvd unat p" using v that valid_page_aligned by auto
      show "q \<noteq> p" using that q(1) A by auto
    qed
    then show ?thesis using f by (simp add: confined_def)
  qed
  then have "chain (f (kmemory s)) (freelist s) ps = chain (kmemory s) (freelist s) ps"
    by (rule chain_cong)
  with inv show ?thesis by (simp add: kmem_inv_def client_write_def)
qed

interpretation km: page_allocator kalloc "kfree kend" client_write "kmem_inv kend"
    "valid_page kend" confined for kend
proof (unfold_locales, goal_cases)
  case (4 s p ps)
  show ?case using kalloc_Cons [OF 4] by auto
next
  case (5 s ps p)
  then show ?case using freed_inv by (simp add: kfree_eq)
next
  case (7 s ps f A)
  then show ?case by (rule client_write_inv)
qed (auto simp: kmem_inv_def kalloc_def kfree_eq dest: valid_page_nonzero)

section \<open>Clients of the allocator\<close>

text \<open>
  Any interleaving of allocations, frees of owned pages and arbitrary stores into owned
  pages, from a state with free pages \<open>ps\<close>; \<open>A\<close> is the set of pages that clients own.
\<close>

inductive kreach :: "uint \<Rightarrow> kmem \<Rightarrow> kmem \<Rightarrow> uint set \<Rightarrow> bool" for kend s0 where
  kr_start: "kreach kend s0 s0 {}"
| kr_alloc: "kreach kend s0 s A \<Longrightarrow> kalloc s = (p, s') \<Longrightarrow>
     kreach kend s0 s' (if p = 0 then A else insert p A)"
| kr_free: "kreach kend s0 s A \<Longrightarrow> p \<in> A \<Longrightarrow> kfree kend s p = Ok s' \<Longrightarrow> kreach kend s0 s' (A - {p})"
| kr_write: "kreach kend s0 s A \<Longrightarrow> confined f A \<Longrightarrow> kreach kend s0 (client_write f s) A"

lemma kreach_owned:
  assumes "kreach kend s0 s A" and "kmem_inv kend s0 ps0"
  shows "\<exists>ps. km.owned kend s A ps \<and> set ps \<union> A = set ps0"
  using assms
proof (induction rule: kreach.induct)
  case kr_start
  then show ?case by (auto simp: km.owned_def)
next
  case (kr_alloc s A p s')
  then obtain ps where ps: "km.owned kend s A ps" "set ps \<union> A = set ps0" by auto
  show ?case
  proof (cases "p = 0")
    case True
    with kr_alloc.hyps(2) have "s' = s" by (auto simp: kalloc_def Let_def split: if_splits)
    with True ps show ?thesis by auto
  next
    case False
    from km.alloc_owned [OF ps(1) kr_alloc.hyps(2) False]
    have "ps = p # tl ps" "km.owned kend s' (insert p A) (tl ps)" by auto
    moreover from this(1) have "set ps = insert p (set (tl ps))" by (metis list.simps(15))
    ultimately show ?thesis using False ps(2) by auto
  qed
next
  case (kr_free s A p s')
  then obtain ps where ps: "km.owned kend s A ps" "set ps \<union> A = set ps0" by auto
  from km.free_owned [OF ps(1) kr_free.hyps(2)] kr_free.hyps(3)
  have "km.owned kend s' (A - {p}) (p # ps)" by auto
  moreover have "set (p # ps) \<union> (A - {p}) = set ps0" using ps(2) kr_free.hyps(2) by auto
  ultimately show ?case by blast
next
  case (kr_write s A f)
  then show ?case using km.write_owned by blast
qed

section \<open>Initialisation\<close>

text \<open>The pages that \<^verbatim>\<open>freerange\<close> puts on the list, the last one first.\<close>

function pages_upto :: "uint \<Rightarrow> uint \<Rightarrow> uint list" where
  "pages_upto p vend =
     (if unat p + 4096 \<le> unat vend then pages_upto (p + PGSIZE) vend @ [p] else [])"
  by pat_completeness auto
termination
proof (relation "measure (\<lambda>(p, vend). 2 ^ 32 - unat p)", goal_cases)
  case (2 p vend)
  moreover have "unat vend < 2 ^ 32" by (rule unat_uint_less)
  ultimately show ?case by (simp add: unat_uint_add)
qed simp

declare pages_upto.simps [simp del] freerange_loop.simps [simp del]

lemma pages_upto_mem:
  "q \<in> set (pages_upto p vend) \<Longrightarrow> unat p \<le> unat q \<and> unat q + 4096 \<le> unat vend"
proof (induction p vend rule: pages_upto.induct)
  case (1 p vend)
  have lt: "unat vend < 2 ^ 32" by (rule unat_uint_less)
  show ?case
  proof (cases "unat p + 4096 \<le> unat vend")
    case True
    then have "unat (p + 4096) = unat p + 4096" using lt by (simp add: unat_uint_add)
    with True 1 show ?thesis by (subst (asm) pages_upto.simps) auto
  next
    case False
    with 1 show ?thesis by (subst (asm) pages_upto.simps) simp
  qed
qed

lemma freerange_loop_inv:
  assumes "kmem_inv kend s ps" and "2 ^ 12 dvd unat p" and "kend \<le> p"
    and "vend \<le> P2V PHYSTOP" and "KERNBASE \<le> p" and "\<forall>q \<in> set ps. q < p \<or> vend \<le> q"
    and "p \<le> P2V PHYSTOP"
  shows "\<exists>s'. freerange_loop kend s p vend = Ok s' \<and> kmem_inv kend s' (pages_upto p vend @ ps) \<and>
    use_lock s' = use_lock s"
  using assms
proof (induction p vend arbitrary: s ps rule: pages_upto.induct)
  case (1 p vend)
  have vend: "unat vend \<le> 0x8E000000"
    using 1(5) by (simp add: P2V_def PHYSTOP_def KERNBASE_def word_le_nat_alt)
  have step: "p + PGSIZE \<le> vend \<longleftrightarrow> unat p + 4096 \<le> unat vend"
    using 1(8)
    by (simp add: P2V_def PHYSTOP_def KERNBASE_def word_le_nat_alt unat_uint_add)
  show ?case
  proof (cases "unat p + 4096 \<le> unat vend")
    case False
    with 1(2) step show ?thesis
      by (subst freerange_loop.simps, subst pages_upto.simps) simp
  next
    case True
    have next_p: "unat (p + 4096) = unat p + 4096"
      using True vend by (simp add: unat_uint_add)
    have valid: "valid_page kend p"
      using True 1(3,4,6) vend page_aligned [of p]
      by (auto simp: valid_page_def V2P_def PHYSTOP_def KERNBASE_def word_less_nat_alt word_le_nat_alt
          unat_uint_sub)
    have fresh: "p \<notin> set ps" 
      using True 1(7) by (auto simp: word_less_nat_alt word_le_nat_alt)
    have "\<exists>s'. freerange_loop kend (freed s p) (p + 4096) vend = Ok s' \<and>
        kmem_inv kend s' (pages_upto (p + 4096) vend @ p # ps) \<and> use_lock s' = use_lock (freed s p)"
    proof (rule 1(1) [OF True])
      show "kmem_inv kend (freed s p) (p # ps)" using 1(2) valid fresh by (rule freed_inv)
      show "2 ^ 12 dvd unat (p + 4096)" using 1(3) next_p by simp
      show "vend \<le> P2V PHYSTOP" by fact
      show "p + 4096 \<le> P2V PHYSTOP"
        using True next_p 1(5) by (simp add: word_le_nat_alt)
      show "kend \<le> p + 4096" "KERNBASE \<le> p + 4096"
        using 1(4,6) next_p by (auto simp: word_le_nat_alt)
      show "\<forall>q \<in> set (p # ps). q < p + 4096 \<or> vend \<le> q"
        using 1(7) next_p by (auto simp: word_less_nat_alt)
    qed
    then show ?thesis using True step valid
      by (subst freerange_loop.simps, subst pages_upto.simps)
        (auto simp: kfree_eq freed_def)
  qed
qed

lemma pages_upto_length:
  "2 ^ 12 dvd unat p \<Longrightarrow> length (pages_upto p vend) = (unat vend - unat p) div 4096"
proof (induction p vend rule: pages_upto.induct)
  case (1 p vend)
  have lt: "unat vend < 2 ^ 32" by (rule unat_uint_less)
  show ?case
  proof (cases "unat p + 4096 \<le> unat vend")
    case True
    then have n: "unat (p + 4096) = unat p + 4096" using lt by (simp add: unat_uint_add)
    have "(unat vend - unat p) div 4096 = Suc ((unat vend - (unat p + 4096)) div 4096)"
      using True by (subst le_div_geq) auto
    then show ?thesis using 1 True n by (subst pages_upto.simps) simp
  next
    case False
    then show ?thesis by (subst pages_upto.simps) simp
  qed
qed

lemma freerange_loop_outside:
  assumes "freerange_loop kend s p vend = Ok s'" and "unat a < unat p \<or> unat vend \<le> unat a"
  shows "kmemory s' a = kmemory s a"
  using assms
proof (induction kend s p vend rule: freerange_loop.induct)
  case (1 kend s p vend)
  show ?case
  proof (cases "p + PGSIZE \<le> vend")
    case True
    with 1(2) obtain s1 where s1: "kfree kend s p = Ok s1" "freerange_loop kend s1 (p + PGSIZE) vend = Ok s'"
      by (subst (asm) freerange_loop.simps) (auto simp: obind_eq_Ok)
    then have v: "valid_page kend p" and eq: "s1 = freed s p" by (auto simp: kfree_eq split: if_splits)
    have n: "unat (p + 4096) = unat p + 4096"
      using v by (auto simp: valid_page_def V2P_def PHYSTOP_def KERNBASE_def word_less_nat_alt
          unat_uint_sub unat_uint_add split: if_splits)
    have far: "unat a < unat p \<or> unat p + 4096 \<le> unat a"
      using 1(3) True n by (auto simp: word_le_nat_alt)
    then have "\<not> in_page p a" using n unat_uint_less [of "p + 4096"]
      by (auto simp: in_page_def word_less_nat_alt unat_uint_sub)
    moreover have "kmemory s' a = kmemory s1 a"
      using 1(1) [OF True s1(1) s1(2)] 1(3) n by auto
    ultimately show ?thesis using freed_memory(1) eq by simp
  next
    case False
    with 1(2) show ?thesis by (subst (asm) freerange_loop.simps) simp
  qed
qed

lemma PGROUNDDOWN_nat: "unat (PGROUNDDOWN a) = 4096 * (unat a div 4096)"
proof -
  have "PGSIZE - 1 = (mask 12 :: uint)" by (simp add: mask_eq_exp_minus_1)
  moreover have "a AND NOT (mask 12) = push_bit 12 (drop_bit 12 a)"
    by (rule bit_word_eqI) (auto simp: bit_simps)
  ultimately have "PGROUNDDOWN a = push_bit 12 (drop_bit 12 a)"
    unfolding PGROUNDDOWN_def by (simp only:)
  moreover have "4096 * (unat a div 4096) < 2 ^ 32"
    using unat_uint_less [of a] by (meson le_less_trans times_div_less_eq_dividend)
  ultimately show ?thesis
    by (simp add: drop_bit_eq_div push_bit_eq_mult unat_word_ariths unat_div)
qed

lemma PGROUNDUP_nat:
  assumes "unat a + 4095 < 2 ^ 32"
  shows "unat (PGROUNDUP a) = 4096 * ((unat a + 4095) div 4096)"
proof -
  have "PGROUNDUP a = PGROUNDDOWN (a + 4095)"
    by (simp add: PGROUNDUP_def PGROUNDDOWN_def add.commute)
  then show ?thesis using assms by (simp add: PGROUNDDOWN_nat unat_uint_add)
qed

lemma PGROUNDUP_aligned: "2 ^ 12 dvd unat (PGROUNDUP a)"
  using PGROUNDDOWN_nat [of "a + 4095"] by (simp add: PGROUNDUP_def PGROUNDDOWN_def add.commute)

lemma pages_upto_set:
  assumes "2 ^ 12 dvd unat p"
  shows "set (pages_upto p vend) =
    {q. 2 ^ 12 dvd unat q \<and> unat p \<le> unat q \<and> unat q + 4096 \<le> unat vend}"
  using assms
proof (induction p vend rule: pages_upto.induct)
  case (1 p vend)
  have lt: "unat vend < 2 ^ 32" by (rule unat_uint_less)
  show ?case
  proof (cases "unat p + 4096 \<le> unat vend")
    case True
    then have n: "unat (p + 4096) = unat p + 4096" using lt by (simp add: unat_uint_add)
    have gap: "q = p \<or> unat p + 4096 \<le> unat q"
      if "2 ^ 12 dvd unat q" "unat p \<le> unat q" for q
    proof -
      from that 1(2) have "4096 dvd unat q - unat p" by (simp add: dvd_diff_nat)
      then show ?thesis using that(2) by (auto simp: word_unat_eq_iff dest!: dvd_imp_le)
    qed
    have "set (pages_upto (p + 4096) vend) =
        {q. 2 ^ 12 dvd unat q \<and> unat p + 4096 \<le> unat q \<and> unat q + 4096 \<le> unat vend}"
      using 1 True n by simp
    then show ?thesis using True 1(2) gap
      by (subst pages_upto.simps) (auto dest: gap)
  next
    case False
    then show ?thesis by (subst pages_upto.simps) auto
  qed
qed

lemma valid_page_iff:
  "valid_page kend p \<longleftrightarrow> 2 ^ 12 dvd unat p \<and> unat kend \<le> unat p \<and>
     0x80000000 \<le> unat p \<and> unat p < 0x8E000000"
  using page_aligned [of p] unat_uint_less [of p]
  by (auto simp: valid_page_def V2P_def PHYSTOP_def KERNBASE_def word_less_nat_alt word_le_nat_alt
      unat_uint_sub split: if_splits)

text \<open>
  C6: while clients allocate pages, free pages they own and store what they like into pages
  they own, \<^verbatim>\<open>kalloc\<close> never hands out a page that is still owned: what it returns is a whole
  page of allocatable memory that shares no byte with an owned page, and it returns 0 only when every
  page is owned.
\<close>

theorem kalloc_exclusive:
  assumes "kmem_inv kend s0 ps0" and "kreach kend s0 s A" and "kalloc s = (p, s')"
  shows "(p = 0 \<longleftrightarrow> A = set ps0) \<and>
    (p \<noteq> 0 \<longrightarrow> p \<in> set ps0 \<and> valid_page kend p \<and> (\<forall>q \<in> A. \<forall>a. \<not> (in_page p a \<and> in_page q a)))"
proof -
  obtain ps where ps: "km.owned kend s A ps" "set ps \<union> A = set ps0"
    using kreach_owned [OF assms(2,1)] by auto
  have disj: "A \<inter> set ps = {}" and inv: "kmem_inv kend s ps" and vA: "\<forall>q \<in> A. valid_page kend q"
    using ps(1) by (auto simp: km.owned_def)
  have zero: "p = 0 \<longleftrightarrow> A = set ps0"
  proof -
    have "p = 0 \<longleftrightarrow> ps = []"
      using km.alloc_zero_iff [OF inv] unfolding assms(3) fst_conv .
    moreover have "A = set ps0" if "ps = []" using ps(2) that by simp
    moreover have "ps = []" if "A = set ps0"
      using disj ps(2) that by (metis Int_absorb1 Un_upper1 set_empty)
    ultimately show ?thesis by blast
  qed
  have "p \<in> set ps0 \<and> valid_page kend p \<and> (\<forall>q \<in> A. \<forall>a. \<not> (in_page p a \<and> in_page q a))" if "p \<noteq> 0"
  proof -
    from km.alloc_owned [OF ps(1) assms(3) that]
    have p: "p \<notin> A" "valid_page kend p" "ps = p # tl ps" by auto
    then have "p \<in> set ps0" using ps(2) by (metis UnI1 list.set_intros(1))
    moreover have "\<not> in_page q a" if "in_page p a" "q \<in> A" for q a
      by (rule in_page_disjoint [OF _ _ _ that(1)])
        (use that p(1,2) vA valid_page_aligned in auto)
    ultimately show ?thesis using p(2) by blast
  qed
  with zero show ?thesis by blast
qed

text \<open>Two pages at the top of memory, the first linked to the second.\<close>

definition two_pages :: kmem where
  "two_pages = \<lparr>klock = \<lparr>lk_locked = 0, lk_name = ''kmem'', lk_cpu = None, lk_pcs = []\<rparr>,
     use_lock = True, freelist = 0x8DFFE000, kmemory = store32 (\<lambda>_. 0) 0x8DFFE000 0x8DFFF000\<rparr>"

lemma two_pages_inv: "kmem_inv 0x80108000 two_pages [0x8DFFE000, 0x8DFFF000]"
proof -
  have "load32 (store32 (\<lambda>_. 0) 0x8DFFE000 0x8DFFF000) 0x8DFFF000 = 0"
    by (subst load_store32_other) (simp_all add: load32_def le32_def)
  then show ?thesis
    by (simp add: kmem_inv_def two_pages_def valid_page_def V2P_def KERNBASE_def PHYSTOP_def)
qed

theorem kalloc_exclusive_witness:
  "kreach 0x80108000 two_pages (snd (kalloc two_pages)) {0x8DFFE000} \<and>
   fst (kalloc (snd (kalloc two_pages))) = 0x8DFFF000 \<and>
   (\<forall>a. \<not> (in_page 0x8DFFF000 a \<and> in_page 0x8DFFE000 a))"
proof -
  have a: "kalloc two_pages = (0x8DFFE000, two_pages\<lparr>freelist := 0x8DFFF000\<rparr>)"
    by (simp add: kalloc_def two_pages_def)
  have b: "fst (kalloc (two_pages\<lparr>freelist := 0x8DFFF000\<rparr>)) = 0x8DFFF000"
    by (simp add: kalloc_def)
  have r: "kreach 0x80108000 two_pages (snd (kalloc two_pages)) {0x8DFFE000}"
    using kr_alloc [OF kr_start a] a by simp
  have "fst (kalloc (snd (kalloc two_pages))) = 0x8DFFF000" using a b by simp
  then show ?thesis
    using kalloc_exclusive [OF two_pages_inv r prod.collapse [symmetric]] r by auto
qed

text \<open>
  C30: \<^verbatim>\<open>kfree\<close> panics exactly when its argument is not a page of allocatable memory; otherwise
  it changes no byte outside the page, fills it with junk, and the next \<^verbatim>\<open>kalloc\<close> returns
  that page, with the other pages of the free list in their old order.
\<close>

theorem kfree_kalloc_lifo:
  assumes "kmem_inv kend s ps"
  shows "if valid_page kend p
     then \<exists>s1. kfree kend s p = Ok s1 \<and>
       (\<forall>a. \<not> in_page p a \<longrightarrow> kmemory s1 a = kmemory s a) \<and>
       (\<forall>a. in_page p a \<and> 4 \<le> a - p \<longrightarrow> kmemory s1 a = 1) \<and>
       fst (kalloc s1) = p \<and> freelist (snd (kalloc s1)) = freelist s \<and>
       (p \<notin> set ps \<longrightarrow> kmem_inv kend s1 (p # ps) \<and> kmem_inv kend (snd (kalloc s1)) ps)
     else kfree kend s p = Panic ''kfree''"
proof (cases "valid_page kend p")
  case True
  have "kalloc (freed s p) = (p, (freed s p)\<lparr>freelist := freelist s\<rparr>)"
    using valid_page_nonzero [OF True] freed_memory(2) [of s p]
    by (simp add: kalloc_def Let_def) (simp add: freed_def)
  moreover have "kmem_inv kend (freed s p) (p # ps)" if "p \<notin> set ps"
    using assms True that by (rule freed_inv)
  ultimately show ?thesis
    using True freed_memory(1) [of p _ s] freed_memory(3) [of _ p s] kalloc_Cons [of kend "freed s p" p ps]
    by (simp add: kfree_eq) auto
next
  case False
  then show ?thesis by (simp add: kfree_eq)
qed

theorem kfree_kalloc_lifo_witness:
  "kmem_inv 0x80108000 two_pages [0x8DFFE000, 0x8DFFF000] \<and> valid_page 0x80108000 0x80200000 \<and>
   (\<exists>s1. kfree 0x80108000 two_pages 0x80200000 = Ok s1 \<and> fst (kalloc s1) = 0x80200000 \<and>
     kmem_inv 0x80108000 s1 [0x80200000, 0x8DFFE000, 0x8DFFF000])"
proof -
  have v: "valid_page 0x80108000 0x80200000"
    by (simp add: valid_page_def V2P_def KERNBASE_def PHYSTOP_def)
  show ?thesis
    using kfree_kalloc_lifo [OF two_pages_inv, of "0x80200000"] v two_pages_inv by auto
qed

lemma boot_ranges:
  assumes "KERNBASE \<le> kend" and "kend \<le> P2V 0x400000"
  shows "unat (P2V 0x400000) = 0x80400000" "unat (P2V PHYSTOP) = 0x8E000000" "0x80000000 \<le> unat kend" "unat kend \<le> 0x80400000"
    "unat kend \<le> unat (PGROUNDUP kend)" "unat (PGROUNDUP kend) < unat kend + 4096" "2 ^ 12 dvd unat (PGROUNDUP kend)"
    "unat (PGROUNDUP (P2V 0x400000)) = 0x80400000"
proof -
  show v: "unat (P2V 0x400000) = 0x80400000" "unat (P2V PHYSTOP) = 0x8E000000"
    by (simp_all add: P2V_def KERNBASE_def PHYSTOP_def)
  show k: "0x80000000 \<le> unat kend" "unat kend \<le> 0x80400000"
    using assms by (simp_all add: P2V_def KERNBASE_def word_le_nat_alt)
  show "unat kend \<le> unat (PGROUNDUP kend)" "unat (PGROUNDUP kend) < unat kend + 4096" "2 ^ 12 dvd unat (PGROUNDUP kend)"
    using PGROUNDUP_nat [of kend] PGROUNDUP_aligned [of kend] k by auto
  show "unat (PGROUNDUP (P2V 0x400000)) = 0x80400000"
    using PGROUNDUP_nat [of "P2V 0x400000"] v by simp
qed

lemma boot_pages_complete:
  assumes k: "KERNBASE \<le> kend" "kend \<le> P2V 0x400000" and p: "valid_page kend p"
  shows "p \<in> set (pages_upto (PGROUNDUP (P2V 0x400000)) (P2V PHYSTOP) @ pages_upto (PGROUNDUP kend) (P2V 0x400000))"
proof -
  note r = boot_ranges [OF k]
  obtain n where n: "unat p = 4096 * n" "unat kend \<le> 4096 * n" "4096 * n < 0x8E000000"
    using p unfolding valid_page_iff by auto
  have "unat (PGROUNDUP kend) \<le> unat p"
    using PGROUNDUP_nat [of kend] r(3,4) n by simp
  moreover have "2 ^ 12 dvd unat p" "2 ^ 12 dvd unat (PGROUNDUP (P2V 0x400000))" using n r(8) by simp_all
  moreover have "unat p + 4096 \<le> unat (P2V 0x400000) \<or> unat (PGROUNDUP (P2V 0x400000)) \<le> unat p"
    unfolding r(1,8) n(1) by (cases "n < 525312") simp_all
  moreover have "n < 581632" using n(3) by simp
  then have "unat p + 4096 \<le> unat (P2V PHYSTOP)" using n(1) r(2) by simp
  ultimately show ?thesis
    using r(7) by (simp only: pages_upto_set set_append Un_iff mem_Collect_eq) blast
qed

text \<open>
  C29: the two phases of initialisation in \<^verbatim>\<open>main\<close>, \<^verbatim>\<open>kinit1(end, P2V(4*1024*1024))\<close> and
  \<^verbatim>\<open>kinit2(P2V(4*1024*1024), P2V(PHYSTOP))\<close>, terminate without a panic and leave on the
  free list every allocatable page, each one once, with the lock in use.
\<close>

theorem kinit_frees_all:
  assumes "freelist s = 0" and "KERNBASE \<le> kend" and "kend \<le> P2V 0x400000"
  shows "\<exists>s1 s2 ps. kinit1 kend s kend (P2V 0x400000) = Ok s1 \<and>
    kinit2 kend s1 (P2V 0x400000) (P2V PHYSTOP) = Ok s2 \<and>
    use_lock s2 \<and> kmem_inv kend s2 ps \<and> set ps = {p. valid_page kend p}"
proof -
  define s0 where "s0 = s\<lparr>klock := initlock ''kmem'' (klock s), use_lock := False\<rparr>"
  define v where "v = P2V 0x400000"
  let ?p1 = "PGROUNDUP kend" and ?p2 = "PGROUNDUP v"
  let ?ps = "pages_upto ?p2 (P2V PHYSTOP) @ pages_upto ?p1 v"
  note r = boot_ranges [OF assms(2,3), folded v_def]
  have "kmem_inv kend s0 []" using assms(1) by (simp add: s0_def kmem_inv_def)
  then obtain s1 where s1: "freerange_loop kend s0 ?p1 v = Ok s1" "kmem_inv kend s1 (pages_upto ?p1 v @ [])"
    using freerange_loop_inv [of kend s0 "[]" ?p1 v] r
    by (auto simp: word_le_nat_alt KERNBASE_def)
  have below: "\<forall>q \<in> set (pages_upto ?p1 v @ []). q < ?p2 \<or> P2V PHYSTOP \<le> q"
    using pages_upto_mem [of _ ?p1 v] r(1,8) by (fastforce simp: word_less_nat_alt)
  obtain s2 where s2: "freerange_loop kend s1 ?p2 (P2V PHYSTOP) = Ok s2" "kmem_inv kend s2 ?ps"
    using freerange_loop_inv [of kend s1 "pages_upto ?p1 v @ []" ?p2 "P2V PHYSTOP"] s1(2) below r
    by (auto simp: word_le_nat_alt KERNBASE_def)
  have "set ?ps = {p. valid_page kend p}"
    using boot_pages_complete [OF assms(2,3), folded v_def] s2(2) unfolding kmem_inv_def by blast
  moreover have "kmem_inv kend (s2\<lparr>use_lock := True\<rparr>) ?ps" using s2(2) by (simp add: kmem_inv_def)
  moreover have "kinit1 kend s kend v = Ok s1" using s1(1) by (simp add: kinit1_def freerange_def s0_def)
  moreover have "kinit2 kend s1 v (P2V PHYSTOP) = Ok (s2\<lparr>use_lock := True\<rparr>)"
    using s2(1) by (simp add: kinit2_def freerange_def)
  ultimately show ?thesis unfolding v_def [symmetric] by force
qed

theorem kinit_frees_all_witness:
  "\<exists>s1 s2 ps. kinit1 0x80108000 (two_pages\<lparr>freelist := 0\<rparr>) 0x80108000 (P2V 0x400000) = Ok s1 \<and>
    kinit2 0x80108000 s1 (P2V 0x400000) (P2V PHYSTOP) = Ok s2 \<and>
    use_lock s2 \<and> kmem_inv 0x80108000 s2 ps \<and> set ps = {p. valid_page 0x80108000 p}"
  by (rule kinit_frees_all) (simp_all add: two_pages_def KERNBASE_def P2V_def)

end
