(* ===== verification/Xv6_Vm.thy ===== *)
theory Xv6_Vm
  imports Xv6_Kalloc
begin

text \<open>
  Page tables, \<^verbatim>\<open>src/xv6/vm.c\<close>.  A page directory and its page tables are words in the
  memory that the allocator hands out, at kernel virtual addresses.  Two linker symbols are
  parameters: \<open>kend\<close> (\<^verbatim>\<open>end\<close>) and \<open>kdata\<close> (\<^verbatim>\<open>data\<close>).  A dereference of a null pointer in
  the kernel is a page fault, which \<^verbatim>\<open>trap\<close> answers with \<^verbatim>\<open>panic("trap")\<close>.
\<close>

section \<open>Macros of mmu.h\<close>

definition PDX :: "uint \<Rightarrow> uint" where "PDX va = drop_bit 22 va AND 0x3FF"
definition PTX :: "uint \<Rightarrow> uint" where "PTX va = drop_bit 12 va AND 0x3FF"

definition PGADDR :: "uint \<Rightarrow> uint \<Rightarrow> uint \<Rightarrow> uint" where
  "PGADDR d t off = push_bit 22 d OR push_bit 12 t OR off"

definition PTE_P :: uint where "PTE_P = 1"
definition PTE_W :: uint where "PTE_W = 2"
definition PTE_U :: uint where "PTE_U = 4"
definition PTE_ADDR :: "uint \<Rightarrow> uint" where "PTE_ADDR pte = pte AND NOT 0xFFF"
definition PTE_FLAGS :: "uint \<Rightarrow> uint" where "PTE_FLAGS pte = pte AND 0xFFF"

definition EXTMEM :: uint where "EXTMEM = 0x100000"
definition DEVSPACE :: uint where "DEVSPACE = 0xFE000000"
definition KERNLINK :: uint where "KERNLINK = KERNBASE + EXTMEM"

section \<open>Walking and filling page tables\<close>

definition poke :: "kmem \<Rightarrow> uint \<Rightarrow> uint \<Rightarrow> kmem" where
  "poke s a v = s\<lparr>kmemory := store32 (kmemory s) a v\<rparr>"

definition kmemset :: "kmem \<Rightarrow> uint \<Rightarrow> uint \<Rightarrow> uint \<Rightarrow> kmem" where
  "kmemset s a c n = s\<lparr>kmemory := memset (kmemory s) a c n\<rparr>"

definition kmemmove :: "kmem \<Rightarrow> uint \<Rightarrow> uint \<Rightarrow> uint \<Rightarrow> kmem" where
  "kmemmove s dst src n = s\<lparr>kmemory := memmove (kmemory s) dst src n\<rparr>"

definition walkpgdir :: "kmem \<Rightarrow> uint \<Rightarrow> uint \<Rightarrow> bool \<Rightarrow> uint \<times> kmem" where
  "walkpgdir s pgdir va alloc =
     (let pde = pgdir + 4 * PDX va; e = load32 (kmemory s) pde
      in if e AND PTE_P \<noteq> 0 then (P2V (PTE_ADDR e) + 4 * PTX va, s)
         else if \<not> alloc then (0, s)
         else case kalloc s of (pgtab, s1) \<Rightarrow>
           if pgtab = 0 then (0, s1)
           else let s2 = kmemset s1 pgtab 0 PGSIZE;
                    s3 = poke s2 pde (V2P pgtab OR PTE_P OR PTE_W OR PTE_U)
                in (pgtab + 4 * PTX va, s3))"

text \<open>
  One turn of the loop of \<^verbatim>\<open>mappages\<close>, and the loop: \<open>a\<close> and \<open>last\<close> are page aligned, so
  \<^verbatim>\<open>a == last\<close> after \<open>(last - a) / PGSIZE\<close> increments.  The result is 0 or -1.
\<close>

definition mappage1 :: "kmem \<Rightarrow> uint \<Rightarrow> uint \<Rightarrow> uint \<Rightarrow> uint \<Rightarrow> (int \<times> kmem) outcome" where
  "mappage1 s pgdir a pa perm =
     (case walkpgdir s pgdir a True of (pte, s1) \<Rightarrow>
        if pte = 0 then Ok (- 1, s1)
        else if load32 (kmemory s1) pte AND PTE_P \<noteq> 0 then Panic ''remap''
        else Ok (0, poke s1 pte (pa OR perm OR PTE_P)))"

primrec mappages_loop :: "nat \<Rightarrow> kmem \<Rightarrow> uint \<Rightarrow> uint \<Rightarrow> uint \<Rightarrow> uint \<Rightarrow> (int \<times> kmem) outcome" where
  "mappages_loop 0 s pgdir a pa perm = mappage1 s pgdir a pa perm"
| "mappages_loop (Suc n) s pgdir a pa perm =
     obind (mappage1 s pgdir a pa perm) (\<lambda>(r, s1).
       if r = - 1 then Ok (- 1, s1)
       else mappages_loop n s1 pgdir (a + PGSIZE) (pa + PGSIZE) perm)"

definition mappages :: "kmem \<Rightarrow> uint \<Rightarrow> uint \<Rightarrow> uint \<Rightarrow> uint \<Rightarrow> uint \<Rightarrow> (int \<times> kmem) outcome" where
  "mappages s pgdir va sz pa perm =
     (let a = PGROUNDDOWN va; last = PGROUNDDOWN (va + sz - 1)
      in mappages_loop (unat ((last - a) div PGSIZE)) s pgdir a pa perm)"

section \<open>Releasing memory\<close>

text \<open>
  The loop of \<^verbatim>\<open>deallocuvm\<close> skips to the end of a page directory entry that is not present.
  It does not end when \<open>a\<close> wraps around; not returning is \<^term>\<open>None\<close> here and
  \<^term>\<open>Blocked\<close> for the callers.
\<close>

definition returned :: "'a outcome option \<Rightarrow> 'a outcome" where
  "returned r = (case r of None \<Rightarrow> Blocked | Some x \<Rightarrow> x)"

definition dealloc1 :: "uint \<Rightarrow> kmem \<Rightarrow> uint \<Rightarrow> uint \<Rightarrow> (uint \<times> kmem) outcome" where
  "dealloc1 kend s pgdir a =
     (case walkpgdir s pgdir a False of (pte, s1) \<Rightarrow>
        if pte = 0 then Ok (PGADDR (PDX a + 1) 0 0 - PGSIZE, s1)
        else let e = load32 (kmemory s1) pte
             in if e AND PTE_P \<noteq> 0
                then let pa = PTE_ADDR e
                     in if pa = 0 then Panic ''kfree''
                        else obind (kfree kend s1 (P2V pa)) (\<lambda>s2. Ok (a, poke s2 pte 0))
                else Ok (a, s1))"

partial_function (option) dealloc_loop ::
  "uint \<Rightarrow> kmem \<Rightarrow> uint \<Rightarrow> uint \<Rightarrow> uint \<Rightarrow> kmem outcome option" where
  "dealloc_loop kend s pgdir a oldsz =
     (if a < oldsz
      then case dealloc1 kend s pgdir a of
             Ok (a1, s1) \<Rightarrow> dealloc_loop kend s1 pgdir (a1 + PGSIZE) oldsz
           | Panic e \<Rightarrow> Some (Panic e)
           | Blocked \<Rightarrow> Some Blocked
      else Some (Ok s))"

definition deallocuvm :: "uint \<Rightarrow> kmem \<Rightarrow> uint \<Rightarrow> uint \<Rightarrow> uint \<Rightarrow> (uint \<times> kmem) outcome" where
  "deallocuvm kend s pgdir oldsz newsz =
     (if newsz \<ge> oldsz then Ok (oldsz, s)
      else obind (returned (dealloc_loop kend s pgdir (PGROUNDUP newsz) oldsz)) (\<lambda>s1. Ok (newsz, s1)))"

primrec free_tables :: "nat \<Rightarrow> uint \<Rightarrow> kmem \<Rightarrow> uint \<Rightarrow> uint \<Rightarrow> kmem outcome" where
  "free_tables 0 kend s pgdir i = Ok s"
| "free_tables (Suc n) kend s pgdir i =
     (let e = load32 (kmemory s) (pgdir + 4 * i)
      in obind (if e AND PTE_P \<noteq> 0 then kfree kend s (P2V (PTE_ADDR e)) else Ok s)
           (\<lambda>s1. free_tables n kend s1 pgdir (i + 1)))"

definition freevm :: "uint \<Rightarrow> kmem \<Rightarrow> uint \<Rightarrow> kmem outcome" where
  "freevm kend s pgdir =
     (if pgdir = 0 then Panic ''freevm: no pgdir''
      else obind (deallocuvm kend s pgdir KERNBASE 0) (\<lambda>(_, s1).
           obind (free_tables 1024 kend s1 pgdir 0) (\<lambda>s2. kfree kend s2 pgdir)))"

section \<open>Creating address spaces\<close>

record kmap_entry =
  virt :: uint
  phys_start :: uint
  phys_end :: uint
  perm :: uint

definition kmap :: "uint \<Rightarrow> kmap_entry list" where
  "kmap kdata =
     [\<lparr>virt = KERNBASE, phys_start = 0, phys_end = EXTMEM, perm = PTE_W\<rparr>,
      \<lparr>virt = KERNLINK, phys_start = V2P KERNLINK, phys_end = V2P kdata, perm = 0\<rparr>,
      \<lparr>virt = kdata, phys_start = V2P kdata, phys_end = PHYSTOP, perm = PTE_W\<rparr>,
      \<lparr>virt = DEVSPACE, phys_start = DEVSPACE, phys_end = 0, perm = PTE_W\<rparr>]"

primrec setup_loop :: "kmap_entry list \<Rightarrow> uint \<Rightarrow> kmem \<Rightarrow> uint \<Rightarrow> (uint \<times> kmem) outcome" where
  "setup_loop [] kend s pgdir = Ok (pgdir, s)"
| "setup_loop (k # ks) kend s pgdir =
     obind (mappages s pgdir (virt k) (phys_end k - phys_start k) (phys_start k) (perm k)) (\<lambda>(r, s1).
       if r < 0 then obind (freevm kend s1 pgdir) (\<lambda>s2. Ok (0, s2))
       else setup_loop ks kend s1 pgdir)"

definition setupkvm :: "uint \<Rightarrow> uint \<Rightarrow> kmem \<Rightarrow> (uint \<times> kmem) outcome" where
  "setupkvm kend kdata s =
     (case kalloc s of (pgdir, s1) \<Rightarrow>
        if pgdir = 0 then Ok (0, s1)
        else if P2V PHYSTOP > DEVSPACE then Panic ''PHYSTOP too high''
        else setup_loop (kmap kdata) kend (kmemset s1 pgdir 0 PGSIZE) pgdir)"

text \<open>
  \<^verbatim>\<open>inituvm\<close> does not look at the results of \<^verbatim>\<open>kalloc\<close> and \<^verbatim>\<open>mappages\<close>.  The initial
  program \<open>init\<close> is an address of the kernel image.
\<close>

definition inituvm :: "kmem \<Rightarrow> uint \<Rightarrow> uint \<Rightarrow> uint \<Rightarrow> kmem outcome" where
  "inituvm s pgdir init sz =
     (if sz \<ge> PGSIZE then Panic ''inituvm: more than a page''
      else case kalloc s of (mem, s1) \<Rightarrow>
        if mem = 0 then Panic ''trap''
        else let s2 = kmemset s1 mem 0 PGSIZE
             in obind (mappages s2 pgdir 0 PGSIZE (V2P mem) (PTE_W OR PTE_U)) (\<lambda>(_, s3).
                  Ok (kmemmove s3 mem init sz)))"

function allocuvm_loop ::
  "uint \<Rightarrow> kmem \<Rightarrow> uint \<Rightarrow> uint \<Rightarrow> uint \<Rightarrow> uint \<Rightarrow> (uint \<times> kmem) outcome" where
  "allocuvm_loop kend s pgdir a oldsz newsz =
     (if a < newsz \<and> newsz < KERNBASE
      then case kalloc s of (mem, s1) \<Rightarrow>
        if mem = 0 then obind (deallocuvm kend s1 pgdir newsz oldsz) (\<lambda>(_, s2). Ok (0, s2))
        else obind (mappages (kmemset s1 mem 0 PGSIZE) pgdir a PGSIZE (V2P mem) (PTE_W OR PTE_U))
          (\<lambda>(r, s2).
            if r < 0
            then obind (deallocuvm kend s2 pgdir newsz oldsz) (\<lambda>(_, s3).
                 obind (kfree kend s3 mem) (\<lambda>s4. Ok (0, s4)))
            else allocuvm_loop kend s2 pgdir (a + PGSIZE) oldsz newsz)
      else Ok (newsz, s))"
  by pat_completeness auto
termination
  by (relation "measure (\<lambda>(kend, s, pgdir, a, oldsz, newsz). 2 ^ 32 - unat a)")
    (auto simp: word_less_nat_alt KERNBASE_def unat_uint_add)

definition allocuvm :: "uint \<Rightarrow> kmem \<Rightarrow> uint \<Rightarrow> uint \<Rightarrow> uint \<Rightarrow> (uint \<times> kmem) outcome" where
  "allocuvm kend s pgdir oldsz newsz =
     (if newsz \<ge> KERNBASE then Ok (0, s)
      else if newsz < oldsz then Ok (oldsz, s)
      else allocuvm_loop kend s pgdir (PGROUNDUP oldsz) oldsz newsz)"

definition clearpteu :: "kmem \<Rightarrow> uint \<Rightarrow> uint \<Rightarrow> kmem outcome" where
  "clearpteu s pgdir uva =
     (case walkpgdir s pgdir uva False of (pte, s1) \<Rightarrow>
        if pte = 0 then Panic ''clearpteu''
        else Ok (poke s1 pte (load32 (kmemory s1) pte AND NOT PTE_U)))"

text \<open>\<^verbatim>\<open>copyuvm\<close>: one page, with \<^term>\<open>None\<close> for \<^verbatim>\<open>goto bad\<close>, and the loop over the pages.\<close>

definition copypage :: "uint \<Rightarrow> kmem \<Rightarrow> uint \<Rightarrow> uint \<Rightarrow> uint \<Rightarrow> (bool \<times> kmem) outcome" where
  "copypage kend s pgdir d i =
     (case walkpgdir s pgdir i False of (pte, s1) \<Rightarrow>
        if pte = 0 then Panic ''copyuvm: pte should exist''
        else let e = load32 (kmemory s1) pte
             in if e AND PTE_P = 0 then Panic ''copyuvm: page not present''
                else case kalloc s1 of (mem, s2) \<Rightarrow>
                  if mem = 0 then Ok (False, s2)
                  else obind (mappages (kmemmove s2 mem (P2V (PTE_ADDR e)) PGSIZE) d i PGSIZE
                                (V2P mem) (PTE_FLAGS e)) (\<lambda>(r, s3).
                    if r < 0 then obind (kfree kend s3 mem) (\<lambda>s4. Ok (False, s4))
                    else Ok (True, s3)))"

partial_function (option) copyuvm_loop ::
  "uint \<Rightarrow> kmem \<Rightarrow> uint \<Rightarrow> uint \<Rightarrow> uint \<Rightarrow> uint \<Rightarrow> (uint \<times> kmem) outcome option" where
  "copyuvm_loop kend s pgdir d i sz =
     (if i < sz
      then case copypage kend s pgdir d i of
             Ok (ok, s1) \<Rightarrow>
               (if ok then copyuvm_loop kend s1 pgdir d (i + PGSIZE) sz
                else Some (obind (freevm kend s1 d) (\<lambda>s2. Ok (0, s2))))
           | Panic e \<Rightarrow> Some (Panic e)
           | Blocked \<Rightarrow> Some Blocked
      else Some (Ok (d, s)))"

definition copyuvm :: "uint \<Rightarrow> uint \<Rightarrow> kmem \<Rightarrow> uint \<Rightarrow> uint \<Rightarrow> (uint \<times> kmem) outcome" where
  "copyuvm kend kdata s pgdir sz =
     obind (setupkvm kend kdata s) (\<lambda>(d, s1).
       if d = 0 then Ok (0, s1) else returned (copyuvm_loop kend s1 pgdir d 0 sz))"

section \<open>Access to user memory\<close>

definition uva2ka :: "kmem \<Rightarrow> uint \<Rightarrow> uint \<Rightarrow> uint outcome" where
  "uva2ka s pgdir uva =
     (case walkpgdir s pgdir uva False of (pte, s1) \<Rightarrow>
        if pte = 0 then Panic ''trap''
        else let e = load32 (kmemory s1) pte
             in if e AND PTE_P = 0 then Ok 0
                else if e AND PTE_U = 0 then Ok 0
                else Ok (P2V (PTE_ADDR e)))"

function copyout :: "kmem \<Rightarrow> uint \<Rightarrow> uint \<Rightarrow> uint \<Rightarrow> uint \<Rightarrow> (int \<times> kmem) outcome" where
  "copyout s pgdir va p len =
     (if len > 0
      then let va0 = PGROUNDDOWN va
           in obind (uva2ka s pgdir va0) (\<lambda>pa0.
             if pa0 = 0 then Ok (- 1, s)
             else let n0 = PGSIZE - (va - va0); n = (if n0 > len then len else n0)
                  in copyout (kmemmove s (pa0 + (va - va0)) p n) pgdir (va0 + PGSIZE) (p + n) (len - n))
      else Ok (0, s))"
  by pat_completeness auto
termination
proof (relation "measure (\<lambda>(s, pgdir, va, p, len). unat len)", goal_cases)
  case (2 s pgdir va p len va0 pa0 n0 n)
  have "unat va0 \<le> unat va" "unat va - unat va0 < 4096"
    using PGROUNDDOWN_nat [of va] 2(2) by simp_all
  then have "unat (va - va0) < 4096" by (simp add: unat_uint_sub)
  then have "0 < unat n0" using 2(5) by (simp add: unat_uint_sub)
  then show ?case using 2(1,6) by (auto simp: word_less_nat_alt unat_uint_sub)
qed simp

declare copyout.simps [simp del] allocuvm_loop.simps [simp del]

section \<open>Entries of a table page\<close>

definition entry :: "uint \<Rightarrow> uint \<Rightarrow> uint" where
  "entry t i = t + 4 * i"

definition ent :: "mem \<Rightarrow> uint \<Rightarrow> uint \<Rightarrow> uint" where
  "ent m t i = load32 m (entry t i)"

lemma index_mask: "drop_bit n va AND 0x3FF = take_bit 10 (drop_bit n va)" for va :: uint
proof -
  have "(0x3FF :: uint) = mask 10" by (simp add: mask_eq_exp_minus_1)
  then show ?thesis by (simp only: take_bit_eq_mask)
qed

lemma PDX_nat: "unat (PDX va) = unat va div 2 ^ 22"
proof -
  have "unat va div 2 ^ 22 < 2 ^ 10" using unat_uint_less [of va] by simp
  then show ?thesis
    unfolding PDX_def index_mask unsigned_take_bit_eq unsigned_drop_bit_eq
    by (simp add: take_bit_nat_eq_self drop_bit_eq_div)
qed

lemma PTX_nat: "unat (PTX va) = unat va div 4096 mod 1024"
  unfolding PTX_def index_mask unsigned_take_bit_eq unsigned_drop_bit_eq
  using unat_uint_less [of va] by (simp add: take_bit_eq_mod drop_bit_eq_div)

lemma PDX_less [simp]: "PDX va < 1024"
  using unat_uint_less [of va] by (simp add: word_less_nat_alt PDX_nat less_mult_imp_div_less)

lemma PTX_less [simp]: "PTX va < 1024"
  by (simp add: word_less_nat_alt PTX_nat)

lemma entry_offset:
  assumes "i < 1024" and "k < 4"
  shows "in_page t (entry t i + k)"
proof -
  have "entry t i + k - t = 4 * i + k" by (simp add: entry_def)
  moreover have "unat (4 * i) = 4 * unat i"
    using assms(1) by (simp add: word_less_nat_alt unat_word_ariths)
  then have "unat (4 * i + k) < 4096"
    using assms by (simp add: word_less_nat_alt unat_uint_add)
  ultimately show ?thesis unfolding in_page_def by (simp only: word_less_nat_alt) simp
qed

lemma entry_in_page: "i < 1024 \<Longrightarrow> in_page t (entry t i)"
  using entry_offset [of i 0 t] by simp

lemma entry_nat:
  assumes "2 ^ 12 dvd unat t" and "i < 1024"
  shows "unat (entry t i) = unat t + 4 * unat i"
proof -
  have i: "4 * unat i < 4096" using assms(2) by (simp add: word_less_nat_alt)
  have "entry t i = t + of_nat (4 * unat i)" by (simp add: entry_def)
  then show ?thesis
    using unat_aligned_add [of 12 t "4 * unat i"] assms(1) i by simp
qed

lemma entry_aligned: "2 ^ 12 dvd unat t \<Longrightarrow> i < 1024 \<Longrightarrow> 4 dvd unat (entry t i)"
proof -
  assume t: "2 ^ 12 dvd unat t" and i: "i < 1024"
  from t have "4 dvd unat t" using dvd_trans [of 4 "2 ^ 12" "unat t"] by simp
  with entry_nat [OF t i] show ?thesis by simp
qed

lemma ent_cong:
  assumes "i < 1024" and "\<And>a. in_page t a \<Longrightarrow> m a = m' a"
  shows "ent m t i = ent m' t i"
proof -
  have "in_page t (entry t i + 0)" "in_page t (entry t i + 1)" "in_page t (entry t i + 2)"
    "in_page t (entry t i + 3)"
    using assms(1) by (intro entry_offset; simp)+
  then show ?thesis using assms(2) unfolding ent_def load32_def by simp
qed

lemma store_entry_other:
  assumes "i < 1024" and "\<not> in_page t a"
  shows "store32 m (entry t i) v a = m a"
proof -
  have "in_page t (entry t i + 0)" "in_page t (entry t i + 1)" "in_page t (entry t i + 2)"
    "in_page t (entry t i + 3)"
    using assms(1) by (intro entry_offset; simp)+
  with assms(2) show ?thesis unfolding store32_def by auto
qed

lemma ent_store_same_page:
  assumes "2 ^ 12 dvd unat t" and "i < 1024" and "j < 1024"
  shows "ent (store32 m (entry t i) v) t j = (if i = j then v else ent m t j)"
proof (cases "i = j")
  case True
  then show ?thesis by (simp add: ent_def)
next
  case False
  then have "entry t i \<noteq> entry t j"
    using entry_nat [OF assms(1,2)] entry_nat [OF assms(1,3)] by (auto simp: word_unat_eq_iff)
  with False show ?thesis
    using entry_aligned [OF assms(1)] assms(2,3) by (simp add: ent_def load_store32_other)
qed

lemma ent_store_other_page:
  assumes "2 ^ 12 dvd unat t" "2 ^ 12 dvd unat u" "t \<noteq> u" "i < 1024" "j < 1024"
  shows "ent (store32 m (entry t i) v) u j = ent m u j"
  by (rule ent_cong [OF assms(5)])
    (use assms in_page_disjoint store_entry_other in blast)

lemma memset_page: "memset m t c PGSIZE = (\<lambda>a. if in_page t a then ucast c else m a)"
  by (simp add: memset_spec in_page_def)

lemma ent_memset_zero: "i < 1024 \<Longrightarrow> ent (memset m t 0 PGSIZE) t i = 0"
proof -
  assume "i < 1024"
  then have "ent (memset m t 0 PGSIZE) t i = ent (\<lambda>_. 0) t i"
    by (rule ent_cong) (simp add: memset_page)
  then show ?thesis by (simp add: ent_def load32_def le32_def)
qed

lemma ent_memset_other:
  assumes "2 ^ 12 dvd unat t" "2 ^ 12 dvd unat u" "t \<noteq> u" "i < 1024"
  shows "ent (memset m t c PGSIZE) u i = ent m u i"
  by (rule ent_cong [OF assms(4)]) (use assms in_page_disjoint in \<open>auto simp: memset_page\<close>)

section \<open>Address spaces\<close>

text \<open>
  What the paging hardware sees: the entry for a virtual address, if it is present.  A page
  directory is well formed when it and its page tables are distinct allocatable pages.
\<close>

definition present :: "mem \<Rightarrow> uint \<Rightarrow> uint \<Rightarrow> bool" where
  "present m pgdir i \<longleftrightarrow> ent m pgdir i AND PTE_P \<noteq> 0"

definition tab :: "mem \<Rightarrow> uint \<Rightarrow> uint \<Rightarrow> uint" where
  "tab m pgdir i = P2V (PTE_ADDR (ent m pgdir i))"

definition vm_pte :: "mem \<Rightarrow> uint \<Rightarrow> uint \<Rightarrow> uint option" where
  "vm_pte m pgdir va =
     (if present m pgdir (PDX va)
      then let e = ent m (tab m pgdir (PDX va)) (PTX va)
           in if e AND PTE_P \<noteq> 0 then Some e else None
      else None)"

definition pgdir_ok :: "uint \<Rightarrow> mem \<Rightarrow> uint \<Rightarrow> bool" where
  "pgdir_ok kend m pgdir \<longleftrightarrow> valid_page kend pgdir \<and>
     (\<forall>i < 1024. present m pgdir i \<longrightarrow> valid_page kend (tab m pgdir i) \<and> tab m pgdir i \<noteq> pgdir) \<and>
     (\<forall>i < 1024. \<forall>j < 1024. present m pgdir i \<longrightarrow> present m pgdir j \<longrightarrow>
        tab m pgdir i = tab m pgdir j \<longrightarrow> i = j)"

definition ptpages :: "mem \<Rightarrow> uint \<Rightarrow> uint set" where
  "ptpages m pgdir = insert pgdir {tab m pgdir i | i. i < 1024 \<and> present m pgdir i}"

lemma pgdir_okD:
  assumes "pgdir_ok kend m pgdir" and "i < 1024" and "present m pgdir i"
  shows "valid_page kend (tab m pgdir i)" and "tab m pgdir i \<noteq> pgdir"
    and "2 ^ 12 dvd unat (tab m pgdir i)" and "tab m pgdir i \<in> ptpages m pgdir"
  using assms valid_page_aligned by (auto simp: pgdir_ok_def ptpages_def)

lemma pgdir_ok_inj:
  "pgdir_ok kend m pgdir \<Longrightarrow> i < 1024 \<Longrightarrow> j < 1024 \<Longrightarrow> present m pgdir i \<Longrightarrow> present m pgdir j \<Longrightarrow>
     tab m pgdir i = tab m pgdir j \<Longrightarrow> i = j"
  by (simp add: pgdir_ok_def)

lemma ptpages_valid: "pgdir_ok kend m pgdir \<Longrightarrow> p \<in> ptpages m pgdir \<Longrightarrow> valid_page kend p"
  by (auto simp: ptpages_def pgdir_ok_def)

lemma PTE_ADDR_PGROUNDDOWN: "PTE_ADDR e = PGROUNDDOWN e"
  by (simp add: PTE_ADDR_def PGROUNDDOWN_def)

lemma PTE_ADDR_or:
  assumes "2 ^ 12 dvd unat a" and "f < 4096"
  shows "PTE_ADDR (a OR f) = a"
proof -
  have "take_bit 12 a = 0"
    using assms(1) unfolding word_unat_eq_iff unsigned_take_bit_eq by (simp add: take_bit_eq_mod)
  then have a: "12 \<le> n" if "bit a n" for n
    using that bit_take_bit_iff [of 12 a n] by (simp add: not_less)
  have "take_bit 12 f = f"
    using assms(2) unfolding word_unat_eq_iff unsigned_take_bit_eq
    by (simp add: take_bit_eq_mod word_less_nat_alt)
  then have f: "\<not> bit f n" if "12 \<le> n" for n
    using that bit_take_bit_iff [of 12 f n] by simp
  have "(0xFFF :: uint) = mask 12" by (simp add: mask_eq_exp_minus_1)
  then have "PTE_ADDR (a OR f) = (a OR f) AND NOT (mask 12)" by (simp only: PTE_ADDR_def)
  also have "\<dots> = a"
    by (rule bit_word_eqI) (use a f in \<open>auto simp: bit_simps not_less\<close>)
  finally show ?thesis .
qed

lemma V2P_aligned: "2 ^ 12 dvd unat t \<Longrightarrow> 2 ^ 12 dvd unat (V2P t)"
proof -
  assume "2 ^ 12 dvd unat t"
  then have "4096 dvd unat t + 2 ^ 32 - 0x80000000"
    by (simp add: dvd_diff_nat)
  with \<open>2 ^ 12 dvd unat t\<close> show ?thesis by (simp add: V2P_def KERNBASE_def unat_uint_sub dvd_diff_nat)
qed

lemma P2V_V2P [simp]: "P2V (V2P t) = t"
  by (simp add: P2V_def V2P_def)

text \<open>A fresh table \<open>t\<close> installed in slot \<open>i\<close>, as \<^verbatim>\<open>walkpgdir\<close> does.\<close>

definition newtab :: "mem \<Rightarrow> uint \<Rightarrow> uint \<Rightarrow> uint \<Rightarrow> mem" where
  "newtab m pgdir i t = store32 (memset m t 0 PGSIZE) (entry pgdir i) (V2P t OR PTE_P OR PTE_W OR PTE_U)"

lemma table_flags: "V2P t OR PTE_P OR PTE_W OR PTE_U = V2P t OR 7"
  by (simp add: PTE_P_def PTE_W_def PTE_U_def or.assoc)

lemma or_flags_present: "(a OR f) AND PTE_P \<noteq> 0" if "f AND PTE_P \<noteq> 0"
proof -
  have "bit f 0" using that by (simp add: PTE_P_def and_one_eq bit_0 odd_iff_mod_2_eq_one)
  then have "bit ((a OR f) AND PTE_P) 0" by (simp add: PTE_P_def bit_and_iff bit_or_iff)
  then show ?thesis by auto
qed

lemma newtab_outside:
  "i < 1024 \<Longrightarrow> \<not> in_page t a \<Longrightarrow> \<not> in_page pgdir a \<Longrightarrow> newtab m pgdir i t a = m a"
  by (simp add: newtab_def store_entry_other memset_page)

lemma newtab_ent:
  assumes ok: "pgdir_ok kend m pgdir" and t: "valid_page kend t" "t \<notin> ptpages m pgdir"
    and i: "i < 1024" and j: "j < 1024"
  shows "ent (newtab m pgdir i t) pgdir j = (if i = j then V2P t OR 7 else ent m pgdir j)"
    and "ent (newtab m pgdir i t) t j = 0"
    and "2 ^ 12 dvd unat u \<Longrightarrow> u \<noteq> t \<Longrightarrow> u \<noteq> pgdir \<Longrightarrow> ent (newtab m pgdir i t) u j = ent m u j"
proof -
  have al: "2 ^ 12 dvd unat pgdir" "2 ^ 12 dvd unat t" "t \<noteq> pgdir"
    using ok t valid_page_aligned by (auto simp: pgdir_ok_def ptpages_def)
  show "ent (newtab m pgdir i t) pgdir j = (if i = j then V2P t OR 7 else ent m pgdir j)"
    using al i j by (simp add: newtab_def table_flags ent_store_same_page ent_memset_other)
  show "ent (newtab m pgdir i t) t j = 0"
    using al i j by (simp add: newtab_def ent_store_other_page ent_memset_zero)
  show "ent (newtab m pgdir i t) u j = ent m u j" if "2 ^ 12 dvd unat u" "u \<noteq> t" "u \<noteq> pgdir"
    using al i j that by (simp add: newtab_def ent_store_other_page ent_memset_other)
qed

lemma newtab_tab:
  assumes ok: "pgdir_ok kend m pgdir" and t: "valid_page kend t" "t \<notin> ptpages m pgdir"
    and i: "i < 1024" and j: "j < 1024"
  shows "present (newtab m pgdir i t) pgdir j \<longleftrightarrow> j = i \<or> present m pgdir j"
    and "tab (newtab m pgdir i t) pgdir j = (if j = i then t else tab m pgdir j)"
proof -
  note e = newtab_ent(1) [OF ok t i j]
  have "PTE_ADDR (V2P t OR 7) = V2P t"
    by (rule PTE_ADDR_or) (use t valid_page_aligned V2P_aligned in auto)
  then show "tab (newtab m pgdir i t) pgdir j = (if j = i then t else tab m pgdir j)"
    using e by (simp add: tab_def)
  have "(V2P t OR 7) AND PTE_P \<noteq> 0" by (rule or_flags_present) (simp add: PTE_P_def)
  then show "present (newtab m pgdir i t) pgdir j \<longleftrightarrow> j = i \<or> present m pgdir j"
    using e by (auto simp: present_def)
qed

lemma newtab_ok:
  assumes ok: "pgdir_ok kend m pgdir" and t: "valid_page kend t" "t \<notin> ptpages m pgdir"
    and i: "i < 1024" and absent: "\<not> present m pgdir i"
  shows "pgdir_ok kend (newtab m pgdir i t) pgdir"
    and "ptpages (newtab m pgdir i t) pgdir = insert t (ptpages m pgdir)"
    and "vm_pte (newtab m pgdir i t) pgdir va = vm_pte m pgdir va"
proof -
  note nt = newtab_tab [OF ok t i]
  have tp: "t \<noteq> pgdir" "\<And>j. j < 1024 \<Longrightarrow> present m pgdir j \<Longrightarrow> tab m pgdir j \<noteq> t"
    using t(2) pgdir_okD(4) [OF ok] by (auto simp: ptpages_def)
  show "pgdir_ok kend (newtab m pgdir i t) pgdir"
    unfolding pgdir_ok_def
  proof (intro conjI allI impI)
    show "valid_page kend pgdir" using ok by (simp add: pgdir_ok_def)
  next
    fix j :: uint assume j: "j < 1024" "present (newtab m pgdir i t) pgdir j"
    show "valid_page kend (tab (newtab m pgdir i t) pgdir j)"
      "tab (newtab m pgdir i t) pgdir j \<noteq> pgdir"
      using j nt [OF j(1)] t(1) tp(1) pgdir_okD(1,2) [OF ok j(1)] by auto
  next
    fix j k :: uint assume jk: "j < 1024" "k < 1024" "present (newtab m pgdir i t) pgdir j"
      "present (newtab m pgdir i t) pgdir k"
      "tab (newtab m pgdir i t) pgdir j = tab (newtab m pgdir i t) pgdir k"
    then show "j = k"
      using nt [OF jk(1)] nt [OF jk(2)] tp(2) [OF jk(1)] tp(2) [OF jk(2)]
        pgdir_ok_inj [OF ok jk(1,2)] by (auto split: if_splits)
  qed
  show "ptpages (newtab m pgdir i t) pgdir = insert t (ptpages m pgdir)"
    unfolding ptpages_def using nt i absent by (auto split: if_splits) metis+
  show "vm_pte (newtab m pgdir i t) pgdir va = vm_pte m pgdir va"
  proof (cases "PDX va = i")
    case True
    then show ?thesis using nt [of i] i absent newtab_ent(2) [OF ok t i, of "PTX va"]
      by (simp add: vm_pte_def)
  next
    case False
    then show ?thesis
      using nt [of "PDX va"] newtab_ent(3) [OF ok t i, of "PTX va" "tab m pgdir (PDX va)"]
        pgdir_okD(2,3) [OF ok, of "PDX va"] tp(2) [of "PDX va"]
      by (auto simp: vm_pte_def)
  qed
qed

lemma entry_nonzero: "valid_page kend t \<Longrightarrow> i < 1024 \<Longrightarrow> entry t i \<noteq> 0"
  using entry_nat [of t i] valid_page_iff [of kend t] by (auto simp: word_unat_eq_iff)

lemma walkpgdir_present:
  assumes "present (kmemory s) pgdir (PDX va)"
  shows "walkpgdir s pgdir va alloc = (entry (tab (kmemory s) pgdir (PDX va)) (PTX va), s)"
  using assms by (simp add: walkpgdir_def Let_def present_def ent_def entry_def tab_def)

lemma walkpgdir_absent:
  assumes "\<not> present (kmemory s) pgdir (PDX va)"
  shows "walkpgdir s pgdir va alloc =
    (if \<not> alloc then (0, s)
     else let (t, s1) = kalloc s
          in if t = 0 then (0, s1)
             else (entry t (PTX va), s1\<lparr>kmemory := newtab (kmemory s1) pgdir (PDX va) t\<rparr>))"
  using assms
  by (simp add: walkpgdir_def Let_def present_def ent_def entry_def newtab_def kmemset_def poke_def
      split: prod.splits)

text \<open>Releasing an address space whose page directory is empty gives back the directory alone.\<close>

lemma next_table:
  assumes "a < KERNBASE"
  shows "a < PGADDR (PDX a + 1) 0 0" "PGADDR (PDX a + 1) 0 0 \<le> KERNBASE"
proof -
  have d: "unat a div 2 ^ 22 < 512" using assms by (simp add: KERNBASE_def word_less_nat_alt)
  have "unat (PDX a + 1) = unat a div 2 ^ 22 + 1"
    using unat_uint_add [of "PDX a" 1] d by (simp add: PDX_nat)
  moreover have "unat (PGADDR e 0 0) = unat e * 2 ^ 22" if "unat e \<le> 512" for e
    using that unat_word_ariths(2) [of e "4194304 :: uint"] by (simp add: PGADDR_def push_bit_eq_mult)
  ultimately have u: "unat (PGADDR (PDX a + 1) 0 0) = (unat a div 2 ^ 22 + 1) * 2 ^ 22" using d by simp
  have "unat a div 2 ^ 22 * 2 ^ 22 + unat a mod 2 ^ 22 = unat a" by (rule div_mult_mod_eq)
  moreover have "unat a mod 2 ^ 22 < 2 ^ 22" by simp
  ultimately show "a < PGADDR (PDX a + 1) 0 0" unfolding word_less_nat_alt u by (simp add: algebra_simps)
  show "PGADDR (PDX a + 1) 0 0 \<le> KERNBASE" unfolding word_le_nat_alt u using d by (simp add: KERNBASE_def)
qed

lemma dealloc_loop_empty:
  assumes "\<forall>i < 1024. \<not> present (kmemory s) pgdir i"
  shows "dealloc_loop kend s pgdir a KERNBASE = Some (Ok s)"
proof (induction "unat KERNBASE - unat a" arbitrary: a rule: less_induct)
  case less
  show ?case
  proof (cases "a < KERNBASE")
    case True
    let ?b = "PGADDR (PDX a + 1) 0 0"
    have "dealloc1 kend s pgdir a = Ok (?b - PGSIZE, s)"
      using assms by (simp add: dealloc1_def walkpgdir_absent PDX_less)
    moreover have "unat a < unat ?b" "unat a < unat KERNBASE"
      using next_table(1) [OF True] True by (simp_all only: word_less_nat_alt)
    then have "dealloc_loop kend s pgdir ?b KERNBASE = Some (Ok s)" by (intro less) linarith
    ultimately show ?thesis using True by (subst dealloc_loop.simps) simp
  qed (subst dealloc_loop.simps, simp)
qed

lemma free_tables_empty:
  assumes "\<forall>i < 1024. \<not> present (kmemory s) pgdir i"
  shows "unat i + n \<le> 1024 \<Longrightarrow> free_tables n kend s pgdir i = Ok s"
proof (induction n arbitrary: i)
  case (Suc n)
  then have "i < 1024" and "unat (i + 1) = unat i + 1"
    using unat_uint_add [of i 1] by (simp_all add: word_less_nat_alt)
  with Suc assms show ?case by (simp add: Let_def present_def ent_def entry_def)
qed simp

lemma freevm_empty:
  assumes "\<forall>i < 1024. \<not> present (kmemory s) pgdir i" and "pgdir \<noteq> 0"
  shows "freevm kend s pgdir = kfree kend s pgdir"
proof -
  have "deallocuvm kend s pgdir KERNBASE 0 = Ok (0, s)"
    by (simp add: deallocuvm_def dealloc_loop_empty [OF assms(1)] returned_def)
  then show ?thesis
    using assms(2) free_tables_empty [OF assms(1), of 0 1024 kend] by (simp add: freevm_def)
qed

text \<open>
  The allocator is consistent with free pages \<open>ps\<close>, none of which is a page of the address
  space.
\<close>

definition space_ok :: "uint \<Rightarrow> kmem \<Rightarrow> uint list \<Rightarrow> uint \<Rightarrow> bool" where
  "space_ok kend s ps pgdir \<longleftrightarrow>
     kmem_inv kend s ps \<and> pgdir_ok kend (kmemory s) pgdir \<and> ptpages (kmemory s) pgdir \<inter> set ps = {}"

lemma kmem_inv_update:
  assumes inv: "kmem_inv kend s ps" and "\<And>a. (\<forall>p \<in> A. \<not> in_page p a) \<Longrightarrow> m' a = kmemory s a"
    and "A \<inter> set ps = {}" and "\<forall>p \<in> A. valid_page kend p"
  shows "kmem_inv kend (s\<lparr>kmemory := m'\<rparr>) ps"
proof -
  let ?f = "\<lambda>m a. if \<exists>p \<in> A. in_page p a then m' a else m a"
  have "confined ?f A" by (simp add: confined_def)
  then have "kmem_inv kend (client_write ?f s) ps" using assms client_write_inv by blast
  moreover have "?f (kmemory s) = m'" using assms(2) by (auto simp: fun_eq_iff)
  ultimately show ?thesis by (simp add: client_write_def)
qed

lemma walkpgdir_alloc:
  assumes ok: "space_ok kend s ps pgdir" and w: "walkpgdir s pgdir va True = (pte, s')"
  obtains ps' where "space_ok kend s' ps' pgdir" and "set ps' \<subseteq> set ps"
    and "ptpages (kmemory s') pgdir \<union> set ps' = ptpages (kmemory s) pgdir \<union> set ps"
    and "\<And>v. vm_pte (kmemory s') pgdir v = vm_pte (kmemory s) pgdir v"
    and "\<And>a. (\<forall>p \<in> ptpages (kmemory s) pgdir \<union> set ps. \<not> in_page p a) \<Longrightarrow> kmemory s' a = kmemory s a"
    and "pte \<noteq> 0 \<Longrightarrow> present (kmemory s') pgdir (PDX va) \<and>
           pte = entry (tab (kmemory s') pgdir (PDX va)) (PTX va)"
    and "pte = 0 \<longleftrightarrow> ps = [] \<and> \<not> present (kmemory s) pgdir (PDX va)"
proof (cases "present (kmemory s) pgdir (PDX va)")
  case True
  have "pgdir_ok kend (kmemory s) pgdir" using ok by (simp add: space_ok_def)
  from pgdir_okD(1) [OF this PDX_less True] have "pte \<noteq> 0"
    using w walkpgdir_present [OF True] entry_nonzero PTX_less by auto
  with True w walkpgdir_present [OF True] show ?thesis
    by (intro that [of ps]) (use ok in auto)
next
  case absent: False
  show ?thesis
  proof (cases ps)
    case Nil
    then have "kalloc s = (0, s)" using ok km.alloc_Nil [of kend s] by (simp add: space_ok_def)
    with absent w have "pte = 0" "s' = s" by (auto simp: walkpgdir_absent)
    with Nil absent show ?thesis by (intro that [of ps]) (use ok in auto)
  next
    case (Cons t ts)
    let ?m = "kmemory s"
    have inv: "kmem_inv kend s (t # ts)" and dir: "pgdir_ok kend ?m pgdir"
      and disj: "ptpages ?m pgdir \<inter> set (t # ts) = {}"
      using ok Cons by (auto simp: space_ok_def)
    define s1 where "s1 = s\<lparr>freelist := load32 ?m t\<rparr>"
    have al: "kalloc s = (t, s1)" and inv1: "kmem_inv kend s1 ts"
      using kalloc_Cons [OF inv] by (auto simp: s1_def)
    have t: "valid_page kend t" "t \<notin> ptpages ?m pgdir" "t \<notin> set ts"
      using inv disj by (auto simp: kmem_inv_def)
    then have t0: "t \<noteq> 0" using valid_page_nonzero by blast
    let ?m' = "newtab ?m pgdir (PDX va) t"
    have s': "s' = s1\<lparr>kmemory := ?m'\<rparr>" "pte = entry t (PTX va)"
      using w t0 by (auto simp: walkpgdir_absent [OF absent] al s1_def)
    note nt = newtab_ok [OF dir t(1,2) PDX_less absent]
    have valid_pd: "valid_page kend pgdir" "pgdir \<in> ptpages ?m pgdir"
      using dir by (simp_all add: pgdir_ok_def ptpages_def)
    have "kmem_inv kend s' ts" unfolding s'(1)
    proof (rule kmem_inv_update [OF inv1, where A = "{t, pgdir}"])
      show "\<And>a. \<forall>p \<in> {t, pgdir}. \<not> in_page p a \<Longrightarrow> ?m' a = kmemory s1 a"
        by (simp add: newtab_outside s1_def)
    qed (use t valid_pd disj in auto)
    then have "space_ok kend s' ts pgdir"
      using nt(1,2) t(3) disj by (auto simp: space_ok_def s')
    then show ?thesis
    proof (rule that)
      show "pte = 0 \<longleftrightarrow> ps = [] \<and> \<not> present ?m pgdir (PDX va)"
        using Cons s'(2) entry_nonzero [OF t(1) PTX_less] by simp
      show "present (kmemory s') pgdir (PDX va) \<and> pte = entry (tab (kmemory s') pgdir (PDX va)) (PTX va)"
        using newtab_tab [OF dir t(1,2) PDX_less PDX_less, of va va] by (simp add: s')
      show "kmemory s' a = ?m a" if "\<forall>p \<in> ptpages ?m pgdir \<union> set ps. \<not> in_page p a" for a
        using that valid_pd(2) Cons by (simp add: s' newtab_outside)
    qed (use Cons nt in \<open>auto simp: s'\<close>)
  qed
qed

section \<open>Mapping pages\<close>

lemma same_page_index:
  "PDX v = PDX a \<and> PTX v = PTX a \<longleftrightarrow> unat v div 4096 = unat a div 4096"
proof -
  have d: "unat x div 2 ^ 22 = unat x div 4096 div 1024" for x :: uint
    by (simp flip: div_mult2_eq)
  have "p div 1024 = q div 1024 \<and> p mod 1024 = q mod 1024 \<longleftrightarrow> p = q" for p q :: nat
    by (metis div_mult_mod_eq)
  then show ?thesis unfolding word_unat_eq_iff PDX_nat PTX_nat d .
qed

lemma same_page_offset:
  assumes "2 ^ 12 dvd unat (a :: uint)"
  shows "unat v div 4096 = unat a div 4096 \<longleftrightarrow> v - a < 4096"
proof -
  obtain n where n: "unat a = 4096 * n" using assms by (auto elim: dvdE)
  have a32: "4096 * n < 2 ^ 32" using unat_uint_less [of a] n by simp
  show ?thesis
  proof (cases "4096 * n \<le> unat v")
    case True
    have "unat v div 4096 = n \<longleftrightarrow> unat v < 4096 * n + 4096"
      using True by (auto intro!: div_nat_eqI)
    then show ?thesis using True n by (auto simp: word_less_nat_alt unat_uint_sub)
  next
    case False
    then have "unat v div 4096 \<noteq> n" by (metis not_less times_div_less_eq_dividend)
    moreover have "\<not> unat v + 2 ^ 32 - 4096 * n < 4096" using a32 by simp
    ultimately show ?thesis using False n by (auto simp: word_less_nat_alt unat_uint_sub)
  qed
qed

lemma setpte_ok:
  fixes va :: uint
  defines "i \<equiv> PDX va" and "j \<equiv> PTX va"
  assumes ok: "pgdir_ok kend m pgdir" and pr: "present m pgdir i" and e: "e AND PTE_P \<noteq> 0"
  defines "m' \<equiv> store32 m (entry (tab m pgdir i) j) e"
  shows "pgdir_ok kend m' pgdir" and "ptpages m' pgdir = ptpages m pgdir"
    and "vm_pte m' pgdir v = (if unat v div 4096 = unat va div 4096 then Some e else vm_pte m pgdir v)"
proof -
  let ?t = "tab m pgdir i"
  have ij: "i < 1024" "j < 1024" by (simp_all add: i_def j_def)
  have al: "2 ^ 12 dvd unat pgdir" "2 ^ 12 dvd unat ?t" "?t \<noteq> pgdir"
    using ok pgdir_okD [OF ok ij(1) pr] valid_page_aligned by (auto simp: pgdir_ok_def)
  have dir: "ent m' pgdir k = ent m pgdir k" if "k < 1024" for k
    unfolding m'_def using al ij that by (simp add: ent_store_other_page)
  have pt: "present m' pgdir k = present m pgdir k" "tab m' pgdir k = tab m pgdir k" if "k < 1024" for k
    using dir [OF that] by (simp_all add: present_def tab_def)
  show "pgdir_ok kend m' pgdir" using ok pt by (auto simp: pgdir_ok_def)
  show "ptpages m' pgdir = ptpages m pgdir" using pt unfolding ptpages_def by (metis (no_types, lifting))
  have other: "ent m' (tab m pgdir k) l = ent m (tab m pgdir k) l"
    if "k < 1024" "l < 1024" "present m pgdir k" "k \<noteq> i" for k l
  proof -
    have "?t \<noteq> tab m pgdir k" using pgdir_ok_inj [OF ok ij(1) that(1) pr that(3)] that(4) by auto
    then show ?thesis unfolding m'_def
      using al(2) pgdir_okD(3) [OF ok that(1,3)] ij(2) that(2) by (simp add: ent_store_other_page)
  qed
  have here: "ent m' ?t l = (if j = l then e else ent m ?t l)" if "l < 1024" for l
    unfolding m'_def using al(2) ij(2) that by (simp add: ent_store_same_page)
  show "vm_pte m' pgdir v = (if unat v div 4096 = unat va div 4096 then Some e else vm_pte m pgdir v)"
  proof (cases "PDX v = i")
    case True
    then show ?thesis
      using pr e pt [OF ij(1)] here [OF PTX_less, of v]
      by (auto simp: vm_pte_def Let_def same_page_index [symmetric] i_def j_def)
  next
    case False
    then have "unat v div 4096 \<noteq> unat va div 4096" by (simp add: same_page_index [symmetric] i_def)
    then show ?thesis
      using False pt [OF PDX_less, of v] other [OF PDX_less PTX_less, of v v] by (simp add: vm_pte_def)
  qed
qed

text \<open>What a mapping step keeps: the allocator, the other entries and the rest of memory.\<close>

definition space_step :: "uint \<Rightarrow> uint \<Rightarrow> kmem \<Rightarrow> uint list \<Rightarrow> kmem \<Rightarrow> uint list \<Rightarrow> bool" where
  "space_step kend pgdir s ps s' ps' \<longleftrightarrow>
     space_ok kend s' ps' pgdir \<and> set ps' \<subseteq> set ps \<and>
     ptpages (kmemory s') pgdir \<union> set ps' = ptpages (kmemory s) pgdir \<union> set ps \<and>
     (\<forall>a. (\<forall>p \<in> ptpages (kmemory s) pgdir \<union> set ps. \<not> in_page p a) \<longrightarrow> kmemory s' a = kmemory s a)"

lemma space_step_refl: "space_ok kend s ps pgdir \<Longrightarrow> space_step kend pgdir s ps s ps"
  by (simp add: space_step_def)

lemma space_step_trans:
  "space_step kend pgdir s ps s1 ps1 \<Longrightarrow> space_step kend pgdir s1 ps1 s2 ps2 \<Longrightarrow>
     space_step kend pgdir s ps s2 ps2"
  by (auto simp: space_step_def)

lemma mappage1_ok:
  assumes ok: "space_ok kend s ps pgdir"
  shows "if vm_pte (kmemory s) pgdir a \<noteq> None then mappage1 s pgdir a pa pm = Panic ''remap''
     else \<exists>r s' ps'. mappage1 s pgdir a pa pm = Ok (r, s') \<and> space_step kend pgdir s ps s' ps' \<and>
       (r = 0 \<or> r = - 1 \<and> ps = []) \<and>
       (\<forall>v. vm_pte (kmemory s') pgdir v =
          (if r = 0 \<and> unat v div 4096 = unat a div 4096 then Some (pa OR pm OR PTE_P)
           else vm_pte (kmemory s) pgdir v))"
proof -
  obtain pte s1 where w: "walkpgdir s pgdir a True = (pte, s1)" by (cases "walkpgdir s pgdir a True") auto
  obtain ps1 where ok1: "space_ok kend s1 ps1 pgdir" and sub: "set ps1 \<subseteq> set ps"
    and un: "ptpages (kmemory s1) pgdir \<union> set ps1 = ptpages (kmemory s) pgdir \<union> set ps"
    and same: "\<And>v. vm_pte (kmemory s1) pgdir v = vm_pte (kmemory s) pgdir v"
    and out: "\<And>a. (\<forall>p \<in> ptpages (kmemory s) pgdir \<union> set ps. \<not> in_page p a) \<Longrightarrow> kmemory s1 a = kmemory s a"
    and pte: "pte \<noteq> 0 \<Longrightarrow> present (kmemory s1) pgdir (PDX a) \<and>
           pte = entry (tab (kmemory s1) pgdir (PDX a)) (PTX a)"
    and zero: "pte = 0 \<longleftrightarrow> ps = [] \<and> \<not> present (kmemory s) pgdir (PDX a)"
    by (rule walkpgdir_alloc [OF ok w]) blast
  have step1: "space_step kend pgdir s ps s1 ps1"
    using ok1 sub un out by (simp add: space_step_def)
  show ?thesis
  proof (cases "pte = 0")
    case True
    then have "vm_pte (kmemory s) pgdir a = None" using zero by (simp add: vm_pte_def)
    moreover have "mappage1 s pgdir a pa pm = Ok (- 1, s1)" using w True by (simp add: mappage1_def)
    ultimately show ?thesis using step1 same zero True by auto
  next
    case False
    let ?m = "kmemory s1" and ?e = "pa OR pm OR PTE_P"
    let ?t = "tab (kmemory s1) pgdir (PDX a)"
    have pr: "present ?m pgdir (PDX a)" and pte': "pte = entry ?t (PTX a)" using pte [OF False] by auto
    have dir: "pgdir_ok kend ?m pgdir" using ok1 by (simp add: space_ok_def)
    have e: "?e AND PTE_P \<noteq> 0"
      using or_flags_present [of PTE_P "pa OR pm"] by (simp add: PTE_P_def or.assoc)
    note set = setpte_ok [OF dir pr e]
    have map1: "mappage1 s pgdir a pa pm =
        (if vm_pte ?m pgdir a \<noteq> None then Panic ''remap'' else Ok (0, poke s1 pte ?e))"
      using w False pr pte' by (auto simp: mappage1_def vm_pte_def ent_def Let_def)
    have "kmem_inv kend (poke s1 pte ?e) ps1"
      unfolding poke_def
    proof (rule kmem_inv_update [where A = "{?t}"])
      show "kmem_inv kend s1 ps1" using ok1 by (simp add: space_ok_def)
      show "{?t} \<inter> set ps1 = {}"
        using ok1 pgdir_okD(4) [OF dir PDX_less pr] by (auto simp: space_ok_def)
    qed (use pte' store_entry_other pgdir_okD(1) [OF dir PDX_less pr] in auto)
    then have "space_ok kend (poke s1 pte ?e) ps1 pgdir"
      using set(1,2) ok1 pte' by (simp add: space_ok_def poke_def)
    moreover have "kmemory (poke s1 pte ?e) b = kmemory s1 b"
      if "\<forall>p \<in> ptpages ?m pgdir \<union> set ps1. \<not> in_page p b" for b
      using that pgdir_okD(4) [OF dir PDX_less pr] pte' by (simp add: poke_def store_entry_other)
    ultimately have "space_step kend pgdir s1 ps1 (poke s1 pte ?e) ps1"
      using set(2) pte' by (simp add: space_step_def poke_def)
    with step1 have "space_step kend pgdir s ps (poke s1 pte ?e) ps1" by (rule space_step_trans)
    moreover have "vm_pte (kmemory (poke s1 pte ?e)) pgdir v =
        (if unat v div 4096 = unat a div 4096 then Some ?e else vm_pte (kmemory s) pgdir v)" for v
      using set(3) [of v] pte' same by (simp add: poke_def)
    ultimately show ?thesis using map1 same by auto
  qed
qed

text \<open>The index of the page of \<open>v\<close> counted from the page \<open>a\<close>, wrapping around.\<close>

definition page_no :: "uint \<Rightarrow> uint \<Rightarrow> nat" where
  "page_no a v = unat (v - a) div 4096"

lemma page_no_0: "2 ^ 12 dvd unat a \<Longrightarrow> page_no a v = 0 \<longleftrightarrow> unat v div 4096 = unat a div 4096"
  by (simp add: same_page_offset page_no_def word_less_nat_alt div_eq_0_iff)

lemma page_no_next:
  "page_no a v \<noteq> 0 \<Longrightarrow> page_no a v = Suc (page_no (a + 4096) v)"
  "page_no a v = 0 \<Longrightarrow> page_no (a + 4096) v \<ge> 2 ^ 20 - 1"
proof -
  have e: "unat (v - (a + 4096)) = (if 4096 \<le> unat (v - a) then unat (v - a) - 4096 else unat (v - a) + 2 ^ 32 - 4096)"
    using unat_uint_sub [of "v - a" 4096] by (simp add: diff_diff_eq)
  show "page_no a v = Suc (page_no (a + 4096) v)" if "page_no a v \<noteq> 0"
  proof -
    have "4096 \<le> unat (v - a)" using that by (simp add: page_no_def not_less)
    then show ?thesis using e by (simp add: page_no_def le_div_geq)
  qed
  show "page_no (a + 4096) v \<ge> 2 ^ 20 - 1" if "page_no a v = 0"
  proof -
    have "unat (v - a) < 4096" using that by (simp add: page_no_def div_eq_0_iff)
    then have "unat (v - (a + 4096)) \<ge> 2 ^ 32 - 4096" using e by simp
    then have "unat (v - (a + 4096)) div 4096 \<ge> (2 ^ 32 - 4096) div 4096" by (rule div_le_mono)
    then show ?thesis by (simp add: page_no_def)
  qed
qed

lemma mappages_loop_ok:
  assumes "space_ok kend s ps pgdir" and "2 ^ 12 dvd unat a" and "n < 2 ^ 20"
    and "\<forall>v. page_no a v \<le> n \<longrightarrow> vm_pte (kmemory s) pgdir v = None"
  shows "\<exists>r s' ps'. mappages_loop n s pgdir a pa pm = Ok (r, s') \<and> space_step kend pgdir s ps s' ps' \<and>
    (r = 0 \<or> r = - 1 \<and> ps' = []) \<and>
    (\<forall>v. page_no a v > n \<longrightarrow> vm_pte (kmemory s') pgdir v = vm_pte (kmemory s) pgdir v) \<and>
    (r = 0 \<longrightarrow> (\<forall>v. page_no a v \<le> n \<longrightarrow>
       vm_pte (kmemory s') pgdir v = Some ((pa + 4096 * of_nat (page_no a v)) OR pm OR PTE_P)))"
  using assms
proof (induction n arbitrary: s ps a pa)
  case 0
  have "vm_pte (kmemory s) pgdir a = None" using 0(4) by (simp add: page_no_def)
  then obtain r s' ps' where step: "mappage1 s pgdir a pa pm = Ok (r, s')"
    "space_step kend pgdir s ps s' ps'" "r = 0 \<or> r = - 1 \<and> ps = []"
    "\<forall>v. vm_pte (kmemory s') pgdir v = (if r = 0 \<and> unat v div 4096 = unat a div 4096
       then Some (pa OR pm OR PTE_P) else vm_pte (kmemory s) pgdir v)"
    using mappage1_ok [OF 0(1), of a pa pm] by auto
  have r: "r = 0 \<or> r = - 1 \<and> ps' = []" using step(2,3) by (auto simp: space_step_def)
  note st = step(4) [unfolded page_no_0 [OF 0(2), symmetric], rule_format]
  have "mappages_loop 0 s pgdir a pa pm = Ok (r, s')" using step(1) by simp
  then show ?case
    by (intro exI conjI) (assumption, rule step(2), rule r, auto simp: st)
next
  case (Suc n)
  have "vm_pte (kmemory s) pgdir a = None" using Suc.prems(4) by (simp add: page_no_def)
  then obtain r s1 ps1 where step: "mappage1 s pgdir a pa pm = Ok (r, s1)"
    "space_step kend pgdir s ps s1 ps1" "r = 0 \<or> r = - 1 \<and> ps = []"
    "\<forall>v. vm_pte (kmemory s1) pgdir v = (if r = 0 \<and> unat v div 4096 = unat a div 4096
       then Some (pa OR pm OR PTE_P) else vm_pte (kmemory s) pgdir v)"
    using mappage1_ok [OF Suc.prems(1), of a pa pm] by auto
  note st = step(4) [unfolded page_no_0 [OF Suc.prems(2), symmetric], rule_format]
  show ?case
  proof (cases "r = 0")
    case False
    then have "r = - 1" "ps1 = []" using step(2,3) by (auto simp: space_step_def)
    with step show ?thesis by auto
  next
    case True
    have ok1: "space_ok kend s1 ps1 pgdir" using step(2) by (simp add: space_step_def)
    have al: "2 ^ 12 dvd unat (a + 4096)"
      using Suc.prems(2) by (simp add: unat_uint_add dvd_diff_nat)
    have free: "\<forall>v. page_no (a + 4096) v \<le> n \<longrightarrow> vm_pte (kmemory s1) pgdir v = None"
    proof (intro allI impI)
      fix v assume v: "page_no (a + 4096) v \<le> n"
      then have "page_no a v \<noteq> 0" using page_no_next(2) [of a v] Suc.prems(3) by auto
      then show "vm_pte (kmemory s1) pgdir v = None"
        using v st [of v] page_no_next(1) [of a v] Suc.prems(4) by simp
    qed
    from Suc.IH [OF ok1 al _ free, of "pa + 4096"] Suc.prems(3)
    obtain r2 s2 ps2 where rec: "mappages_loop n s1 pgdir (a + 4096) (pa + 4096) pm = Ok (r2, s2)"
      "space_step kend pgdir s1 ps1 s2 ps2" "r2 = 0 \<or> r2 = - 1 \<and> ps2 = []"
      "\<forall>v. page_no (a + 4096) v > n \<longrightarrow> vm_pte (kmemory s2) pgdir v = vm_pte (kmemory s1) pgdir v"
      "r2 = 0 \<longrightarrow> (\<forall>v. page_no (a + 4096) v \<le> n \<longrightarrow> vm_pte (kmemory s2) pgdir v =
         Some ((pa + 4096 + 4096 * of_nat (page_no (a + 4096) v)) OR pm OR PTE_P))"
      by auto
    have run: "mappages_loop (Suc n) s pgdir a pa pm = Ok (r2, s2)"
      using step(1) True rec(1) by simp
    have far: "vm_pte (kmemory s2) pgdir v = vm_pte (kmemory s) pgdir v" if "page_no a v > Suc n" for v
      using that rec(4) st [of v] page_no_next(1) [of a v] by auto
    have near: "vm_pte (kmemory s2) pgdir v = Some ((pa + 4096 * of_nat (page_no a v)) OR pm OR PTE_P)"
      if "page_no a v \<le> Suc n" "r2 = 0" for v
    proof (cases "page_no a v = 0")
      case v0: True
      then have "page_no (a + 4096) v > n" using page_no_next(2) [of a v] Suc.prems(3) by auto
      then show ?thesis using v0 rec(4) st [of v] True by simp
    next
      case v1: False
      note nx = page_no_next(1) [OF v1]
      have "pa + 4096 + 4096 * of_nat (page_no (a + 4096) v) = pa + 4096 * of_nat (page_no a v)"
        unfolding nx by (simp add: algebra_simps)
      then show ?thesis using that nx rec(5) by (simp add: add.assoc)
    qed
    show ?thesis
      using run space_step_trans [OF step(2) rec(2)] rec(3) far near by blast
  qed
qed

text \<open>The page range of a call of \<^verbatim>\<open>mappages\<close>: its first page and its number of pages less one.\<close>

definition span :: "uint \<Rightarrow> uint \<Rightarrow> nat" where
  "span va sz = page_no (PGROUNDDOWN va) (PGROUNDDOWN (va + sz - 1))"

lemma mappages_span: "mappages s pgdir va sz pa pm = mappages_loop (span va sz) s pgdir (PGROUNDDOWN va) pa pm"
  by (simp add: mappages_def span_def page_no_def Let_def unat_div)

lemma PGROUNDDOWN_aligned: "2 ^ 12 dvd unat (PGROUNDDOWN a)"
  by (simp add: PGROUNDDOWN_nat)

lemma span_less: "span va sz < 2 ^ 20"
  using unat_uint_less [of "PGROUNDDOWN (va + sz - 1) - PGROUNDDOWN va"]
  by (simp add: span_def page_no_def less_mult_imp_div_less)

lemmas mappages_ok =
  mappages_loop_ok [OF _ PGROUNDDOWN_aligned [of va] span_less [of va sz], folded mappages_span] for va sz

text \<open>
  C20: \<^verbatim>\<open>mappages\<close> on a well-formed address space whose pages in the range are not mapped
  returns 0 or -1 and never panics.  When it returns 0 the page \<open>k\<close> of the range maps to
  \<open>pa + k * PGSIZE\<close> with the permissions asked for; -1 means that no free page is left.  In
  both cases every other virtual address keeps its entry, the address space and the free
  list stay well formed and disjoint, no page is lost, and no other byte of memory changes.
\<close>

theorem mappages_maps:
  assumes "space_ok kend s ps pgdir"
    and "\<forall>v. page_no (PGROUNDDOWN va) v \<le> span va sz \<longrightarrow> vm_pte (kmemory s) pgdir v = None"
  shows "\<exists>r s' ps'. mappages s pgdir va sz pa pm = Ok (r, s') \<and> space_step kend pgdir s ps s' ps' \<and>
    (r = 0 \<or> r = - 1 \<and> ps' = []) \<and>
    (\<forall>v. page_no (PGROUNDDOWN va) v > span va sz \<longrightarrow>
       vm_pte (kmemory s') pgdir v = vm_pte (kmemory s) pgdir v) \<and>
    (r = 0 \<longrightarrow> (\<forall>v. page_no (PGROUNDDOWN va) v \<le> span va sz \<longrightarrow>
       vm_pte (kmemory s') pgdir v =
         Some ((pa + 4096 * of_nat (page_no (PGROUNDDOWN va) v)) OR pm OR PTE_P)))"
  using assms by (rule mappages_ok)

section \<open>The kernel part of an address space\<close>

lemma PGROUNDDOWN_id: "2 ^ 12 dvd unat a \<Longrightarrow> PGROUNDDOWN a = a"
  by (simp add: word_unat_eq_iff PGROUNDDOWN_nat)

lemma range_iff:
  assumes va: "2 ^ 12 dvd unat va" and sz: "2 ^ 12 dvd unat sz" "sz \<noteq> 0"
    and le: "unat va + unat sz \<le> 2 ^ 32"
  shows "page_no (PGROUNDDOWN va) v \<le> span va sz \<longleftrightarrow> unat va \<le> unat v \<and> unat v < unat va + unat sz"
proof -
  obtain a n where a: "unat va = 4096 * a" and n: "unat sz = 4096 * n"
    using va sz(1) by (auto elim!: dvdE)
  have n0: "0 < n" using n sz(2) by (cases n) (auto simp: word_unat_eq_iff)
  have "unat (va + sz - 1) = 4096 * a + 4096 * n - 1"
  proof (cases "unat va + unat sz = 2 ^ 32")
    case True
    then have "va + sz = 0" by (simp add: word_unat_eq_iff unat_uint_add)
    moreover have "unat (- 1 :: uint) = 2 ^ 32 - 1"
      by (simp only: unsigned_minus_1_eq_mask) (simp add: mask_eq_exp_minus_1)
    ultimately show ?thesis using True a n by simp
  next
    case False
    then show ?thesis using le a n n0 by (auto simp: unat_uint_sub unat_uint_add)
  qed
  moreover have "(4096 * a + 4096 * n - 1) div 4096 = a + n - 1"
    using n0 by (intro div_nat_eqI) (auto simp: algebra_simps)
  ultimately have last: "unat (PGROUNDDOWN (va + sz - 1)) = 4096 * (a + n - 1)"
    by (simp add: PGROUNDDOWN_nat)
  have "span va sz = n - 1"
    unfolding span_def page_no_def PGROUNDDOWN_id [OF va]
    using last a n0 by (simp add: unat_uint_sub flip: diff_mult_distrib2)
  moreover have "unat (v - va) div 4096 \<le> n - 1 \<longleftrightarrow> unat (v - va) < 4096 * n"
    using n0 by (simp add: less_mult_imp_div_less div_less_iff_less_mult less_eq_Suc_le [symmetric]
        flip: less_Suc_eq_le) (simp add: mult.commute div_less_iff_less_mult)
  moreover have "unat (v - va) < 4096 * n \<longleftrightarrow> unat va \<le> unat v \<and> unat v < unat va + unat sz"
    using le a n unat_uint_less [of v] by (auto simp: unat_uint_sub)
  ultimately show ?thesis by (simp add: page_no_def PGROUNDDOWN_id [OF va])
qed

definition in_range :: "kmap_entry \<Rightarrow> uint \<Rightarrow> bool" where
  "in_range k v \<longleftrightarrow> page_no (PGROUNDDOWN (virt k)) v \<le> span (virt k) (phys_end k - phys_start k)"

definition range_pte :: "kmap_entry \<Rightarrow> uint \<Rightarrow> uint" where
  "range_pte k v =
     (phys_start k + 4096 * of_nat (page_no (PGROUNDDOWN (virt k)) v)) OR perm k OR PTE_P"

lemma empty_space:
  assumes inv: "kmem_inv kend s (d # ps)"
  defines "s1 \<equiv> kmemset (snd (kalloc s)) d 0 PGSIZE"
  shows "space_ok kend s1 ps d" and "ptpages (kmemory s1) d = {d}" and "vm_pte (kmemory s1) d v = None"
    and "\<not> in_page d a \<Longrightarrow> kmemory s1 a = kmemory s a"
proof -
  have al: "kalloc s = (d, s\<lparr>freelist := load32 (kmemory s) d\<rparr>)" and inv1: "kmem_inv kend (snd (kalloc s)) ps"
    using kalloc_Cons [OF inv] by auto
  have d: "valid_page kend d" "d \<notin> set ps" using inv by (auto simp: kmem_inv_def)
  have m: "kmemory s1 = memset (kmemory s) d 0 PGSIZE" using al by (simp add: s1_def kmemset_def)
  have np: "\<not> present (kmemory s1) d i" if "i < 1024" for i
    using that by (simp add: present_def m ent_memset_zero)
  show "vm_pte (kmemory s1) d v = None" using np [OF PDX_less] by (simp add: vm_pte_def)
  show pt: "ptpages (kmemory s1) d = {d}" using np by (auto simp: ptpages_def)
  show out: "kmemory s1 a = kmemory s a" if "\<not> in_page d a" for a
    using that by (simp add: m memset_page)
  have "kmem_inv kend s1 ps" unfolding s1_def kmemset_def
    by (rule kmem_inv_update [OF inv1, where A = "{d}"]) (use d in \<open>auto simp: memset_page\<close>)
  then show "space_ok kend s1 ps d" using np d pt by (auto simp: space_ok_def pgdir_ok_def)
qed

lemma setup_loop_ok:
  assumes "space_ok kend s ps d" and "sorted_wrt (\<lambda>k l. \<forall>v. \<not> (in_range k v \<and> in_range l v)) ks"
    and "\<forall>k \<in> set ks. \<forall>v. in_range k v \<longrightarrow> vm_pte (kmemory s) d v = None"
    and "setup_loop ks kend s d = Ok (r, s')" and "r \<noteq> 0"
  shows "r = d \<and> (\<exists>ps'. space_step kend d s ps s' ps' \<and>
    (\<forall>v. vm_pte (kmemory s') d v = (case find (\<lambda>k. in_range k v) ks of
       None \<Rightarrow> vm_pte (kmemory s) d v | Some k \<Rightarrow> Some (range_pte k v))))"
  using assms
proof (induction ks arbitrary: s ps)
  case Nil
  then show ?case using space_step_refl by force
next
  case (Cons k ks)
  have free: "\<forall>v. page_no (PGROUNDDOWN (virt k)) v \<le> span (virt k) (phys_end k - phys_start k) \<longrightarrow>
      vm_pte (kmemory s) d v = None"
    using Cons.prems(3) by (simp add: in_range_def)
  from mappages_ok [OF Cons.prems(1) free, of "phys_start k" "perm k"]
  obtain r1 s1 ps1 where
      map1: "mappages s d (virt k) (phys_end k - phys_start k) (phys_start k) (perm k) = Ok (r1, s1)"
    and step: "space_step kend d s ps s1 ps1" and r1: "r1 = 0 \<or> r1 = - 1"
    and far: "\<forall>v. \<not> in_range k v \<longrightarrow> vm_pte (kmemory s1) d v = vm_pte (kmemory s) d v"
    and near: "r1 = 0 \<longrightarrow> (\<forall>v. in_range k v \<longrightarrow> vm_pte (kmemory s1) d v = Some (range_pte k v))"
    by (auto simp: in_range_def range_pte_def not_le)
  have "r1 = 0"
    using r1 Cons.prems(4,5) map1 by (auto simp: obind_eq_Ok)
  then have rest: "setup_loop ks kend s1 d = Ok (r, s')" using Cons.prems(4) map1 by simp
  have "space_ok kend s1 ps1 d" using step by (simp add: space_step_def)
  moreover have "\<forall>l \<in> set ks. \<forall>v. in_range l v \<longrightarrow> vm_pte (kmemory s1) d v = None"
  proof (intro ballI allI impI)
    fix l v assume lv: "l \<in> set ks" "in_range l v"
    then have "\<not> in_range k v" using Cons.prems(2) by auto
    with far lv Cons.prems(3) show "vm_pte (kmemory s1) d v = None" by simp
  qed
  ultimately have ih: "r = d \<and> (\<exists>ps'. space_step kend d s1 ps1 s' ps' \<and>
    (\<forall>v. vm_pte (kmemory s') d v = (case find (\<lambda>k. in_range k v) ks of
       None \<Rightarrow> vm_pte (kmemory s1) d v | Some k \<Rightarrow> Some (range_pte k v))))"
    using Cons.IH [of s1 ps1] Cons.prems(2,5) rest by simp
  then obtain ps' where ps': "space_step kend d s1 ps1 s' ps'"
    "\<And>v. vm_pte (kmemory s') d v = (case find (\<lambda>k. in_range k v) ks of
       None \<Rightarrow> vm_pte (kmemory s1) d v | Some k \<Rightarrow> Some (range_pte k v))" by blast
  have "vm_pte (kmemory s') d v = (case find (\<lambda>k. in_range k v) (k # ks) of
       None \<Rightarrow> vm_pte (kmemory s) d v | Some k \<Rightarrow> Some (range_pte k v))" for v
  proof (cases "in_range k v")
    case True
    then have "find (\<lambda>k. in_range k v) ks = None"
      using Cons.prems(2) by (auto simp: find_None_iff)
    then show ?thesis using True ps'(2) [of v] near \<open>r1 = 0\<close> by simp
  next
    case False
    then show ?thesis using ps'(2) [of v] far by (auto split: option.splits)
  qed
  with ih ps'(1) step show ?case using space_step_trans by blast
qed

text \<open>What \<^verbatim>\<open>kernel.ld\<close> guarantees about the symbol \<^verbatim>\<open>data\<close>.\<close>

definition kdata_ok :: "uint \<Rightarrow> bool" where
  "kdata_ok kdata \<longleftrightarrow> kdata mod PGSIZE = 0 \<and> KERNLINK < kdata \<and> kdata < P2V PHYSTOP"

definition kernel_pte :: "uint \<Rightarrow> uint \<Rightarrow> uint option" where
  "kernel_pte kdata v =
     (case find (\<lambda>k. in_range k v) (kmap kdata) of None \<Rightarrow> None | Some k \<Rightarrow> Some (range_pte k v))"

lemma kdata_nat:
  "kdata_ok kdata \<longleftrightarrow> 2 ^ 12 dvd unat kdata \<and> 0x80100000 < unat kdata \<and> unat kdata < 0x8E000000"
  using page_aligned [of kdata]
  by (simp add: kdata_ok_def KERNLINK_def KERNBASE_def EXTMEM_def P2V_def PHYSTOP_def word_less_nat_alt)

lemma kmap_ranges:
  assumes "kdata_ok kdata"
  shows "in_range (kmap kdata ! 0) v \<longleftrightarrow> 0x80000000 \<le> unat v \<and> unat v < 0x80100000"
    and "in_range (kmap kdata ! 1) v \<longleftrightarrow> 0x80100000 \<le> unat v \<and> unat v < unat kdata"
    and "in_range (kmap kdata ! 2) v \<longleftrightarrow> unat kdata \<le> unat v \<and> unat v < 0x8E000000"
    and "in_range (kmap kdata ! 3) v \<longleftrightarrow> 0xFE000000 \<le> unat v"
proof -
  note defs = in_range_def kmap_def KERNBASE_def EXTMEM_def KERNLINK_def V2P_def PHYSTOP_def DEVSPACE_def
  have k: "2 ^ 12 dvd unat kdata" "0x80100000 < unat kdata" "unat kdata < 0x8E000000"
    using assms kdata_nat by auto
  show "in_range (kmap kdata ! 0) v \<longleftrightarrow> 0x80000000 \<le> unat v \<and> unat v < 0x80100000"
    using range_iff [of "0x80000000" "0x100000" v] by (simp add: defs)
  have u: "unat (kdata - 0x80100000) = unat kdata - 0x80100000"
    "unat (0x8E000000 - kdata) = 0x8E000000 - unat kdata"
    using k by (simp_all add: unat_uint_sub)
  have e: "V2P kdata - V2P KERNLINK = kdata - 0x80100000" "PHYSTOP - V2P kdata = 0x8E000000 - kdata"
    by (simp_all add: V2P_def KERNLINK_def KERNBASE_def EXTMEM_def PHYSTOP_def)
  have "kdata - 0x80100000 \<noteq> 0" "0x8E000000 - kdata \<noteq> 0" using k by auto
  moreover have "2 ^ 12 dvd unat kdata - 0x80100000" "2 ^ 12 dvd 0x8E000000 - unat kdata"
    using k(1) by (auto intro: dvd_diff_nat)
  ultimately show "in_range (kmap kdata ! 1) v \<longleftrightarrow> 0x80100000 \<le> unat v \<and> unat v < unat kdata"
    and "in_range (kmap kdata ! 2) v \<longleftrightarrow> unat kdata \<le> unat v \<and> unat v < 0x8E000000"
    using range_iff [of "0x80100000" "kdata - 0x80100000" v] range_iff [of kdata "0x8E000000 - kdata" v] k u e
    by (simp_all add: in_range_def kmap_def) (simp_all add: KERNLINK_def KERNBASE_def EXTMEM_def)
  show "in_range (kmap kdata ! 3) v \<longleftrightarrow> 0xFE000000 \<le> unat v"
    using range_iff [of "0xFE000000" "- 0xFE000000" v] unat_uint_less [of v] by (simp add: defs)
qed

lemma kmap_nth: "kmap kdata = [kmap kdata ! 0, kmap kdata ! 1, kmap kdata ! 2, kmap kdata ! 3]"
  by (simp add: kmap_def)

lemma setupkvm_ok:
  assumes inv: "kmem_inv kend s ps" and kd: "kdata_ok kdata"
    and run: "setupkvm kend kdata s = Ok (d, s')" and d: "d \<noteq> 0"
  obtains ps' where "space_ok kend s' ps' d" and "d \<in> set ps"
    and "ptpages (kmemory s') d \<union> set ps' = set ps"
    and "\<And>a. (\<forall>p \<in> set ps. \<not> in_page p a) \<Longrightarrow> kmemory s' a = kmemory s a"
    and "\<And>v. vm_pte (kmemory s') d v = kernel_pte kdata v"
proof -
  have "fst (kalloc s) \<noteq> 0" using run d by (auto simp: setupkvm_def split: prod.splits)
  then obtain q qs where ps: "ps = q # qs" using km.alloc_zero_iff [OF inv] by (cases ps) auto
  note inv' = inv [unfolded ps]
  define s1 where "s1 = kmemset (snd (kalloc s)) q 0 PGSIZE"
  note es = empty_space [OF inv', folded s1_def]
  have al: "kalloc s = (q, snd (kalloc s))" using kalloc_Cons [OF inv'] by (metis snd_conv)
  have q0: "q \<noteq> 0" using inv' valid_page_nonzero by (auto simp: kmem_inv_def)
  have "\<not> P2V PHYSTOP > DEVSPACE" by (simp add: P2V_def PHYSTOP_def DEVSPACE_def KERNBASE_def)
  then have loop: "setup_loop (kmap kdata) kend s1 q = Ok (d, s')"
    using run q0 unfolding setupkvm_def by (subst (asm) al) (simp add: s1_def)
  have "sorted_wrt (\<lambda>k l. \<forall>v. \<not> (in_range k v \<and> in_range l v)) (kmap kdata)"
    using kd [unfolded kdata_nat] by (subst kmap_nth) (auto simp: kmap_ranges [OF kd] simp del: One_nat_def)
  from setup_loop_ok [OF es(1) this _ loop d]
  obtain ps' where r: "d = q" "space_step kend q s1 qs s' ps'"
    "\<And>v. vm_pte (kmemory s') q v = kernel_pte kdata v"
    unfolding es(3) kernel_pte_def by blast
  show ?thesis
  proof (rule that)
    show "space_ok kend s' ps' d" "ptpages (kmemory s') d \<union> set ps' = set ps"
      using r es(2) ps by (auto simp: space_step_def)
    show "kmemory s' a = kmemory s a" if "\<forall>p \<in> set ps. \<not> in_page p a" for a
    proof -
      have "kmemory s' a = kmemory s1 a" using r(2) that ps es(2) by (auto simp: space_step_def)
      also have "\<dots> = kmemory s a" using that ps es(4) by simp
      finally show ?thesis .
    qed
  qed (use r ps in simp_all)
qed

lemma aligned_bits: "2 ^ 12 dvd unat (a :: uint) \<Longrightarrow> bit a n \<Longrightarrow> 12 \<le> n"
proof -
  assume "2 ^ 12 dvd unat a" and b: "bit a n"
  then have "take_bit 12 a = 0"
    unfolding word_unat_eq_iff unsigned_take_bit_eq by (simp add: take_bit_eq_mod)
  with b show ?thesis using bit_take_bit_iff [of 12 a n] by (simp add: not_less)
qed

lemma small_bits: "f < 4096 \<Longrightarrow> bit (f :: uint) n \<Longrightarrow> n < 12"
proof -
  assume "f < 4096" and b: "bit f n"
  then have "take_bit 12 f = f"
    unfolding word_unat_eq_iff unsigned_take_bit_eq by (simp add: take_bit_eq_mod word_less_nat_alt)
  with b show ?thesis using bit_take_bit_iff [of 12 f n] by simp
qed

lemma flags_and:
  assumes "2 ^ 12 dvd unat a" and "f < 4096"
  shows "(a OR g) AND f = g AND (f :: uint)"
  by (rule bit_word_eqI)
    (use aligned_bits [OF assms(1)] small_bits [OF assms(2)] in \<open>force simp: bit_simps\<close>)

lemma PTE_FLAGS_less: "PTE_FLAGS e < 4096"
proof -
  have "(0xFFF :: uint) = mask 12" by (simp add: mask_eq_exp_minus_1)
  then have "PTE_FLAGS e = take_bit 12 e" by (simp only: PTE_FLAGS_def take_bit_eq_mask)
  then have "unat (PTE_FLAGS e) = unat e mod 4096"
    by (simp only: unsigned_take_bit_eq) (simp add: take_bit_eq_mod)
  then show ?thesis by (simp add: word_less_nat_alt)
qed

lemma PTE_FLAGS_present: "e AND PTE_P \<noteq> 0 \<Longrightarrow> PTE_FLAGS e OR PTE_P = PTE_FLAGS e"
proof -
  assume "e AND PTE_P \<noteq> 0"
  then have b: "bit e 0" by (simp add: PTE_P_def and_one_eq bit_0 odd_iff_mod_2_eq_one)
  show ?thesis
    by (rule bit_word_eqI) (use b in \<open>auto simp: PTE_FLAGS_def PTE_P_def bit_simps\<close>)
qed

lemma PTE_FLAGS_or:
  assumes "2 ^ 12 dvd unat a"
  shows "PTE_FLAGS (a OR PTE_FLAGS e) = PTE_FLAGS e"
  using flags_and [OF assms, of "0xFFF" "PTE_FLAGS e"]
  by (simp add: PTE_FLAGS_def and.assoc)

lemma vm_pte_cong:
  assumes ok: "pgdir_ok kend m pgdir"
    and eq: "\<And>p a. p \<in> ptpages m pgdir \<Longrightarrow> in_page p a \<Longrightarrow> m' a = m a"
  shows "vm_pte m' pgdir v = vm_pte m pgdir v"
    and "i < 1024 \<Longrightarrow> present m' pgdir i = present m pgdir i"
    and "i < 1024 \<Longrightarrow> tab m' pgdir i = tab m pgdir i"
proof -
  have d: "ent m' pgdir j = ent m pgdir j" if "j < 1024" for j
    by (rule ent_cong [OF that]) (simp add: eq [of pgdir] ptpages_def)
  show pr: "present m' pgdir j = present m pgdir j" if "j < 1024" for j
    using d [OF that] by (simp add: present_def)
  show tb: "tab m' pgdir j = tab m pgdir j" if "j < 1024" for j
    using d [OF that] by (simp add: tab_def)
  show "vm_pte m' pgdir v = vm_pte m pgdir v"
  proof (cases "present m pgdir (PDX v)")
    case True
    have "ent m' (tab m pgdir (PDX v)) (PTX v) = ent m (tab m pgdir (PDX v)) (PTX v)"
      by (rule ent_cong [OF PTX_less]) (simp add: eq [OF pgdir_okD(4) [OF ok PDX_less True]])
    with True show ?thesis by (simp add: vm_pte_def pr tb)
  next
    case False
    then show ?thesis by (simp add: vm_pte_def pr)
  qed
qed

lemma card_ptpages: "finite (ptpages m pgdir) \<and> card (ptpages m pgdir) \<le> 1025"
proof -
  let ?I = "{i :: uint. i < 1024}"
  have I: "?I \<subseteq> of_nat ` {..< 1024}"
  proof
    fix i :: uint assume "i \<in> ?I"
    then show "i \<in> of_nat ` {..< 1024}"
      by (intro image_eqI [of _ _ "unat i"]) (simp_all add: word_less_nat_alt)
  qed
  then have "finite ?I" "card ?I \<le> 1024"
    using card_mono [OF _ I] card_image_le [of "{..< 1024 :: nat}" "of_nat :: nat \<Rightarrow> uint"]
    by (auto dest: finite_subset)
  moreover have "{tab m pgdir i | i. i < 1024 \<and> present m pgdir i} \<subseteq> tab m pgdir ` ?I" by auto
  ultimately have "finite {tab m pgdir i | i. i < 1024 \<and> present m pgdir i}"
    "card {tab m pgdir i | i. i < 1024 \<and> present m pgdir i} \<le> 1024"
    by (meson finite_imageI finite_subset card_mono card_image_le le_trans)+
  then show ?thesis by (auto simp: ptpages_def intro: le_trans [OF card_insert_le_m1])
qed

lemma setup_loop_total:
  assumes "space_ok kend s ps d" and "sorted_wrt (\<lambda>k l. \<forall>v. \<not> (in_range k v \<and> in_range l v)) ks"
    and "\<forall>k \<in> set ks. \<forall>v. in_range k v \<longrightarrow> vm_pte (kmemory s) d v = None"
    and "1025 < card (ptpages (kmemory s) d \<union> set ps)"
  shows "\<exists>s'. setup_loop ks kend s d = Ok (d, s')"
  using assms
proof (induction ks arbitrary: s ps)
  case Nil
  then show ?case by simp
next
  case (Cons k ks)
  have free: "\<forall>v. page_no (PGROUNDDOWN (virt k)) v \<le> span (virt k) (phys_end k - phys_start k) \<longrightarrow>
      vm_pte (kmemory s) d v = None"
    using Cons.prems(3) by (simp add: in_range_def)
  from mappages_ok [OF Cons.prems(1) free, of "phys_start k" "perm k"]
  obtain r1 s1 ps1 where
      map1: "mappages s d (virt k) (phys_end k - phys_start k) (phys_start k) (perm k) = Ok (r1, s1)"
    and step: "space_step kend d s ps s1 ps1" and r1: "r1 = 0 \<or> r1 = - 1 \<and> ps1 = []"
    and far: "\<forall>v. \<not> in_range k v \<longrightarrow> vm_pte (kmemory s1) d v = vm_pte (kmemory s) d v"
    by (auto simp: in_range_def range_pte_def not_le)
  have un: "ptpages (kmemory s1) d \<union> set ps1 = ptpages (kmemory s) d \<union> set ps"
    using step by (simp add: space_step_def)
  have "r1 = 0" using r1 un Cons.prems(4) card_ptpages [of "kmemory s1" d] by auto
  moreover have "\<exists>s'. setup_loop ks kend s1 d = Ok (d, s')"
  proof (rule Cons.IH)
    show "space_ok kend s1 ps1 d" using step by (simp add: space_step_def)
    show "\<forall>l \<in> set ks. \<forall>v. in_range l v \<longrightarrow> vm_pte (kmemory s1) d v = None"
    proof (intro ballI allI impI)
      fix l v assume lv: "l \<in> set ks" "in_range l v"
      then have "\<not> in_range k v" using Cons.prems(2) by auto
      with far lv Cons.prems(3) show "vm_pte (kmemory s1) d v = None" by simp
    qed
  qed (use Cons.prems(2,4) un in auto)
  ultimately show ?case using map1 by simp
qed

lemma setupkvm_total:
  assumes inv: "kmem_inv kend s ps" and kd: "kdata_ok kdata" and len: "1025 < length ps"
  shows "\<exists>d s'. setupkvm kend kdata s = Ok (d, s') \<and> d \<noteq> 0"
proof -
  obtain q qs where ps: "ps = q # qs" using len by (cases ps) auto
  note inv' = inv [unfolded ps]
  define s1 where "s1 = kmemset (snd (kalloc s)) q 0 PGSIZE"
  note es = empty_space [OF inv', folded s1_def]
  have al: "kalloc s = (q, snd (kalloc s))" using kalloc_Cons [OF inv'] by (metis snd_conv)
  have q0: "q \<noteq> 0" using inv' valid_page_nonzero by (auto simp: kmem_inv_def)
  have "sorted_wrt (\<lambda>k l. \<forall>v. \<not> (in_range k v \<and> in_range l v)) (kmap kdata)"
    using kd [unfolded kdata_nat] by (subst kmap_nth) (auto simp: kmap_ranges [OF kd] simp del: One_nat_def)
  moreover have "distinct ps" using inv by (simp add: kmem_inv_def)
  then have "card (ptpages (kmemory s1) q \<union> set qs) = length ps"
    using es(2) ps by (simp add: distinct_card)
  ultimately obtain s' where "setup_loop (kmap kdata) kend s1 q = Ok (q, s')"
    using setup_loop_total [OF es(1)] es(3) len by auto
  moreover have "\<not> P2V PHYSTOP > DEVSPACE" by (simp add: P2V_def PHYSTOP_def DEVSPACE_def KERNBASE_def)
  ultimately have "setupkvm kend kdata s = Ok (q, s')"
    using q0 unfolding setupkvm_def by (subst al) (simp add: s1_def)
  with q0 show ?thesis by blast
qed

section \<open>Copying an address space\<close>

text \<open>
  The state of \<^verbatim>\<open>copyuvm\<close> after \<open>n\<close> pages: \<open>f k\<close> is the page that holds the copy of page \<open>k\<close>.
  All that has changed since the start, where memory was \<open>m\<close> and the free pages \<open>ps0\<close>, is in
  those pages.
\<close>

definition frame :: "mem \<Rightarrow> uint \<Rightarrow> nat \<Rightarrow> uint" where
  "frame m pgdir k = P2V (PTE_ADDR (the (vm_pte m pgdir (of_nat (4096 * k)))))"

definition copied ::
  "uint \<Rightarrow> uint \<Rightarrow> mem \<Rightarrow> uint list \<Rightarrow> uint \<Rightarrow> uint \<Rightarrow> nat \<Rightarrow> (nat \<Rightarrow> uint) \<Rightarrow> kmem \<Rightarrow> uint list \<Rightarrow> bool" where
  "copied kend kdata m ps0 pgdir d n f s ps \<longleftrightarrow>
     space_ok kend s ps d \<and>
     (\<forall>a. (\<forall>p \<in> set ps0. \<not> in_page p a) \<longrightarrow> kmemory s a = m a) \<and>
     ptpages (kmemory s) d \<union> set ps \<union> f ` {..< n} = set ps0 \<and> inj_on f {..< n} \<and>
     (\<forall>k < n. f k \<notin> ptpages (kmemory s) d \<union> set ps) \<and>
     (\<forall>v. vm_pte (kmemory s) d v =
        (if unat v div 4096 < n
         then map_option (\<lambda>e. V2P (f (unat v div 4096)) OR PTE_FLAGS e) (vm_pte m pgdir v)
         else kernel_pte kdata v)) \<and>
     (\<forall>k < n. \<forall>a. in_page (f k) a \<longrightarrow> kmemory s a = m (frame m pgdir k + (a - f k)))"

lemma pages_apart:
  assumes "valid_page kend x" and "\<forall>p \<in> P. valid_page kend p" and "x \<notin> P" and "in_page x a"
  shows "\<forall>p \<in> P. \<not> in_page p a"
  using assms in_page_disjoint valid_page_aligned by metis

lemma pgdir_ok_cong:
  assumes ok: "pgdir_ok kend m pgdir"
    and eq: "\<And>p a. p \<in> ptpages m pgdir \<Longrightarrow> in_page p a \<Longrightarrow> m' a = m a"
  shows "pgdir_ok kend m' pgdir" and "ptpages m' pgdir = ptpages m pgdir"
proof -
  have pt: "present m' pgdir k = present m pgdir k" "tab m' pgdir k = tab m pgdir k" if "k < 1024" for k
    using vm_pte_cong(2,3) [OF ok eq] that by auto
  show "pgdir_ok kend m' pgdir" using ok pt by (auto simp: pgdir_ok_def)
  show "ptpages m' pgdir = ptpages m pgdir" using pt unfolding ptpages_def by (metis (no_types, lifting))
qed

lemma vm_pte_same_page: "unat v div 4096 = unat w div 4096 \<Longrightarrow> vm_pte m pgdir v = vm_pte m pgdir w"
  using same_page_index [of v w] by (simp add: vm_pte_def)

lemma kernel_pte_user: "kdata_ok kdata \<Longrightarrow> unat v < 0x80000000 \<Longrightarrow> kernel_pte kdata v = None"
  unfolding kernel_pte_def by (subst kmap_nth) (simp add: kmap_ranges kdata_nat del: One_nat_def)

lemma one_page_range:
  assumes "4096 * n + 4096 \<le> 2 ^ 32"
  shows "page_no (PGROUNDDOWN (of_nat (4096 * n))) v \<le> span (of_nat (4096 * n)) PGSIZE \<longleftrightarrow> unat v div 4096 = n"
    and "unat v div 4096 = n \<Longrightarrow> page_no (PGROUNDDOWN (of_nat (4096 * n))) v = 0"
proof -
  let ?i = "of_nat (4096 * n) :: uint"
  have i: "unat ?i = 4096 * n" using assms by (intro unat_of_nat_uint) simp
  have "4096 * n \<le> unat v \<and> unat v < 4096 * n + 4096 \<longleftrightarrow> unat v div 4096 = n"
    by (auto intro: div_nat_eqI)
  then show "page_no (PGROUNDDOWN ?i) v \<le> span ?i PGSIZE \<longleftrightarrow> unat v div 4096 = n"
    using range_iff [of ?i PGSIZE v] i assms by simp
  show "page_no (PGROUNDDOWN ?i) v = 0" if "unat v div 4096 = n"
    using page_no_0 [of ?i v] i that by (simp add: PGROUNDDOWN_id)
qed

lemma kmemmove_page:
  assumes "valid_page kend q" and "valid_page kend r"
  shows "kmemory (kmemmove s q r PGSIZE) = (\<lambda>a. if in_page q a then kmemory s (r + (a - q)) else kmemory s a)"
  using memmove_spec [of r PGSIZE q "kmemory s"] assms
  by (simp add: kmemmove_def in_page_def valid_page_iff)

lemma copiedD:
  assumes "copied kend kdata m ps0 pgdir d n f s ps"
  shows "space_ok kend s ps d"
    and "(\<forall>p \<in> set ps0. \<not> in_page p a) \<Longrightarrow> kmemory s a = m a"
    and "ptpages (kmemory s) d \<union> set ps \<union> f ` {..< n} = set ps0" and "inj_on f {..< n}"
    and "k < n \<Longrightarrow> f k \<notin> ptpages (kmemory s) d \<union> set ps"
    and "vm_pte (kmemory s) d v = (if unat v div 4096 < n
         then map_option (\<lambda>e. V2P (f (unat v div 4096)) OR PTE_FLAGS e) (vm_pte m pgdir v)
         else kernel_pte kdata v)"
    and "k < n \<Longrightarrow> in_page (f k) a \<Longrightarrow> kmemory s a = m (frame m pgdir k + (a - f k))"
  using assms unfolding copied_def by blast+

text \<open>The page \<open>q\<close> taken from the free list and filled with the contents of page \<open>n\<close>.\<close>

lemma copied_fill:
  assumes c: "copied kend kdata m ps0 pgdir d n f s (q # qs)"
    and val: "\<forall>p \<in> set ps0. valid_page kend p"
    and fr: "valid_page kend (frame m pgdir n)" "frame m pgdir n \<notin> set ps0"
  defines "s3 \<equiv> kmemmove (snd (kalloc s)) q (frame m pgdir n) PGSIZE"
  shows "space_ok kend s3 qs d" and "ptpages (kmemory s3) d = ptpages (kmemory s) d"
    and "vm_pte (kmemory s3) d v = vm_pte (kmemory s) d v"
    and "in_page q a \<Longrightarrow> kmemory s3 a = m (frame m pgdir n + (a - q))"
    and "\<not> in_page q a \<Longrightarrow> kmemory s3 a = kmemory s a"
proof -
  let ?ms = "kmemory s" and ?r = "frame m pgdir n"
  have sp: "space_ok kend s (q # qs) d" by (rule copiedD(1) [OF c])
  then have inv: "kmem_inv kend s (q # qs)" and dir: "pgdir_ok kend ?ms d"
    and disj: "ptpages ?ms d \<inter> set (q # qs) = {}"
    by (simp_all add: space_ok_def)
  have q: "valid_page kend q" "q \<notin> set qs" "q \<notin> ptpages ?ms d"
    using inv disj by (auto simp: kmem_inv_def)
  have inv2: "kmem_inv kend (snd (kalloc s)) qs" and m2: "kmemory (snd (kalloc s)) = ?ms"
    using kalloc_Cons [OF inv] by auto
  have m3: "kmemory s3 = (\<lambda>a. if in_page q a then ?ms (?r + (a - q)) else ?ms a)"
    unfolding s3_def using kmemmove_page [OF q(1) fr(1), of "snd (kalloc s)"] unfolding m2 .
  show out: "kmemory s3 a = ?ms a" if "\<not> in_page q a" for a using that by (simp add: m3)
  show "kmemory s3 a = m (?r + (a - q))" if "in_page q a"
  proof -
    have "in_page ?r (?r + (a - q))" using that by (simp add: in_page_def)
    then have "?ms (?r + (a - q)) = m (?r + (a - q))"
      using copiedD(2) [OF c] pages_apart [OF fr(1) val fr(2)] by blast
    then show ?thesis using that by (simp add: m3)
  qed
  have eq: "kmemory s3 a = ?ms a" if "p \<in> ptpages ?ms d" "in_page p a" for p a
  proof (rule out)
    have "valid_page kend p" "p \<noteq> q" using ptpages_valid [OF dir that(1)] that(1) q(3) by auto
    then show "\<not> in_page q a"
      using in_page_disjoint [OF valid_page_aligned valid_page_aligned _ that(2)] q(1) by blast
  qed
  show "vm_pte (kmemory s3) d v = vm_pte ?ms d v" using vm_pte_cong(1) [OF dir eq] by simp
  show pt: "ptpages (kmemory s3) d = ptpages ?ms d" using pgdir_ok_cong(2) [OF dir eq] by simp
  have s3: "s3 = (snd (kalloc s))\<lparr>kmemory := kmemory s3\<rparr>" by (simp add: s3_def kmemmove_def)
  have "kmem_inv kend s3 qs"
    by (subst s3, rule kmem_inv_update [OF inv2, where A = "{q}"]) (use q out m2 in auto)
  then show "space_ok kend s3 qs d"
    using pgdir_ok_cong(1) [OF dir eq] pt disj by (simp add: space_ok_def)
qed

lemma copied_map:
  assumes c: "copied kend kdata m ps0 pgdir d n f s (q # qs)"
    and val: "\<forall>p \<in> set ps0. valid_page kend p" and kd: "kdata_ok kdata"
    and fr: "valid_page kend (frame m pgdir n)" "frame m pgdir n \<notin> set ps0"
    and pte: "vm_pte m pgdir (of_nat (4096 * n)) = Some e"
    and n: "4096 * n + 4096 \<le> 0x80000000" and cnt: "1025 + Suc n < card (set ps0)"
  defines "s3 \<equiv> kmemmove (snd (kalloc s)) q (frame m pgdir n) PGSIZE"
  shows "\<exists>s' ps'. mappages s3 d (of_nat (4096 * n)) PGSIZE (V2P q) (PTE_FLAGS e) = Ok (0, s') \<and>
    copied kend kdata m ps0 pgdir d (Suc n) (f(n := q)) s' ps'"
proof -
  let ?i = "of_nat (4096 * n) :: uint" and ?f = "f(n := q)" and ?m3 = "kmemory s3"
  note fill = copied_fill [OF c val fr, folded s3_def] and cD = copiedD [OF c]
  have n32: "4096 * n + 4096 \<le> 2 ^ 32" using n by simp
  note rng = one_page_range [OF n32]
  have "vm_pte ?m3 d v = None" if "unat v div 4096 = n" for v
  proof -
    have "unat v < 4096 * n + 4096" using that dividend_less_times_div [of 4096 "unat v"] by auto
    then show ?thesis using that kernel_pte_user [OF kd, of v] n cD(6) [of v] by (simp add: fill(3))
  qed
  then obtain r s' ps' where map1: "mappages s3 d ?i PGSIZE (V2P q) (PTE_FLAGS e) = Ok (r, s')"
    and step: "space_step kend d s3 qs s' ps'" and r: "r = 0 \<or> r = - 1 \<and> ps' = []"
    and far: "\<And>v. unat v div 4096 \<noteq> n \<Longrightarrow> vm_pte (kmemory s') d v = vm_pte ?m3 d v"
    and near: "\<And>v. r = 0 \<Longrightarrow> unat v div 4096 = n \<Longrightarrow>
       vm_pte (kmemory s') d v = Some (V2P q OR PTE_FLAGS e OR PTE_P)"
    using mappages_ok [OF fill(1), of ?i PGSIZE "V2P q" "PTE_FLAGS e"] rng
    by (auto simp: not_le [symmetric] simp del: of_nat_mult)
  have un: "ptpages (kmemory s') d \<union> set ps' = ptpages (kmemory s) d \<union> set qs"
    using step fill(2) by (simp add: space_step_def)
  have q: "q \<notin> ptpages (kmemory s) d \<union> set qs" "q \<in> set ps0"
    using cD(1,3) by (auto simp: space_ok_def kmem_inv_def)
  have qf: "q \<notin> f ` {..< n}" using cD(5) by (metis UnCI image_iff lessThan_iff list.set_intros(1))
  have f_un: "ptpages (kmemory s') d \<union> set ps' \<union> ?f ` {..< Suc n} = set ps0"
    using un cD(3) by (auto simp: lessThan_Suc image_iff)
  have "card (?f ` {..< Suc n}) \<le> Suc n" using card_image_le [of "{..< Suc n}" ?f] by simp
  have "r = 0"
  proof (rule ccontr)
    assume "r \<noteq> 0"
    then have "set ps0 = ptpages (kmemory s') d \<union> ?f ` {..< Suc n}" using r f_un by auto
    then have "card (set ps0) \<le> card (ptpages (kmemory s') d) + card (?f ` {..< Suc n})"
      by (simp only: card_Un_le)
    then show False using card_ptpages [of "kmemory s'" d] cnt \<open>card (?f ` _) \<le> _\<close> by simp
  qed
  have keep: "kmemory s' a = ?m3 a" if "valid_page kend x" "x \<notin> ptpages (kmemory s) d \<union> set qs" "in_page x a" for x a
  proof -
    have "\<forall>p \<in> ptpages (kmemory s) d \<union> set qs. valid_page kend p" using val cD(3) by auto
    from pages_apart [OF that(1) this that(2,3)] show ?thesis
      using step fill(2) by (simp add: space_step_def)
  qed
  have "copied kend kdata m ps0 pgdir d (Suc n) ?f s' ps'"
    unfolding copied_def
  proof (intro conjI allI impI)
    show "space_ok kend s' ps' d" using step by (simp add: space_step_def)
    show "kmemory s' a = m a" if "\<forall>p \<in> set ps0. \<not> in_page p a" for a
    proof -
      have "\<forall>p \<in> ptpages (kmemory s) d \<union> set qs. \<not> in_page p a" using that cD(3) by auto
      then have "kmemory s' a = ?m3 a" using step fill(2) by (simp add: space_step_def)
      also have "\<dots> = m a" using fill(5) [of a] that q(2) cD(2) [of a] by simp
      finally show ?thesis .
    qed
    show "ptpages (kmemory s') d \<union> set ps' \<union> ?f ` {..< Suc n} = set ps0" by (rule f_un)
    show "inj_on ?f {..< Suc n}"
      using cD(4) qf by (auto simp: inj_on_def less_Suc_eq image_iff)
    show "?f k \<notin> ptpages (kmemory s') d \<union> set ps'" if "k < Suc n" for k
      using that un q(1) cD(5) [of k] by (auto simp: less_Suc_eq)
    show "vm_pte (kmemory s') d v = (if unat v div 4096 < Suc n
         then map_option (\<lambda>e. V2P (?f (unat v div 4096)) OR PTE_FLAGS e) (vm_pte m pgdir v)
         else kernel_pte kdata v)" for v
    proof (cases "unat v div 4096 = n")
      case True
      moreover have "unat ?i div 4096 = n" using n by (subst unat_of_nat_uint) simp_all
      ultimately have e: "vm_pte m pgdir v = Some e" using pte vm_pte_same_page [of v ?i] by simp
      then have "e AND PTE_P \<noteq> 0" by (auto simp: vm_pte_def Let_def split: if_splits)
      then show ?thesis
        using near [OF \<open>r = 0\<close> True] True e PTE_FLAGS_present [of e] by (simp add: or.assoc)
    next
      case False
      then show ?thesis using far [OF False] fill(3) [of v] cD(6) [of v] by (simp add: less_Suc_eq)
    qed
    show "kmemory s' a = m (frame m pgdir k + (a - ?f k))" if "k < Suc n" "in_page (?f k) a" for k a
    proof -
      have fk: "valid_page kend (?f k)" "?f k \<notin> ptpages (kmemory s) d \<union> set qs"
        using that(1) val f_un q cD(5) [of k] by (auto simp: less_Suc_eq)
      have "kmemory s' a = ?m3 a" by (rule keep [OF fk that(2)])
      also have "\<dots> = m (frame m pgdir k + (a - ?f k))"
      proof (cases "k = n")
        case True
        then show ?thesis using that(2) fill(4) by simp
      next
        case False
        then have k: "k < n" "f k \<noteq> q" using that(1) qf by auto
        then have "\<not> in_page q a"
          using pages_apart [of kend "f k" "{q}" a] fk(1) that(2) val q(2) False by simp
        then show ?thesis using False k that(2) fill(5) cD(7) by simp
      qed
      finally show ?thesis .
    qed
  qed
  with map1 \<open>r = 0\<close> show ?thesis by blast
qed

text \<open>
  The user part of an address space of size \<open>sz\<close>: every page below \<open>sz\<close> is mapped to an
  allocatable page, and neither the tables nor those pages are on the free list.
\<close>

definition user_ok :: "uint \<Rightarrow> mem \<Rightarrow> uint list \<Rightarrow> uint \<Rightarrow> uint \<Rightarrow> bool" where
  "user_ok kend m ps pgdir sz \<longleftrightarrow>
     pgdir_ok kend m pgdir \<and> ptpages m pgdir \<inter> set ps = {} \<and>
     (\<forall>k. 4096 * k < unat sz \<longrightarrow> vm_pte m pgdir (of_nat (4096 * k)) \<noteq> None \<and>
        valid_page kend (frame m pgdir k) \<and> frame m pgdir k \<notin> set ps)"

definition npages :: "uint \<Rightarrow> nat" where
  "npages sz = (unat sz + 4095) div 4096"

lemma copypage_step:
  assumes usr: "user_ok kend m ps0 pgdir sz" "4096 * n < unat sz" "sz \<le> KERNBASE"
    and val: "\<forall>p \<in> set ps0. valid_page kend p" and kd: "kdata_ok kdata"
    and cnt: "1025 + Suc n < card (set ps0)"
    and c: "copied kend kdata m ps0 pgdir d n f s ps"
  shows "\<exists>s' ps' q. copypage kend s pgdir d (of_nat (4096 * n)) = Ok (True, s') \<and>
    copied kend kdata m ps0 pgdir d (Suc n) (f(n := q)) s' ps'"
proof -
  let ?i = "of_nat (4096 * n) :: uint" and ?ms = "kmemory s"
  have par: "pgdir_ok kend m pgdir" "ptpages m pgdir \<inter> set ps0 = {}"
    and fr: "valid_page kend (frame m pgdir n)" "frame m pgdir n \<notin> set ps0"
    using usr by (auto simp: user_ok_def)
  obtain e where pte: "vm_pte m pgdir ?i = Some e" using usr by (auto simp: user_ok_def)
  have n: "4096 * n + 4096 \<le> 0x80000000"
    using usr(2,3) by (simp add: KERNBASE_def word_le_nat_alt)
  have eq: "?ms a = m a" if "p \<in> ptpages m pgdir" "in_page p a" for p a
    using copiedD(2) [OF c] pages_apart [OF _ val _ that(2)] ptpages_valid [OF par(1) that(1)] par(2) that(1)
    by blast
  have vmp: "vm_pte ?ms pgdir ?i = Some e" using vm_pte_cong(1) [OF par(1) eq] pte by simp
  then have pr: "present ?ms pgdir (PDX ?i)" and ee: "ent ?ms (tab ?ms pgdir (PDX ?i)) (PTX ?i) = e"
    and eP: "e AND PTE_P \<noteq> 0"
    by (auto simp: vm_pte_def Let_def split: if_splits)
  have "pgdir_ok kend ?ms pgdir" using pgdir_ok_cong(1) [OF par(1) eq] .
  from entry_nonzero [OF pgdir_okD(1) [OF this PDX_less pr] PTX_less]
  have nz: "entry (tab ?ms pgdir (PDX ?i)) (PTX ?i) \<noteq> 0" .
  have r: "P2V (PTE_ADDR e) = frame m pgdir n" using pte by (simp add: frame_def)
  have "ps \<noteq> []"
  proof
    assume "ps = []"
    then have "set ps0 = ptpages ?ms d \<union> f ` {..< n}" using copiedD(3) [OF c] by auto
    then have "card (set ps0) \<le> card (ptpages ?ms d) + card (f ` {..< n})" by (simp only: card_Un_le)
    then show False using card_image_le [of "{..< n}" f] card_ptpages [of ?ms d] cnt by simp
  qed
  then obtain q qs where ps: "ps = q # qs" by (cases ps) auto
  have inv: "kmem_inv kend s (q # qs)" using copiedD(1) [OF c] ps by (simp add: space_ok_def)
  obtain s2 where al: "kalloc s = (q, s2)" using kalloc_Cons [OF inv] by blast
  have q0: "q \<noteq> 0" using inv valid_page_nonzero by (auto simp: kmem_inv_def)
  obtain s' ps' where m: "mappages (kmemmove (snd (kalloc s)) q (frame m pgdir n) PGSIZE) d ?i PGSIZE
      (V2P q) (PTE_FLAGS e) = Ok (0, s')"
    and c': "copied kend kdata m ps0 pgdir d (Suc n) (f(n := q)) s' ps'"
    using copied_map [OF c [unfolded ps] val kd fr pte n cnt] by blast
  have "copypage kend s pgdir d ?i = Ok (True, s')"
    unfolding copypage_def walkpgdir_present [OF pr]
    using nz ee [unfolded ent_def] eP al q0 m r by (simp add: Let_def del: of_nat_mult cong: if_cong)
  with c' show ?thesis by blast
qed

lemma npages_less: "n < npages sz \<longleftrightarrow> 4096 * n < unat sz"
  unfolding npages_def less_eq_Suc_le by (subst less_eq_div_iff_mult_less_eq) auto

lemma copyuvm_loop_ok:
  assumes usr: "user_ok kend m ps0 pgdir sz" "sz \<le> KERNBASE"
    and val: "\<forall>p \<in> set ps0. valid_page kend p" and kd: "kdata_ok kdata"
    and cnt: "1025 + npages sz < card (set ps0)"
    and c: "copied kend kdata m ps0 pgdir d n f s ps" and n: "n \<le> npages sz"
  shows "\<exists>s' ps' f'. copyuvm_loop kend s pgdir d (of_nat (4096 * n)) sz = Some (Ok (d, s')) \<and>
    copied kend kdata m ps0 pgdir d (npages sz) f' s' ps'"
proof -
  have lt: "(of_nat (4096 * n) :: uint) < sz \<longleftrightarrow> 4096 * n < unat sz" if "n \<le> npages sz" for n
  proof -
    have "npages sz \<le> 2 ^ 19" using usr(2) by (simp add: npages_def KERNBASE_def word_le_nat_alt)
    then have "4096 * n < 2 ^ 32" using that by simp
    then show ?thesis unfolding word_less_nat_alt by (subst unat_of_nat_uint) simp_all
  qed
  from c n show ?thesis
  proof (induction "npages sz - n" arbitrary: n f s ps)
    case 0
    then have "n = npages sz" by simp
    then have "\<not> (of_nat (4096 * n) :: uint) < sz" using lt [of n] npages_less [of n sz] by simp
    with \<open>n = npages sz\<close> show ?case using 0 by (subst copyuvm_loop.simps) auto
  next
    case (Suc k)
    then have n: "n < npages sz" by simp
    obtain s' ps' q where cp: "copypage kend s pgdir d (of_nat (4096 * n)) = Ok (True, s')"
      and c': "copied kend kdata m ps0 pgdir d (Suc n) (f(n := q)) s' ps'"
      using copypage_step [OF usr(1) _ usr(2) val kd _ Suc.prems(1)] n cnt by (auto simp: npages_less)
    have "(of_nat (4096 * n) :: uint) < sz" using lt [of n] n by (simp add: npages_less)
    moreover have "of_nat (4096 * n) + 4096 = (of_nat (4096 * Suc n) :: uint)" by simp
    ultimately have "copyuvm_loop kend s pgdir d (of_nat (4096 * n)) sz =
        copyuvm_loop kend s' pgdir d (of_nat (4096 * Suc n)) sz"
      using cp by (subst copyuvm_loop.simps) (simp add: add.commute)
    then show ?case using Suc.hyps(1) [OF _ c'] Suc.hyps(2) n by auto
  qed
qed

lemma copied_start:
  assumes inv: "kmem_inv kend s ps" and kd: "kdata_ok kdata"
    and run: "setupkvm kend kdata s = Ok (d, s1)" and d: "d \<noteq> 0"
  shows "\<exists>ps1. copied kend kdata (kmemory s) ps pgdir d 0 f s1 ps1"
  by (rule setupkvm_ok [OF assms]) (auto simp: copied_def)

lemma copyuvm_ok:
  assumes inv: "kmem_inv kend s ps" and kd: "kdata_ok kdata"
    and usr: "user_ok kend (kmemory s) ps pgdir sz" "sz \<le> KERNBASE" and len: "1025 + npages sz < length ps"
  shows "\<exists>d s' ps' f. copyuvm kend kdata s pgdir sz = Ok (d, s') \<and> d \<noteq> 0 \<and>
    copied kend kdata (kmemory s) ps pgdir d (npages sz) f s' ps'"
proof -
  have val: "\<forall>p \<in> set ps. valid_page kend p" and "distinct ps" using inv by (auto simp: kmem_inv_def)
  then have cnt: "1025 + npages sz < card (set ps)" using len by (simp add: distinct_card)
  obtain d s1 where su: "setupkvm kend kdata s = Ok (d, s1)" "d \<noteq> 0"
    using setupkvm_total [OF inv kd] len by auto
  obtain ps1 where "copied kend kdata (kmemory s) ps pgdir d 0 (\<lambda>_. 0) s1 ps1"
    using copied_start [OF inv kd su] by blast
  from copyuvm_loop_ok [OF usr val kd cnt this] obtain s' ps' f
    where "copyuvm_loop kend s1 pgdir d 0 sz = Some (Ok (d, s'))"
      "copied kend kdata (kmemory s) ps pgdir d (npages sz) f s' ps'" by auto
  then show ?thesis using su by (auto simp: copyuvm_def returned_def)
qed

text \<open>The byte that a process with page directory \<open>pgdir\<close> reads at the virtual address \<open>va\<close>.\<close>

definition user_byte :: "mem \<Rightarrow> uint \<Rightarrow> uint \<Rightarrow> uchar option" where
  "user_byte m pgdir va =
     map_option (\<lambda>e. m (P2V (PTE_ADDR e) + (va - PGROUNDDOWN va))) (vm_pte m pgdir va)"

definition user_frame :: "mem \<Rightarrow> uint \<Rightarrow> uint \<Rightarrow> uint" where
  "user_frame m pgdir va = P2V (PTE_ADDR (the (vm_pte m pgdir va)))"

lemma page_offset: "va - PGROUNDDOWN va < 4096"
proof -
  have "unat (PGROUNDDOWN va) \<le> unat va" "unat va - unat (PGROUNDDOWN va) < 4096"
    by (simp_all add: PGROUNDDOWN_nat)
  then show ?thesis by (simp add: word_less_nat_alt unat_uint_sub)
qed

lemma user_ok_page:
  assumes usr: "user_ok kend m ps pgdir sz" and va: "va < sz"
  shows "\<exists>e. vm_pte m pgdir va = Some e \<and> P2V (PTE_ADDR e) = frame m pgdir (unat va div 4096)"
    and "unat va div 4096 < npages sz"
    and "valid_page kend (frame m pgdir (unat va div 4096))" and "frame m pgdir (unat va div 4096) \<notin> set ps"
proof -
  let ?k = "unat va div 4096"
  have le: "4096 * ?k \<le> unat va" by simp
  also have "\<dots> < unat sz" using va by (simp add: word_less_nat_alt)
  finally have k: "4096 * ?k < unat sz" .
  then show "?k < npages sz" by (simp only: npages_less)
  show "valid_page kend (frame m pgdir ?k)" "frame m pgdir ?k \<notin> set ps"
    using usr k unfolding user_ok_def by blast+
  have "unat (of_nat (4096 * ?k) :: uint) = 4096 * ?k"
    using le unat_uint_less [of va] by (intro unat_of_nat_uint) (rule le_less_trans)
  then have "vm_pte m pgdir va = vm_pte m pgdir (of_nat (4096 * ?k))"
    by (intro vm_pte_same_page) (simp del: of_nat_mult)
  moreover have "vm_pte m pgdir (of_nat (4096 * ?k)) \<noteq> None"
    using usr k unfolding user_ok_def by blast
  ultimately show "\<exists>e. vm_pte m pgdir va = Some e \<and> P2V (PTE_ADDR e) = frame m pgdir ?k"
    unfolding frame_def by auto
qed

lemma copied_page:
  assumes usr: "user_ok kend m ps pgdir sz" and va: "va < sz"
    and val: "\<forall>p \<in> set ps. valid_page kend p"
    and c: "copied kend kdata m ps pgdir d (npages sz) f s' ps'"
  defines "k \<equiv> unat va div 4096" and "off \<equiv> va - PGROUNDDOWN va"
  shows "f k \<in> set ps" and "k < npages sz"
    and "\<exists>e. vm_pte m pgdir va = Some e \<and> P2V (PTE_ADDR e) = frame m pgdir k \<and>
        vm_pte (kmemory s') d va = Some (V2P (f k) OR PTE_FLAGS e) \<and> P2V (PTE_ADDR (V2P (f k) OR PTE_FLAGS e)) = f k \<and>
        PTE_FLAGS (V2P (f k) OR PTE_FLAGS e) = PTE_FLAGS e"
    and "vm_pte (kmemory s') pgdir va = vm_pte m pgdir va"
    and "kmemory s' (f k + off) = m (frame m pgdir k + off)"
    and "kmemory s' (frame m pgdir k + off) = m (frame m pgdir k + off)"
proof -
  note pg = user_ok_page [OF usr va, folded k_def]
  show "k < npages sz" by (rule pg(2))
  then show fk: "f k \<in> set ps" using copiedD(3) [OF c] by blast
  have al: "2 ^ 12 dvd unat (V2P (f k))" using fk val valid_page_aligned V2P_aligned by blast
  have vm: "vm_pte (kmemory s') d va = map_option (\<lambda>e. V2P (f k) OR PTE_FLAGS e) (vm_pte m pgdir va)"
    using copiedD(6) [OF c, of va] pg(2) by (simp add: k_def)
  show "\<exists>e. vm_pte m pgdir va = Some e \<and> P2V (PTE_ADDR e) = frame m pgdir k \<and>
        vm_pte (kmemory s') d va = Some (V2P (f k) OR PTE_FLAGS e) \<and> P2V (PTE_ADDR (V2P (f k) OR PTE_FLAGS e)) = f k \<and>
        PTE_FLAGS (V2P (f k) OR PTE_FLAGS e) = PTE_FLAGS e"
    using pg(1) vm PTE_ADDR_or [OF al PTE_FLAGS_less] PTE_FLAGS_or [OF al] by auto
  have inp: "in_page x (x + off)" for x using page_offset [of va] by (simp add: in_page_def off_def)
  show "kmemory s' (f k + off) = m (frame m pgdir k + off)"
    using copiedD(7) [OF c pg(2) inp] by simp
  show "kmemory s' (frame m pgdir k + off) = m (frame m pgdir k + off)"
    by (rule copiedD(2) [OF c]) (rule pages_apart [OF pg(3) val pg(4) inp])
  have par: "pgdir_ok kend m pgdir" "ptpages m pgdir \<inter> set ps = {}" using usr by (auto simp: user_ok_def)
  have "kmemory s' a = m a" if "p \<in> ptpages m pgdir" "in_page p a" for p a
    by (rule copiedD(2) [OF c], rule pages_apart [OF _ val _ that(2)])
      (use ptpages_valid [OF par(1) that(1)] par(2) that(1) in auto)
  from vm_pte_cong(1) [OF par(1) this] show "vm_pte (kmemory s') pgdir va = vm_pte m pgdir va" by simp
qed

text \<open>
  C4: \<^verbatim>\<open>copyuvm\<close> of a well-formed address space returns, with enough free pages, a page
  directory in which every address below \<open>sz\<close> reads the same byte with the same flags as in
  the original; addresses from \<open>sz\<close> rounded up to a page have the kernel's entries.  The copy
  is private: its pages were free and are pairwise different, and the original address
  space has all its entries and bytes as before.
\<close>

theorem copyuvm_copies:
  assumes "kmem_inv kend s ps" and "kdata_ok kdata"
    and "user_ok kend (kmemory s) ps pgdir sz" and "sz \<le> KERNBASE" and "1025 + npages sz < length ps"
  shows "\<exists>d s'. copyuvm kend kdata s pgdir sz = Ok (d, s') \<and> d \<noteq> 0 \<and>
    (\<forall>va. va < sz \<longrightarrow>
       (\<exists>b. user_byte (kmemory s) pgdir va = Some b \<and> user_byte (kmemory s') d va = Some b \<and>
            user_byte (kmemory s') pgdir va = Some b) \<and>
       PTE_FLAGS (the (vm_pte (kmemory s') d va)) = PTE_FLAGS (the (vm_pte (kmemory s) pgdir va)) \<and>
       user_frame (kmemory s') d va \<in> set ps \<and> user_frame (kmemory s') pgdir va \<notin> set ps) \<and>
    (\<forall>va w. va < sz \<and> w < sz \<and> user_frame (kmemory s') d va = user_frame (kmemory s') d w \<longrightarrow>
       PGROUNDDOWN va = PGROUNDDOWN w) \<and>
    (\<forall>va. npages sz \<le> unat va div 4096 \<longrightarrow> vm_pte (kmemory s') d va = kernel_pte kdata va)"
proof -
  let ?m = "kmemory s"
  obtain d s' ps' f where run: "copyuvm kend kdata s pgdir sz = Ok (d, s')" "d \<noteq> 0"
    and c: "copied kend kdata ?m ps pgdir d (npages sz) f s' ps'"
    using copyuvm_ok [OF assms] by blast
  have val: "\<forall>p \<in> set ps. valid_page kend p" using assms(1) by (simp add: kmem_inv_def)
  note pg = copied_page [OF assms(3) _ val c]
  have "PGROUNDDOWN va = PGROUNDDOWN w"
    if "va < sz" "w < sz" "user_frame (kmemory s') d va = user_frame (kmemory s') d w" for va w
  proof -
    have "f (unat va div 4096) = f (unat w div 4096)"
      using that pg(3) [OF that(1)] pg(3) [OF that(2)] by (auto simp: user_frame_def)
    then have "unat va div 4096 = unat w div 4096"
      using copiedD(4) [OF c] pg(2) [OF that(1)] pg(2) [OF that(2)] by (auto dest: inj_onD)
    then show ?thesis by (simp add: word_unat_eq_iff PGROUNDDOWN_nat)
  qed
  moreover have "(\<exists>b. user_byte ?m pgdir va = Some b \<and> user_byte (kmemory s') d va = Some b \<and>
            user_byte (kmemory s') pgdir va = Some b) \<and>
       PTE_FLAGS (the (vm_pte (kmemory s') d va)) = PTE_FLAGS (the (vm_pte ?m pgdir va)) \<and>
       user_frame (kmemory s') d va \<in> set ps \<and> user_frame (kmemory s') pgdir va \<notin> set ps"
    if va: "va < sz" for va
    using pg(1,3-6) [OF va] user_ok_page(4) [OF assms(3) va] by (auto simp: user_byte_def user_frame_def)
  moreover have "vm_pte (kmemory s') d va = kernel_pte kdata va" if "npages sz \<le> unat va div 4096" for va
    using copiedD(6) [OF c, of va] that by simp
  ultimately show ?thesis using run by blast
qed

section \<open>A concrete address space\<close>

text \<open>
  A page directory at \<^verbatim>\<open>0x8D000000\<close> with one table, in which page 0 is mapped to the page at
  \<^verbatim>\<open>0x8D002000\<close>, where one byte is not zero.
\<close>

definition demo_mem :: mem where
  "demo_mem = store32 (store32 (\<lambda>a. if a = 0x8D002010 then 0xAB else 0)
     (entry 0x8D000000 0) (V2P 0x8D001000 OR 7)) (entry 0x8D001000 0) (V2P 0x8D002000 OR 7)"

definition demo :: kmem where
  "demo = \<lparr>klock = \<lparr>lk_locked = 0, lk_name = ''kmem'', lk_cpu = None, lk_pcs = []\<rparr>,
     use_lock = True, freelist = 0, kmemory = demo_mem\<rparr>"

lemma demo_valid:
  "valid_page 0x80108000 0x8D000000" "valid_page 0x80108000 0x8D001000" "valid_page 0x80108000 0x8D002000"
  by (simp_all add: valid_page_def V2P_def KERNBASE_def PHYSTOP_def)

lemma demo_zero: "i < 1024 \<Longrightarrow> t = 0x8D000000 \<or> t = 0x8D001000 \<Longrightarrow>
    ent (\<lambda>a. if a = 0x8D002010 then 0xAB else 0) t i = 0"
proof -
  assume i: "i < 1024" and t: "t = 0x8D000000 \<or> t = 0x8D001000"
  have "ent (\<lambda>a. if a = 0x8D002010 then 0xAB else 0) t i = ent (\<lambda>_. 0) t i"
    by (rule ent_cong [OF i]) (use t in \<open>auto simp: in_page_def\<close>)
  then show ?thesis by (simp add: ent_def load32_def le32_def)
qed

lemma demo_ent:
  assumes "i < 1024"
  shows "ent demo_mem 0x8D000000 i = (if i = 0 then V2P 0x8D001000 OR 7 else 0)"
    and "ent demo_mem 0x8D001000 i = (if i = 0 then V2P 0x8D002000 OR 7 else 0)"
  using assms demo_zero [OF assms]
  by (auto simp: demo_mem_def ent_store_same_page ent_store_other_page)

lemma demo_flags:
  assumes "valid_page kend t"
  shows "(V2P t OR 7) AND PTE_P \<noteq> 0" and "P2V (PTE_ADDR (V2P t OR 7)) = t"
proof -
  show "(V2P t OR 7) AND PTE_P \<noteq> 0" by (rule or_flags_present) (simp add: PTE_P_def)
  show "P2V (PTE_ADDR (V2P t OR 7)) = t"
    using PTE_ADDR_or [OF V2P_aligned [OF valid_page_aligned [OF assms]], of 7] by simp
qed

lemma demo_dir:
  "i < 1024 \<Longrightarrow> present demo_mem 0x8D000000 i \<longleftrightarrow> i = 0"
  "tab demo_mem 0x8D000000 0 = 0x8D001000"
  using demo_flags [OF demo_valid(2)] by (simp_all add: present_def tab_def demo_ent)

lemma demo_pgdir_ok:
  "pgdir_ok 0x80108000 demo_mem 0x8D000000" "ptpages demo_mem 0x8D000000 = {0x8D000000, 0x8D001000}"
  using demo_dir demo_valid unfolding pgdir_ok_def ptpages_def by auto

lemma demo_vm:
  "vm_pte demo_mem 0x8D000000 v = (if unat v < 4096 then Some (V2P 0x8D002000 OR 7) else None)"
proof -
  have "PDX v = 0 \<and> PTX v = 0 \<longleftrightarrow> unat v < 4096"
    using same_page_index [of v 0] by (simp add: PDX_def [of 0] PTX_def [of 0] div_eq_0_iff)
  then show ?thesis
    using demo_dir(1) [OF PDX_less, of v] demo_dir(2) demo_ent(2) [OF PTX_less, of v]
      demo_flags(1) [OF demo_valid(3)]
    by (auto simp: vm_pte_def Let_def)
qed

text \<open>The same address space, with 2048 free pages.\<close>

lemma demo_free:
  obtains s where "freerange_loop 0x80108000 demo 0x80400000 0x80C00000 = Ok s"
    and "kmem_inv 0x80108000 s (pages_upto 0x80400000 0x80C00000)"
    and "\<And>a. 0x8D000000 \<le> unat a \<Longrightarrow> kmemory s a = demo_mem a"
proof -
  have "kmem_inv 0x80108000 demo []" by (simp add: kmem_inv_def demo_def)
  from freerange_loop_inv [OF this, of "0x80400000" "0x80C00000"]
  obtain s where s: "freerange_loop 0x80108000 demo 0x80400000 0x80C00000 = Ok s"
    "kmem_inv 0x80108000 s (pages_upto 0x80400000 0x80C00000)"
    by (auto simp: P2V_def KERNBASE_def PHYSTOP_def)
  moreover have "kmemory s a = demo_mem a" if "0x8D000000 \<le> unat a" for a
    using freerange_loop_outside [OF s(1), of a] that by (simp add: demo_def)
  ultimately show ?thesis by (rule that)
qed

lemma demo_user_ok:
  assumes "\<And>a. 0x8D000000 \<le> unat a \<Longrightarrow> m a = demo_mem a"
  shows "user_ok 0x80108000 m (pages_upto 0x80400000 0x80C00000) 0x8D000000 4096"
    and "user_byte m 0x8D000000 0x10 = Some 0xAB"
proof -
  have high: "0x8D000000 \<le> unat a" if "in_page p a" "p \<in> {0x8D000000, 0x8D001000}" for p a
    using that by (auto simp: in_page_def word_less_nat_alt unat_uint_sub split: if_splits)
  have eq: "m a = demo_mem a" if "p \<in> ptpages demo_mem 0x8D000000" "in_page p a" for p a
    using assms high [OF that(2)] that(1) by (simp add: demo_pgdir_ok(2))
  note vm = vm_pte_cong(1) [OF demo_pgdir_ok(1) eq] and dir = pgdir_ok_cong [OF demo_pgdir_ok(1) eq]
  have low: "p \<notin> set (pages_upto 0x80400000 0x80C00000)" if "0x80C00000 \<le> unat p" for p
    using that pages_upto_mem [of p "0x80400000" "0x80C00000"] by auto
  have v0: "vm_pte m 0x8D000000 0 = Some (V2P 0x8D002000 OR 7)" using vm demo_vm [of 0] by simp
  then have "frame m 0x8D000000 0 = 0x8D002000"
    using demo_flags(2) [OF demo_valid(3)] by (simp add: frame_def)
  then show "user_ok 0x80108000 m (pages_upto 0x80400000 0x80C00000) 0x8D000000 4096"
    using dir v0 demo_valid low by (auto simp: user_ok_def demo_pgdir_ok(2))
  have "vm_pte m 0x8D000000 0x10 = Some (V2P 0x8D002000 OR 7)" using vm demo_vm [of "0x10"] by simp
  moreover have "(0x10 :: uint) - PGROUNDDOWN 0x10 = 0x10" by (simp add: PGROUNDDOWN_def)
  moreover have "m 0x8D002010 = 0xAB"
    using assms [of "0x8D002010"] by (simp add: demo_mem_def store_entry_other in_page_def)
  ultimately show "user_byte m 0x8D000000 0x10 = Some 0xAB"
    using demo_flags(2) [OF demo_valid(3)] by (simp add: user_byte_def)
qed

theorem copyuvm_copies_witness:
  "\<exists>s ps d s'. kmem_inv 0x80108000 s ps \<and> user_ok 0x80108000 (kmemory s) ps 0x8D000000 4096 \<and>
     copyuvm 0x80108000 0x80109000 s 0x8D000000 4096 = Ok (d, s') \<and> d \<noteq> 0 \<and>
     user_byte (kmemory s') d 0x10 = Some 0xAB"
proof -
  obtain s where "freerange_loop 0x80108000 demo 0x80400000 0x80C00000 = Ok s"
    and inv: "kmem_inv 0x80108000 s (pages_upto 0x80400000 0x80C00000)"
    and mem: "\<And>a. 0x8D000000 \<le> unat a \<Longrightarrow> kmemory s a = demo_mem a"
    by (rule demo_free) blast
  note usr = demo_user_ok [OF mem]
  have kd: "kdata_ok 0x80109000"
    by (simp add: kdata_ok_def KERNLINK_def KERNBASE_def EXTMEM_def P2V_def PHYSTOP_def)
  have sz: "4096 \<le> KERNBASE" by (simp add: KERNBASE_def)
  have "length (pages_upto 0x80400000 0x80C00000) = 2048" by (subst pages_upto_length) simp_all
  then have "1025 + npages 4096 < length (pages_upto 0x80400000 0x80C00000)" by (simp add: npages_def)
  from copyuvm_copies [OF inv kd usr(1) sz this] obtain d s' where
    run: "copyuvm 0x80108000 0x80109000 s 0x8D000000 4096 = Ok (d, s')" "d \<noteq> 0"
    and same: "\<forall>va. va < 4096 \<longrightarrow>
       (\<exists>b. user_byte (kmemory s) 0x8D000000 va = Some b \<and> user_byte (kmemory s') d va = Some b)"
    by blast
  have "user_byte (kmemory s') d 0x10 = Some 0xAB" using same [rule_format, of "0x10"] usr(2) by simp
  with inv usr(1) run show ?thesis by blast
qed

lemma demo_mappages: "\<exists>s'. mappages demo 0x8D000000 0x5000 PGSIZE 0x1234000 PTE_W = Ok (0, s')"
proof -
  have x: "PDX 0x5000 = 0" "PTX 0x5000 = 5" by (simp_all add: word_unat_eq_iff PDX_nat PTX_nat)
  have "walkpgdir demo 0x8D000000 0x5000 True = (entry 0x8D001000 5, demo)"
    using demo_dir by (simp add: walkpgdir_present x demo_def)
  moreover have "load32 (kmemory demo) (entry 0x8D001000 5) = 0"
    using demo_ent(2) [of 5] by (simp add: demo_def ent_def)
  moreover have "entry 0x8D001000 5 \<noteq> 0" by (rule entry_nonzero [OF demo_valid(2)]) simp
  moreover have "PGROUNDDOWN 0x5000 = 0x5000" "PGROUNDDOWN (0x5000 + PGSIZE - 1) = 0x5000"
    by (simp_all add: PGROUNDDOWN_def)
  ultimately show ?thesis by (simp add: mappages_def mappage1_def)
qed

theorem mappages_maps_witness:
  "space_ok 0x80108000 demo [] 0x8D000000 \<and>
   (\<exists>s'. mappages demo 0x8D000000 0x5000 PGSIZE 0x1234000 PTE_W = Ok (0, s') \<and>
     vm_pte (kmemory s') 0x8D000000 0x5678 = Some (0x1234000 OR PTE_W OR PTE_P))"
proof -
  have ok: "space_ok 0x80108000 demo [] 0x8D000000"
    using demo_pgdir_ok(1) by (simp add: space_ok_def kmem_inv_def demo_def)
  note rng = one_page_range [where n = 5, simplified]
  have "\<forall>v. page_no (PGROUNDDOWN 0x5000) v \<le> span 0x5000 PGSIZE \<longrightarrow> vm_pte (kmemory demo) 0x8D000000 v = None"
    using rng by (auto simp: demo_vm demo_def)
  from mappages_maps [OF ok this, of "0x1234000" PTE_W] show ?thesis
    using ok rng [of "0x5678"] demo_mappages by auto
qed

end
