(* ===== verification/Xv6_Proc.thy ===== *)
theory Xv6_Proc
  imports Xv6_Vm
begin

text \<open>
  Processes, \<^verbatim>\<open>src/xv6/proc.c\<close>: the process table, scheduling, sleep and wakeup, and the life
  of a process from \<^verbatim>\<open>allocproc\<close> to \<^verbatim>\<open>wait\<close>.  Each definition is a part of the source that
  runs while \<^verbatim>\<open>ptable.lock\<close> is held, or that touches only a process nobody else can reach;
  the step relation at the end interleaves them over all processors.  The trap frame and the
  saved context of a process are words on its kernel stack, in the memory of the page
  allocator.  The parts of \<^verbatim>\<open>fork\<close> and \<^verbatim>\<open>exit\<close> here are those on the table; open files and
  the current directory are indices into the file table and the inode cache.
\<close>

section \<open>Data\<close>

datatype procstate = UNUSED | EMBRYO | SLEEPING | RUNNABLE | RUNNING | ZOMBIE

text \<open>
  The addresses that the kernel sleeps on: a process (in \<^verbatim>\<open>wait\<close>), the tick counter, the log,
  the two counters of a pipe, a disk buffer, a sleep lock, the console input.
\<close>

datatype chan = ChProc nat | ChTicks | ChLog | ChPipeRead nat | ChPipeWrite nat | ChBuf nat
  | ChSleepLock nat | ChInput

record proc =
  p_sz :: uint
  p_pgdir :: uint
  p_kstack :: uint
  p_state :: procstate
  p_pid :: int
  p_parent :: "nat option"
  p_tf :: uint
  p_context :: uint
  p_chan :: "chan option"
  p_killed :: bool
  p_ofile :: "nat option list"
  p_cwd :: "nat option"
  p_name :: string

text \<open>
  \<open>cpu_proc\<close> is \<^verbatim>\<open>c->proc\<close> of every processor; \<open>cpu_scan\<close> is the index of the loop variable
  \<^verbatim>\<open>p\<close> of its \<^verbatim>\<open>scheduler\<close>.
\<close>

record psys =
  ptable :: "proc list"
  nextpid :: int
  initproc :: "nat option"
  cpu_proc :: "nat option list"
  cpu_scan :: "nat list"

definition set_proc :: "psys \<Rightarrow> nat \<Rightarrow> proc \<Rightarrow> psys" where
  "set_proc s i p = s\<lparr>ptable := (ptable s)[i := p]\<rparr>"

definition set_state :: "psys \<Rightarrow> nat \<Rightarrow> procstate \<Rightarrow> psys" where
  "set_state s i st = set_proc s i ((ptable s ! i)\<lparr>p_state := st\<rparr>)"

section \<open>Creating a process\<close>

definition KSTACKSIZE :: uint where "KSTACKSIZE = 4096"

text \<open>\<^verbatim>\<open>sizeof(struct trapframe)\<close>, \<^verbatim>\<open>sizeof(struct context)\<close> and the offsets of their fields.\<close>

definition TF_SIZE :: uint where "TF_SIZE = 76"
definition TF_EAX :: uint where "TF_EAX = 28"
definition CTX_SIZE :: uint where "CTX_SIZE = 20"
definition CTX_EIP :: uint where "CTX_EIP = 16"

definition alloc_slot :: "psys \<Rightarrow> nat option \<times> psys" where
  "alloc_slot s =
     (case find_idx (\<lambda>p. p_state p = UNUSED) (ptable s) of
        None \<Rightarrow> (None, s)
      | Some i \<Rightarrow> (Some i, (set_proc s i ((ptable s ! i)\<lparr>p_state := EMBRYO, p_pid := nextpid s\<rparr>))
                           \<lparr>nextpid := nextpid s + 1\<rparr>))"

definition alloc_stack ::
  "uint \<Rightarrow> uint \<Rightarrow> psys \<Rightarrow> kmem \<Rightarrow> nat \<Rightarrow> bool \<times> psys \<times> kmem" where
  "alloc_stack forkret trapret s km i =
     (case kalloc km of (ks, km1) \<Rightarrow>
        let p = (ptable s ! i)\<lparr>p_kstack := ks\<rparr>
        in if ks = 0 then (False, set_proc s i (p\<lparr>p_state := UNUSED\<rparr>), km1)
           else let sp = ks + KSTACKSIZE - TF_SIZE;
                    km2 = poke km1 (sp - 4) trapret;
                    ctx = sp - 4 - CTX_SIZE;
                    km3 = kmemset km2 ctx 0 CTX_SIZE
                in (True, set_proc s i (p\<lparr>p_tf := sp, p_context := ctx\<rparr>), poke km3 (ctx + CTX_EIP) forkret))"

definition allocproc ::
  "uint \<Rightarrow> uint \<Rightarrow> psys \<Rightarrow> kmem \<Rightarrow> nat option \<times> psys \<times> kmem" where
  "allocproc forkret trapret s km =
     (case alloc_slot s of
        (None, s1) \<Rightarrow> (None, s1, km)
      | (Some i, s1) \<Rightarrow>
          case alloc_stack forkret trapret s1 km i of
            (ok, s2, km2) \<Rightarrow> (if ok then Some i else None, s2, km2))"

text \<open>\<^verbatim>\<open>fork\<close>: what it does when \<^verbatim>\<open>copyuvm\<close> fails, the fields it fills, and the last step.\<close>

definition fork_undo :: "uint \<Rightarrow> psys \<Rightarrow> kmem \<Rightarrow> nat \<Rightarrow> (psys \<times> kmem) outcome" where
  "fork_undo kend s km np =
     (let p = ptable s ! np
      in obind (kfree kend km (p_kstack p)) (\<lambda>km1.
           Ok (set_proc s np (p\<lparr>p_pgdir := 0, p_kstack := 0, p_state := UNUSED\<rparr>), km1)))"

definition copy_ofile :: "nat option list \<Rightarrow> nat option list \<Rightarrow> nat option list" where
  "copy_ofile old new = map2 (\<lambda>f g. if f \<noteq> None then f else g) old new"

definition fork_copy :: "psys \<Rightarrow> nat \<Rightarrow> nat \<Rightarrow> uint \<Rightarrow> psys" where
  "fork_copy s cur np pgdir =
     (let c = ptable s ! cur; p = ptable s ! np
      in set_proc s np (p\<lparr>p_pgdir := pgdir, p_sz := p_sz c, p_parent := Some cur,
           p_ofile := copy_ofile (p_ofile c) (p_ofile p), p_cwd := p_cwd c, p_name := p_name c\<rparr>))"

definition fork_tf :: "psys \<Rightarrow> kmem \<Rightarrow> nat \<Rightarrow> nat \<Rightarrow> kmem" where
  "fork_tf s km cur np =
     (let tf = p_tf (ptable s ! np)
      in poke (kmemmove km tf (p_tf (ptable s ! cur)) TF_SIZE) (tf + TF_EAX) 0)"

definition fork_publish :: "psys \<Rightarrow> nat \<Rightarrow> psys" where
  "fork_publish s np = set_state s np RUNNABLE"

section \<open>Sleep and wakeup\<close>

definition wakeup1 :: "psys \<Rightarrow> chan option \<Rightarrow> psys" where
  "wakeup1 s ch = s\<lparr>ptable := map (\<lambda>p. if p_state p = SLEEPING \<and> p_chan p = ch
     then p\<lparr>p_state := RUNNABLE\<rparr> else p) (ptable s)\<rparr>"

definition wakeup :: "psys \<Rightarrow> chan \<Rightarrow> psys" where
  "wakeup s ch = wakeup1 s (Some ch)"

text \<open>\<^verbatim>\<open>swtch\<close> from the process on processor \<open>c\<close> to its scheduler, which clears \<^verbatim>\<open>c->proc\<close>.\<close>

definition to_scheduler :: "psys \<Rightarrow> nat \<Rightarrow> psys" where
  "to_scheduler s c = s\<lparr>cpu_proc := (cpu_proc s)[c := None]\<rparr>"

text \<open>\<^verbatim>\<open>sleep\<close> up to \<^verbatim>\<open>sched\<close> and after it.\<close>

definition sleep_enter :: "psys \<Rightarrow> nat \<Rightarrow> nat \<Rightarrow> chan \<Rightarrow> psys" where
  "sleep_enter s c i ch =
     to_scheduler (set_proc s i ((ptable s ! i)\<lparr>p_chan := Some ch, p_state := SLEEPING\<rparr>)) c"

definition sleep_leave :: "psys \<Rightarrow> nat \<Rightarrow> psys" where
  "sleep_leave s i = set_proc s i ((ptable s ! i)\<lparr>p_chan := None\<rparr>)"

definition yield :: "psys \<Rightarrow> nat \<Rightarrow> nat \<Rightarrow> psys" where
  "yield s c i = to_scheduler (set_state s i RUNNABLE) c"

definition kill :: "psys \<Rightarrow> int \<Rightarrow> int \<times> psys" where
  "kill s pid =
     (case find_idx (\<lambda>p. p_pid p = pid) (ptable s) of
        Some i \<Rightarrow>
          let p = (ptable s ! i)\<lparr>p_killed := True\<rparr>
          in (0, set_proc s i (if p_state p = SLEEPING then p\<lparr>p_state := RUNNABLE\<rparr> else p))
      | None \<Rightarrow> (- 1, s))"

section \<open>Scheduling\<close>

text \<open>
  One turn of the loop of \<^verbatim>\<open>scheduler\<close> on processor \<open>c\<close>: the process under the loop variable
  runs if it is runnable, and the loop goes on; after the last one it starts again.
  \<^verbatim>\<open>switchuvm\<close> panics on a process without a kernel stack or page directory; what else it
  does is to load the task segment and the page directory register of the processor, which
  are not part of this state.
\<close>

definition switchuvm :: "proc \<Rightarrow> unit outcome" where
  "switchuvm p =
     (if p_kstack p = 0 then Panic ''switchuvm: no kstack''
      else if p_pgdir p = 0 then Panic ''switchuvm: no pgdir''
      else Ok ())"

definition scheduler1 :: "psys \<Rightarrow> nat \<Rightarrow> psys outcome" where
  "scheduler1 s c =
     (let k = cpu_scan s ! c
      in if k < NPROC
         then let p = ptable s ! k; s1 = s\<lparr>cpu_scan := (cpu_scan s)[c := k + 1]\<rparr>
              in if p_state p \<noteq> RUNNABLE then Ok s1
                 else obind (switchuvm p) (\<lambda>_.
                        Ok (set_state (s1\<lparr>cpu_proc := (cpu_proc s1)[c := Some k]\<rparr>) k RUNNING))
         else Ok (s\<lparr>cpu_scan := (cpu_scan s)[c := 0]\<rparr>))"

text \<open>
  The checks of \<^verbatim>\<open>sched\<close>, on the machine of the spin locks; \<open>lk\<close> is the address of
  \<^verbatim>\<open>ptable.lock\<close>.  The value is \<^verbatim>\<open>intena\<close>, restored when the process runs again.
\<close>

definition sched :: "machine \<Rightarrow> uchar \<Rightarrow> nat \<Rightarrow> proc \<Rightarrow> (bool \<times> machine) outcome" where
  "sched m me lk p =
     obind (holding m me lk) (\<lambda>(h, m1).
       if \<not> h then Panic ''sched ptable.lock''
       else obind (mycpu m1 me) (\<lambda>c.
         if ncli (cpus m1 ! c) \<noteq> 1 then Panic ''sched locks''
         else if p_state p = RUNNING then Panic ''sched running''
         else if flag_if m1 me then Panic ''sched interruptible''
         else Ok (intena (cpus m1 ! c), m1)))"

definition sched_return :: "machine \<Rightarrow> uchar \<Rightarrow> bool \<Rightarrow> machine outcome" where
  "sched_return m me ie =
     obind (mycpu m me) (\<lambda>c. Ok (set_cpu m c ((cpus m ! c)\<lparr>intena := ie\<rparr>)))"

section \<open>Exit and wait\<close>

definition init_chan :: "psys \<Rightarrow> chan option" where
  "init_chan s = map_option ChProc (initproc s)"

definition reparent :: "nat \<Rightarrow> nat \<Rightarrow> psys \<Rightarrow> psys" where
  "reparent cur i s =
     (let p = ptable s ! i
      in if p_parent p = Some cur
         then let s1 = set_proc s i (p\<lparr>p_parent := initproc s\<rparr>)
              in if p_state p = ZOMBIE then wakeup1 s1 (init_chan s) else s1
         else s)"

text \<open>\<^verbatim>\<open>exit\<close>, once files and directory are released: under \<^verbatim>\<open>ptable.lock\<close> up to \<^verbatim>\<open>sched\<close>.\<close>

definition exit_table :: "psys \<Rightarrow> nat \<Rightarrow> nat \<Rightarrow> psys outcome" where
  "exit_table s c cur =
     (if Some cur = initproc s then Panic ''init exiting''
      else let s1 = wakeup1 s (map_option ChProc (p_parent (ptable s ! cur)));
               s2 = fold (reparent cur) [0 ..< NPROC] s1
           in Ok (to_scheduler (set_state s2 cur ZOMBIE) c))"

text \<open>One pass of the loop of \<^verbatim>\<open>wait\<close>: it returns a value, or goes to sleep on itself.\<close>

datatype wait_result = Returns int | Sleeps

definition reap :: "psys \<Rightarrow> nat \<Rightarrow> psys" where
  "reap s i = set_proc s i ((ptable s ! i)\<lparr>p_kstack := 0, p_pid := 0, p_parent := None,
     p_name := '''', p_killed := False, p_state := UNUSED\<rparr>)"

definition wait1 :: "uint \<Rightarrow> psys \<Rightarrow> kmem \<Rightarrow> nat \<Rightarrow> nat \<Rightarrow> (wait_result \<times> psys \<times> kmem) outcome" where
  "wait1 kend s km c cur =
     (case find_idx (\<lambda>p. p_parent p = Some cur \<and> p_state p = ZOMBIE) (ptable s) of
        Some i \<Rightarrow>
          obind (kfree kend km (p_kstack (ptable s ! i))) (\<lambda>km1.
          obind (freevm kend km1 (p_pgdir (ptable s ! i))) (\<lambda>km2.
            Ok (Returns (p_pid (ptable s ! i)), reap s i, km2)))
      | None \<Rightarrow>
          if \<not> list_ex (\<lambda>p. p_parent p = Some cur) (ptable s) \<or> p_killed (ptable s ! cur)
          then Ok (Returns (- 1), s, km)
          else Ok (Sleeps, sleep_enter s c cur (ChProc cur), km))"

section \<open>Counting processes\<close>

definition sys_pscnt :: "psys \<Rightarrow> int" where
  "sys_pscnt s = foldl (\<lambda>n p. if p_state p \<noteq> UNUSED then n + 1 else n) 0 (ptable s)"

definition state_name :: "procstate \<Rightarrow> string" where
  "state_name st = (case st of UNUSED \<Rightarrow> ''unused'' | EMBRYO \<Rightarrow> ''embryo'' | SLEEPING \<Rightarrow> ''sleep ''
     | RUNNABLE \<Rightarrow> ''runble'' | RUNNING \<Rightarrow> ''run   '' | ZOMBIE \<Rightarrow> ''zombie'')"

text \<open>What \<^verbatim>\<open>procdump\<close> prints for each process; 12 is the offset of \<^verbatim>\<open>ebp\<close> in a saved context.\<close>

definition procdump :: "psys \<Rightarrow> kmem \<Rightarrow> (int \<times> string \<times> string \<times> uint list) list" where
  "procdump s km =
     map (\<lambda>p. (p_pid p, state_name (p_state p), p_name p,
         if p_state p = SLEEPING
         then takeWhile (\<lambda>pc. pc \<noteq> 0)
                (getcallerpcs (load32 (kmemory km)) (load32 (kmemory km) (p_context p + 12) + 8))
         else []))
       (filter (\<lambda>p. p_state p \<noteq> UNUSED) (ptable s))"

section \<open>The current process and its size\<close>

definition myproc :: "machine \<Rightarrow> uchar \<Rightarrow> psys \<Rightarrow> (nat option \<times> machine) outcome" where
  "myproc m me s =
     obind (pushcli m me) (\<lambda>m1.
     obind (mycpu m1 me) (\<lambda>c.
     obind (popcli m1 me) (\<lambda>m2. Ok (cpu_proc s ! c, m2))))"

definition growproc :: "uint \<Rightarrow> psys \<Rightarrow> kmem \<Rightarrow> nat \<Rightarrow> int \<Rightarrow> (int \<times> psys \<times> kmem) outcome" where
  "growproc kend s km cur n =
     (let p = ptable s ! cur; sz = p_sz p
      in obind (if n > 0 then allocuvm kend km (p_pgdir p) sz (sz + of_int n)
                else if n < 0 then deallocuvm kend km (p_pgdir p) sz (sz + of_int n)
                else Ok (sz, km)) (\<lambda>(sz1, km1).
           if n \<noteq> 0 \<and> sz1 = 0 then Ok (- 1, s, km1)
           else let p1 = p\<lparr>p_sz := sz1\<rparr>
                in obind (switchuvm p1) (\<lambda>_. Ok (0, set_proc s cur p1, km1))))"

section \<open>The first process\<close>

text \<open>
  \<open>code\<close> and \<open>codesz\<close> are the address and size of the linked-in \<^verbatim>\<open>initcode\<close>, \<open>root\<close> is the
  inode that \<^verbatim>\<open>namei("/")\<close> returns.  The words stored are \<^verbatim>\<open>cs\<close>, \<^verbatim>\<open>ds\<close>, \<^verbatim>\<open>es\<close>, \<^verbatim>\<open>ss\<close>, \<^verbatim>\<open>eflags\<close>,
  \<^verbatim>\<open>esp\<close> and \<^verbatim>\<open>eip\<close> of the trap frame.
\<close>

definition user_tf :: "kmem \<Rightarrow> uint \<Rightarrow> kmem" where
  "user_tf km tf =
     foldl (\<lambda>m (off, v). poke m (tf + off) v) (kmemset km tf 0 TF_SIZE)
       [(60, 0x1B), (44, 0x23), (40, 0x23), (72, 0x23), (64, 0x200), (68, PGSIZE), (56, 0)]"

definition userinit ::
  "uint \<Rightarrow> uint \<Rightarrow> uint \<Rightarrow> uint \<Rightarrow> uint \<Rightarrow> uint \<Rightarrow> nat option \<Rightarrow> psys \<Rightarrow> kmem \<Rightarrow> (psys \<times> kmem) outcome" where
  "userinit kend kdata forkret trapret code codesz root s km =
     (case allocproc forkret trapret s km of
        (None, _, _) \<Rightarrow> Panic ''trap''
      | (Some i, s1, km1) \<Rightarrow>
          obind (setupkvm kend kdata km1) (\<lambda>(pd, km2).
            if pd = 0 then Panic ''userinit: out of memory?''
            else obind (inituvm km2 pd code codesz) (\<lambda>km3.
              let p = ptable s1 ! i;
                  km4 = user_tf km3 (p_tf p);
                  s2 = (set_proc s1 i (p\<lparr>p_pgdir := pd, p_sz := PGSIZE, p_name := ''initcode'', p_cwd := root\<rparr>))
                         \<lparr>initproc := Some i\<rparr>
              in Ok (set_state s2 i RUNNABLE, km4))))"

text \<open>The table before \<^verbatim>\<open>userinit\<close>: static storage is zero, \<^verbatim>\<open>nextpid\<close> is 1.\<close>

definition zero_proc :: proc where
  "zero_proc = \<lparr>p_sz = 0, p_pgdir = 0, p_kstack = 0, p_state = UNUSED, p_pid = 0, p_parent = None,
     p_tf = 0, p_context = 0, p_chan = None, p_killed = False, p_ofile = replicate NOFILE None,
     p_cwd = None, p_name = ''''\<rparr>"

definition zero_psys :: "nat \<Rightarrow> psys" where
  "zero_psys ncpu = \<lparr>ptable = replicate NPROC zero_proc, nextpid = 1, initproc = None,
     cpu_proc = replicate ncpu None, cpu_scan = replicate ncpu 0\<rparr>"

section \<open>Interleaving\<close>

text \<open>
  Where a process is inside \<^verbatim>\<open>fork\<close>: it has a slot, the slot has a kernel stack, the child is
  filled in.  \<open>pfork i\<close> is the child that process \<open>i\<close> is making.
\<close>

datatype fork_pc = Slot | Stack | Filled

record psystem =
  tbl :: psys
  kmm :: kmem
  pfork :: "nat \<Rightarrow> (nat \<times> fork_pc) option"

text \<open>
  The steps of all processors.  \<^verbatim>\<open>int nextpid\<close> has 32 bits and its overflow is undefined, so
  \<open>ps_slot\<close> needs room for one more; \<open>ps_local\<close> is what a process may do to its own fields
  (\<^verbatim>\<open>sbrk\<close>, \<^verbatim>\<open>exec\<close>, opening files), and \<open>ps_memory\<close> any change of memory.
\<close>

inductive pstep :: "uint \<Rightarrow> uint \<Rightarrow> uint \<Rightarrow> uint \<Rightarrow> psystem \<Rightarrow> psystem \<Rightarrow> bool"
  for kend kdata forkret trapret where
  ps_sched: "c < length (cpu_proc (tbl x)) \<Longrightarrow> cpu_proc (tbl x) ! c = None \<Longrightarrow> scheduler1 (tbl x) c = Ok s \<Longrightarrow>
     pstep kend kdata forkret trapret x (x\<lparr>tbl := s\<rparr>)"
| ps_yield: "c < length (cpu_proc (tbl x)) \<Longrightarrow> cpu_proc (tbl x) ! c = Some i \<Longrightarrow>
     pstep kend kdata forkret trapret x (x\<lparr>tbl := yield (tbl x) c i\<rparr>)"
| ps_sleep: "c < length (cpu_proc (tbl x)) \<Longrightarrow> cpu_proc (tbl x) ! c = Some i \<Longrightarrow> pfork x i = None \<Longrightarrow>
     (\<forall>k. ch \<noteq> ChProc k) \<Longrightarrow> pstep kend kdata forkret trapret x (x\<lparr>tbl := sleep_enter (tbl x) c i ch\<rparr>)"
| ps_awake: "c < length (cpu_proc (tbl x)) \<Longrightarrow> cpu_proc (tbl x) ! c = Some i \<Longrightarrow>
     pstep kend kdata forkret trapret x (x\<lparr>tbl := sleep_leave (tbl x) i\<rparr>)"
| ps_wakeup: "pstep kend kdata forkret trapret x (x\<lparr>tbl := wakeup (tbl x) ch\<rparr>)"
| ps_kill: "pstep kend kdata forkret trapret x (x\<lparr>tbl := snd (kill (tbl x) pid)\<rparr>)"
| ps_slot: "c < length (cpu_proc (tbl x)) \<Longrightarrow> cpu_proc (tbl x) ! c = Some i \<Longrightarrow> pfork x i = None \<Longrightarrow>
     nextpid (tbl x) < 2 ^ 31 - 1 \<Longrightarrow> alloc_slot (tbl x) = (Some np, s) \<Longrightarrow>
     pstep kend kdata forkret trapret x (x\<lparr>tbl := s, pfork := (pfork x)(i := Some (np, Slot))\<rparr>)"
| ps_stack: "c < length (cpu_proc (tbl x)) \<Longrightarrow> cpu_proc (tbl x) ! c = Some i \<Longrightarrow> pfork x i = Some (np, Slot) \<Longrightarrow>
     alloc_stack forkret trapret (tbl x) (kmm x) np = (ok, s, km) \<Longrightarrow>
     pstep kend kdata forkret trapret x
       (x\<lparr>tbl := s, kmm := km, pfork := (pfork x)(i := if ok then Some (np, Stack) else None)\<rparr>)"
| ps_copy: "c < length (cpu_proc (tbl x)) \<Longrightarrow> cpu_proc (tbl x) ! c = Some i \<Longrightarrow> pfork x i = Some (np, Stack) \<Longrightarrow>
     copyuvm kend kdata (kmm x) (p_pgdir (ptable (tbl x) ! i)) (p_sz (ptable (tbl x) ! i)) = Ok (d, km) \<Longrightarrow>
     d \<noteq> 0 \<Longrightarrow>
     pstep kend kdata forkret trapret x
       (x\<lparr>tbl := fork_copy (tbl x) i np d, kmm := fork_tf (tbl x) km i np,
          pfork := (pfork x)(i := Some (np, Filled))\<rparr>)"
| ps_undo: "c < length (cpu_proc (tbl x)) \<Longrightarrow> cpu_proc (tbl x) ! c = Some i \<Longrightarrow> pfork x i = Some (np, Stack) \<Longrightarrow>
     copyuvm kend kdata (kmm x) (p_pgdir (ptable (tbl x) ! i)) (p_sz (ptable (tbl x) ! i)) = Ok (0, km) \<Longrightarrow>
     fork_undo kend (tbl x) km np = Ok (s, km') \<Longrightarrow>
     pstep kend kdata forkret trapret x (x\<lparr>tbl := s, kmm := km', pfork := (pfork x)(i := None)\<rparr>)"
| ps_publish: "c < length (cpu_proc (tbl x)) \<Longrightarrow> cpu_proc (tbl x) ! c = Some i \<Longrightarrow>
     pfork x i = Some (np, Filled) \<Longrightarrow>
     pstep kend kdata forkret trapret x (x\<lparr>tbl := fork_publish (tbl x) np, pfork := (pfork x)(i := None)\<rparr>)"
| ps_exit: "c < length (cpu_proc (tbl x)) \<Longrightarrow> cpu_proc (tbl x) ! c = Some i \<Longrightarrow> pfork x i = None \<Longrightarrow>
     exit_table (tbl x) c i = Ok s \<Longrightarrow> pstep kend kdata forkret trapret x (x\<lparr>tbl := s\<rparr>)"
| ps_wait: "c < length (cpu_proc (tbl x)) \<Longrightarrow> cpu_proc (tbl x) ! c = Some i \<Longrightarrow> pfork x i = None \<Longrightarrow>
     wait1 kend (tbl x) (kmm x) c i = Ok (r, s, km) \<Longrightarrow>
     pstep kend kdata forkret trapret x (x\<lparr>tbl := s, kmm := km\<rparr>)"
| ps_local: "c < length (cpu_proc (tbl x)) \<Longrightarrow> cpu_proc (tbl x) ! c = Some i \<Longrightarrow> pd \<noteq> 0 \<Longrightarrow>
     pstep kend kdata forkret trapret x (x\<lparr>tbl := set_proc (tbl x) i ((ptable (tbl x) ! i)
       \<lparr>p_sz := sz, p_pgdir := pd, p_ofile := fs, p_cwd := wd, p_name := nm, p_tf := tf\<rparr>)\<rparr>)"
| ps_memory: "pstep kend kdata forkret trapret x (x\<lparr>kmm := km\<rparr>)"

text \<open>Boot: \<^verbatim>\<open>userinit\<close> on the zero table, then any steps.\<close>

inductive preach :: "uint \<Rightarrow> uint \<Rightarrow> uint \<Rightarrow> uint \<Rightarrow> psystem \<Rightarrow> bool" for kend kdata forkret trapret where
  pr_boot: "userinit kend kdata forkret trapret code codesz root (zero_psys ncpu) km0 = Ok (s, km) \<Longrightarrow>
     preach kend kdata forkret trapret \<lparr>tbl = s, kmm = km, pfork = (\<lambda>_. None)\<rparr>"
| pr_step: "preach kend kdata forkret trapret x \<Longrightarrow> pstep kend kdata forkret trapret x y \<Longrightarrow>
     preach kend kdata forkret trapret y"

section \<open>Invariants\<close>

abbreviation (input) st :: "psys \<Rightarrow> nat \<Rightarrow> procstate" where "st s i \<equiv> p_state (ptable s ! i)"
abbreviation (input) par :: "psys \<Rightarrow> nat \<Rightarrow> nat option" where "par s i \<equiv> p_parent (ptable s ! i)"
abbreviation (input) pidof :: "psys \<Rightarrow> nat \<Rightarrow> int" where "pidof s i \<equiv> p_pid (ptable s ! i)"

definition alive :: "procstate \<Rightarrow> bool" where
  "alive q \<longleftrightarrow> q = SLEEPING \<or> q = RUNNABLE \<or> q = RUNNING"

text \<open>A process is in state \<^verbatim>\<open>RUNNING\<close> exactly when one processor runs it.\<close>

definition cpus_inv :: "psys \<Rightarrow> bool" where
  "cpus_inv s \<longleftrightarrow> length (ptable s) = NPROC \<and>
     (\<forall>c < length (cpu_proc s). \<forall>i. cpu_proc s ! c = Some i \<longrightarrow> i < NPROC \<and> st s i = RUNNING) \<and>
     (\<forall>c < length (cpu_proc s). \<forall>d < length (cpu_proc s). \<forall>i.
        cpu_proc s ! c = Some i \<longrightarrow> cpu_proc s ! d = Some i \<longrightarrow> c = d) \<and>
     (\<forall>i < NPROC. st s i = RUNNING \<longrightarrow> (\<exists>c < length (cpu_proc s). cpu_proc s ! c = Some i))"

text \<open>Process identifiers are unique and were handed out by \<^verbatim>\<open>nextpid\<close>.\<close>

definition pids_inv :: "psys \<Rightarrow> bool" where
  "pids_inv s \<longleftrightarrow> 0 < nextpid s \<and>
     (\<forall>i < NPROC. 0 \<le> pidof s i \<and> pidof s i < nextpid s \<and> (st s i \<noteq> UNUSED \<longrightarrow> 0 < pidof s i)) \<and>
     (\<forall>i < NPROC. \<forall>j < NPROC. pidof s i = pidof s j \<longrightarrow> pidof s i \<noteq> 0 \<longrightarrow> i = j)"

text \<open>A process in state \<^verbatim>\<open>EMBRYO\<close> belongs to the one \<^verbatim>\<open>fork\<close> that is making it.\<close>

definition forks_inv :: "psystem \<Rightarrow> bool" where
  "forks_inv x \<longleftrightarrow>
     (\<forall>i np fp. pfork x i = Some (np, fp) \<longrightarrow>
        i < NPROC \<and> np < NPROC \<and> (st (tbl x) i = RUNNING \<or> st (tbl x) i = RUNNABLE) \<and>
        st (tbl x) np = EMBRYO \<and> par (tbl x) np = (if fp = Filled then Some i else None) \<and>
        (fp \<noteq> Slot \<longrightarrow> p_kstack (ptable (tbl x) ! np) \<noteq> 0) \<and>
        (fp = Filled \<longrightarrow> p_pgdir (ptable (tbl x) ! np) \<noteq> 0)) \<and>
     (\<forall>i j np fp fp'. pfork x i = Some (np, fp) \<longrightarrow> pfork x j = Some (np, fp') \<longrightarrow> i = j) \<and>
     (\<forall>np < NPROC. st (tbl x) np = EMBRYO \<longrightarrow> (\<exists>i fp. pfork x i = Some (np, fp)))"

text \<open>
  The first process is alive and has no parent; every parent is alive; every other process
  that is not being made has a parent.
\<close>

definition tree_inv :: "psys \<Rightarrow> bool" where
  "tree_inv s \<longleftrightarrow> (\<exists>r < NPROC. initproc s = Some r \<and> alive (st s r) \<and> par s r = None \<and>
     (\<forall>i < NPROC. i \<noteq> r \<longrightarrow> st s i \<noteq> UNUSED \<longrightarrow> st s i \<noteq> EMBRYO \<longrightarrow> par s i \<noteq> None)) \<and>
     (\<forall>i < NPROC. \<forall>j. par s i = Some j \<longrightarrow> j < NPROC \<and> j \<noteq> i \<and> st s i \<noteq> UNUSED \<and> alive (st s j))"

text \<open>A process that sleeps in \<^verbatim>\<open>wait\<close> has a child, and none of its children is a zombie.\<close>

definition sleep_inv :: "psys \<Rightarrow> bool" where
  "sleep_inv s \<longleftrightarrow> (\<forall>i < NPROC. st s i = SLEEPING \<longrightarrow> p_chan (ptable s ! i) \<noteq> None \<and>
     (\<forall>k. p_chan (ptable s ! i) = Some (ChProc k) \<longrightarrow> k = i \<and>
        (\<forall>j < NPROC. par s j = Some i \<longrightarrow> st s j \<noteq> ZOMBIE) \<and> (\<exists>j < NPROC. par s j = Some i)))"

definition stack_inv :: "psys \<Rightarrow> bool" where
  "stack_inv s \<longleftrightarrow> (\<forall>i < NPROC. st s i \<noteq> UNUSED \<longrightarrow> st s i \<noteq> EMBRYO \<longrightarrow>
     p_kstack (ptable s ! i) \<noteq> 0 \<and> p_pgdir (ptable s ! i) \<noteq> 0)"

definition pinv :: "psystem \<Rightarrow> bool" where
  "pinv x \<longleftrightarrow> cpus_inv (tbl x) \<and> pids_inv (tbl x) \<and> forks_inv x \<and> tree_inv (tbl x) \<and>
     sleep_inv (tbl x) \<and> stack_inv (tbl x)"

lemmas pinv_defs = cpus_inv_def pids_inv_def forks_inv_def tree_inv_def sleep_inv_def stack_inv_def

lemma cpus_same:
  assumes "cpus_inv s" and "length (ptable s') = length (ptable s)" and "cpu_proc s' = cpu_proc s"
    and "\<And>j. j < 64 \<Longrightarrow> (st s' j = RUNNING) = (st s j = RUNNING)"
  shows "cpus_inv s'"
  unfolding cpus_inv_def
proof (intro conjI allI impI)
  note inv = assms(1) [unfolded cpus_inv_def]
  show "length (ptable s') = 64" using inv assms(2) by simp
  fix c i assume "c < length (cpu_proc s')" "cpu_proc s' ! c = Some i"
  then have "i < 64 \<and> st s i = RUNNING" using inv assms(3) by simp
  then show "i < 64" "st s' i = RUNNING" using assms(4) by simp_all
next
  fix c d i assume "c < length (cpu_proc s')" "d < length (cpu_proc s')" "cpu_proc s' ! c = Some i"
    "cpu_proc s' ! d = Some i"
  then show "c = d" using assms(1,3) unfolding cpus_inv_def by metis
next
  fix i :: nat assume "i < 64" "st s' i = RUNNING"
  then show "\<exists>c < length (cpu_proc s'). cpu_proc s' ! c = Some i"
    using assms unfolding cpus_inv_def by metis
qed

lemma cpusD:
  assumes "cpus_inv s"
  shows "length (ptable s) = 64"
    and "c < length (cpu_proc s) \<Longrightarrow> cpu_proc s ! c = Some i \<Longrightarrow> i < 64 \<and> st s i = RUNNING"
    and "c < length (cpu_proc s) \<Longrightarrow> d < length (cpu_proc s) \<Longrightarrow> cpu_proc s ! c = Some i \<Longrightarrow>
      cpu_proc s ! d = Some i \<Longrightarrow> c = d"
    and "i < 64 \<Longrightarrow> st s i = RUNNING \<Longrightarrow> \<exists>c < length (cpu_proc s). cpu_proc s ! c = Some i"
  using assms unfolding cpus_inv_def by (metis, metis, metis, metis)

lemma cpus_leave:
  assumes inv: "cpus_inv s" and len: "length (ptable s') = length (ptable s)"
    and c: "c < length (cpu_proc s)" "cpu_proc s ! c = Some i" and cp: "cpu_proc s' = (cpu_proc s)[c := None]"
    and run: "\<And>j. j < 64 \<Longrightarrow> (st s' j = RUNNING) = (j \<noteq> i \<and> st s j = RUNNING)"
  shows "cpus_inv s'"
  unfolding cpus_inv_def
proof (intro conjI allI impI)
  show "length (ptable s') = 64" using cpusD(1) [OF inv] len by simp
  fix d j assume d: "d < length (cpu_proc s')" "cpu_proc s' ! d = Some j"
  then have dc: "d \<noteq> c" "d < length (cpu_proc s)" "cpu_proc s ! d = Some j"
    using cp c(1) by (auto simp: nth_list_update split: if_splits)
  then have "j \<noteq> i" using cpusD(3) [OF inv c(1) dc(2) c(2)] by auto
  then show "j < 64" "st s' j = RUNNING" using cpusD(2) [OF inv dc(2,3)] run by simp_all
next
  fix d e j assume "d < length (cpu_proc s')" "e < length (cpu_proc s')" "cpu_proc s' ! d = Some j"
    "cpu_proc s' ! e = Some j"
  then show "d = e" using cp c(1) cpusD(3) [OF inv] by (auto simp: nth_list_update split: if_splits)
next
  fix j :: nat assume "j < 64" "st s' j = RUNNING"
  then obtain d where "d < length (cpu_proc s)" "cpu_proc s ! d = Some j" "j \<noteq> i"
    using run cpusD(4) [OF inv] by metis
  then show "\<exists>d < length (cpu_proc s'). cpu_proc s' ! d = Some j"
    using cp c by (intro exI [of _ d]) (auto simp: nth_list_update)
qed

lemma cpus_enter:
  assumes inv: "cpus_inv s" and len: "length (ptable s') = length (ptable s)"
    and c: "c < length (cpu_proc s)" "cpu_proc s ! c = None" and cp: "cpu_proc s' = (cpu_proc s)[c := Some i]"
    and i: "i < 64" "st s i \<noteq> RUNNING"
    and run: "\<And>j. j < 64 \<Longrightarrow> (st s' j = RUNNING) = (j = i \<or> st s j = RUNNING)"
  shows "cpus_inv s'"
  unfolding cpus_inv_def
proof (intro conjI allI impI)
  show "length (ptable s') = 64" using cpusD(1) [OF inv] len by simp
  fix d j assume d: "d < length (cpu_proc s')" "cpu_proc s' ! d = Some j"
  show "j < 64" "st s' j = RUNNING"
    using d cp c i run cpusD(2) [OF inv, of d j] by (auto simp: nth_list_update split: if_splits)
next
  have old: "cpu_proc s ! d \<noteq> Some i" if "d < length (cpu_proc s)" for d
    using cpusD(2) [OF inv that] i(2) by auto
  fix d e j assume "d < length (cpu_proc s')" "e < length (cpu_proc s')" "cpu_proc s' ! d = Some j"
    "cpu_proc s' ! e = Some j"
  then show "d = e" using cp c(1) cpusD(3) [OF inv] old by (auto simp: nth_list_update split: if_splits)
next
  fix j :: nat assume j: "j < 64" "st s' j = RUNNING"
  show "\<exists>d < length (cpu_proc s'). cpu_proc s' ! d = Some j"
  proof (cases "j = i")
    case True
    then show ?thesis using cp c by (intro exI [of _ c]) simp
  next
    case False
    then obtain d where "d < length (cpu_proc s)" "cpu_proc s ! d = Some j"
      using j run cpusD(4) [OF inv] by metis
    then show ?thesis using cp c by (intro exI [of _ d]) (auto simp: nth_list_update)
  qed
qed

lemma pids_same:
  assumes inv: "pids_inv s" and "nextpid s' = nextpid s"
    and pid: "\<And>j. j < 64 \<Longrightarrow> pidof s' j = pidof s j"
    and "\<And>j. j < 64 \<Longrightarrow> st s j = UNUSED \<Longrightarrow> st s' j = UNUSED"
  shows "pids_inv s'"
  using assms unfolding pids_inv_def by (simp add: pid) metis

lemma stack_same:
  assumes "stack_inv s"
    and "\<And>j. j < 64 \<Longrightarrow> p_kstack (ptable s' ! j) = p_kstack (ptable s ! j) \<and> p_pgdir (ptable s' ! j) = p_pgdir (ptable s ! j)"
    and "\<And>j. j < 64 \<Longrightarrow> st s j = UNUSED \<or> st s j = EMBRYO \<Longrightarrow> st s' j = UNUSED \<or> st s' j = EMBRYO"
  shows "stack_inv s'"
  using assms unfolding stack_inv_def by metis

lemma tree_same:
  assumes inv: "tree_inv s" and init: "initproc s' = initproc s"
    and pa: "\<And>j. j < 64 \<Longrightarrow> par s' j = par s j"
    and al: "\<And>j. j < 64 \<Longrightarrow> alive (st s j) \<Longrightarrow> alive (st s' j)"
    and ue: "\<And>j. j < 64 \<Longrightarrow> st s' j = UNUSED \<longleftrightarrow> st s j = UNUSED"
      "\<And>j. j < 64 \<Longrightarrow> st s' j = EMBRYO \<longleftrightarrow> st s j = EMBRYO"
  shows "tree_inv s'"
proof -
  obtain r where r: "r < 64" "initproc s = Some r" "alive (st s r)" "par s r = None"
    "\<And>i. i < 64 \<Longrightarrow> i \<noteq> r \<Longrightarrow> st s i \<noteq> UNUSED \<Longrightarrow> st s i \<noteq> EMBRYO \<Longrightarrow> par s i \<noteq> None"
    and tr: "\<And>i j. i < 64 \<Longrightarrow> par s i = Some j \<Longrightarrow> j < 64 \<and> j \<noteq> i \<and> st s i \<noteq> UNUSED \<and> alive (st s j)"
    using inv unfolding tree_inv_def by blast
  have "r < 64 \<and> initproc s' = Some r \<and> alive (st s' r) \<and> par s' r = None \<and>
     (\<forall>i < 64. i \<noteq> r \<longrightarrow> st s' i \<noteq> UNUSED \<longrightarrow> st s' i \<noteq> EMBRYO \<longrightarrow> par s' i \<noteq> None)"
    using r init pa al ue by simp
  moreover have "j < 64 \<and> j \<noteq> i \<and> st s' i \<noteq> UNUSED \<and> alive (st s' j)" if "i < 64" "par s' i = Some j" for i j
    using tr [of i j] that pa al ue by simp
  ultimately show ?thesis unfolding tree_inv_def by blast
qed

lemma sleep_same:
  assumes inv: "sleep_inv s"
    and pa: "\<And>j. j < 64 \<Longrightarrow> par s' j = par s j"
    and sl: "\<And>j. j < 64 \<Longrightarrow> st s' j = SLEEPING \<Longrightarrow> st s j = SLEEPING \<and> p_chan (ptable s' ! j) = p_chan (ptable s ! j)"
    and zo: "\<And>j. j < 64 \<Longrightarrow> st s' j = ZOMBIE \<Longrightarrow> st s j = ZOMBIE"
  shows "sleep_inv s'"
  unfolding sleep_inv_def
proof (intro allI impI conjI)
  fix i :: nat assume i: "i < 64" "st s' i = SLEEPING"
  then have o: "st s i = SLEEPING" "p_chan (ptable s' ! i) = p_chan (ptable s ! i)" using sl by auto
  show "p_chan (ptable s' ! i) \<noteq> None" using inv i o unfolding sleep_inv_def by auto
  fix k assume "p_chan (ptable s' ! i) = Some (ChProc k)"
  then have k: "k = i" "\<And>j. j < 64 \<Longrightarrow> par s j = Some i \<Longrightarrow> st s j \<noteq> ZOMBIE" "\<exists>j < 64. par s j = Some i"
    using inv i o unfolding sleep_inv_def by auto
  show "k = i" by (rule k(1))
  show "st s' j \<noteq> ZOMBIE" if "j < 64" "par s' j = Some i" for j using that k(2) [of j] zo pa by auto
  show "\<exists>j < 64. par s' j = Some i" using k(3) pa by auto
qed

lemma alive_iff: "alive q \<longleftrightarrow> q \<noteq> UNUSED \<and> q \<noteq> EMBRYO \<and> q \<noteq> ZOMBIE"
  by (cases q) (simp_all add: alive_def)

lemma forksD:
  assumes "forks_inv x"
  shows "pfork x i = Some (np, fp) \<Longrightarrow> i < 64 \<and> np < 64 \<and> (st (tbl x) i = RUNNING \<or> st (tbl x) i = RUNNABLE) \<and>
        st (tbl x) np = EMBRYO \<and> par (tbl x) np = (if fp = Filled then Some i else None) \<and>
        (fp \<noteq> Slot \<longrightarrow> p_kstack (ptable (tbl x) ! np) \<noteq> 0) \<and>
        (fp = Filled \<longrightarrow> p_pgdir (ptable (tbl x) ! np) \<noteq> 0)"
    and "pfork x i = Some (np, fp) \<Longrightarrow> pfork x j = Some (np, fp') \<Longrightarrow> i = j"
    and "np < 64 \<Longrightarrow> st (tbl x) np = EMBRYO \<Longrightarrow> \<exists>i fp. pfork x i = Some (np, fp)"
  using assms unfolding forks_inv_def by (metis, metis, metis)

lemma forks_same:
  assumes inv: "forks_inv x" and pf: "pfork y = pfork x"
    and em: "\<And>j. j < 64 \<Longrightarrow> st (tbl y) j = EMBRYO \<longleftrightarrow> st (tbl x) j = EMBRYO"
    and keep: "\<And>j. j < 64 \<Longrightarrow> st (tbl x) j = EMBRYO \<Longrightarrow> par (tbl y) j = par (tbl x) j \<and>
      p_kstack (ptable (tbl y) ! j) = p_kstack (ptable (tbl x) ! j) \<and>
      p_pgdir (ptable (tbl y) ! j) = p_pgdir (ptable (tbl x) ! j)"
    and run: "\<And>j. j < 64 \<Longrightarrow> pfork x j \<noteq> None \<Longrightarrow> st (tbl y) j = RUNNING \<or> st (tbl y) j = RUNNABLE"
  shows "forks_inv y"
  unfolding forks_inv_def pf
proof (intro conjI allI impI)
  fix i np fp assume f: "pfork x i = Some (np, fp)"
  note o = forksD(1) [OF inv f]
  show "i < 64" "np < 64" using o by auto
  show "st (tbl y) i = RUNNING \<or> st (tbl y) i = RUNNABLE" using o f run by simp
  show "st (tbl y) np = EMBRYO" "par (tbl y) np = (if fp = Filled then Some i else None)"
    using o em keep by simp_all
  show "p_kstack (ptable (tbl y) ! np) \<noteq> 0" if "fp \<noteq> Slot" using o keep that by simp
  show "p_pgdir (ptable (tbl y) ! np) \<noteq> 0" if "fp = Filled" using o keep that by simp
next
  show "i = j" if "pfork x i = Some (np, fp)" "pfork x j = Some (np, fp')" for i j np fp fp'
    using forksD(2) [OF inv that] .
  show "\<exists>i fp. pfork x i = Some (np, fp)" if "np < 64" "st (tbl y) np = EMBRYO" for np
    using forksD(3) [OF inv that(1)] em that by simp
qed

lemma pinv_quiet:
  assumes inv: "pinv x" and "cpus_inv s'" and "sleep_inv s'"
    and glob: "nextpid s' = nextpid (tbl x)" "initproc s' = initproc (tbl x)"
    and pa: "\<And>j. j < 64 \<Longrightarrow> par s' j = par (tbl x) j"
    and pid: "\<And>j. j < 64 \<Longrightarrow> pidof s' j = pidof (tbl x) j"
    and ks: "\<And>j. j < 64 \<Longrightarrow> p_kstack (ptable s' ! j) = p_kstack (ptable (tbl x) ! j)"
    and pd: "\<And>j. j < 64 \<Longrightarrow> p_pgdir (ptable s' ! j) = p_pgdir (ptable (tbl x) ! j) \<or>
      st (tbl x) j = RUNNING \<and> p_pgdir (ptable s' ! j) \<noteq> 0"
    and un: "\<And>j. j < 64 \<Longrightarrow> st s' j = UNUSED \<longleftrightarrow> st (tbl x) j = UNUSED"
    and em: "\<And>j. j < 64 \<Longrightarrow> st s' j = EMBRYO \<longleftrightarrow> st (tbl x) j = EMBRYO"
    and zo: "\<And>j. j < 64 \<Longrightarrow> st s' j = ZOMBIE \<longleftrightarrow> st (tbl x) j = ZOMBIE"
    and run: "\<And>j. j < 64 \<Longrightarrow> pfork x j \<noteq> None \<Longrightarrow> st s' j = RUNNING \<or> st s' j = RUNNABLE"
  shows "pinv (x\<lparr>tbl := s'\<rparr>)"
proof -
  have p: "pids_inv (tbl x)" "forks_inv x" "tree_inv (tbl x)" "stack_inv (tbl x)"
    using inv by (simp_all add: pinv_def)
  have "pids_inv s'" by (rule pids_same [OF p(1)]) (use glob pid un in auto)
  moreover have "tree_inv s'"
    by (rule tree_same [OF p(3)]) (use glob pa un em zo in \<open>auto simp: alive_iff\<close>)
  moreover have "stack_inv s'"
    using p(4) ks pd un em unfolding stack_inv_def by metis
  moreover have "forks_inv (x\<lparr>tbl := s'\<rparr>)"
    by (rule forks_same [OF p(2)]) (use em pa ks pd run in \<open>simp_all, fastforce\<close>)
  ultimately show ?thesis using assms(2,3) by (simp add: pinv_def)
qed

lemma pinvD:
  assumes "pinv x"
  shows "cpus_inv (tbl x)" and "pids_inv (tbl x)" and "forks_inv x" and "tree_inv (tbl x)"
    and "sleep_inv (tbl x)" and "stack_inv (tbl x)" and "length (ptable (tbl x)) = 64"
  using assms cpusD(1) by (auto simp: pinv_def)

lemma pinv_running:
  assumes "pinv x" and "c < length (cpu_proc (tbl x))" and "cpu_proc (tbl x) ! c = Some i"
  shows "i < 64" and "st (tbl x) i = RUNNING"
  using cpusD(2) [OF pinvD(1) [OF assms(1)] assms(2,3)] by auto

lemma pinv_pfork_state: "pinv x \<Longrightarrow> pfork x j \<noteq> None \<Longrightarrow> st (tbl x) j = RUNNING \<or> st (tbl x) j = RUNNABLE"
  using forksD(1) [OF pinvD(3)] by (metis not_None_eq surj_pair)

lemmas psys_ops = set_proc_def set_state_def to_scheduler_def

lemma pinv_yield:
  assumes inv: "pinv x" and c: "c < length (cpu_proc (tbl x))" "cpu_proc (tbl x) ! c = Some i"
  shows "pinv (x\<lparr>tbl := yield (tbl x) c i\<rparr>)"
proof (rule pinv_quiet [OF inv])
  note I = pinvD [OF inv] and i = pinv_running [OF inv c]
  show "cpus_inv (yield (tbl x) c i)"
    by (rule cpus_leave [OF I(1) _ c]) (use I(7) i in \<open>auto simp: yield_def psys_ops nth_list_update\<close>)
  show "sleep_inv (yield (tbl x) c i)"
    by (rule sleep_same [OF I(5)])
      (use I(7) i in \<open>auto simp: yield_def psys_ops nth_list_update split: if_splits\<close>)
  show "st (yield (tbl x) c i) j = RUNNING \<or> st (yield (tbl x) c i) j = RUNNABLE"
    if "pfork x j \<noteq> None" for j
    using pinv_pfork_state [OF inv that] I(7) i by (auto simp: yield_def psys_ops nth_list_update)
qed (use pinvD(7) [OF inv] pinv_running [OF inv c] in \<open>auto simp: yield_def psys_ops nth_list_update\<close>)

lemma pinv_sched:
  assumes inv: "pinv x" and c: "c < length (cpu_proc (tbl x))" "cpu_proc (tbl x) ! c = None"
    and run: "scheduler1 (tbl x) c = Ok s"
  shows "pinv (x\<lparr>tbl := s\<rparr>)"
proof -
  note I = pinvD [OF inv]
  let ?k = "cpu_scan (tbl x) ! c"
  consider (idle) "ptable s = ptable (tbl x)" "cpu_proc s = cpu_proc (tbl x)"
      "nextpid s = nextpid (tbl x)" "initproc s = initproc (tbl x)"
    | (switch) "?k < 64" "st (tbl x) ?k = RUNNABLE"
      "ptable s = (ptable (tbl x))[?k := (ptable (tbl x) ! ?k)\<lparr>p_state := RUNNING\<rparr>]"
      "cpu_proc s = (cpu_proc (tbl x))[c := Some ?k]"
      "nextpid s = nextpid (tbl x)" "initproc s = initproc (tbl x)"
    using run by (auto simp: scheduler1_def switchuvm_def Let_def psys_ops split: if_splits)
  then show ?thesis
  proof cases
    case idle
    show ?thesis
      by (rule pinv_quiet [OF inv])
        (use idle I pinv_pfork_state [OF inv] in \<open>auto simp: cpus_inv_def sleep_inv_def\<close>)
  next
    case switch
    show ?thesis
    proof (rule pinv_quiet [OF inv])
      show "cpus_inv s"
        by (rule cpus_enter [OF I(1) _ c switch(4)]) (use switch I(7) in \<open>auto simp: nth_list_update\<close>)
      show "sleep_inv s"
        by (rule sleep_same [OF I(5)]) (use switch I(7) in \<open>auto simp: nth_list_update split: if_splits\<close>)
      show "st s j = RUNNING \<or> st s j = RUNNABLE" if "pfork x j \<noteq> None" for j
        using pinv_pfork_state [OF inv that] switch I(7) by (auto simp: nth_list_update)
    qed (use switch I(7) in \<open>auto simp: nth_list_update\<close>)
  qed
qed

lemma pinv_sleep:
  assumes inv: "pinv x" and c: "c < length (cpu_proc (tbl x))" "cpu_proc (tbl x) ! c = Some i"
    and pf: "pfork x i = None"
    and ch: "\<And>k. ch = ChProc k \<Longrightarrow> k = i \<and> (\<forall>j < 64. par (tbl x) j = Some i \<longrightarrow> st (tbl x) j \<noteq> ZOMBIE) \<and>
      (\<exists>j < 64. par (tbl x) j = Some i)"
  shows "pinv (x\<lparr>tbl := sleep_enter (tbl x) c i ch\<rparr>)"
proof (rule pinv_quiet [OF inv])
  note I = pinvD [OF inv] and i = pinv_running [OF inv c]
  let ?s = "sleep_enter (tbl x) c i ch"
  show "cpus_inv ?s"
    by (rule cpus_leave [OF I(1) _ c]) (use I(7) i in \<open>auto simp: sleep_enter_def psys_ops nth_list_update\<close>)
  have fields: "st ?s j = (if j = i then SLEEPING else st (tbl x) j)" "par ?s j = par (tbl x) j"
    "p_chan (ptable ?s ! j) = (if j = i then Some ch else p_chan (ptable (tbl x) ! j))" if "j < 64" for j
    using that I(7) i(1) by (auto simp: sleep_enter_def psys_ops nth_list_update)
  show "sleep_inv ?s"
    unfolding sleep_inv_def
  proof (intro allI impI conjI)
    fix j :: nat assume j: "j < 64" "st ?s j = SLEEPING"
    show "p_chan (ptable ?s ! j) \<noteq> None"
      using I(5) j by (auto simp: fields sleep_inv_def split: if_splits)
    fix k assume k: "p_chan (ptable ?s ! j) = Some (ChProc k)"
    have kj: "k = j \<and> (\<forall>l < 64. par (tbl x) l = Some j \<longrightarrow> st (tbl x) l \<noteq> ZOMBIE) \<and> (\<exists>l < 64. par (tbl x) l = Some j)"
    proof (cases "j = i")
      case True
      then have "ch = ChProc k" using k fields(3) [OF j(1)] by simp
      with ch [of k] True show ?thesis by simp
    next
      case False
      then show ?thesis using I(5) j k fields [OF j(1)] unfolding sleep_inv_def by auto
    qed
    then show "k = j" by simp
    show "st ?s l \<noteq> ZOMBIE" if "l < 64" "par ?s l = Some j" for l
      using kj that fields [OF that(1)] by simp
    show "\<exists>l < 64. par ?s l = Some j" using kj fields(2) by auto
  qed
  show "st ?s j = RUNNING \<or> st ?s j = RUNNABLE" if "j < 64" "pfork x j \<noteq> None" for j
    using pinv_pfork_state [OF inv that(2)] that pf fields(1) by auto
qed (use pinvD(7) [OF inv] pinv_running [OF inv c] in \<open>auto simp: sleep_enter_def psys_ops nth_list_update\<close>)

lemma pinv_awake:
  assumes inv: "pinv x" and c: "c < length (cpu_proc (tbl x))" "cpu_proc (tbl x) ! c = Some i"
  shows "pinv (x\<lparr>tbl := sleep_leave (tbl x) i\<rparr>)"
proof (rule pinv_quiet [OF inv])
  note I = pinvD [OF inv] and i = pinv_running [OF inv c]
  show "cpus_inv (sleep_leave (tbl x) i)"
    by (rule cpus_same [OF I(1)]) (use I(7) i in \<open>auto simp: sleep_leave_def psys_ops nth_list_update\<close>)
  show "sleep_inv (sleep_leave (tbl x) i)"
    by (rule sleep_same [OF I(5)])
      (use I(7) i in \<open>auto simp: sleep_leave_def psys_ops nth_list_update split: if_splits\<close>)
  show "st (sleep_leave (tbl x) i) j = RUNNING \<or> st (sleep_leave (tbl x) i) j = RUNNABLE"
    if "pfork x j \<noteq> None" for j
    using pinv_pfork_state [OF inv that] I(7) i by (auto simp: sleep_leave_def psys_ops nth_list_update)
qed (use pinvD(7) [OF inv] pinv_running [OF inv c] in \<open>auto simp: sleep_leave_def psys_ops nth_list_update\<close>)

lemma wakeup1_nth:
  assumes "j < length (ptable s)"
  shows "ptable (wakeup1 s ch) ! j =
    (if st s j = SLEEPING \<and> p_chan (ptable s ! j) = ch then (ptable s ! j)\<lparr>p_state := RUNNABLE\<rparr> else ptable s ! j)"
  using assms by (simp add: wakeup1_def)

lemma wakeup1_frame [simp]:
  "length (ptable (wakeup1 s ch)) = length (ptable s)" "cpu_proc (wakeup1 s ch) = cpu_proc s"
  "nextpid (wakeup1 s ch) = nextpid s" "initproc (wakeup1 s ch) = initproc s"
  by (simp_all add: wakeup1_def)

lemma pinv_wakeup:
  assumes inv: "pinv x"
  shows "pinv (x\<lparr>tbl := wakeup (tbl x) ch\<rparr>)"
proof (rule pinv_quiet [OF inv])
  note I = pinvD [OF inv]
  show "cpus_inv (wakeup (tbl x) ch)"
    by (rule cpus_same [OF I(1)]) (use I(7) in \<open>auto simp: wakeup_def wakeup1_nth\<close>)
  show "sleep_inv (wakeup (tbl x) ch)"
    by (rule sleep_same [OF I(5)]) (use I(7) in \<open>auto simp: wakeup_def wakeup1_nth split: if_splits\<close>)
  show "st (wakeup (tbl x) ch) j = RUNNING \<or> st (wakeup (tbl x) ch) j = RUNNABLE"
    if "j < 64" "pfork x j \<noteq> None" for j
    using pinv_pfork_state [OF inv that(2)] I(7) that by (auto simp: wakeup_def wakeup1_nth)
qed (use pinvD(7) [OF inv] in \<open>auto simp: wakeup_def wakeup1_nth\<close>)

lemma pinv_kill:
  assumes inv: "pinv x"
  shows "pinv (x\<lparr>tbl := snd (kill (tbl x) n)\<rparr>)"
proof (cases "find_idx (\<lambda>p. p_pid p = n) (ptable (tbl x))")
  case None
  then show ?thesis using inv by (simp add: kill_def)
next
  case (Some i)
  note I = pinvD [OF inv]
  have i: "i < 64" using find_idx_SomeD(1) [OF Some] I(7) by simp
  let ?p = "ptable (tbl x) ! i"
  define s where "s = snd (kill (tbl x) n)"
  have t: "ptable s = (ptable (tbl x))[i := ?p\<lparr>p_killed := True, p_state := (if p_state ?p = SLEEPING then RUNNABLE else p_state ?p)\<rparr>]"
    and fr: "cpu_proc s = cpu_proc (tbl x)" "nextpid s = nextpid (tbl x)" "initproc s = initproc (tbl x)"
    using Some by (auto simp: s_def kill_def set_proc_def Let_def)
  have "pinv (x\<lparr>tbl := s\<rparr>)"
  proof (rule pinv_quiet [OF inv])
    show "cpus_inv s" by (rule cpus_same [OF I(1)]) (use t fr I(7) i in \<open>auto simp: nth_list_update\<close>)
    show "sleep_inv s"
      by (rule sleep_same [OF I(5)]) (use t I(7) i in \<open>auto simp: nth_list_update split: if_splits\<close>)
    show "st s j = RUNNING \<or> st s j = RUNNABLE" if "pfork x j \<noteq> None" for j
      using pinv_pfork_state [OF inv that] t I(7) i by (auto simp: nth_list_update)
  qed (use t fr I(7) i in \<open>auto simp: nth_list_update\<close>)
  then show ?thesis by (simp add: s_def)
qed

lemma pinv_local:
  assumes inv: "pinv x" and c: "c < length (cpu_proc (tbl x))" "cpu_proc (tbl x) ! c = Some i" and pd: "pd \<noteq> 0"
  shows "pinv (x\<lparr>tbl := set_proc (tbl x) i ((ptable (tbl x) ! i)
       \<lparr>p_sz := sz, p_pgdir := pd, p_ofile := fs, p_cwd := wd, p_name := nm, p_tf := tf\<rparr>)\<rparr>)"
    (is "pinv (x\<lparr>tbl := ?s\<rparr>)")
proof (rule pinv_quiet [OF inv])
  note I = pinvD [OF inv] and i = pinv_running [OF inv c]
  show "cpus_inv ?s" by (rule cpus_same [OF I(1)]) (use I(7) i in \<open>auto simp: psys_ops nth_list_update\<close>)
  show "sleep_inv ?s"
    by (rule sleep_same [OF I(5)]) (use I(7) i in \<open>auto simp: psys_ops nth_list_update split: if_splits\<close>)
  show "st ?s j = RUNNING \<or> st ?s j = RUNNABLE" if "pfork x j \<noteq> None" for j
    using pinv_pfork_state [OF inv that] I(7) i by (auto simp: psys_ops nth_list_update)
qed (use pinvD(7) [OF inv] pinv_running [OF inv c] pd in \<open>auto simp: psys_ops nth_list_update\<close>)

subsection \<open>Making and removing processes\<close>

lemma treeD:
  assumes "tree_inv s"
  obtains r where "r < 64" "initproc s = Some r" "alive (st s r)" "par s r = None"
    "\<And>i. i < 64 \<Longrightarrow> i \<noteq> r \<Longrightarrow> st s i \<noteq> UNUSED \<Longrightarrow> st s i \<noteq> EMBRYO \<Longrightarrow> par s i \<noteq> None"
    "\<And>i j. i < 64 \<Longrightarrow> par s i = Some j \<Longrightarrow> j < 64 \<and> j \<noteq> i \<and> st s i \<noteq> UNUSED \<and> alive (st s j)"
  using assms unfolding tree_inv_def by blast

lemma treeI:
  assumes "r < 64" "initproc s = Some r" "alive (st s r)" "par s r = None"
    "\<And>i. i < 64 \<Longrightarrow> i \<noteq> r \<Longrightarrow> st s i \<noteq> UNUSED \<Longrightarrow> st s i \<noteq> EMBRYO \<Longrightarrow> par s i \<noteq> None"
    "\<And>i j. i < 64 \<Longrightarrow> par s i = Some j \<Longrightarrow> j < 64 \<and> j \<noteq> i \<and> st s i \<noteq> UNUSED \<and> alive (st s j)"
  shows "tree_inv s"
  using assms unfolding tree_inv_def by blast

lemma forks_update:
  assumes inv: "forks_inv x" and pf: "pfork y = (pfork x)(i := v)"
    and new: "\<And>np fp. v = Some (np, fp) \<Longrightarrow> i < 64 \<and> np < 64 \<and>
        (st (tbl y) i = RUNNING \<or> st (tbl y) i = RUNNABLE) \<and>
        st (tbl y) np = EMBRYO \<and> par (tbl y) np = (if fp = Filled then Some i else None) \<and>
        (fp \<noteq> Slot \<longrightarrow> p_kstack (ptable (tbl y) ! np) \<noteq> 0) \<and>
        (fp = Filled \<longrightarrow> p_pgdir (ptable (tbl y) ! np) \<noteq> 0)"
    and uniq: "\<And>np fp j fp'. v = Some (np, fp) \<Longrightarrow> j \<noteq> i \<Longrightarrow> pfork x j \<noteq> Some (np, fp')"
    and keep: "\<And>j np fp. j \<noteq> i \<Longrightarrow> pfork x j = Some (np, fp) \<Longrightarrow>
        (st (tbl y) j = RUNNING \<or> st (tbl y) j = RUNNABLE) \<and> st (tbl y) np = EMBRYO \<and>
        par (tbl y) np = par (tbl x) np \<and>
        p_kstack (ptable (tbl y) ! np) = p_kstack (ptable (tbl x) ! np) \<and>
        p_pgdir (ptable (tbl y) ! np) = p_pgdir (ptable (tbl x) ! np)"
    and emb: "\<And>m. m < 64 \<Longrightarrow> st (tbl y) m = EMBRYO \<Longrightarrow>
        (\<exists>fp. v = Some (m, fp)) \<or> (\<exists>j fp. j \<noteq> i \<and> pfork x j = Some (m, fp))"
  shows "forks_inv y"
  unfolding forks_inv_def pf
proof (intro conjI allI impI)
  fix j np fp assume f: "((pfork x)(i := v)) j = Some (np, fp)"
  have "j < 64 \<and> np < 64 \<and> (st (tbl y) j = RUNNING \<or> st (tbl y) j = RUNNABLE) \<and>
        st (tbl y) np = EMBRYO \<and> par (tbl y) np = (if fp = Filled then Some j else None) \<and>
        (fp \<noteq> Slot \<longrightarrow> p_kstack (ptable (tbl y) ! np) \<noteq> 0) \<and>
        (fp = Filled \<longrightarrow> p_pgdir (ptable (tbl y) ! np) \<noteq> 0)"
  proof (cases "j = i")
    case True
    then show ?thesis using f new by simp
  next
    case False
    then have g: "pfork x j = Some (np, fp)" using f by simp
    show ?thesis using forksD(1) [OF inv g] keep [OF False g] by simp
  qed
  then show "j < 64" "np < 64" "st (tbl y) j = RUNNING \<or> st (tbl y) j = RUNNABLE"
    "st (tbl y) np = EMBRYO" "par (tbl y) np = (if fp = Filled then Some j else None)"
    "fp \<noteq> Slot \<Longrightarrow> p_kstack (ptable (tbl y) ! np) \<noteq> 0"
    "fp = Filled \<Longrightarrow> p_pgdir (ptable (tbl y) ! np) \<noteq> 0" by auto
next
  show "j = k" if "((pfork x)(i := v)) j = Some (np, fp)" "((pfork x)(i := v)) k = Some (np, fp')" for j k np fp fp'
    using that uniq forksD(2) [OF inv, of j np fp k fp'] by (auto split: if_splits)
  show "\<exists>j fp. ((pfork x)(i := v)) j = Some (m, fp)" if "m < 64" "st (tbl y) m = EMBRYO" for m
    using emb [OF that] by auto
qed

text \<open>
  Every step of \<^verbatim>\<open>fork\<close> by process \<open>i\<close> changes one entry of the table, that of the child
  \<open>np\<close>, which is free or already in the making.
\<close>

definition child_ok :: "nat \<Rightarrow> nat \<Rightarrow> (nat \<times> fork_pc) option \<Rightarrow> proc \<Rightarrow> bool" where
  "child_ok i np v p \<longleftrightarrow> (case v of
     Some (mp, fp) \<Rightarrow> mp = np \<and> p_state p = EMBRYO \<and> p_parent p = (if fp = Filled then Some i else None) \<and>
       (fp \<noteq> Slot \<longrightarrow> p_kstack p \<noteq> 0) \<and> (fp = Filled \<longrightarrow> p_pgdir p \<noteq> 0)
   | None \<Rightarrow> p_state p = UNUSED \<and> p_parent p = None \<or>
       p_state p = RUNNABLE \<and> p_parent p = Some i \<and> p_kstack p \<noteq> 0 \<and> p_pgdir p \<noteq> 0)"

lemma child_okD:
  assumes "child_ok i np v p"
  shows "p_state p \<noteq> RUNNING" "p_state p \<noteq> SLEEPING" "p_state p \<noteq> ZOMBIE"
    "p_state p = UNUSED \<longrightarrow> p_parent p = None" "p_parent p = None \<or> p_parent p = Some i"
    "p_state p = RUNNABLE \<longrightarrow> p_parent p = Some i \<and> p_kstack p \<noteq> 0 \<and> p_pgdir p \<noteq> 0"
    "p_state p = EMBRYO \<longrightarrow> (\<exists>fp. v = Some (np, fp))"
    "v = Some (mp, fp) \<Longrightarrow> mp = np"
  using assms by (auto simp: child_ok_def split: option.splits if_splits)

lemma pinv_child_tree:
  assumes inv: "pinv x" and i: "i < 64" "st (tbl x) i = RUNNING" "i \<noteq> np"
    and np: "np < 64" "\<not> alive (st (tbl x) np)" and ok: "child_ok i np v p"
    and t: "ptable s = (ptable (tbl x))[np := p]" and init: "initproc s = initproc (tbl x)"
  shows "tree_inv s"
proof (rule treeD [OF pinvD(4) [OF inv]])
  fix r assume r: "r < 64" "initproc (tbl x) = Some r" "alive (st (tbl x) r)" "par (tbl x) r = None"
    "\<And>i. i < 64 \<Longrightarrow> i \<noteq> r \<Longrightarrow> st (tbl x) i \<noteq> UNUSED \<Longrightarrow> st (tbl x) i \<noteq> EMBRYO \<Longrightarrow> par (tbl x) i \<noteq> None"
    "\<And>i j. i < 64 \<Longrightarrow> par (tbl x) i = Some j \<Longrightarrow> j < 64 \<and> j \<noteq> i \<and> st (tbl x) i \<noteq> UNUSED \<and> alive (st (tbl x) j)"
  note c = child_okD [OF ok] and len = pinvD(7) [OF inv]
  have e: "ptable s ! j = (if j = np then p else ptable (tbl x) ! j)" if "j < 64" for j
    using t len np that by (simp add: nth_list_update)
  have rn: "r \<noteq> np" using r(3) np(2) by auto
  show ?thesis
  proof (rule treeI [of r])
    show "par s j \<noteq> None" if "j < 64" "j \<noteq> r" "st s j \<noteq> UNUSED" "st s j \<noteq> EMBRYO" for j
    proof (cases "j = np")
      case True
      then have "ptable s ! j = p" using e [OF that(1)] by simp
      with that(3,4) c(1-3) have "p_state p = RUNNABLE" by (cases "p_state p") simp_all
      with c(6) \<open>ptable s ! j = p\<close> show ?thesis by simp
    next
      case False
      then have "ptable s ! j = ptable (tbl x) ! j" using e [OF that(1)] by simp
      with that r(5) [OF that(1,2)] show ?thesis by simp
    qed
    show "k < 64 \<and> k \<noteq> j \<and> st s j \<noteq> UNUSED \<and> alive (st s k)" if "j < 64" "par s j = Some k" for j k
    proof (cases "j = np")
      case True
      then have "k = i" "st s j \<noteq> UNUSED" using that e [OF that(1)] c(4,5) by auto
      then show ?thesis using i True e [OF i(1)] by (simp add: alive_def)
    next
      case False
      then have k: "k < 64" "k \<noteq> j" "st (tbl x) j \<noteq> UNUSED" "alive (st (tbl x) k)"
        using r(6) [OF that(1), of k] that(2) e [OF that(1)] by auto
      then have "k \<noteq> np" using np(2) by auto
      then show ?thesis using k e [OF that(1)] e [OF k(1)] False by simp
    qed
  qed (use r init rn e [OF r(1)] in auto)
qed

lemma pinv_child_forks:
  assumes inv: "pinv x" and i: "i < 64" "st (tbl x) i = RUNNING" "i \<noteq> np"
    and np: "np < 64" and frm: "st (tbl x) np = UNUSED \<and> pfork x i = None \<or> (\<exists>fp. pfork x i = Some (np, fp))"
    and ok: "child_ok i np v p"
    and t: "ptable s = (ptable (tbl x))[np := p]"
    and y: "tbl y = s" "pfork y = (pfork x)(i := v)"
  shows "forks_inv y"
proof (rule forks_update [OF pinvD(3) [OF inv] y(2)])
  note c = child_okD [OF ok] and len = pinvD(7) [OF inv] and F = forksD [OF pinvD(3) [OF inv]]
  have e: "ptable (tbl y) ! j = (if j = np then p else ptable (tbl x) ! j)" if "j < 64" for j
    using t y(1) len np that by (simp add: nth_list_update)
  have nf: "mp \<noteq> np" if "j \<noteq> i" "pfork x j = Some (mp, fp)" for j mp fp
    using frm F(1) [OF that(2)] F(2) [OF that(2), of i] that(1) by auto
  show "i < 64 \<and> mp < 64 \<and> (st (tbl y) i = RUNNING \<or> st (tbl y) i = RUNNABLE) \<and>
        st (tbl y) mp = EMBRYO \<and> par (tbl y) mp = (if fp = Filled then Some i else None) \<and>
        (fp \<noteq> Slot \<longrightarrow> p_kstack (ptable (tbl y) ! mp) \<noteq> 0) \<and>
        (fp = Filled \<longrightarrow> p_pgdir (ptable (tbl y) ! mp) \<noteq> 0)" if "v = Some (mp, fp)" for mp fp
    using ok that i np e [OF np] e [OF i(1)] by (auto simp: child_ok_def)
  show "pfork x j \<noteq> Some (mp, fp')" if "v = Some (mp, fp)" "j \<noteq> i" for mp fp j fp'
    using c(8) that nf by blast
  show "(st (tbl y) j = RUNNING \<or> st (tbl y) j = RUNNABLE) \<and> st (tbl y) mp = EMBRYO \<and>
        par (tbl y) mp = par (tbl x) mp \<and>
        p_kstack (ptable (tbl y) ! mp) = p_kstack (ptable (tbl x) ! mp) \<and>
        p_pgdir (ptable (tbl y) ! mp) = p_pgdir (ptable (tbl x) ! mp)"
    if "j \<noteq> i" "pfork x j = Some (mp, fp)" for j mp fp
  proof -
    have "j \<noteq> np" using F(1) [OF that(2)] frm F(1) [of i np] by auto
    then show ?thesis using F(1) [OF that(2)] nf [OF that] e by auto
  qed
  show "(\<exists>fp. v = Some (m, fp)) \<or> (\<exists>j fp. j \<noteq> i \<and> pfork x j = Some (m, fp))"
    if m: "m < 64" "st (tbl y) m = EMBRYO" for m
  proof (cases "m = np")
    case True
    then show ?thesis using e [OF m(1)] m(2) c(7) by auto
  next
    case False
    then obtain j fp where "pfork x j = Some (m, fp)" using F(3) [OF m(1)] m(2) e [OF m(1)] by auto
    moreover from this have "j \<noteq> i" using frm False by auto
    ultimately show ?thesis by blast
  qed
qed

lemma pinv_child:
  assumes inv: "pinv x" and c: "c < length (cpu_proc (tbl x))" "cpu_proc (tbl x) ! c = Some i"
    and np: "np < 64" and frm: "st (tbl x) np = UNUSED \<and> pfork x i = None \<or> (\<exists>fp. pfork x i = Some (np, fp))"
    and ok: "child_ok i np v p"
    and t: "ptable s = (ptable (tbl x))[np := p]" and fr: "cpu_proc s = cpu_proc (tbl x)" "initproc s = initproc (tbl x)"
    and pid: "p_pid p = pidof (tbl x) np \<and> nextpid s = nextpid (tbl x) \<and> (p_state p \<noteq> UNUSED \<longrightarrow> st (tbl x) np \<noteq> UNUSED) \<or>
      p_pid p = nextpid (tbl x) \<and> nextpid s = nextpid (tbl x) + 1"
  shows "pinv (x\<lparr>tbl := s, kmm := km, pfork := (pfork x)(i := v)\<rparr>)"
proof -
  note I = pinvD [OF inv] and i = pinv_running [OF inv c] and C = child_okD [OF ok]
  have dead: "\<not> alive (st (tbl x) np)" using frm forksD(1) [OF I(3), of i np] by (auto simp: alive_iff)
  then have ne: "i \<noteq> np" using i(2) by (auto simp: alive_def)
  have e: "ptable s ! j = (if j = np then p else ptable (tbl x) ! j)" if "j < 64" for j
    using t I(7) np that by (simp add: nth_list_update)
  have np_st: "st (tbl x) np \<noteq> RUNNING" "st (tbl x) np \<noteq> SLEEPING" using dead by (auto simp: alive_def)
  have nochild: "par (tbl x) j \<noteq> Some np" if "j < 64" for j
    using treeD [OF I(4)] dead that by metis
  have "cpus_inv s" by (rule cpus_same [OF I(1)]) (use t fr e C np_st in auto)
  moreover have "pids_inv s"
    unfolding pids_inv_def
  proof (intro conjI allI impI)
    note P = I(2) [unfolded pids_inv_def]
    show "0 < nextpid s" using P pid by auto
    show "0 \<le> pidof s j" "pidof s j < nextpid s" if "j < 64" for j
      using P pid e [OF that] that np by (auto split: if_splits)
    show "0 < pidof s j" if "j < 64" "st s j \<noteq> UNUSED" for j
      using P pid e [OF that(1)] that np by (auto split: if_splits)
    show "j = k" if jk: "j < 64" "k < 64" "pidof s j = pidof s k" "pidof s j \<noteq> 0" for j k
      using P pid e [OF jk(1)] e [OF jk(2)] jk np by (auto split: if_splits)
  qed
  moreover have "sleep_inv s"
    unfolding sleep_inv_def
  proof (intro allI impI conjI)
    fix j :: nat assume j: "j < 64" "st s j = SLEEPING"
    then have jn: "j \<noteq> np" "st (tbl x) j = SLEEPING" "ptable s ! j = ptable (tbl x) ! j"
      using e [OF j(1)] C(2) by (auto split: if_splits)
    show "p_chan (ptable s ! j) \<noteq> None" using I(5) j jn unfolding sleep_inv_def by simp
    fix k assume "p_chan (ptable s ! j) = Some (ChProc k)"
    then have k: "k = j" "\<And>l. l < 64 \<Longrightarrow> par (tbl x) l = Some j \<Longrightarrow> st (tbl x) l \<noteq> ZOMBIE"
      "\<exists>l < 64. par (tbl x) l = Some j"
      using I(5) j jn unfolding sleep_inv_def by auto
    show "k = j" by (rule k(1))
    show "st s l \<noteq> ZOMBIE" if "l < 64" "par s l = Some j" for l
      using that k(2) [of l] e [OF that(1)] C(3) by (auto split: if_splits)
    obtain l where l: "l < 64" "par (tbl x) l = Some j" using k(3) by blast
    have "l \<noteq> np"
    proof
      assume "l = np"
      then have "pfork x j \<noteq> None"
        using l frm forksD(1) [OF I(3), of i np] treeD [OF I(4)] by (metis option.distinct(1) option.inject)
      then show False using pinv_pfork_state [OF inv] jn(2) by fastforce
    qed
    then show "\<exists>l < 64. par s l = Some j" using l e [OF l(1)] by auto
  qed
  moreover have "stack_inv s"
    unfolding stack_inv_def
  proof (intro allI impI)
    fix j :: nat assume j: "j < 64" "st s j \<noteq> UNUSED" "st s j \<noteq> EMBRYO"
    show "p_kstack (ptable s ! j) \<noteq> 0 \<and> p_pgdir (ptable s ! j) \<noteq> 0"
    proof (cases "j = np")
      case True
      then have "p_state p = RUNNABLE" using j e [OF j(1)] C(1-3) by (cases "p_state p") simp_all
      then show ?thesis using True e [OF j(1)] C(6) by simp
    next
      case False
      then show ?thesis using I(6) j e [OF j(1)] unfolding stack_inv_def by simp
    qed
  qed
  moreover have "tree_inv s" by (rule pinv_child_tree [OF inv i ne np dead ok t fr(2)])
  moreover have "forks_inv (x\<lparr>tbl := s, kmm := km, pfork := (pfork x)(i := v)\<rparr>)"
    by (rule pinv_child_forks [OF inv i ne np frm ok t]) simp_all
  ultimately show ?thesis by (simp add: pinv_def)
qed

lemma pinv_slot:
  assumes inv: "pinv x" and c: "c < length (cpu_proc (tbl x))" "cpu_proc (tbl x) ! c = Some i"
    and pf: "pfork x i = None" and al: "alloc_slot (tbl x) = (Some np, s)"
  shows "pinv (x\<lparr>tbl := s, pfork := (pfork x)(i := Some (np, Slot))\<rparr>)"
proof -
  note I = pinvD [OF inv]
  from al have np: "np < 64" "st (tbl x) np = UNUSED" and
    t: "ptable s = (ptable (tbl x))[np := (ptable (tbl x) ! np)\<lparr>p_state := EMBRYO, p_pid := nextpid (tbl x)\<rparr>]"
    and fr: "cpu_proc s = cpu_proc (tbl x)" "nextpid s = nextpid (tbl x) + 1" "initproc s = initproc (tbl x)"
    using I(7) by (auto simp: alloc_slot_def set_proc_def dest: find_idx_SomeD split: option.splits)
  have "par (tbl x) np = None" using treeD [OF I(4)] np by (metis not_None_eq)
  then have "child_ok i np (Some (np, Slot)) ((ptable (tbl x) ! np)\<lparr>p_state := EMBRYO, p_pid := nextpid (tbl x)\<rparr>)"
    by (simp add: child_ok_def)
  from pinv_child [OF inv c np(1) _ this t fr(1,3), of "kmm x"] show ?thesis
    using np pf fr by simp
qed

lemma pinv_stack:
  assumes inv: "pinv x" and c: "c < length (cpu_proc (tbl x))" "cpu_proc (tbl x) ! c = Some i"
    and pf: "pfork x i = Some (np, Slot)"
    and al: "alloc_stack forkret trapret (tbl x) (kmm x) np = (ok, s, km)"
  shows "pinv (x\<lparr>tbl := s, kmm := km, pfork := (pfork x)(i := if ok then Some (np, Stack) else None)\<rparr>)"
proof -
  note F = forksD(1) [OF pinvD(3) [OF inv] pf]
  obtain p where t: "ptable s = (ptable (tbl x))[np := p]"
    and p: "child_ok i np (if ok then Some (np, Stack) else None) p" "p_pid p = pidof (tbl x) np"
    and fr: "cpu_proc s = cpu_proc (tbl x)" "initproc s = initproc (tbl x)" "nextpid s = nextpid (tbl x)"
    using al F by (auto simp: alloc_stack_def Let_def set_proc_def child_ok_def split: prod.splits if_splits)
  show ?thesis
    by (rule pinv_child [OF inv c _ _ p(1) t fr(1,2)]) (use F pf p(2) fr(3) in auto)
qed

lemma pinv_copy:
  assumes inv: "pinv x" and c: "c < length (cpu_proc (tbl x))" "cpu_proc (tbl x) ! c = Some i"
    and pf: "pfork x i = Some (np, Stack)" and d: "d \<noteq> 0"
  shows "pinv (x\<lparr>tbl := fork_copy (tbl x) i np d, kmm := km, pfork := (pfork x)(i := Some (np, Filled))\<rparr>)"
proof -
  note F = forksD(1) [OF pinvD(3) [OF inv] pf]
  obtain p where t: "ptable (fork_copy (tbl x) i np d) = (ptable (tbl x))[np := p]"
    and p: "child_ok i np (Some (np, Filled)) p" "p_pid p = pidof (tbl x) np"
    and fr: "cpu_proc (fork_copy (tbl x) i np d) = cpu_proc (tbl x)"
      "initproc (fork_copy (tbl x) i np d) = initproc (tbl x)"
      "nextpid (fork_copy (tbl x) i np d) = nextpid (tbl x)"
    using F d by (auto simp: fork_copy_def Let_def set_proc_def child_ok_def)
  show ?thesis
    by (rule pinv_child [OF inv c _ _ p(1) t fr(1,2)]) (use F pf p(2) fr(3) in auto)
qed

lemma pinv_undo:
  assumes inv: "pinv x" and c: "c < length (cpu_proc (tbl x))" "cpu_proc (tbl x) ! c = Some i"
    and pf: "pfork x i = Some (np, Stack)" and un: "fork_undo kend (tbl x) km np = Ok (s, km')"
  shows "pinv (x\<lparr>tbl := s, kmm := km', pfork := (pfork x)(i := None)\<rparr>)"
proof -
  note F = forksD(1) [OF pinvD(3) [OF inv] pf]
  obtain p where t: "ptable s = (ptable (tbl x))[np := p]"
    and p: "child_ok i np None p" "p_pid p = pidof (tbl x) np"
    and fr: "cpu_proc s = cpu_proc (tbl x)" "initproc s = initproc (tbl x)" "nextpid s = nextpid (tbl x)"
    using F un by (auto simp: fork_undo_def Let_def set_proc_def child_ok_def obind_eq_Ok)
  show ?thesis
    by (rule pinv_child [OF inv c _ _ p(1) t fr(1,2)]) (use F pf p(2) fr(3) in auto)
qed

lemma pinv_publish:
  assumes inv: "pinv x" and c: "c < length (cpu_proc (tbl x))" "cpu_proc (tbl x) ! c = Some i"
    and pf: "pfork x i = Some (np, Filled)"
  shows "pinv (x\<lparr>tbl := fork_publish (tbl x) np, pfork := (pfork x)(i := None)\<rparr>)"
proof -
  note F = forksD(1) [OF pinvD(3) [OF inv] pf]
  have p: "child_ok i np None ((ptable (tbl x) ! np)\<lparr>p_state := RUNNABLE\<rparr>)" using F by (simp add: child_ok_def)
  have t: "ptable (fork_publish (tbl x) np) = (ptable (tbl x))[np := (ptable (tbl x) ! np)\<lparr>p_state := RUNNABLE\<rparr>]"
    by (simp add: fork_publish_def psys_ops)
  show ?thesis
    using pinv_child [OF inv c _ _ p t, of "kmm x"] F pf by (simp add: fork_publish_def psys_ops)
qed

text \<open>The loop of \<^verbatim>\<open>exit\<close> over the table, in closed form.\<close>

definition adopt :: "nat \<Rightarrow> nat option \<Rightarrow> proc \<Rightarrow> proc" where
  "adopt cur r p = (if p_parent p = Some cur then p\<lparr>p_parent := r\<rparr> else p)"

definition wake :: "chan option \<Rightarrow> proc \<Rightarrow> proc" where
  "wake ch p = (if p_state p = SLEEPING \<and> p_chan p = ch then p\<lparr>p_state := RUNNABLE\<rparr> else p)"

lemma wake_wake [simp]: "wake ch (wake ch p) = wake ch p"
  by (simp add: wake_def)

lemma adopt_wake: "adopt cur r (wake ch p) = wake ch (adopt cur r p)"
  by (simp add: wake_def adopt_def)

lemma wake_fields [simp]:
  "p_parent (wake ch p) = p_parent p" "p_pid (wake ch p) = p_pid p" "p_kstack (wake ch p) = p_kstack p"
  "p_pgdir (wake ch p) = p_pgdir p" "p_chan (wake ch p) = p_chan p"
  "p_state (wake ch p) = ZOMBIE \<longleftrightarrow> p_state p = ZOMBIE"
  "p_state (wake ch p) = UNUSED \<longleftrightarrow> p_state p = UNUSED"
  "p_state (wake ch p) = EMBRYO \<longleftrightarrow> p_state p = EMBRYO"
  "p_state (wake ch p) = RUNNING \<longleftrightarrow> p_state p = RUNNING"
  "p_state (wake ch p) = SLEEPING \<longleftrightarrow> p_state p = SLEEPING \<and> p_chan p \<noteq> ch"
  by (auto simp: wake_def)

lemma adopt_fields [simp]:
  "p_state (adopt cur r p) = p_state p" "p_pid (adopt cur r p) = p_pid p" "p_kstack (adopt cur r p) = p_kstack p"
  "p_pgdir (adopt cur r p) = p_pgdir p" "p_chan (adopt cur r p) = p_chan p"
  "p_parent (adopt cur r p) = (if p_parent p = Some cur then r else p_parent p)"
  by (auto simp: adopt_def)

definition zombie_child :: "psys \<Rightarrow> nat \<Rightarrow> nat \<Rightarrow> bool" where
  "zombie_child s cur n \<longleftrightarrow> (\<exists>k < n. par s k = Some cur \<and> st s k = ZOMBIE)"

lemma wakeup1_wake: "ptable (wakeup1 s ch) = map (wake ch) (ptable s)"
  by (simp add: wakeup1_def wake_def)

lemma exit_scan:
  assumes "n \<le> length (ptable s)"
  shows "length (ptable (fold (reparent cur) [0 ..< n] s)) = length (ptable s) \<and>
    cpu_proc (fold (reparent cur) [0 ..< n] s) = cpu_proc s \<and>
    nextpid (fold (reparent cur) [0 ..< n] s) = nextpid s \<and>
    initproc (fold (reparent cur) [0 ..< n] s) = initproc s \<and>
    (\<forall>j < length (ptable s). ptable (fold (reparent cur) [0 ..< n] s) ! j =
       (if zombie_child s cur n then wake (init_chan s) else id)
         (if j < n then adopt cur (initproc s) (ptable s ! j) else ptable s ! j))"
  using assms
proof (induction n)
  case 0
  then show ?case by (simp add: zombie_child_def)
next
  case (Suc n)
  define t where "t = fold (reparent cur) [0 ..< n] s"
  define w where "w = (if zombie_child s cur n then wake (init_chan s) else id)"
  have fr: "length (ptable t) = length (ptable s)" "cpu_proc t = cpu_proc s" "nextpid t = nextpid s"
    "initproc t = initproc s"
    and nth: "\<And>j. j < length (ptable s) \<Longrightarrow> ptable t ! j = w (if j < n then adopt cur (initproc s) (ptable s ! j) else ptable s ! j)"
    using Suc unfolding t_def w_def by auto
  have n: "n < length (ptable s)" using Suc.prems by simp
  have wf: "p_parent (w p) = p_parent p" "p_state (w p) = ZOMBIE \<longleftrightarrow> p_state p = ZOMBIE"
    "adopt cur r (w p) = w (adopt cur r p)" "wake (init_chan s) (w p) = wake (init_chan s) p" for p r
    by (auto simp: w_def adopt_wake)
  have pn: "ptable t ! n = w (ptable s ! n)" using nth [OF n] by simp
  have ic: "init_chan t = init_chan s" using fr(4) by (simp add: init_chan_def)
  have step: "fold (reparent cur) [0 ..< Suc n] s = reparent cur n t" by (simp add: t_def)
  show ?case
  proof (cases "par s n = Some cur")
    case False
    then have "reparent cur n t = t" using pn wf(1) by (simp add: reparent_def)
    moreover have "zombie_child s cur (Suc n) = zombie_child s cur n"
      using False by (auto simp: zombie_child_def less_Suc_eq)
    moreover have "adopt cur (initproc s) (ptable s ! n) = ptable s ! n" using False by (simp add: adopt_def)
    ultimately show ?thesis unfolding step using fr nth by (auto simp: less_Suc_eq w_def)
  next
    case True
    define t1 where "t1 = set_proc t n ((ptable t ! n)\<lparr>p_parent := initproc s\<rparr>)"
    have "(ptable t ! n)\<lparr>p_parent := initproc s\<rparr> = w (adopt cur (initproc s) (ptable s ! n))"
      unfolding pn wf(3) [symmetric] using True wf(1) by (simp add: adopt_def)
    then have t1: "ptable t1 ! j = w (if j < Suc n then adopt cur (initproc s) (ptable s ! j) else ptable s ! j)"
      if "j < length (ptable s)" for j
      using nth [OF that] that n fr(1) by (auto simp: t1_def set_proc_def nth_list_update)
    have fr1: "length (ptable t1) = length (ptable s)" "cpu_proc t1 = cpu_proc s" "nextpid t1 = nextpid s"
      "initproc t1 = initproc s"
      using fr by (simp_all add: t1_def set_proc_def)
    show ?thesis
    proof (cases "st s n = ZOMBIE")
      case z: True
      then have "reparent cur n t = wakeup1 t1 (init_chan s)"
        using True pn wf ic fr(4) by (simp add: reparent_def t1_def Let_def)
      moreover have "zombie_child s cur (Suc n)" using True z by (auto simp: zombie_child_def)
      ultimately show ?thesis unfolding step using fr1 t1 wf(4) by (simp add: wakeup1_wake)
    next
      case z: False
      then have "reparent cur n t = t1"
        using True pn wf fr(4) by (simp add: reparent_def t1_def Let_def)
      moreover have "zombie_child s cur (Suc n) = zombie_child s cur n"
        using z by (auto simp: zombie_child_def less_Suc_eq)
      ultimately show ?thesis unfolding step using fr1 t1 by (simp add: w_def)
    qed
  qed
qed

lemma exit_table_fields:
  assumes inv: "pinv x" and cur: "cur < 64" and r: "initproc (tbl x) = Some r"
    and ex: "exit_table (tbl x) c cur = Ok s" and j: "j < 64"
  defines "z \<equiv> zombie_child (tbl x) cur 64"
    and "pch \<equiv> map_option ChProc (par (tbl x) cur)" and "q \<equiv> ptable (tbl x) ! j"
  shows "p_parent (ptable s ! j) = (if p_parent q = Some cur then Some r else p_parent q)"
    and "p_chan (ptable s ! j) = p_chan q" "p_pid (ptable s ! j) = p_pid q"
      "p_kstack (ptable s ! j) = p_kstack q" "p_pgdir (ptable s ! j) = p_pgdir q"
    and "p_state (ptable s ! j) = (if j = cur then ZOMBIE else
       if p_state q = SLEEPING \<and> (p_chan q = pch \<or> z \<and> p_chan q = Some (ChProc r)) then RUNNABLE else p_state q)"
proof -
  let ?s1 = "wakeup1 (tbl x) pch"
  let ?s2 = "fold (reparent cur) [0 ..< 64] ?s1"
  have len: "length (ptable (tbl x)) = 64" by (rule pinvD(7) [OF inv])
  have s: "s = to_scheduler (set_state ?s2 cur ZOMBIE) c"
    using ex by (simp add: exit_table_def Let_def pch_def split: if_splits)
  have z: "zombie_child ?s1 cur 64 = z"
    unfolding zombie_child_def z_def using len by (simp add: wakeup1_wake cong: conj_cong)
  have "init_chan ?s1 = Some (ChProc r)" using r by (simp add: init_chan_def)
  with exit_scan [of 64 ?s1 cur] have sc: "length (ptable ?s2) = 64"
    "ptable ?s2 ! j = (if z then wake (Some (ChProc r)) else id) (adopt cur (Some r) (wake pch q))"
    using len z j r by (simp_all add: wakeup1_wake q_def)
  then have "ptable s ! j = (if j = cur then (ptable ?s2 ! j)\<lparr>p_state := ZOMBIE\<rparr> else ptable ?s2 ! j)"
    using j cur by (simp add: s psys_ops nth_list_update)
  then show "p_parent (ptable s ! j) = (if p_parent q = Some cur then Some r else p_parent q)"
    "p_chan (ptable s ! j) = p_chan q" "p_pid (ptable s ! j) = p_pid q"
    "p_kstack (ptable s ! j) = p_kstack q" "p_pgdir (ptable s ! j) = p_pgdir q"
    "p_state (ptable s ! j) = (if j = cur then ZOMBIE else
       if p_state q = SLEEPING \<and> (p_chan q = pch \<or> z \<and> p_chan q = Some (ChProc r)) then RUNNABLE else p_state q)"
    using sc(2) by (auto simp: wake_def)
qed

lemma exit_table_frame:
  assumes "length (ptable t) = 64" and "exit_table t c cur = Ok s"
  shows "length (ptable s) = 64" "cpu_proc s = (cpu_proc t)[c := None]" "nextpid s = nextpid t"
    "initproc s = initproc t" "initproc t \<noteq> Some cur"
proof -
  let ?s1 = "wakeup1 t (map_option ChProc (par t cur))"
  show "length (ptable s) = 64" "cpu_proc s = (cpu_proc t)[c := None]" "nextpid s = nextpid t"
    "initproc s = initproc t" "initproc t \<noteq> Some cur"
    using assms exit_scan [of 64 ?s1 cur] by (auto simp: exit_table_def Let_def psys_ops split: if_splits)
qed

lemma exit_tree:
  assumes inv: "pinv x" and c: "c < length (cpu_proc (tbl x))" "cpu_proc (tbl x) ! c = Some cur"
    and ex: "exit_table (tbl x) c cur = Ok s"
  shows "tree_inv s"
proof -
  note I = pinvD [OF inv] and i = pinv_running [OF inv c]
  obtain r where r: "r < 64" "initproc (tbl x) = Some r" "alive (st (tbl x) r)" "par (tbl x) r = None"
    "\<And>i. i < 64 \<Longrightarrow> i \<noteq> r \<Longrightarrow> st (tbl x) i \<noteq> UNUSED \<Longrightarrow> st (tbl x) i \<noteq> EMBRYO \<Longrightarrow> par (tbl x) i \<noteq> None"
    "\<And>i j. i < 64 \<Longrightarrow> par (tbl x) i = Some j \<Longrightarrow> j < 64 \<and> j \<noteq> i \<and> st (tbl x) i \<noteq> UNUSED \<and> alive (st (tbl x) j)"
    by (rule treeD [OF I(4)]) blast
  note F = exit_table_fields [OF inv i(1) r(2) ex] and fr = exit_table_frame [OF I(7) ex]
  have rc: "r \<noteq> cur" using fr(5) r(2) by auto
  show ?thesis
  proof (rule treeI [of r])
    show "alive (st s r)" using F(6) [OF r(1)] r(3) rc by (auto simp: alive_def)
    show "par s j \<noteq> None" if "j < 64" "j \<noteq> r" "st s j \<noteq> UNUSED" "st s j \<noteq> EMBRYO" for j
      using that r(5) [of j] F(1,6) [OF that(1)] i by (auto split: if_splits)
    show "k < 64 \<and> k \<noteq> j \<and> st s j \<noteq> UNUSED \<and> alive (st s k)" if "j < 64" "par s j = Some k" for j k
    proof (cases "par (tbl x) j = Some cur")
      case True
      then have "k = r" "j \<noteq> r" using that F(1) [OF that(1)] r(4) by auto
      moreover have "alive (st s r)" using F(6) [OF r(1)] r(3) rc by (auto simp: alive_def)
      ultimately show ?thesis using r(1) r(6) [OF that(1) True] F(6) [OF that(1)] by auto
    next
      case False
      then have jk: "par (tbl x) j = Some k" "k \<noteq> cur" using that F(1) [OF that(1)] by auto
      note o = r(6) [OF that(1) jk(1)]
      then have "alive (st s k)" using F(6) [of k] jk(2) by (auto simp: alive_def)
      then show ?thesis using o F(6) [OF that(1)] by auto
    qed
  qed (use r fr F(1) in auto)
qed

lemma exit_sleep:
  assumes inv: "pinv x" and c: "c < length (cpu_proc (tbl x))" "cpu_proc (tbl x) ! c = Some cur"
    and ex: "exit_table (tbl x) c cur = Ok s"
  shows "sleep_inv s"
proof -
  note I = pinvD [OF inv] and i = pinv_running [OF inv c]
  obtain r where r: "r < 64" "initproc (tbl x) = Some r" "alive (st (tbl x) r)" "par (tbl x) r = None"
    "\<And>i. i < 64 \<Longrightarrow> i \<noteq> r \<Longrightarrow> st (tbl x) i \<noteq> UNUSED \<Longrightarrow> st (tbl x) i \<noteq> EMBRYO \<Longrightarrow> par (tbl x) i \<noteq> None"
    "\<And>i j. i < 64 \<Longrightarrow> par (tbl x) i = Some j \<Longrightarrow> j < 64 \<and> j \<noteq> i \<and> st (tbl x) i \<noteq> UNUSED \<and> alive (st (tbl x) j)"
    by (rule treeD [OF I(4)]) blast
  note F = exit_table_fields [OF inv i(1) r(2) ex] and fr = exit_table_frame [OF I(7) ex]
  show ?thesis
    unfolding sleep_inv_def
  proof (intro allI impI conjI)
    fix j :: nat assume j: "j < 64" "st s j = SLEEPING"
    have jx: "j \<noteq> cur" "st (tbl x) j = SLEEPING" "p_chan (ptable (tbl x) ! j) \<noteq> map_option ChProc (par (tbl x) cur)"
      "zombie_child (tbl x) cur 64 \<Longrightarrow> p_chan (ptable (tbl x) ! j) \<noteq> Some (ChProc r)"
      using j F(6) [OF j(1)] by (auto split: if_splits)
    show "p_chan (ptable s ! j) \<noteq> None" using I(5) j jx F(2) [OF j(1)] by (simp add: sleep_inv_def)
    fix k assume k: "p_chan (ptable s ! j) = Some (ChProc k)"
    then have kx: "k = j" "\<And>l. l < 64 \<Longrightarrow> par (tbl x) l = Some j \<Longrightarrow> st (tbl x) l \<noteq> ZOMBIE"
      "\<exists>l < 64. par (tbl x) l = Some j"
      using I(5) j jx F(2) [OF j(1)] unfolding sleep_inv_def by auto
    have ch: "p_chan (ptable (tbl x) ! j) = Some (ChProc j)" using k kx(1) F(2) [OF j(1)] by simp
    show "k = j" by (rule kx(1))
    show "st s l \<noteq> ZOMBIE" if l: "l < 64" "par s l = Some j" for l
    proof
      assume z: "st s l = ZOMBIE"
      show False
      proof (cases "l = cur")
        case True
        then have "par (tbl x) cur = Some j"
          using l F(1) [OF l(1)] r(6) [OF i(1), of cur] by (auto split: if_splits)
        then show False using jx(3) ch by simp
      next
        case False
        then have lz: "st (tbl x) l = ZOMBIE" using z F(6) [OF l(1)] by (auto split: if_splits)
        show False
        proof (cases "par (tbl x) l = Some cur")
          case True
          then have "zombie_child (tbl x) cur 64" "j = r"
            using lz l F(1) [OF l(1)] by (auto simp: zombie_child_def)
          then show False using jx(4) ch by simp
        next
          case False
          then show False using kx(2) [OF l(1)] lz l F(1) [OF l(1)] by simp
        qed
      qed
    qed
    obtain l where l: "l < 64" "par (tbl x) l = Some j" using kx(3) by blast
    then have "par s l = Some j" using F(1) [OF l(1)] jx(1) by simp
    then show "\<exists>l < 64. par s l = Some j" using l(1) by blast
  qed
qed

lemma exit_forks:
  assumes inv: "pinv x" and c: "c < length (cpu_proc (tbl x))" "cpu_proc (tbl x) ! c = Some cur"
    and pf: "pfork x cur = None" and ex: "exit_table (tbl x) c cur = Ok s"
  shows "forks_inv (x\<lparr>tbl := s\<rparr>)"
proof -
  note I = pinvD [OF inv] and i = pinv_running [OF inv c]
  obtain r where r: "r < 64" "initproc (tbl x) = Some r" "alive (st (tbl x) r)" "par (tbl x) r = None"
    "\<And>i. i < 64 \<Longrightarrow> i \<noteq> r \<Longrightarrow> st (tbl x) i \<noteq> UNUSED \<Longrightarrow> st (tbl x) i \<noteq> EMBRYO \<Longrightarrow> par (tbl x) i \<noteq> None"
    "\<And>i j. i < 64 \<Longrightarrow> par (tbl x) i = Some j \<Longrightarrow> j < 64 \<and> j \<noteq> i \<and> st (tbl x) i \<noteq> UNUSED \<and> alive (st (tbl x) j)"
    by (rule treeD [OF I(4)]) blast
  note F = exit_table_fields [OF inv i(1) r(2) ex] and fr = exit_table_frame [OF I(7) ex]
  show ?thesis
  proof (rule forks_same [OF I(3)])
    fix j :: nat assume j: "j < 64" "st (tbl x) j = EMBRYO"
    obtain l fp where lf: "pfork x l = Some (j, fp)" using forksD(3) [OF I(3) j] by blast
    then have "par (tbl x) j \<noteq> Some cur" using forksD(1) [OF I(3) lf] pf by auto
    then show "par (tbl (x\<lparr>tbl := s\<rparr>)) j = par (tbl x) j \<and>
      p_kstack (ptable (tbl (x\<lparr>tbl := s\<rparr>)) ! j) = p_kstack (ptable (tbl x) ! j) \<and>
      p_pgdir (ptable (tbl (x\<lparr>tbl := s\<rparr>)) ! j) = p_pgdir (ptable (tbl x) ! j)"
      using F(1,4,5) [OF j(1)] by simp
  next
    fix j :: nat assume j: "j < 64" "pfork x j \<noteq> None"
    then have "j \<noteq> cur" using pf by auto
    then show "st (tbl (x\<lparr>tbl := s\<rparr>)) j = RUNNING \<or> st (tbl (x\<lparr>tbl := s\<rparr>)) j = RUNNABLE"
      using pinv_pfork_state [OF inv j(2)] F(6) [OF j(1)] by auto
  qed (use F(6) i(2) in auto)
qed

lemma pinv_exit:
  assumes inv: "pinv x" and c: "c < length (cpu_proc (tbl x))" "cpu_proc (tbl x) ! c = Some cur"
    and pf: "pfork x cur = None" and ex: "exit_table (tbl x) c cur = Ok s"
  shows "pinv (x\<lparr>tbl := s\<rparr>)"
proof -
  note I = pinvD [OF inv] and i = pinv_running [OF inv c]
  obtain r where r: "r < 64" "initproc (tbl x) = Some r" "alive (st (tbl x) r)" "par (tbl x) r = None"
    "\<And>i. i < 64 \<Longrightarrow> i \<noteq> r \<Longrightarrow> st (tbl x) i \<noteq> UNUSED \<Longrightarrow> st (tbl x) i \<noteq> EMBRYO \<Longrightarrow> par (tbl x) i \<noteq> None"
    "\<And>i j. i < 64 \<Longrightarrow> par (tbl x) i = Some j \<Longrightarrow> j < 64 \<and> j \<noteq> i \<and> st (tbl x) i \<noteq> UNUSED \<and> alive (st (tbl x) j)"
    by (rule treeD [OF I(4)]) blast
  note F = exit_table_fields [OF inv i(1) r(2) ex] and fr = exit_table_frame [OF I(7) ex]
  have "cpus_inv s"
    by (rule cpus_leave [OF I(1) _ c fr(2)]) (use fr(1) I(7) F(6) i(2) in auto)
  moreover have "pids_inv s"
    by (rule pids_same [OF I(2) fr(3)]) (use F(3,6) i(2) in auto)
  moreover have "stack_inv s"
    by (rule stack_same [OF I(6)]) (use F(4,5,6) i(2) in auto)
  ultimately show ?thesis
    using exit_tree [OF inv c ex] exit_sleep [OF inv c ex] exit_forks [OF inv c pf ex] by (simp add: pinv_def)
qed

text \<open>Reaping a zombie: a slot without children becomes free.\<close>

lemma pinv_reap:
  assumes inv: "pinv x" and z: "z < 64" "st (tbl x) z = ZOMBIE"
  shows "pinv (x\<lparr>tbl := reap (tbl x) z, kmm := km\<rparr>)"
proof -
  note I = pinvD [OF inv]
  define s where "s = reap (tbl x) z"
  have e: "ptable s ! j = (if j = z then (ptable (tbl x) ! z)\<lparr>p_kstack := 0, p_pid := 0, p_parent := None,
     p_name := '''', p_killed := False, p_state := UNUSED\<rparr> else ptable (tbl x) ! j)" if "j < 64" for j
    using that z I(7) by (simp add: s_def reap_def set_proc_def nth_list_update)
  have fr: "length (ptable s) = 64" "cpu_proc s = cpu_proc (tbl x)" "nextpid s = nextpid (tbl x)"
    "initproc s = initproc (tbl x)"
    using I(7) by (simp_all add: s_def reap_def set_proc_def)
  have nochild: "par (tbl x) j \<noteq> Some z" if "j < 64" for j
    using treeD [OF I(4)] z that by (metis alive_iff)
  have "cpus_inv s" by (rule cpus_same [OF I(1) _ fr(2)]) (use fr(1) I(7) e z in auto)
  moreover have "pids_inv s"
    unfolding pids_inv_def fr(3)
  proof (intro conjI allI impI)
    note P = I(2) [unfolded pids_inv_def]
    show "0 < nextpid (tbl x)" using P by simp
    show "0 \<le> pidof s j" "pidof s j < nextpid (tbl x)" if "j < 64" for j
      using P e [OF that] that by simp_all
    show "0 < pidof s j" if "j < 64" "st s j \<noteq> UNUSED" for j
      using P e [OF that(1)] that by (simp split: if_splits)
    show "j = k" if jk: "j < 64" "k < 64" "pidof s j = pidof s k" "pidof s j \<noteq> 0" for j k
      using P e [OF jk(1)] e [OF jk(2)] jk by (simp split: if_splits)
  qed
  moreover have "stack_inv s" using I(6) e unfolding stack_inv_def by simp
  moreover have "tree_inv s"
  proof (rule treeD [OF I(4)])
    fix r assume r: "r < 64" "initproc (tbl x) = Some r" "alive (st (tbl x) r)" "par (tbl x) r = None"
      "\<And>i. i < 64 \<Longrightarrow> i \<noteq> r \<Longrightarrow> st (tbl x) i \<noteq> UNUSED \<Longrightarrow> st (tbl x) i \<noteq> EMBRYO \<Longrightarrow> par (tbl x) i \<noteq> None"
      "\<And>i j. i < 64 \<Longrightarrow> par (tbl x) i = Some j \<Longrightarrow> j < 64 \<and> j \<noteq> i \<and> st (tbl x) i \<noteq> UNUSED \<and> alive (st (tbl x) j)"
    have "r \<noteq> z" using r(3) z(2) by (auto simp: alive_iff)
    show ?thesis
    proof (rule treeI [of r])
      show "par s j \<noteq> None" if "j < 64" "j \<noteq> r" "st s j \<noteq> UNUSED" "st s j \<noteq> EMBRYO" for j
        using that r(5) [OF that(1,2)] e [OF that(1)] by (simp split: if_splits)
      show "k < 64 \<and> k \<noteq> j \<and> st s j \<noteq> UNUSED \<and> alive (st s k)" if "j < 64" "par s j = Some k" for j k
      proof -
        have jk: "j \<noteq> z" "par (tbl x) j = Some k" using that e [OF that(1)] by (auto split: if_splits)
        note o = r(6) [OF that(1) jk(2)]
        have "k \<noteq> z" using nochild [OF that(1)] jk(2) by auto
        then show ?thesis using o jk e [OF that(1)] e [of k] by simp
      qed
    qed (use r fr \<open>r \<noteq> z\<close> e [OF r(1)] in simp_all)
  qed
  moreover have "sleep_inv s"
    unfolding sleep_inv_def
  proof (intro allI impI conjI)
    fix j :: nat assume j: "j < 64" "st s j = SLEEPING"
    then have jx: "j \<noteq> z" "ptable s ! j = ptable (tbl x) ! j" using e by auto
    show "p_chan (ptable s ! j) \<noteq> None" using I(5) j jx by (simp add: sleep_inv_def)
    fix k assume k: "p_chan (ptable s ! j) = Some (ChProc k)"
    then have kx: "k = j" "\<And>l. l < 64 \<Longrightarrow> par (tbl x) l = Some j \<Longrightarrow> st (tbl x) l \<noteq> ZOMBIE"
      "\<exists>l < 64. par (tbl x) l = Some j"
      using I(5) j jx unfolding sleep_inv_def by auto
    show "k = j" by (rule kx(1))
    show "st s l \<noteq> ZOMBIE" if "l < 64" "par s l = Some j" for l
      using that kx(2) [of l] by (auto simp: e split: if_splits)
    obtain l where l: "l < 64" "par (tbl x) l = Some j" using kx(3) by blast
    then have "l \<noteq> z" using kx(2) z(2) by auto
    then show "\<exists>l < 64. par s l = Some j" using l e by auto
  qed
  moreover have "pfork x z = None" using pinv_pfork_state [OF inv, of z] z(2) by fastforce
  then have "forks_inv (x\<lparr>tbl := s, kmm := km\<rparr>)"
    by (intro forks_same [OF I(3)])
      (use pinv_pfork_state [OF inv] z in \<open>auto simp: e split: if_splits\<close>)
  ultimately show ?thesis by (simp add: pinv_def s_def)
qed

lemma pinv_wait:
  assumes inv: "pinv x" and c: "c < length (cpu_proc (tbl x))" "cpu_proc (tbl x) ! c = Some cur"
    and pf: "pfork x cur = None" and w: "wait1 kend (tbl x) (kmm x) c cur = Ok (r, s, km)"
  shows "pinv (x\<lparr>tbl := s, kmm := km\<rparr>)"
proof (cases "find_idx (\<lambda>p. p_parent p = Some cur \<and> p_state p = ZOMBIE) (ptable (tbl x))")
  case (Some z)
  then have "s = reap (tbl x) z" using w by (auto simp: wait1_def obind_eq_Ok)
  moreover have "z < 64" "st (tbl x) z = ZOMBIE" using find_idx_SomeD [OF Some] pinvD(7) [OF inv] by auto
  ultimately show ?thesis using pinv_reap [OF inv] by simp
next
  case None
  have all: "(\<forall>p \<in> set (ptable (tbl x)). P p) \<longleftrightarrow> (\<forall>j < 64. P (ptable (tbl x) ! j))" for P
    using pinvD(7) [OF inv] by (simp add: all_set_conv_all_nth)
  have nz: "\<forall>j < 64. par (tbl x) j = Some cur \<longrightarrow> st (tbl x) j \<noteq> ZOMBIE"
    using None unfolding find_idx_None_iff all by auto
  have ex: "list_ex (\<lambda>p. p_parent p = Some cur) (ptable (tbl x)) \<longleftrightarrow> (\<exists>j < 64. par (tbl x) j = Some cur)"
    using pinvD(7) [OF inv] by (simp add: list_ex_length)
  consider "s = tbl x" "km = kmm x"
    | "s = sleep_enter (tbl x) c cur (ChProc cur)" "km = kmm x" "\<exists>j < 64. par (tbl x) j = Some cur"
    using w None unfolding wait1_def ex by (auto split: if_splits)
  then show ?thesis
  proof cases
    case 1
    then show ?thesis using inv by simp
  next
    case 2
    have "pinv (x\<lparr>tbl := sleep_enter (tbl x) c cur (ChProc cur)\<rparr>)"
      by (rule pinv_sleep [OF inv c pf]) (use nz 2(3) in auto)
    then show ?thesis using 2 by simp
  qed
qed

lemma pinv_step:
  assumes "pstep kend kdata forkret trapret x y" and "pinv x"
  shows "pinv y"
  using assms
proof (induction rule: pstep.induct)
  case (ps_sched c x s)
  then show ?case by (intro pinv_sched)
next
  case (ps_sleep c x i ch)
  then show ?case by (intro pinv_sleep) auto
next
  case (ps_stack c x i np ok s km)
  then show ?case by (intro pinv_stack)
next
  case (ps_memory x km)
  then show ?case by (simp add: pinv_def forks_inv_def)
qed (auto intro: pinv_yield pinv_awake pinv_wakeup pinv_kill pinv_slot pinv_stack pinv_copy pinv_undo
    pinv_publish pinv_exit pinv_wait pinv_local)

lemma userinit_table:
  assumes "userinit kend kdata forkret trapret code codesz root (zero_psys ncpu) km0 = Ok (s, km)"
  obtains p where "ptable s = p # replicate 63 zero_proc" and "p_state p = RUNNABLE" and "p_pid p = 1"
    and "p_parent p = None" and "p_kstack p \<noteq> 0" and "p_pgdir p \<noteq> 0" and "\<not> p_killed p"
    and "nextpid s = 2" and "initproc s = Some 0" and "cpu_proc s = replicate ncpu None"
    and "cpu_scan s = replicate ncpu 0"
proof -
  have rep: "replicate 64 zero_proc = zero_proc # replicate 63 zero_proc" by (simp add: numeral_eq_Suc)
  have slot: "alloc_slot (zero_psys ncpu) =
      (Some 0, (set_proc (zero_psys ncpu) 0 (zero_proc\<lparr>p_state := EMBRYO, p_pid := 1\<rparr>))\<lparr>nextpid := 2\<rparr>)"
    by (simp add: alloc_slot_def zero_psys_def find_idx_def numeral_eq_Suc zero_proc_def)
  show ?thesis
    using assms slot that unfolding userinit_def allocproc_def alloc_stack_def zero_psys_def rep
    by (auto simp: obind_eq_Ok psys_ops zero_proc_def Let_def split: prod.splits if_splits)
qed

lemma pinv_boot:
  assumes "userinit kend kdata forkret trapret code codesz root (zero_psys ncpu) km0 = Ok (s, km)"
  shows "pinv \<lparr>tbl = s, kmm = km, pfork = (\<lambda>_. None)\<rparr>"
proof -
  obtain p where p: "ptable s = p # replicate 63 zero_proc" "p_state p = RUNNABLE" "p_pid p = 1"
    "p_parent p = None" "p_kstack p \<noteq> 0" "p_pgdir p \<noteq> 0"
    and g: "nextpid s = 2" "initproc s = Some 0" "cpu_proc s = replicate ncpu None"
    by (rule userinit_table [OF assms]) blast
  have e: "ptable s ! j = (if j = 0 then p else zero_proc)" if "j < 64" for j
    using p(1) that by (simp add: nth_Cons')
  have len: "length (ptable s) = 64" using p(1) by simp
  have z: "p_state zero_proc = UNUSED" "p_parent zero_proc = None" "p_pid zero_proc = 0"
    by (simp_all add: zero_proc_def)
  have "cpus_inv s" unfolding cpus_inv_def using len p(2-) g e z by (auto split: if_splits)
  moreover have "pids_inv s" unfolding pids_inv_def using len p(2-) g e z by (auto split: if_splits)
  moreover have "stack_inv s" unfolding stack_inv_def using len p(2-) g e z by (auto split: if_splits)
  moreover have "sleep_inv s" unfolding sleep_inv_def using len p(2-) g e z by (auto split: if_splits)
  moreover have "tree_inv s"
    by (rule treeI [of 0]) (use len p(2-) g e z in \<open>auto simp: alive_def split: if_splits\<close>)
  moreover have "forks_inv \<lparr>tbl = s, kmm = km, pfork = (\<lambda>_. None)\<rparr>"
    unfolding forks_inv_def using p(2-) e z by (auto split: if_splits)
  ultimately show ?thesis by (simp add: pinv_def)
qed

lemma preach_pinv: "preach kend kdata forkret trapret x \<Longrightarrow> pinv x"
  by (induction rule: preach.induct) (auto intro: pinv_boot pinv_step)

section \<open>The first process can be made\<close>

lemma store32_offset:
  assumes "unat off \<le> 4092" and "\<not> in_page p a"
  shows "store32 m (p + off) v a = m a"
proof -
  have "in_page p (p + off + k)" if "k < 4" for k
    using assms(1) that by (simp add: in_page_def word_less_nat_alt unat_uint_add add.assoc)
  from this [of 0] this [of 1] this [of 2] this [of 3] show ?thesis
    using assms(2) by (auto simp: store32_def)
qed

lemma memset_offset:
  assumes "unat off + unat n \<le> 4096" and "\<not> in_page p a"
  shows "memset m (p + off) c n a = m a"
proof -
  have "\<not> a - (p + off) < n"
  proof
    assume "a - (p + off) < n"
    then have "unat (a - p - off) < unat n" by (simp add: word_less_nat_alt diff_diff_eq)
    then have "unat (a - p) < 4096"
      using assms(1) by (auto simp: unat_uint_sub split: if_splits)
    then show False using assms(2) by (simp add: in_page_def word_less_nat_alt)
  qed
  then show ?thesis by (simp add: memset_spec)
qed

lemma alloc_stack_memory:
  assumes inv: "kmem_inv kend km (ks # ps)"
  shows "\<exists>s' km'. alloc_stack forkret trapret s km i = (True, s', km') \<and> kmem_inv kend km' ps"
proof -
  obtain km1 where al: "kalloc km = (ks, km1)" "kmem_inv kend km1 ps" using kalloc_Cons [OF inv] by auto
  have ks: "valid_page kend ks" "ks \<notin> set ps" using inv by (auto simp: kmem_inv_def)
  let ?m = "store32 (memset (store32 (kmemory km1) (ks + 4016) trapret) (ks + 3996) 0 20) (ks + 4012) forkret"
  have "kmem_inv kend (km1\<lparr>kmemory := ?m\<rparr>) ps"
    by (rule kmem_inv_update [OF al(2), where A = "{ks}"])
      (use ks in \<open>auto simp: store32_offset memset_offset\<close>)
  moreover have "snd (snd (alloc_stack forkret trapret s km i)) = km1\<lparr>kmemory := ?m\<rparr>"
    "fst (alloc_stack forkret trapret s km i)"
    using al(1) valid_page_nonzero [OF ks(1)]
    by (simp_all add: alloc_stack_def Let_def poke_def kmemset_def KSTACKSIZE_def TF_SIZE_def CTX_SIZE_def CTX_EIP_def
        add.commute)
  ultimately show ?thesis by (cases "alloc_stack forkret trapret s km i") auto
qed

lemma userinit_total:
  assumes inv: "kmem_inv kend km ps" and len: "1030 < length ps" and kd: "kdata_ok kdata" and sz: "codesz < PGSIZE"
  shows "\<exists>s km'. userinit kend kdata forkret trapret code codesz root (zero_psys ncpu) km = Ok (s, km')"
proof -
  obtain ks qs where ps: "ps = ks # qs" using len by (cases ps) auto
  obtain s0 where slot: "alloc_slot (zero_psys ncpu) = (Some 0, s0)"
    by (simp add: alloc_slot_def zero_psys_def find_idx_def numeral_eq_Suc zero_proc_def)
  obtain s1 km1 where st: "alloc_stack forkret trapret s0 km 0 = (True, s1, km1)" "kmem_inv kend km1 qs"
    using alloc_stack_memory [OF inv [unfolded ps]] by blast
  obtain pd km2 where su: "setupkvm kend kdata km1 = Ok (pd, km2)" "pd \<noteq> 0"
    using setupkvm_total [OF st(2) kd] len ps by auto
  obtain ps2 where sp: "space_ok kend km2 ps2 pd" and un: "ptpages (kmemory km2) pd \<union> set ps2 = set qs"
    and vm: "\<And>v. vm_pte (kmemory km2) pd v = kernel_pte kdata v"
    using setupkvm_ok [OF st(2) kd su] by metis
  have "ps2 \<noteq> []"
  proof
    assume "ps2 = []"
    then have "card (set qs) \<le> 1025" using un card_ptpages [of "kmemory km2" pd] by simp
    moreover have "card (set qs) = length qs" using st(2) by (simp add: kmem_inv_def distinct_card)
    ultimately show False using len ps by simp
  qed
  then obtain q ps3 where ps2: "ps2 = q # ps3" by (cases ps2) auto
  have inv2: "kmem_inv kend km2 (q # ps3)" "pgdir_ok kend (kmemory km2) pd" "ptpages (kmemory km2) pd \<inter> set (q # ps3) = {}"
    using sp ps2 by (auto simp: space_ok_def)
  have q: "valid_page kend q" "q \<notin> set ps3" "q \<notin> ptpages (kmemory km2) pd" "q \<noteq> 0"
    using inv2 valid_page_nonzero by (auto simp: kmem_inv_def)
  obtain km3 where al: "kalloc km2 = (q, km3)" "kmem_inv kend km3 ps3" "kmemory km3 = kmemory km2"
    using kalloc_Cons [OF inv2(1)] by auto
  let ?k = "kmemset km3 q 0 PGSIZE"
  have eq: "kmemory ?k a = kmemory km2 a" if "p \<in> ptpages (kmemory km2) pd" "in_page p a" for p a
  proof -
    have "\<not> in_page q a"
      using pages_apart [of kend p "{q}" a] ptpages_valid [OF inv2(2) that(1)] that q by auto
    then show ?thesis by (simp add: kmemset_def memset_page al(3))
  qed
  have "kmem_inv kend ?k ps3" unfolding kmemset_def
    by (rule kmem_inv_update [OF al(2), where A = "{q}"]) (use q in \<open>auto simp: memset_page\<close>)
  then have spk: "space_ok kend ?k ps3 pd"
    using pgdir_ok_cong [OF inv2(2) eq] inv2(3) by (simp add: space_ok_def)
  have "vm_pte (kmemory ?k) pd v = None" if "unat v div 4096 = 0" for v
    using vm_pte_cong(1) [OF inv2(2) eq] vm kernel_pte_user [OF kd, of v] that by (simp add: div_eq_0_iff)
  then have "\<exists>r km4. mappages ?k pd 0 PGSIZE (V2P q) (PTE_W OR PTE_U) = Ok (r, km4)"
    using mappages_ok [OF spk, of 0 PGSIZE "V2P q" "PTE_W OR PTE_U"] one_page_range(1) [of 0] by auto
  then obtain km5 where iu: "inituvm km2 pd code codesz = Ok km5"
    using al(1) q(4) sz unfolding inituvm_def by (auto simp: Let_def not_le)
  show ?thesis
    using slot st(1) su iu unfolding userinit_def allocproc_def by (auto simp: Let_def)
qed

section \<open>Properties\<close>

text \<open>Process \<open>j\<close> is a child of \<open>cur\<close> that has exited.\<close>

definition zombie_of :: "psys \<Rightarrow> nat \<Rightarrow> nat \<Rightarrow> bool" where
  "zombie_of s cur j \<longleftrightarrow> p_parent (ptable s ! j) = Some cur \<and> p_state (ptable s ! j) = ZOMBIE"


text \<open>
  C2: in every reachable state of the machine, a process is in state \<^verbatim>\<open>RUNNING\<close> exactly when
  one processor, and only one, runs it; two processes never have the same identifier; the
  parent of a process is another process, which is alive; a process that sleeps has a
  channel it sleeps on; a process past \<^verbatim>\<open>EMBRYO\<close> has a kernel stack and a page directory; and
  so the schedulers never panic in \<^verbatim>\<open>switchuvm\<close>.
\<close>

theorem process_table_invariant:
  assumes "preach kend kdata forkret trapret x"
  shows "(\<forall>i < NPROC. p_state (ptable (tbl x) ! i) = RUNNING \<longleftrightarrow>
      (\<exists>!c. c < length (cpu_proc (tbl x)) \<and> cpu_proc (tbl x) ! c = Some i)) \<and>
    (\<forall>i < NPROC. \<forall>j < NPROC. p_state (ptable (tbl x) ! i) \<noteq> UNUSED \<longrightarrow>
      p_pid (ptable (tbl x) ! i) = p_pid (ptable (tbl x) ! j) \<longrightarrow> i = j) \<and>
    (\<forall>i < NPROC. \<forall>j. p_parent (ptable (tbl x) ! i) = Some j \<longrightarrow>
      j < NPROC \<and> j \<noteq> i \<and> p_state (ptable (tbl x) ! j) \<in> {SLEEPING, RUNNABLE, RUNNING}) \<and>
    (\<forall>i < NPROC. p_state (ptable (tbl x) ! i) = SLEEPING \<longrightarrow> p_chan (ptable (tbl x) ! i) \<noteq> None) \<and>
    (\<forall>i < NPROC. p_state (ptable (tbl x) ! i) \<notin> {UNUSED, EMBRYO} \<longrightarrow>
      p_kstack (ptable (tbl x) ! i) \<noteq> 0 \<and> p_pgdir (ptable (tbl x) ! i) \<noteq> 0) \<and>
    (\<forall>c < length (cpu_proc (tbl x)). cpu_proc (tbl x) ! c = None \<longrightarrow> (\<exists>s. scheduler1 (tbl x) c = Ok s))"
proof -
  note inv = preach_pinv [OF assms]
  note I = pinvD [OF inv]
  have "\<forall>i < 64. st (tbl x) i = RUNNING \<longleftrightarrow>
      (\<exists>!c. c < length (cpu_proc (tbl x)) \<and> cpu_proc (tbl x) ! c = Some i)"
    using cpusD(2,3,4) [OF I(1)] by metis
  moreover have "\<forall>i < 64. \<forall>j < 64. st (tbl x) i \<noteq> UNUSED \<longrightarrow> pidof (tbl x) i = pidof (tbl x) j \<longrightarrow> i = j"
    using I(2) unfolding pids_inv_def by (metis less_irrefl)
  moreover have "\<forall>i < 64. \<forall>j. par (tbl x) i = Some j \<longrightarrow>
      j < 64 \<and> j \<noteq> i \<and> st (tbl x) j \<in> {SLEEPING, RUNNABLE, RUNNING}"
    using I(4) unfolding tree_inv_def alive_def insert_iff by blast
  moreover have "\<forall>i < 64. st (tbl x) i = SLEEPING \<longrightarrow> p_chan (ptable (tbl x) ! i) \<noteq> None"
    using I(5) unfolding sleep_inv_def by blast
  moreover have "\<forall>i < 64. st (tbl x) i \<notin> {UNUSED, EMBRYO} \<longrightarrow>
      p_kstack (ptable (tbl x) ! i) \<noteq> 0 \<and> p_pgdir (ptable (tbl x) ! i) \<noteq> 0"
    using I(6) unfolding stack_inv_def insert_iff by blast
  moreover have "\<exists>s. scheduler1 (tbl x) c = Ok s" for c
    using I(6) by (auto simp: scheduler1_def switchuvm_def Let_def stack_inv_def)
  then have "\<forall>c < length (cpu_proc (tbl x)). cpu_proc (tbl x) ! c = None \<longrightarrow> (\<exists>s. scheduler1 (tbl x) c = Ok s)"
    by blast
  ultimately show ?thesis by (intro conjI)
qed

text \<open>
  C8: a process that sleeps in \<^verbatim>\<open>wait\<close> never misses the exit of a child: it has a child, and no
  child of it is a zombie, in every reachable state.  The parent of every process is alive,
  so that every zombie has a process that can still collect it.
\<close>

theorem wait_no_lost_wakeup:
  assumes "preach kend kdata forkret trapret x" and "i < NPROC"
  shows "(p_state (ptable (tbl x) ! i) = SLEEPING \<and> p_chan (ptable (tbl x) ! i) = Some (ChProc k) \<longrightarrow>
      k = i \<and> (\<exists>j < NPROC. p_parent (ptable (tbl x) ! j) = Some i) \<and>
      (\<forall>j < NPROC. p_parent (ptable (tbl x) ! j) = Some i \<longrightarrow> p_state (ptable (tbl x) ! j) \<noteq> ZOMBIE)) \<and>
    (p_state (ptable (tbl x) ! i) = ZOMBIE \<longrightarrow>
      (\<exists>j < NPROC. p_parent (ptable (tbl x) ! i) = Some j \<and> alive (p_state (ptable (tbl x) ! j))))"
proof -
  note I = pinvD [OF preach_pinv [OF assms(1)]]
  obtain r where r: "alive (st (tbl x) r)"
    "\<And>i. i < 64 \<Longrightarrow> i \<noteq> r \<Longrightarrow> st (tbl x) i \<noteq> UNUSED \<Longrightarrow> st (tbl x) i \<noteq> EMBRYO \<Longrightarrow> par (tbl x) i \<noteq> None"
    "\<And>i j. i < 64 \<Longrightarrow> par (tbl x) i = Some j \<Longrightarrow> j < 64 \<and> j \<noteq> i \<and> st (tbl x) i \<noteq> UNUSED \<and> alive (st (tbl x) j)"
    by (rule treeD [OF I(4)]) blast
  have "\<exists>j < 64. par (tbl x) i = Some j \<and> alive (st (tbl x) j)" if z: "st (tbl x) i = ZOMBIE"
  proof -
    have "i \<noteq> r" using r(1) z by (auto simp: alive_iff)
    then obtain j where "par (tbl x) i = Some j" using r(2) [OF assms(2)] z by auto
    then show ?thesis using r(3) [OF assms(2)] by auto
  qed
  then show ?thesis using I(5) assms(2) unfolding sleep_inv_def by blast
qed

lemma wait1_zombie:
  assumes "z < length (ptable s)" and "zombie_of s cur z" and "\<forall>j < z. \<not> zombie_of s cur j"
  shows "wait1 kend s km c cur = obind (kfree kend km (p_kstack (ptable s ! z))) (\<lambda>km1.
    obind (freevm kend km1 (p_pgdir (ptable s ! z))) (\<lambda>km2. Ok (Returns (p_pid (ptable s ! z)), reap s z, km2)))"
proof -
  have "find_idx (\<lambda>p. p_parent p = Some cur \<and> p_state p = ZOMBIE) (ptable s) = Some z"
    unfolding find_idx_Some_iff using assms by (simp add: zombie_of_def)
  then show ?thesis by (simp add: wait1_def)
qed

lemma wait1_no_zombie:
  assumes "length (ptable s) = NPROC" and "\<forall>j < NPROC. \<not> zombie_of s cur j"
  shows "wait1 kend s km c cur =
    (if (\<forall>j < NPROC. p_parent (ptable s ! j) \<noteq> Some cur) \<or> p_killed (ptable s ! cur) then Ok (Returns (- 1), s, km)
     else Ok (Sleeps, sleep_enter s c cur (ChProc cur), km))"
proof -
  have "find_idx (\<lambda>p. p_parent p = Some cur \<and> p_state p = ZOMBIE) (ptable s) = None"
    unfolding find_idx_None_iff using assms by (auto simp: all_set_conv_all_nth zombie_of_def)
  moreover have "list_ex (\<lambda>p. p_parent p = Some cur) (ptable s) \<longleftrightarrow> \<not> (\<forall>j < NPROC. p_parent (ptable s ! j) \<noteq> Some cur)"
    using assms(1) by (simp add: list_ex_length)
  ultimately show ?thesis by (simp add: wait1_def)
qed

text \<open>
  C24: one pass of \<^verbatim>\<open>wait\<close>, on every branch.  With a zombie child, it returns the identifier
  of the first one in the table, frees its kernel stack and its address space, and makes its
  slot unused.  With no zombie child, it returns -1 and changes nothing when the caller has
  no child or was killed, and otherwise it goes to sleep on itself, off its processor.  It
  changes no other process.
\<close>

theorem wait_result:
  assumes "length (ptable s) = NPROC" and "cur < NPROC" and "wait1 kend s km c cur = Ok (r, s', km')"
  shows "(\<forall>z < NPROC. zombie_of s cur z \<and> (\<forall>j < z. \<not> zombie_of s cur j) \<longrightarrow>
      r = Returns (p_pid (ptable s ! z)) \<and>
      (\<exists>km1. kfree kend km (p_kstack (ptable s ! z)) = Ok km1 \<and>
         freevm kend km1 (p_pgdir (ptable s ! z)) = Ok km') \<and>
      p_state (ptable s' ! z) = UNUSED \<and> p_pid (ptable s' ! z) = 0 \<and> p_kstack (ptable s' ! z) = 0 \<and>
      p_parent (ptable s' ! z) = None \<and> \<not> p_killed (ptable s' ! z) \<and> cpu_proc s' = cpu_proc s \<and>
      (\<forall>j < NPROC. j \<noteq> z \<longrightarrow> ptable s' ! j = ptable s ! j)) \<and>
    ((\<forall>j < NPROC. \<not> zombie_of s cur j) \<longrightarrow>
      (if (\<forall>j < NPROC. p_parent (ptable s ! j) \<noteq> Some cur) \<or> p_killed (ptable s ! cur)
       then r = Returns (- 1) \<and> s' = s \<and> km' = km
       else r = Sleeps \<and> km' = km \<and>
         p_state (ptable s' ! cur) = SLEEPING \<and> p_chan (ptable s' ! cur) = Some (ChProc cur) \<and>
         cpu_proc s' = (cpu_proc s)[c := None] \<and>
         (\<forall>j < NPROC. j \<noteq> cur \<longrightarrow> ptable s' ! j = ptable s ! j)))"
proof (rule conjI; intro allI impI)
  fix z assume "z < NPROC" and "zombie_of s cur z \<and> (\<forall>j < z. \<not> zombie_of s cur j)"
  with wait1_zombie [of z s cur kend km c] assms(1,3) have
    "obind (kfree kend km (p_kstack (ptable s ! z))) (\<lambda>km1. obind (freevm kend km1 (p_pgdir (ptable s ! z)))
       (\<lambda>km2. Ok (Returns (p_pid (ptable s ! z)), reap s z, km2))) = Ok (r, s', km')" by simp
  then obtain km1 where "kfree kend km (p_kstack (ptable s ! z)) = Ok km1" "freevm kend km1 (p_pgdir (ptable s ! z)) = Ok km'"
    "r = Returns (p_pid (ptable s ! z))" "s' = reap s z"
    by (auto simp: obind_eq_Ok)
  with \<open>z < NPROC\<close> assms(1) show "r = Returns (p_pid (ptable s ! z)) \<and>
      (\<exists>km1. kfree kend km (p_kstack (ptable s ! z)) = Ok km1 \<and>
         freevm kend km1 (p_pgdir (ptable s ! z)) = Ok km') \<and>
      p_state (ptable s' ! z) = UNUSED \<and> p_pid (ptable s' ! z) = 0 \<and> p_kstack (ptable s' ! z) = 0 \<and>
      p_parent (ptable s' ! z) = None \<and> \<not> p_killed (ptable s' ! z) \<and> cpu_proc s' = cpu_proc s \<and>
      (\<forall>j < NPROC. j \<noteq> z \<longrightarrow> ptable s' ! j = ptable s ! j)"
    by (simp add: reap_def set_proc_def)
next
  assume "\<forall>j < NPROC. \<not> zombie_of s cur j"
  from wait1_no_zombie [OF assms(1) this, of kend km c] assms
  show "if (\<forall>j < NPROC. p_parent (ptable s ! j) \<noteq> Some cur) \<or> p_killed (ptable s ! cur)
       then r = Returns (- 1) \<and> s' = s \<and> km' = km
       else r = Sleeps \<and> km' = km \<and>
         p_state (ptable s' ! cur) = SLEEPING \<and> p_chan (ptable s' ! cur) = Some (ChProc cur) \<and>
         cpu_proc s' = (cpu_proc s)[c := None] \<and>
         (\<forall>j < NPROC. j \<noteq> cur \<longrightarrow> ptable s' ! j = ptable s ! j)"
    by (auto simp: sleep_enter_def psys_ops split: if_split_asm)
qed

text \<open>
  A run on one processor in which the first process forks and then waits for its child; its
  address space is that of the demonstration in the theory of page tables.
\<close>

lemma fork_wait_run:
  obtains x where "preach 0x80108000 0x80109000 forkret trapret x"
    and "p_state (ptable (tbl x) ! 0) = SLEEPING" and "p_chan (ptable (tbl x) ! 0) = Some (ChProc 0)"
    and "p_parent (ptable (tbl x) ! 1) = Some 0" and "p_state (ptable (tbl x) ! 1) = RUNNABLE"
proof -
  let ?reach = "preach 0x80108000 0x80109000 forkret trapret"
  let ?ps = "pages_upto 0x80400000 0x80C00000"
  have kd: "kdata_ok 0x80109000"
    by (simp add: kdata_ok_def KERNLINK_def KERNBASE_def EXTMEM_def P2V_def PHYSTOP_def)
  have len: "length ?ps = 2048" by (subst pages_upto_length) simp_all
  obtain km where inv: "kmem_inv 0x80108000 km ?ps"
    and mem: "\<And>a. 0x8D000000 \<le> unat a \<Longrightarrow> kmemory km a = demo_mem a"
    by (rule demo_free) blast
  have usr: "user_ok 0x80108000 (kmemory km) ?ps 0x8D000000 4096" by (rule demo_user_ok(1) [OF mem])
  obtain s0 km0 where boot: "userinit 0x80108000 0x80109000 forkret trapret 0 0 None (zero_psys 1) km = Ok (s0, km0)"
    using userinit_total [OF inv _ kd] len by fastforce
  obtain p where p: "ptable s0 = p # replicate 63 zero_proc" "p_state p = RUNNABLE" "p_pid p = 1"
    "p_parent p = None" "p_kstack p \<noteq> 0" "p_pgdir p \<noteq> 0" "\<not> p_killed p" and g: "nextpid s0 = 2" "initproc s0 = Some 0"
    "cpu_proc s0 = [None]" "cpu_scan s0 = [0]"
    by (rule userinit_table [OF boot]) simp
  have s0: "s0 = \<lparr>ptable = p # replicate 63 zero_proc, nextpid = 2, initproc = Some 0, cpu_proc = [None], cpu_scan = [0]\<rparr>"
    using p(1) g by simp
  have rep: "replicate 63 zero_proc = zero_proc # replicate 62 zero_proc" by (simp add: numeral_eq_Suc)
  have r0: "?reach \<lparr>tbl = s0, kmm = km0, pfork = (\<lambda>_. None)\<rparr>" by (rule pr_boot [OF boot])
  let ?t = "\<lambda>q0 q1 n. \<lparr>ptable = q0 # q1 # replicate 62 zero_proc, nextpid = n, initproc = Some 0,
      cpu_proc = [Some 0], cpu_scan = [1]\<rparr>"
  let ?q = "p\<lparr>p_state := RUNNING\<rparr>"
  let ?r = "?q\<lparr>p_sz := 4096, p_pgdir := 0x8D000000\<rparr>"
  let ?step = "pstep 0x80108000 0x80109000 forkret trapret"
  let ?x = "\<lambda>q0 q1 n k f. \<lparr>tbl = ?t q0 q1 n, kmm = k, pfork = f\<rparr>"
  have sc: "scheduler1 s0 0 = Ok (?t ?q zero_proc 2)"
    unfolding s0 rep using p by (simp add: scheduler1_def switchuvm_def psys_ops)
  have "?step \<lparr>tbl = s0, kmm = km0, pfork = (\<lambda>_. None)\<rparr> (?x ?q zero_proc 2 km0 (\<lambda>_. None))"
    using ps_sched [of 0 "\<lparr>tbl = s0, kmm = km0, pfork = (\<lambda>_. None)\<rparr>"] sc g by simp
  note r1 = pr_step [OF r0 this]
  have "?step (?x ?q zero_proc 2 km0 (\<lambda>_. None)) (?x ?r zero_proc 2 km0 (\<lambda>_. None))"
    using ps_local [where c = 0 and x = "?x ?q zero_proc 2 km0 (\<lambda>_. None)" and i = 0 and pd = "0x8D000000"
      and sz = 4096 and fs = "p_ofile p" and wd = "p_cwd p" and nm = "p_name p" and tf = "p_tf p"]
    by (simp add: psys_ops)
  note r2 = pr_step [OF r1 this]
  have mem_step: "?step (?x q0 q1 n k f) (?x q0 q1 n k' f)" for q0 q1 n k k' f
    using ps_memory [where x = "?x q0 q1 n k f" and km = k'] by simp
  note r3 = pr_step [OF r2 mem_step [of _ _ _ _ _ km]]
  let ?e = "zero_proc\<lparr>p_state := EMBRYO, p_pid := 2\<rparr>"
  let ?f = "\<lambda>fp. (\<lambda>_. None)(0 :: nat := Some (1 :: nat, fp))"
  have "alloc_slot (?t ?r zero_proc 2) = (Some 1, ?t ?r ?e 3)"
    by (simp add: alloc_slot_def find_idx_def psys_ops zero_proc_def)
  then have "?step (?x ?r zero_proc 2 km (\<lambda>_. None)) (?x ?r ?e 3 km (?f Slot))"
    using ps_slot [of 0 "?x ?r zero_proc 2 km (\<lambda>_. None)" 0 1 "?t ?r ?e 3"] by simp
  note r4 = pr_step [OF r3 this]
  obtain ks qs where ps: "?ps = ks # qs" using len by (cases ?ps) auto
  obtain k1 where al: "kalloc km = (ks, k1)" "ks \<noteq> 0"
    using kalloc_Cons [OF inv [unfolded ps]] inv [unfolded ps] valid_page_nonzero by (auto simp: kmem_inv_def)
  let ?e1 = "?e\<lparr>p_kstack := ks, p_tf := ks + KSTACKSIZE - TF_SIZE, p_context := ks + KSTACKSIZE - TF_SIZE - 4 - CTX_SIZE\<rparr>"
  obtain k2 where "alloc_stack forkret trapret (?t ?r ?e 3) km 1 = (True, ?t ?r ?e1 3, k2)"
    using al by (simp add: alloc_stack_def Let_def psys_ops)
  then have "?step (?x ?r ?e 3 km (?f Slot)) (?x ?r ?e1 3 k2 (?f Stack))"
    using ps_stack [where c = 0 and x = "?x ?r ?e 3 km (?f Slot)" and i = 0 and np = 1 and ok = True] by simp
  note r5 = pr_step [OF pr_step [OF r4 this] mem_step [of _ _ _ _ _ km]]
  obtain d k3 where cp: "copyuvm 0x80108000 0x80109000 km 0x8D000000 4096 = Ok (d, k3)" "d \<noteq> 0"
    using copyuvm_ok [OF inv kd usr] len by (auto simp: npages_def KERNBASE_def)
  let ?e2 = "?e1\<lparr>p_pgdir := d, p_sz := 4096, p_parent := Some 0,
    p_ofile := copy_ofile (p_ofile p) (p_ofile zero_proc), p_cwd := p_cwd p, p_name := p_name p\<rparr>"
  have "fork_copy (?t ?r ?e1 3) 0 1 d = ?t ?r ?e2 3" by (simp add: fork_copy_def psys_ops Let_def)
  then have "?step (?x ?r ?e1 3 km (?f Stack)) (?x ?r ?e2 3 (fork_tf (?t ?r ?e1 3) k3 0 1) (?f Filled))"
    using ps_copy [of 0 "?x ?r ?e1 3 km (?f Stack)" 0 1 "0x80108000" "0x80109000" d k3] cp by simp
  then obtain k4 where "?step (?x ?r ?e1 3 km (?f Stack)) (?x ?r ?e2 3 k4 (?f Filled))" by blast
  note r6 = pr_step [OF r5 this]
  let ?e3 = "?e2\<lparr>p_state := RUNNABLE\<rparr>"
  have "fork_publish (?t ?r ?e2 3) 1 = ?t ?r ?e3 3" by (simp add: fork_publish_def psys_ops)
  then have "?step (?x ?r ?e2 3 k4 (?f Filled)) (?x ?r ?e3 3 k4 (\<lambda>_. None))"
    using ps_publish [of 0 "?x ?r ?e2 3 k4 (?f Filled)" 0 1] by (simp add: fun_upd_idem)
  note r7 = pr_step [OF r6 this]
  let ?y = "sleep_enter (?t ?r ?e3 3) 0 0 (ChProc 0)"
  have "find_idx (\<lambda>p. p_parent p = Some 0 \<and> p_state p = ZOMBIE) (?r # ?e3 # replicate 62 zero_proc) = None"
    unfolding find_idx_None_iff using p by (simp add: zero_proc_def)
  then have "wait1 0x80108000 (?t ?r ?e3 3) k4 0 0 = Ok (Sleeps, ?y, k4)"
    using p by (simp add: wait1_def)
  then have "?step (?x ?r ?e3 3 k4 (\<lambda>_. None)) \<lparr>tbl = ?y, kmm = k4, pfork = (\<lambda>_. None)\<rparr>"
    using ps_wait [of 0 "?x ?r ?e3 3 k4 (\<lambda>_. None)" 0 "0x80108000"] by simp
  from that [OF pr_step [OF r7 this]] show ?thesis by (simp add: sleep_enter_def psys_ops)
qed

theorem process_table_invariant_witness:
  "\<exists>x. preach 0x80108000 0x80109000 0x80104000 0x80105000 x \<and> p_state (ptable (tbl x) ! 1) = RUNNABLE \<and>
     (\<forall>j < NPROC. p_pid (ptable (tbl x) ! 1) = p_pid (ptable (tbl x) ! j) \<longrightarrow> 1 = j) \<and>
     p_kstack (ptable (tbl x) ! 1) \<noteq> 0 \<and> p_parent (ptable (tbl x) ! 1) = Some 0 \<and>
     p_state (ptable (tbl x) ! 0) \<in> {SLEEPING, RUNNABLE, RUNNING}"
proof -
  obtain x where r: "preach 0x80108000 0x80109000 0x80104000 0x80105000 x" "p_state (ptable (tbl x) ! 1) = RUNNABLE"
    "p_parent (ptable (tbl x) ! 1) = Some 0"
    by (rule fork_wait_run) blast
  note P = process_table_invariant [OF r(1), THEN conjunct2]
  have "p_state (ptable (tbl x) ! 0) \<in> {SLEEPING, RUNNABLE, RUNNING}"
    using P [THEN conjunct2, THEN conjunct1, rule_format, of 1 0] r(3) by simp
  moreover have "\<forall>j < NPROC. p_pid (ptable (tbl x) ! 1) = p_pid (ptable (tbl x) ! j) \<longrightarrow> 1 = j"
    using P [THEN conjunct1, rule_format, of 1] r(2) by simp
  moreover have "p_kstack (ptable (tbl x) ! 1) \<noteq> 0"
    using P [THEN conjunct2, THEN conjunct2, THEN conjunct2, THEN conjunct1, rule_format, of 1] r(2) by simp
  ultimately show ?thesis using r by blast
qed

theorem wait_no_lost_wakeup_witness:
  "\<exists>x. preach 0x80108000 0x80109000 0x80104000 0x80105000 x \<and>
     p_state (ptable (tbl x) ! 0) = SLEEPING \<and> p_chan (ptable (tbl x) ! 0) = Some (ChProc 0) \<and>
     (\<forall>j < NPROC. p_parent (ptable (tbl x) ! j) = Some 0 \<longrightarrow> p_state (ptable (tbl x) ! j) \<noteq> ZOMBIE)"
proof -
  obtain x where "preach 0x80108000 0x80109000 0x80104000 0x80105000 x"
    "p_state (ptable (tbl x) ! 0) = SLEEPING" "p_chan (ptable (tbl x) ! 0) = Some (ChProc 0)"
    by (rule fork_wait_run) blast
  with wait_no_lost_wakeup [OF this(1), of 0 0] show ?thesis by (intro exI [of _ x]) simp
qed

text \<open>Process 3 has two zombie children, in slots 5 and 7, each with a stack and an empty page directory.\<close>

definition two_zombies :: psys where
  "two_zombies = (zero_psys 1)\<lparr>ptable := (ptable (zero_psys 1))
     [5 := zero_proc\<lparr>p_state := ZOMBIE, p_pid := 9, p_parent := Some 3, p_kstack := 0x80200000, p_pgdir := 0x80201000\<rparr>,
      7 := zero_proc\<lparr>p_state := ZOMBIE, p_pid := 8, p_parent := Some 3, p_kstack := 0x80202000, p_pgdir := 0x80203000\<rparr>]\<rparr>"

lemma two_zombies_wait: "\<exists>km. wait1 0x80108000 two_zombies two_pages 0 3 = Ok (Returns 9, reap two_zombies 5, km)"
proof -
  let ?k = "freed two_pages 0x80200000"
  have v: "valid_page 0x80108000 0x80200000" "valid_page 0x80108000 0x80201000"
    by (simp_all add: valid_page_def V2P_def KERNBASE_def PHYSTOP_def)
  have "kmemory ?k a = 0" if "in_page 0x80201000 a" for a
  proof -
    have "\<not> in_page 0x80200000 a" and "4 \<le> a - 0x8DFFE000"
      using that by (simp_all add: in_page_def unat_sub_if' word_less_nat_alt word_le_nat_alt unat_word_ariths split: if_splits)
    then show ?thesis by (simp add: freed_memory(1) two_pages_def store32_word)
  qed
  then have "ent (kmemory ?k) 0x80201000 i = ent (\<lambda>_. 0) 0x80201000 i" if "i < 1024" for i
    using that by (intro ent_cong) auto
  then have "\<forall>i < 1024. \<not> present (kmemory ?k) 0x80201000 i"
    by (simp add: present_def) (simp add: ent_def load32_def le32_def)
  then have "freevm 0x80108000 ?k 0x80201000 = Ok (freed ?k 0x80201000)"
    using v by (simp add: freevm_empty kfree_eq)
  moreover have "find_idx (\<lambda>p. p_parent p = Some 3 \<and> p_state p = ZOMBIE) (ptable two_zombies) = Some 5"
    unfolding find_idx_Some_iff by (auto simp: two_zombies_def zero_psys_def zero_proc_def nth_list_update less_Suc_eq)
  moreover have "ptable two_zombies ! 5 = zero_proc\<lparr>p_state := ZOMBIE, p_pid := 9, p_parent := Some 3,
      p_kstack := 0x80200000, p_pgdir := 0x80201000\<rparr>"
    by (simp add: two_zombies_def zero_psys_def)
  ultimately show ?thesis using v by (simp add: wait1_def kfree_eq)
qed

theorem wait_result_witness:
  "\<exists>km. wait1 0x80108000 two_zombies two_pages 0 3 = Ok (Returns 9, reap two_zombies 5, km) \<and>
     zombie_of two_zombies 3 5 \<and> zombie_of two_zombies 3 7 \<and>
     p_state (ptable (reap two_zombies 5) ! 5) = UNUSED \<and> p_state (ptable (reap two_zombies 5) ! 7) = ZOMBIE"
proof -
  obtain km where w: "wait1 0x80108000 two_zombies two_pages 0 3 = Ok (Returns 9, reap two_zombies 5, km)"
    using two_zombies_wait by blast
  have z: "zombie_of two_zombies 3 j \<longleftrightarrow> j = 5 \<or> j = 7" if "j < 64" for j
    using that by (auto simp: zombie_of_def two_zombies_def zero_psys_def zero_proc_def nth_list_update)
  have "length (ptable two_zombies) = NPROC" by (simp add: two_zombies_def zero_psys_def)
  moreover have "p_state (ptable two_zombies ! 7) = ZOMBIE" by (simp add: two_zombies_def zero_psys_def)
  ultimately show ?thesis
    using wait_result [OF _ _ w, THEN conjunct1, rule_format, of 5] w z [of 5] z [of 7] by (auto simp: z)
qed

text \<open>
  \<^verbatim>\<open>kill(0)\<close> succeeds on a free slot, whose identifier is 0, and \<^verbatim>\<open>allocproc\<close> does not clear
  the mark: the next process made there is born killed.
\<close>

lemma kill_zero_marks_next_process:
  "fst (kill (zero_psys n) 0) = 0 \<and>
   (\<exists>s. alloc_slot (snd (kill (zero_psys n) 0)) = (Some 0, s) \<and> p_killed (ptable s ! 0))"
  by (simp add: kill_def alloc_slot_def zero_psys_def find_idx_def numeral_eq_Suc zero_proc_def set_proc_def Let_def)

text \<open>\<^verbatim>\<open>sys_pscnt\<close> counts every entry that is in use, in whatever state.\<close>

lemma sys_pscnt_count: "sys_pscnt s = int (length (filter (\<lambda>p. p_state p \<noteq> UNUSED) (ptable s)))"
proof -
  have "foldl (\<lambda>n p. if p_state p \<noteq> UNUSED then n + 1 else n) k ps =
      k + int (length (filter (\<lambda>p. p_state p \<noteq> UNUSED) ps))" for k ps
    by (induction ps arbitrary: k) simp_all
  from this [of 0 "ptable s"] show ?thesis by (simp only: sys_pscnt_def add_0)
qed

end
