(* ===== verification/Xv6_Sleeplock.thy ===== *)
theory Xv6_Sleeplock
  imports Xv6_Proc
begin

text \<open>
  Sleep locks, \<^verbatim>\<open>src/xv6/sleeplock.c\<close>: locks that a process may hold while it sleeps.  Each
  routine runs under the spin lock inside the sleep lock, so it is one step; \<^verbatim>\<open>acquiresleep\<close> is
  blocked while the lock is held, and is tried again after every wakeup.  The first section
  collects what the kernel's other routines do to the set of sleeping processes; the pipes
  use it as well.
\<close>

section \<open>Who sleeps\<close>

definition on_cpu :: "psys \<Rightarrow> nat \<Rightarrow> nat \<Rightarrow> bool" where
  "on_cpu s c cur \<longleftrightarrow> c < length (cpu_proc s) \<and> cur < length (ptable s) \<and> cpu_proc s ! c = Some cur \<and>
     p_state (ptable s ! cur) = RUNNING"

definition asleep_on :: "chan \<Rightarrow> psys \<Rightarrow> nat \<Rightarrow> bool" where
  "asleep_on ch s i \<longleftrightarrow> i < length (ptable s) \<and> p_state (ptable s ! i) = SLEEPING \<and> p_chan (ptable s ! i) = Some ch"

lemma asleep_wakeup [simp]: "asleep_on ch (wakeup s ch') i \<longleftrightarrow> asleep_on ch s i \<and> ch \<noteq> ch'"
  by (auto simp: asleep_on_def wakeup_def wakeup1_def split: if_splits)

lemma asleep_set_proc:
  "asleep_on ch (set_proc s k p) i \<longleftrightarrow>
     (if i = k then i < length (ptable s) \<and> p_state p = SLEEPING \<and> p_chan p = Some ch else asleep_on ch s i)"
  by (auto simp: asleep_on_def set_proc_def)

lemma asleep_ptable: "ptable s = ptable s' \<Longrightarrow> asleep_on ch s i = asleep_on ch s' i"
  by (simp add: asleep_on_def)

lemma asleep_to_scheduler [simp]: "asleep_on ch (to_scheduler s c) i = asleep_on ch s i"
  by (rule asleep_ptable) (simp add: to_scheduler_def)

lemma asleep_sleep_enter:
  "asleep_on ch (sleep_enter s c cur ch') i \<longleftrightarrow>
     (if i = cur then i < length (ptable s) \<and> ch = ch' else asleep_on ch s i)"
  by (auto simp: sleep_enter_def asleep_set_proc)

lemma asleep_sleep_leave: "asleep_on ch (sleep_leave s cur) i \<Longrightarrow> asleep_on ch s i"
  by (auto simp: sleep_leave_def asleep_set_proc split: if_splits)

lemma asleep_scheduler1:
  assumes "scheduler1 s c = Ok s'" and "asleep_on ch s' i"
  shows "asleep_on ch s i"
proof -
  have eq: "asleep_on ch (s\<lparr>cpu_scan := f\<rparr>) i = asleep_on ch s i"
    "asleep_on ch (s\<lparr>cpu_scan := f, cpu_proc := g\<rparr>) i = asleep_on ch s i" for f g
    by (rule asleep_ptable, simp)+
  from assms show ?thesis
    by (auto simp: scheduler1_def switchuvm_def set_state_def Let_def asleep_set_proc eq split: if_splits)
qed

lemma asleep_yield: "asleep_on ch (yield s c cur) i \<Longrightarrow> asleep_on ch s i"
  by (auto simp: yield_def set_state_def asleep_set_proc split: if_splits)

lemma asleep_kill: "asleep_on ch (snd (kill s k)) i \<Longrightarrow> asleep_on ch s i"
  by (auto simp: kill_def Let_def asleep_set_proc split: if_splits option.splits)

lemmas asleep_others = asleep_scheduler1 asleep_yield asleep_kill


section \<open>The lock\<close>

record sleeplock =
  sl_locked :: bool
  sl_name :: string
  sl_pid :: int

definition initsleeplock :: "string \<Rightarrow> sleeplock" where
  "initsleeplock name = \<lparr>sl_locked = False, sl_name = name, sl_pid = 0\<rparr>"

text \<open>\<open>pid\<close> is the identifier of the calling process.\<close>

definition acquiresleep :: "int \<Rightarrow> sleeplock \<Rightarrow> sleeplock outcome" where
  "acquiresleep pid lk = (if sl_locked lk then Blocked else Ok (lk\<lparr>sl_locked := True, sl_pid := pid\<rparr>))"

text \<open>
  What \<^verbatim>\<open>releasesleep\<close> does to the lock, and the whole routine, which then wakes up the
  processes that sleep on the lock of address \<open>k\<close>.  The file system components, which have
  no process table in their state, use the first: for them a blocked process is one whose
  \<^verbatim>\<open>acquiresleep\<close> is to be tried again.
\<close>

definition releasesleep :: "sleeplock \<Rightarrow> sleeplock" where
  "releasesleep lk = lk\<lparr>sl_locked := False, sl_pid := 0\<rparr>"

definition releasesleep_wakeup :: "nat \<Rightarrow> psys \<Rightarrow> sleeplock \<Rightarrow> psys \<times> sleeplock" where
  "releasesleep_wakeup k s lk = (let lk1 = releasesleep lk in (wakeup s (ChSleepLock k), lk1))"

definition holdingsleep :: "int \<Rightarrow> sleeplock \<Rightarrow> bool" where
  "holdingsleep pid lk \<longleftrightarrow> sl_locked lk \<and> sl_pid lk = pid"

section \<open>Processes competing for a lock\<close>

text \<open>
  \<open>waits\<close> are the processes inside \<^verbatim>\<open>acquiresleep\<close>, \<open>holds\<close> those that returned from it and
  have not called \<^verbatim>\<open>releasesleep\<close>.  A process releases only a lock that it holds.
\<close>

record slsys =
  sl_tab :: psys
  sl_lock :: sleeplock
  waits :: "nat set"
  holds :: "nat set"

definition try_acquire :: "nat \<Rightarrow> nat \<Rightarrow> nat \<Rightarrow> psys \<Rightarrow> slsys \<Rightarrow> slsys" where
  "try_acquire k c cur s x =
     (case acquiresleep (p_pid (ptable s ! cur)) (sl_lock x) of
        Ok lk \<Rightarrow> x\<lparr>sl_tab := s, sl_lock := lk, waits := waits x - {cur}, holds := insert cur (holds x)\<rparr>
      | _ \<Rightarrow> x\<lparr>sl_tab := sleep_enter s c cur (ChSleepLock k), waits := insert cur (waits x)\<rparr>)"

inductive sl_step :: "nat \<Rightarrow> slsys \<Rightarrow> slsys \<Rightarrow> bool" for k where
  acquire: "\<lbrakk>on_cpu (sl_tab x) c cur; cur \<notin> waits x; cur \<notin> holds x\<rbrakk>
    \<Longrightarrow> sl_step k x (try_acquire k c cur (sl_tab x) x)"
| retry: "\<lbrakk>on_cpu (sl_tab x) c cur; cur \<in> waits x\<rbrakk>
    \<Longrightarrow> sl_step k x (try_acquire k c cur (sleep_leave (sl_tab x) cur) x)"
| rel: "\<lbrakk>on_cpu (sl_tab x) c cur; cur \<in> holds x; releasesleep_wakeup k (sl_tab x) (sl_lock x) = (s', lk)\<rbrakk>
    \<Longrightarrow> sl_step k x (x\<lparr>sl_tab := s', sl_lock := lk, holds := holds x - {cur}\<rparr>)"
| schedule: "scheduler1 (sl_tab x) c = Ok s' \<Longrightarrow> sl_step k x (x\<lparr>sl_tab := s'\<rparr>)"
| preempt: "on_cpu (sl_tab x) c cur \<Longrightarrow> sl_step k x (x\<lparr>sl_tab := yield (sl_tab x) c cur\<rparr>)"
| killed: "sl_step k x (x\<lparr>sl_tab := snd (kill (sl_tab x) n)\<rparr>)"
| sleep_other: "\<lbrakk>on_cpu (sl_tab x) c cur; ch \<noteq> ChSleepLock k\<rbrakk>
    \<Longrightarrow> sl_step k x (x\<lparr>sl_tab := sleep_enter (sl_tab x) c cur ch\<rparr>)"
| wakeup_other: "sl_step k x (x\<lparr>sl_tab := wakeup (sl_tab x) ch\<rparr>)"

definition sl_start :: "nat \<Rightarrow> slsys \<Rightarrow> bool" where
  "sl_start k x \<longleftrightarrow> \<not> sl_locked (sl_lock x) \<and> waits x = {} \<and> holds x = {} \<and>
     (\<forall>i. \<not> asleep_on (ChSleepLock k) (sl_tab x) i)"

inductive sl_reach :: "nat \<Rightarrow> slsys \<Rightarrow> bool" for k where
  start: "sl_start k x \<Longrightarrow> sl_reach k x"
| step: "sl_reach k x \<Longrightarrow> sl_step k x y \<Longrightarrow> sl_reach k y"

definition sl_inv :: "nat \<Rightarrow> slsys \<Rightarrow> bool" where
  "sl_inv k x \<longleftrightarrow> (if sl_locked (sl_lock x) then \<exists>h. holds x = {h} else holds x = {}) \<and>
     waits x \<inter> holds x = {} \<and>
     (\<forall>i. asleep_on (ChSleepLock k) (sl_tab x) i \<longrightarrow> sl_locked (sl_lock x) \<and> i \<in> waits x)"

lemma sl_inv_try:
  assumes "sl_inv k x" and s: "\<And>ch i. asleep_on ch s i \<Longrightarrow> asleep_on ch (sl_tab x) i" and "cur \<notin> holds x"
  shows "sl_inv k (try_acquire k c cur s x)"
  using assms(1,3)
  by (auto simp: sl_inv_def try_acquire_def acquiresleep_def asleep_sleep_enter split: if_splits dest: s)

lemma sl_inv_step:
  assumes "sl_inv k x" and "sl_step k x y"
  shows "sl_inv k y"
  using assms(2,1)
proof (cases rule: sl_step.cases)
  case acquire
  then show ?thesis using assms(1) by (auto intro: sl_inv_try)
next
  case (retry c cur)
  then have "cur \<notin> holds x" using assms(1) by (auto simp: sl_inv_def)
  with retry show ?thesis using assms(1) by (auto intro: sl_inv_try asleep_sleep_leave)
next
  case (rel c cur s' lk)
  then show ?thesis using assms(1)
    by (auto simp: sl_inv_def releasesleep_wakeup_def releasesleep_def split: if_splits)
next
  case (sleep_other c cur ch)
  then show ?thesis using assms(1) by (auto simp: sl_inv_def asleep_sleep_enter split: if_splits)
qed (use assms(1) in \<open>auto simp: sl_inv_def split: if_splits dest: asleep_others\<close>)

lemma sl_inv_reach: "sl_reach k x \<Longrightarrow> sl_inv k x"
proof (induction rule: sl_reach.induct)
  case (start x)
  then show ?case by (simp add: sl_inv_def sl_start_def)
qed (rule sl_inv_step)

text \<open>
  C16: whatever the scheduler does, at most one process is between \<^verbatim>\<open>acquiresleep\<close> and
  \<^verbatim>\<open>releasesleep\<close>, and a process sleeps for the lock only while another one holds it, so the
  wakeup of \<^verbatim>\<open>releasesleep\<close> is never missed: after it nobody sleeps for the lock.
\<close>

theorem sleeplock_exclusive:
  assumes "sl_reach k x"
  shows "(\<forall>h h'. h \<in> holds x \<and> h' \<in> holds x \<longrightarrow> h = h') \<and>
    (\<forall>i. asleep_on (ChSleepLock k) (sl_tab x) i \<longrightarrow> sl_locked (sl_lock x) \<and> (\<exists>h. h \<noteq> i \<and> holds x = {h})) \<and>
    (\<forall>i. \<not> asleep_on (ChSleepLock k) (fst (releasesleep_wakeup k (sl_tab x) (sl_lock x))) i)"
  using sl_inv_reach [OF assms] by (auto simp: sl_inv_def releasesleep_wakeup_def split: if_splits)

text \<open>Process 1 takes the lock, then process 2 goes to sleep for it.\<close>

definition sl_demo :: slsys where
  "sl_demo = \<lparr>sl_tab = (zero_psys 2)\<lparr>
       ptable := (ptable (zero_psys 2))[1 := zero_proc\<lparr>p_state := RUNNING, p_pid := 2\<rparr>,
                                        2 := zero_proc\<lparr>p_state := RUNNING, p_pid := 3\<rparr>],
       cpu_proc := [Some 1, Some 2]\<rparr>,
     sl_lock = initsleeplock ''inode'', waits = {}, holds = {}\<rparr>"

theorem sleeplock_exclusive_witness:
  "\<exists>x. sl_reach 5 x \<and> asleep_on (ChSleepLock 5) (sl_tab x) 2 \<and> sl_locked (sl_lock x) \<and>
     (\<exists>h. h \<noteq> 2 \<and> holds x = {h})"
proof -
  define x1 where "x1 = try_acquire 5 0 1 (sl_tab sl_demo) sl_demo"
  define x2 where "x2 = try_acquire 5 1 2 (sl_tab x1) x1"
  have "sl_start 5 sl_demo"
    by (auto simp: sl_start_def sl_demo_def initsleeplock_def asleep_on_def zero_psys_def zero_proc_def
        nth_list_update split: if_splits)
  moreover have "sl_step 5 sl_demo x1"
    unfolding x1_def by (rule sl_step.acquire) (simp_all add: sl_demo_def on_cpu_def zero_psys_def)
  moreover have "sl_step 5 x1 x2"
    unfolding x2_def
    by (rule sl_step.acquire)
      (simp_all add: x1_def try_acquire_def acquiresleep_def sl_demo_def initsleeplock_def on_cpu_def zero_psys_def)
  ultimately have r: "sl_reach 5 x2" by (meson sl_reach.intros)
  have a: "asleep_on (ChSleepLock 5) (sl_tab x2) 2"
    by (simp add: x2_def x1_def try_acquire_def acquiresleep_def sl_demo_def initsleeplock_def asleep_sleep_enter zero_psys_def)
  from sleeplock_exclusive [OF r] r a show ?thesis by blast
qed

end
