(* ===== verification/Xv6_Fifo.thy ===== *)
theory Xv6_Fifo
  imports Xv6_Prelude "HOL-Library.Sublist"
begin

text \<open>
  The contract of a bounded first-in first-out buffer, which the kernel implements as rings
  indexed by wrapping counters (pipes in \<^verbatim>\<open>src/xv6/pipe.c\<close>, console input in
  \<^verbatim>\<open>src/xv6/console.c\<close>).  The locale states what a client may rely on; its lemmas describe a
  whole run of insertions and removals.
\<close>

datatype 'a fifo_op = Put 'a | Get

primrec puts :: "'a fifo_op list \<Rightarrow> 'a list" where
  "puts [] = []"
| "puts (e # es) = (case e of Put x \<Rightarrow> x # puts es | Get \<Rightarrow> puts es)"

locale bounded_fifo =
  fixes ok :: "'s \<Rightarrow> bool"
    and contents :: "'s \<Rightarrow> 'a list"
    and cap :: nat
    and full :: "'s \<Rightarrow> bool"
    and empty :: "'s \<Rightarrow> bool"
    and put :: "'a \<Rightarrow> 's \<Rightarrow> 's"
    and get :: "'s \<Rightarrow> 'a \<times> 's"
  assumes bounded: "ok s \<Longrightarrow> length (contents s) \<le> cap"
    and full_iff: "ok s \<Longrightarrow> full s \<longleftrightarrow> length (contents s) = cap"
    and empty_iff: "ok s \<Longrightarrow> empty s \<longleftrightarrow> contents s = []"
    and put_ok: "ok s \<Longrightarrow> \<not> full s \<Longrightarrow> ok (put x s)"
    and put_contents: "ok s \<Longrightarrow> \<not> full s \<Longrightarrow> contents (put x s) = contents s @ [x]"
    and get_ok: "ok s \<Longrightarrow> \<not> empty s \<Longrightarrow> ok (snd (get s))"
    and get_contents: "ok s \<Longrightarrow> \<not> empty s \<Longrightarrow> contents s = fst (get s) # contents (snd (get s))"
begin

primrec run :: "'a fifo_op list \<Rightarrow> 's \<Rightarrow> 'a list \<times> 's" where
  "run [] s = ([], s)"
| "run (e # es) s = (case e of
       Put x \<Rightarrow> run es (if full s then s else put x s)
     | Get \<Rightarrow> if empty s then run es s
              else case run es (snd (get s)) of (ys, t) \<Rightarrow> (fst (get s) # ys, t))"

text \<open>What comes out, followed by what is left, is what was there followed by what was accepted.\<close>

lemma run_fifo:
  assumes "ok s" and "run es s = (ys, t)"
  shows "ok t \<and> (\<exists>zs. subseq zs (puts es) \<and> ys @ contents t = contents s @ zs)"
  using assms
proof (induction es arbitrary: s ys)
  case Nil
  then show ?case by auto
next
  case (Cons e es)
  show ?case
  proof (cases e)
    case (Put x)
    show ?thesis
    proof (cases "full s")
      case True
      with Cons Put show ?thesis by (fastforce intro: list_emb_Cons)
    next
      case False
      with Cons.prems Put have "ok t \<and> (\<exists>zs. subseq zs (puts es) \<and> ys @ contents t = contents (put x s) @ zs)"
        by (intro Cons.IH) (auto intro: put_ok)
      then obtain zs where zs: "ok t" "subseq zs (puts es)" "ys @ contents t = contents s @ x # zs"
        using put_contents [OF \<open>ok s\<close> False] by auto
      then show ?thesis using Put by (intro conjI exI [of _ "x # zs"]) auto
    qed
  next
    case Get
    show ?thesis
    proof (cases "empty s")
      case True
      with Cons Get show ?thesis by simp
    next
      case False
      with Cons.prems Get obtain ys' where ys': "run es (snd (get s)) = (ys', t)" "ys = fst (get s) # ys'"
        by (auto split: prod.splits)
      with Cons.IH [OF get_ok [OF \<open>ok s\<close> False] ys'(1)] get_contents [OF \<open>ok s\<close> False] Get
      show ?thesis by auto
    qed
  qed
qed

end

section \<open>Rings with wrapping counters\<close>

text \<open>
  A ring of \<open>N\<close> slots where \<open>N\<close> divides \<open>2 ^ 32\<close>: \<open>ring f N r n\<close> are the \<open>n\<close> entries from
  counter \<open>r\<close> on.
\<close>

definition slot :: "nat \<Rightarrow> uint \<Rightarrow> nat" where
  "slot N r = unat r mod N"

definition ring :: "(nat \<Rightarrow> 'a) \<Rightarrow> nat \<Rightarrow> uint \<Rightarrow> nat \<Rightarrow> 'a list" where
  "ring f N r n = map (\<lambda>k. f ((unat r + k) mod N)) [0 ..< n]"

lemma length_ring [simp]: "length (ring f N r n) = n"
  by (simp add: ring_def)

lemma ring_0 [simp]: "ring f N r 0 = []"
  by (simp add: ring_def)

lemma slot_less [simp]: "0 < N \<Longrightarrow> slot N r < N"
  by (simp add: slot_def)

lemma slot_add:
  assumes "N dvd 2 ^ 32"
  shows "slot N (r + w) = (unat r + unat w) mod N"
proof (cases "unat r + unat w < 2 ^ 32")
  case True
  then show ?thesis by (simp add: slot_def unat_uint_add)
next
  case False
  from assms obtain m where "2 ^ 32 = N * m" by blast
  then have "(unat r + unat w) = (unat r + unat w - 2 ^ 32) + N * m" using False by simp
  then have "(unat r + unat w) mod N = (unat r + unat w - 2 ^ 32) mod N" by (metis mod_mult_self2)
  then show ?thesis using False by (simp add: slot_def unat_uint_add)
qed

lemma ring_Suc_left:
  assumes "N dvd 2 ^ 32"
  shows "ring f N r (Suc n) = f (slot N r) # ring f N (r + 1) n"
proof -
  have "(unat r + Suc k) mod N = (unat (r + 1) + k) mod N" for k
  proof -
    have "(unat (r + 1) + k) mod N = (unat (r + 1) mod N + k) mod N" by (rule mod_add_left_eq [symmetric])
    also have "\<dots> = ((unat r + 1) mod N + k) mod N"
      using slot_add [OF assms, of r 1] by (simp add: slot_def)
    also have "\<dots> = (unat r + 1 + k) mod N" by (rule mod_add_left_eq)
    finally show ?thesis by simp
  qed
  then show ?thesis
    by (simp add: ring_def slot_def upt_conv_Cons map_Suc_upt [symmetric] del: upt_Suc)
qed

lemma ring_put:
  assumes "N dvd 2 ^ 32" and "n < N" and "w = r + of_nat n"
  shows "ring (f(slot N w := x)) N r (Suc n) = ring f N r n @ [x]"
proof -
  have N: "N \<le> 2 ^ 32" using assms(1) by (intro dvd_imp_le) auto
  have "unat (of_nat n :: uint) = n" using assms(2) N by (intro unat_of_nat_uint) simp
  then have w: "slot N w = (unat r + n) mod N"
    using slot_add [OF assms(1), of r "of_nat n"] assms(3) by simp
  have "(unat r + k) mod N \<noteq> (unat r + n) mod N" if "k < n" for k
  proof
    assume "(unat r + k) mod N = (unat r + n) mod N"
    then have "N dvd (unat r + n) - (unat r + k)" using that by (intro mod_eq_dvd_iff_nat [THEN iffD1]) auto
    then show False using that assms(2) by (auto dest: dvd_imp_le)
  qed
  then show ?thesis unfolding ring_def w by simp
qed

end
