(* ===== verification/Xv6_Pipe.thy ===== *)
theory Xv6_Pipe
  imports Xv6_Sleeplock Xv6_Fifo
begin

text \<open>
  Pipes, \<^verbatim>\<open>src/xv6/pipe.c\<close>.  A pipe is a ring of 512 bytes with two wrapping counters.  Reading
  and writing are cut where the source sleeps: each definition runs from the acquisition of
  the pipe's lock, or from the return of \<^verbatim>\<open>sleep\<close>, to the next \<^verbatim>\<open>sleep\<close> or to the return.  The
  step relation interleaves any number of readers and writers with the scheduler.
\<close>

section \<open>The pipe\<close>

record pipe =
  pp_data :: "nat \<Rightarrow> uchar"
  nread :: uint
  nwrite :: uint
  readopen :: bool
  writeopen :: bool

abbreviation (input) PIPESIZE :: nat where "PIPESIZE \<equiv> 512"

text \<open>What \<^verbatim>\<open>pipealloc\<close> makes of a fresh page, whose bytes \<open>d\<close> are arbitrary.\<close>

definition pipe_new :: "(nat \<Rightarrow> uchar) \<Rightarrow> pipe" where
  "pipe_new d = \<lparr>pp_data = d, nread = 0, nwrite = 0, readopen = True, writeopen = True\<rparr>"

definition pipe_full :: "pipe \<Rightarrow> bool" where
  "pipe_full p \<longleftrightarrow> nwrite p = nread p + 512"

definition pipe_empty :: "pipe \<Rightarrow> bool" where
  "pipe_empty p \<longleftrightarrow> nread p = nwrite p"

definition pipe_putc :: "uchar \<Rightarrow> pipe \<Rightarrow> pipe" where
  "pipe_putc x p = p\<lparr>pp_data := (pp_data p)(slot PIPESIZE (nwrite p) := x), nwrite := nwrite p + 1\<rparr>"

definition pipe_getc :: "pipe \<Rightarrow> uchar \<times> pipe" where
  "pipe_getc p = (pp_data p (slot PIPESIZE (nread p)), p\<lparr>nread := nread p + 1\<rparr>)"

text \<open>
  A call returns a value or sleeps.  \<open>cur\<close> runs on processor \<open>c\<close>; \<open>pid\<close> names the pipe.
  \<^verbatim>\<open>pipewrite\<close> also shows how far its loop got.
\<close>

datatype pcall = Return int | Asleep

function pipewrite ::
  "nat \<Rightarrow> nat \<Rightarrow> nat \<Rightarrow> (int \<Rightarrow> uchar) \<Rightarrow> int \<Rightarrow> psys \<Rightarrow> int \<Rightarrow> pipe \<Rightarrow> pcall \<times> int \<times> psys \<times> pipe" where
  "pipewrite pid c cur addr n s i p =
     (if i < n
      then if pipe_full p
           then if \<not> readopen p \<or> p_killed (ptable s ! cur) then (Return (- 1), i, s, p)
                else (Asleep, i, sleep_enter (wakeup s (ChPipeRead pid)) c cur (ChPipeWrite pid), p)
           else pipewrite pid c cur addr n s (i + 1) (pipe_putc (addr i) p)
      else (Return n, i, wakeup s (ChPipeRead pid), p))"
  by pat_completeness auto
termination by (relation "measure (\<lambda>(pid, c, cur, addr, n, s, i, p). nat (n - i))") auto

declare pipewrite.simps [simp del]

text \<open>The copying loop of \<^verbatim>\<open>piperead\<close>: the bytes stored at \<^verbatim>\<open>addr[i]\<close>, \<^verbatim>\<open>addr[i+1]\<close>, ....\<close>

function piperead_copy :: "int \<Rightarrow> int \<Rightarrow> pipe \<Rightarrow> uchar list \<times> pipe" where
  "piperead_copy n i p =
     (if i < n \<and> \<not> pipe_empty p
      then case pipe_getc p of (x, p1) \<Rightarrow>
             case piperead_copy n (i + 1) p1 of (xs, p2) \<Rightarrow> (x # xs, p2)
      else ([], p))"
  by pat_completeness auto
termination by (relation "measure (\<lambda>(n, i, p). nat (n - i))") auto

declare piperead_copy.simps [simp del]

definition piperead ::
  "nat \<Rightarrow> nat \<Rightarrow> nat \<Rightarrow> int \<Rightarrow> psys \<Rightarrow> pipe \<Rightarrow> pcall \<times> uchar list \<times> psys \<times> pipe" where
  "piperead pid c cur n s p =
     (if pipe_empty p \<and> writeopen p
      then if p_killed (ptable s ! cur) then (Return (- 1), [], s, p)
           else (Asleep, [], sleep_enter s c cur (ChPipeRead pid), p)
      else case piperead_copy n 0 p of (xs, p1) \<Rightarrow>
             (Return (int (length xs)), xs, wakeup s (ChPipeWrite pid), p1))"

definition pipe_shut :: "nat \<Rightarrow> bool \<Rightarrow> psys \<Rightarrow> pipe \<Rightarrow> psys \<times> pipe" where
  "pipe_shut pid writable s p =
     (if writable then (wakeup s (ChPipeRead pid), p\<lparr>writeopen := False\<rparr>)
      else (wakeup s (ChPipeWrite pid), p\<lparr>readopen := False\<rparr>))"

text \<open>\<^verbatim>\<open>pipeclose\<close> gives the page back when both ends are closed; the pipe is gone then.\<close>

definition pipeclose ::
  "uint \<Rightarrow> uint \<Rightarrow> bool \<Rightarrow> psys \<Rightarrow> kmem \<Rightarrow> pipe \<Rightarrow> (psys \<times> kmem \<times> pipe option) outcome" where
  "pipeclose kend pa writable s km p =
     (case pipe_shut (unat pa) writable s p of (s1, p1) \<Rightarrow>
        if \<not> readopen p1 \<and> \<not> writeopen p1
        then obind (kfree kend km pa) (\<lambda>km1. Ok (s1, km1, None))
        else Ok (s1, km, Some p1))"

section \<open>Readers and writers together\<close>

text \<open>
  \<open>inw\<close> and \<open>inr\<close> say which processes are inside \<^verbatim>\<open>pipewrite\<close> and \<^verbatim>\<open>piperead\<close>, with their
  arguments.  Three components only record: \<open>wrote\<close> and \<open>got\<close> are the bytes stored and
  fetched so far, \<open>dropped\<close> says that a \<^verbatim>\<open>pipewrite\<close> returned -1 after storing bytes.
\<close>

record pipesys =
  ptab :: psys
  pipe_of :: pipe
  inw :: "nat \<Rightarrow> ((int \<Rightarrow> uchar) \<times> int \<times> int) option"
  inr :: "nat \<Rightarrow> int option"
  wrote :: "uchar list"
  got :: "uchar list"
  dropped :: bool

definition do_write :: "nat \<Rightarrow> nat \<Rightarrow> nat \<Rightarrow> (int \<Rightarrow> uchar) \<Rightarrow> int \<Rightarrow> int \<Rightarrow> psys \<Rightarrow> pipesys \<Rightarrow> pipesys" where
  "do_write pid c cur addr n i s x =
     (case pipewrite pid c cur addr n s i (pipe_of x) of (r, i', s', p') \<Rightarrow>
        x\<lparr>ptab := s', pipe_of := p',
          inw := (inw x)(cur := if r = Asleep then Some (addr, n, i') else None),
          wrote := wrote x @ map addr [i .. i' - 1],
          dropped := dropped x \<or> (r = Return (- 1) \<and> i < i')\<rparr>)"

definition do_read :: "nat \<Rightarrow> nat \<Rightarrow> nat \<Rightarrow> int \<Rightarrow> psys \<Rightarrow> pipesys \<Rightarrow> pipesys" where
  "do_read pid c cur n s x =
     (case piperead pid c cur n s (pipe_of x) of (r, xs, s', p') \<Rightarrow>
        x\<lparr>ptab := s', pipe_of := p',
          inr := (inr x)(cur := if r = Asleep then Some n else None),
          got := got x @ xs\<rparr>)"

inductive pipe_step :: "nat \<Rightarrow> pipesys \<Rightarrow> pipesys \<Rightarrow> bool" for pid where
  pwrite: "\<lbrakk>on_cpu (ptab x) c cur; inw x cur = None; inr x cur = None; 0 \<le> n\<rbrakk>
    \<Longrightarrow> pipe_step pid x (do_write pid c cur addr n 0 (ptab x) x)"
| pwrite_resume: "\<lbrakk>on_cpu (ptab x) c cur; inw x cur = Some (addr, n, i)\<rbrakk>
    \<Longrightarrow> pipe_step pid x (do_write pid c cur addr n i (sleep_leave (ptab x) cur) x)"
| pread: "\<lbrakk>on_cpu (ptab x) c cur; inw x cur = None; inr x cur = None\<rbrakk>
    \<Longrightarrow> pipe_step pid x (do_read pid c cur n (ptab x) x)"
| pread_resume: "\<lbrakk>on_cpu (ptab x) c cur; inr x cur = Some n\<rbrakk>
    \<Longrightarrow> pipe_step pid x (do_read pid c cur n (sleep_leave (ptab x) cur) x)"
| shut: "pipe_shut pid w (ptab x) (pipe_of x) = (s', p') \<Longrightarrow> pipe_step pid x (x\<lparr>ptab := s', pipe_of := p'\<rparr>)"
| schedule: "scheduler1 (ptab x) c = Ok s' \<Longrightarrow> pipe_step pid x (x\<lparr>ptab := s'\<rparr>)"
| preempt: "on_cpu (ptab x) c cur \<Longrightarrow> pipe_step pid x (x\<lparr>ptab := yield (ptab x) c cur\<rparr>)"
| killed: "pipe_step pid x (x\<lparr>ptab := snd (kill (ptab x) k)\<rparr>)"
| sleep_other: "\<lbrakk>on_cpu (ptab x) c cur; ch \<noteq> ChPipeRead pid; ch \<noteq> ChPipeWrite pid\<rbrakk>
    \<Longrightarrow> pipe_step pid x (x\<lparr>ptab := sleep_enter (ptab x) c cur ch\<rparr>)"
| wakeup_other: "pipe_step pid x (x\<lparr>ptab := wakeup (ptab x) ch\<rparr>)"

definition pipe_start :: "nat \<Rightarrow> pipesys \<Rightarrow> bool" where
  "pipe_start pid x \<longleftrightarrow> pipe_of x = pipe_new (pp_data (pipe_of x)) \<and> inw x = (\<lambda>_. None) \<and> inr x = (\<lambda>_. None) \<and>
     wrote x = [] \<and> got x = [] \<and> \<not> dropped x \<and>
     (\<forall>i. \<not> asleep_on (ChPipeRead pid) (ptab x) i \<and> \<not> asleep_on (ChPipeWrite pid) (ptab x) i)"

inductive pipe_reach :: "nat \<Rightarrow> pipesys \<Rightarrow> bool" for pid where
  start: "pipe_start pid x \<Longrightarrow> pipe_reach pid x"
| step: "pipe_reach pid x \<Longrightarrow> pipe_step pid x y \<Longrightarrow> pipe_reach pid y"

section \<open>The ring is a queue\<close>

definition pipe_ok :: "pipe \<Rightarrow> bool" where
  "pipe_ok p \<longleftrightarrow> unat (nwrite p - nread p) \<le> PIPESIZE"

definition pipe_contents :: "pipe \<Rightarrow> uchar list" where
  "pipe_contents p = ring (pp_data p) PIPESIZE (nread p) (unat (nwrite p - nread p))"

lemma pipe_dvd: "PIPESIZE dvd 2 ^ 32" by simp

lemma pipe_full_nat: "pipe_full p \<longleftrightarrow> unat (nwrite p - nread p) = PIPESIZE"
proof -
  have "pipe_full p \<longleftrightarrow> nwrite p - nread p = 512" by (auto simp: pipe_full_def algebra_simps)
  also have "\<dots> \<longleftrightarrow> unat (nwrite p - nread p) = unat (512 :: uint)" by (rule word_unat_eq_iff)
  finally show ?thesis by simp
qed

lemma pipe_empty_nat: "pipe_empty p \<longleftrightarrow> unat (nwrite p - nread p) = 0"
  by (auto simp: pipe_empty_def unat_eq_0)

lemma pipe_count_put:
  "pipe_ok p \<Longrightarrow> \<not> pipe_full p \<Longrightarrow> unat (nwrite p + 1 - nread p) = Suc (unat (nwrite p - nread p))"
  using unat_uint_add [of "nwrite p - nread p" 1]
  by (simp add: pipe_ok_def pipe_full_nat algebra_simps)

lemma pipe_count_get:
  "\<not> pipe_empty p \<Longrightarrow> unat (nwrite p - nread p) = Suc (unat (nwrite p - (nread p + 1)))"
  using unat_uint_sub [of "nwrite p - nread p" 1]
  by (simp add: pipe_empty_nat algebra_simps Suc_le_eq)

interpretation pq: bounded_fifo pipe_ok pipe_contents PIPESIZE pipe_full pipe_empty pipe_putc pipe_getc
proof
  fix p :: pipe and x
  assume ok: "pipe_ok p"
  show "length (pipe_contents p) \<le> PIPESIZE" using ok by (simp add: pipe_ok_def pipe_contents_def)
  show "pipe_full p \<longleftrightarrow> length (pipe_contents p) = PIPESIZE"
    by (simp add: pipe_full_nat pipe_contents_def)
  show "pipe_empty p \<longleftrightarrow> pipe_contents p = []"
    by (simp add: pipe_empty_nat pipe_contents_def flip: length_0_conv)
  show "pipe_ok (pipe_putc x p)" if "\<not> pipe_full p"
    using ok that pipe_count_put [OF ok that] by (simp add: pipe_ok_def pipe_full_nat pipe_putc_def)
  show "pipe_contents (pipe_putc x p) = pipe_contents p @ [x]" if "\<not> pipe_full p"
    using ok that pipe_count_put [OF ok that]
      ring_put [OF pipe_dvd, of "unat (nwrite p - nread p)" "nwrite p" "nread p" "pp_data p" x]
    by (simp add: pipe_ok_def pipe_full_nat pipe_putc_def pipe_contents_def)
  show "pipe_ok (snd (pipe_getc p))" if "\<not> pipe_empty p"
    using ok pipe_count_get [OF that] by (simp add: pipe_ok_def pipe_getc_def)
  show "pipe_contents p = fst (pipe_getc p) # pipe_contents (snd (pipe_getc p))" if "\<not> pipe_empty p"
    using pipe_count_get [OF that] ring_Suc_left [OF pipe_dvd, of "pp_data p" "nread p"]
    by (simp add: pipe_getc_def pipe_contents_def)
qed

section \<open>What one call does\<close>

lemma pipewrite_spec:
  assumes "pipewrite pid c cur addr n s i p = (r, i', s', p')" and "pipe_ok p" and "i \<le> n"
  shows "i \<le> i'" and "pipe_ok p'" and "readopen p' = readopen p" and "writeopen p' = writeopen p"
    and "pipe_contents p' = pipe_contents p @ map addr [i .. i' - 1]"
    and "r = Return (- 1) \<and> s' = s \<and> i' < n \<and> pipe_full p' \<and> (\<not> readopen p \<or> p_killed (ptable s ! cur)) \<or>
      r = Asleep \<and> s' = sleep_enter (wakeup s (ChPipeRead pid)) c cur (ChPipeWrite pid) \<and> i' < n \<and>
        pipe_full p' \<and> readopen p \<and> \<not> p_killed (ptable s ! cur) \<or>
      r = Return n \<and> i' = n \<and> s' = wakeup s (ChPipeRead pid)"
proof -
  have "i \<le> i' \<and> pipe_ok p' \<and> readopen p' = readopen p \<and> writeopen p' = writeopen p \<and>
    pipe_contents p' = pipe_contents p @ map addr [i .. i' - 1] \<and>
    (r = Return (- 1) \<and> s' = s \<and> i' < n \<and> pipe_full p' \<and> (\<not> readopen p \<or> p_killed (ptable s ! cur)) \<or>
      r = Asleep \<and> s' = sleep_enter (wakeup s (ChPipeRead pid)) c cur (ChPipeWrite pid) \<and> i' < n \<and>
        pipe_full p' \<and> readopen p \<and> \<not> p_killed (ptable s ! cur) \<or>
      r = Return n \<and> i' = n \<and> s' = wakeup s (ChPipeRead pid))"
    using assms
  proof (induction pid c cur addr n s i p rule: pipewrite.induct)
    case (1 pid c cur addr n s i p)
    show ?case
    proof (cases "i < n \<and> \<not> pipe_full p")
      case True
      have "map addr [i .. i' - 1] = addr i # map addr [i + 1 .. i' - 1]" if "i + 1 \<le> i'"
        using that upto_rec1 [of i "i' - 1"] by simp
      moreover have rec: "pipewrite pid c cur addr n s (i + 1) (pipe_putc (addr i) p) = (r, i', s', p')"
        using "1.prems"(1) True by (subst (asm) pipewrite.simps) simp
      ultimately show ?thesis
        using "1.IH" [OF _ _ rec] True "1.prems" pq.put_ok [of p "addr i"] pq.put_contents [of p "addr i"]
        by (auto simp: pipe_putc_def)
    next
      case False
      with "1.prems" show ?thesis by (subst (asm) pipewrite.simps) (auto split: if_splits)
    qed
  qed
  then show "i \<le> i'" "pipe_ok p'" "readopen p' = readopen p" "writeopen p' = writeopen p"
    "pipe_contents p' = pipe_contents p @ map addr [i .. i' - 1]"
    "r = Return (- 1) \<and> s' = s \<and> i' < n \<and> pipe_full p' \<and> (\<not> readopen p \<or> p_killed (ptable s ! cur)) \<or>
      r = Asleep \<and> s' = sleep_enter (wakeup s (ChPipeRead pid)) c cur (ChPipeWrite pid) \<and> i' < n \<and>
        pipe_full p' \<and> readopen p \<and> \<not> p_killed (ptable s ! cur) \<or>
      r = Return n \<and> i' = n \<and> s' = wakeup s (ChPipeRead pid)"
    by simp_all
qed

lemma piperead_copy_spec:
  assumes "piperead_copy n i p = (xs, p')" and "pipe_ok p"
  shows "pipe_ok p' \<and> readopen p' = readopen p \<and> writeopen p' = writeopen p \<and>
    pipe_contents p = xs @ pipe_contents p' \<and> length xs = min (nat (n - i)) (length (pipe_contents p))"
  using assms
proof (induction n i p arbitrary: xs rule: piperead_copy.induct)
  case (1 n i p)
  show ?case
  proof (cases "i < n \<and> \<not> pipe_empty p")
    case True
    then obtain ys where ys: "piperead_copy n (i + 1) (snd (pipe_getc p)) = (ys, p')" "xs = fst (pipe_getc p) # ys"
      using "1.prems"(1) by (subst (asm) piperead_copy.simps) (auto split: prod.splits)
    have fl: "readopen (snd (pipe_getc p)) = readopen p" "writeopen (snd (pipe_getc p)) = writeopen p"
      by (simp_all add: pipe_getc_def)
    have okg: "pipe_ok (snd (pipe_getc p))" using pq.get_ok "1.prems"(2) True by blast
    have IH: "pipe_ok p' \<and> readopen p' = readopen (snd (pipe_getc p)) \<and> writeopen p' = writeopen (snd (pipe_getc p)) \<and>
      pipe_contents (snd (pipe_getc p)) = ys @ pipe_contents p' \<and>
      length ys = min (nat (n - (i + 1))) (length (pipe_contents (snd (pipe_getc p))))"
      by (rule "1.IH" [OF True _ ys(1) okg, of "fst (pipe_getc p)"]) simp
    have "pipe_contents p = fst (pipe_getc p) # pipe_contents (snd (pipe_getc p))"
      using pq.get_contents "1.prems"(2) True by blast
    moreover have "nat (n - i) = Suc (nat (n - (i + 1)))" using True by linarith
    ultimately show ?thesis using IH by (simp only: ys(2) fl list.size append_Cons min_Suc_Suc add_0_right plus_1_eq_Suc add_Suc_right)
  next
    case False
    with "1.prems" pq.empty_iff [of p] show ?thesis by (subst (asm) piperead_copy.simps) auto
  qed
qed

section \<open>Invariants of all interleavings\<close>

definition pipe_inv :: "nat \<Rightarrow> pipesys \<Rightarrow> bool" where
  "pipe_inv pid x \<longleftrightarrow> pipe_ok (pipe_of x) \<and> wrote x = got x @ pipe_contents (pipe_of x) \<and>
     (\<forall>cur addr n i. inw x cur = Some (addr, n, i) \<longrightarrow> i \<le> n) \<and>
     (\<forall>i. asleep_on (ChPipeWrite pid) (ptab x) i \<longrightarrow> pipe_full (pipe_of x) \<and> readopen (pipe_of x)) \<and>
     (\<forall>i. asleep_on (ChPipeRead pid) (ptab x) i \<longrightarrow> dropped x \<or> pipe_empty (pipe_of x) \<and> writeopen (pipe_of x))"

lemma pipe_inv_write:
  assumes inv: "pipe_inv pid x" and "i \<le> n"
    and s: "\<And>ch k. asleep_on ch s k \<Longrightarrow> asleep_on ch (ptab x) k"
  shows "pipe_inv pid (do_write pid c cur addr n i s x)"
proof -
  obtain r i' s' p' where e: "pipewrite pid c cur addr n s i (pipe_of x) = (r, i', s', p')"
    by (metis prod_cases4)
  have ok: "pipe_ok (pipe_of x)" using inv by (simp add: pipe_inv_def)
  note sp = pipewrite_spec [OF e ok \<open>i \<le> n\<close>]
  have full: "pipe_full p' \<and> i' = i" if "pipe_full (pipe_of x)"
    using e that \<open>i \<le> n\<close> sp(6) by (subst (asm) pipewrite.simps) (auto split: if_splits)
  have iw: "pipe_full (pipe_of x) \<and> readopen (pipe_of x)" if "asleep_on (ChPipeWrite pid) s k" for k
    using inv s [OF that] unfolding pipe_inv_def by blast
  have ir: "dropped x \<or> pipe_empty (pipe_of x) \<and> writeopen (pipe_of x)" if "asleep_on (ChPipeRead pid) s k" for k
    using inv s [OF that] unfolding pipe_inv_def by blast
  consider (err) "s' = s" "r = Return (- 1)" | (wake) "s' = wakeup s (ChPipeRead pid)"
    | (sleep) "s' = sleep_enter (wakeup s (ChPipeRead pid)) c cur (ChPipeWrite pid)" "pipe_full p'" "readopen p'"
    using sp(3,6) by blast
  note how = this
  have ww: "pipe_full p' \<and> readopen p'" if a: "asleep_on (ChPipeWrite pid) s' k" for k
    by (rule how) (use a iw full sp(3) in auto)
  have same: "p' = pipe_of x" if "i' = i"
  proof (cases "i < n \<and> \<not> pipe_full (pipe_of x)")
    case True
    with e have "pipewrite pid c cur addr n s (i + 1) (pipe_putc (addr i) (pipe_of x)) = (r, i', s', p')"
      by (subst (asm) pipewrite.simps) simp
    from pipewrite_spec(1) [OF this] True ok that show ?thesis by (auto intro: pq.put_ok)
  next
    case False
    with e show ?thesis by (subst (asm) pipewrite.simps) (auto split: if_splits)
  qed
  have rr: "(dropped x \<or> r = Return (- 1) \<and> i < i') \<or> pipe_empty p' \<and> writeopen p'"
    if a: "asleep_on (ChPipeRead pid) s' k" for k
  proof (rule how)
    assume st: "s' = s" "r = Return (- 1)"
    with a ir same sp(1,4) show ?thesis by (cases "i' = i") auto
  qed (use a in \<open>auto simp: asleep_sleep_enter split: if_splits\<close>)
  have "i' \<le> n" using sp(6) by auto
  have inw: "\<forall>cur addr n i. inw x cur = Some (addr, n, i) \<longrightarrow> i \<le> n"
    and wg: "wrote x = got x @ pipe_contents (pipe_of x)" using inv by (auto simp: pipe_inv_def)
  show ?thesis
    unfolding pipe_inv_def do_write_def e using inw wg \<open>i' \<le> n\<close> sp(2,5) ww rr by simp
qed

lemma pipe_inv_read:
  assumes inv: "pipe_inv pid x" and s: "\<And>ch k. asleep_on ch s k \<Longrightarrow> asleep_on ch (ptab x) k"
  shows "pipe_inv pid (do_read pid c cur n s x)"
proof (cases "pipe_empty (pipe_of x) \<and> writeopen (pipe_of x)")
  case True
  with inv show ?thesis
    by (auto simp: pipe_inv_def do_read_def piperead_def asleep_sleep_enter split: if_splits dest: s)
next
  case False
  obtain xs p' where e: "piperead_copy n 0 (pipe_of x) = (xs, p')" by (cases "piperead_copy n 0 (pipe_of x)")
  with inv have sp: "pipe_ok p'" "readopen p' = readopen (pipe_of x)" "writeopen p' = writeopen (pipe_of x)"
    "pipe_contents (pipe_of x) = xs @ pipe_contents p'"
    using piperead_copy_spec [OF e] by (auto simp: pipe_inv_def)
  show ?thesis using inv sp False e by (auto simp: pipe_inv_def do_read_def piperead_def dest: s)
qed

lemma pipe_flags:
  "pipe_ok (p\<lparr>readopen := b\<rparr>) = pipe_ok p" "pipe_ok (p\<lparr>writeopen := b\<rparr>) = pipe_ok p"
  "pipe_contents (p\<lparr>readopen := b\<rparr>) = pipe_contents p" "pipe_contents (p\<lparr>writeopen := b\<rparr>) = pipe_contents p"
  "pipe_full (p\<lparr>readopen := b\<rparr>) = pipe_full p" "pipe_full (p\<lparr>writeopen := b\<rparr>) = pipe_full p"
  "pipe_empty (p\<lparr>readopen := b\<rparr>) = pipe_empty p" "pipe_empty (p\<lparr>writeopen := b\<rparr>) = pipe_empty p"
  by (simp_all add: pipe_ok_def pipe_contents_def pipe_full_def pipe_empty_def)

lemma pipe_inv_step:
  assumes "pipe_inv pid x" and "pipe_step pid x y"
  shows "pipe_inv pid y"
  using assms(2,1)
proof (cases rule: pipe_step.cases)
  case pwrite
  then show ?thesis using assms(1) by (auto intro: pipe_inv_write)
next
  case (pwrite_resume c cur addr n i)
  then have "i \<le> n" using assms(1) by (auto simp: pipe_inv_def)
  then show ?thesis using pwrite_resume assms(1) by (auto intro: pipe_inv_write asleep_sleep_leave)
next
  case pread
  then show ?thesis using assms(1) by (auto intro: pipe_inv_read)
next
  case pread_resume
  then show ?thesis using assms(1) by (auto intro: pipe_inv_read asleep_sleep_leave)
next
  case (shut w s' p')
  then show ?thesis using assms(1) by (cases w) (auto simp: pipe_inv_def pipe_shut_def pipe_flags)
next
  case (sleep_other c cur ch)
  then show ?thesis using assms(1) by (auto simp: pipe_inv_def asleep_sleep_enter split: if_splits)
qed (use assms(1) in \<open>auto simp: pipe_inv_def dest: asleep_others\<close>)

lemma pipe_inv_reach: "pipe_reach pid x \<Longrightarrow> pipe_inv pid x"
proof (induction rule: pipe_reach.induct)
  case (start x)
  then have "pipe_contents (pipe_of x) = []" "pipe_ok (pipe_of x)"
    by (metis (lifting) pipe_start_def pipe_contents_def pipe_new_def pipe.select_convs(2,3) diff_self ring_0 unsigned_0,
      metis (lifting) pipe_start_def pipe_ok_def pipe_new_def pipe.select_convs(2,3) diff_self unsigned_0 le0)
  with start show ?case by (simp add: pipe_inv_def pipe_start_def)
qed (rule pipe_inv_step)


section \<open>Properties\<close>

text \<open>
  C12: in every interleaving of readers, writers, closes and the scheduler, the bytes read so
  far followed by the bytes in the ring are exactly the bytes written so far, and the ring
  never holds more than 512, although its counters wrap around.
\<close>

theorem pipe_fifo:
  assumes "pipe_reach pid x"
  shows "wrote x = got x @ pipe_contents (pipe_of x) \<and> length (pipe_contents (pipe_of x)) \<le> PIPESIZE"
  using pipe_inv_reach [OF assms] pq.bounded by (auto simp: pipe_inv_def)

text \<open>
  C23: no wakeup is lost.  A process asleep in \<^verbatim>\<open>pipewrite\<close> finds the pipe full with its read
  end open, and, as long as no \<^verbatim>\<open>pipewrite\<close> has failed half-way, a process asleep in
  \<^verbatim>\<open>piperead\<close> finds it empty with its write end open.
\<close>

theorem pipe_no_lost_wakeup:
  assumes "pipe_reach pid x"
  shows "(\<forall>i. asleep_on (ChPipeWrite pid) (ptab x) i \<longrightarrow> pipe_full (pipe_of x) \<and> readopen (pipe_of x)) \<and>
    (\<not> dropped x \<longrightarrow>
      (\<forall>i. asleep_on (ChPipeRead pid) (ptab x) i \<longrightarrow> pipe_empty (pipe_of x) \<and> writeopen (pipe_of x)))"
  using pipe_inv_reach [OF assms] by (auto simp: pipe_inv_def)

section \<open>A reader left asleep\<close>

text \<open>Processes 1 and 2 run on two processors and share the empty pipe 7.\<close>

definition pipe_demo :: pipesys where
  "pipe_demo = \<lparr>ptab = (zero_psys 2)\<lparr>
       ptable := (ptable (zero_psys 2))[1 := zero_proc\<lparr>p_state := RUNNING, p_pid := 2\<rparr>,
                                        2 := zero_proc\<lparr>p_state := RUNNING, p_pid := 3\<rparr>],
       cpu_proc := [Some 1, Some 2]\<rparr>,
     pipe_of = pipe_new (\<lambda>_. 1), inw = (\<lambda>_. None), inr = (\<lambda>_. None), wrote = [], got = [], dropped = False\<rparr>"

lemma pipe_demo_start: "pipe_start 7 pipe_demo"
  by (auto simp: pipe_start_def pipe_demo_def pipe_new_def asleep_on_def zero_psys_def zero_proc_def
      nth_list_update split: if_splits)

definition pipe_demo_asleep :: pipesys where
  "pipe_demo_asleep = do_read 7 0 1 10 (ptab pipe_demo) pipe_demo"

lemma pipe_demo_asleep_reach:
  "pipe_reach 7 pipe_demo_asleep" "asleep_on (ChPipeRead 7) (ptab pipe_demo_asleep) 1"
  "pipe_of pipe_demo_asleep = pipe_new (\<lambda>_. 1)" "inw pipe_demo_asleep = (\<lambda>_. None)"
  "on_cpu (ptab pipe_demo_asleep) 1 2" "p_pid (ptable (ptab pipe_demo_asleep) ! 0) = 0"
  "p_pid (ptable (ptab pipe_demo_asleep) ! 1) = 2" "p_pid (ptable (ptab pipe_demo_asleep) ! 2) = 3"
  "length (ptable (ptab pipe_demo_asleep)) = NPROC"
proof -
  have "pipe_step 7 pipe_demo pipe_demo_asleep"
    unfolding pipe_demo_asleep_def
    by (rule pipe_step.pread) (simp_all add: pipe_demo_def on_cpu_def zero_psys_def)
  with pipe_demo_start show "pipe_reach 7 pipe_demo_asleep" by (meson pipe_reach.intros)
qed (simp_all add: pipe_demo_asleep_def do_read_def piperead_def pipe_demo_def pipe_new_def pipe_empty_def
    asleep_on_def sleep_enter_def to_scheduler_def set_proc_def zero_psys_def zero_proc_def on_cpu_def)

text \<open>The reader sleeps in \<^verbatim>\<open>piperead\<close>, then the other process is killed, before it writes.\<close>

definition pipe_demo_killed :: pipesys where
  "pipe_demo_killed = pipe_demo_asleep\<lparr>ptab := snd (kill (ptab pipe_demo_asleep) 3)\<rparr>"

lemma pipe_demo_killed_reach:
  "pipe_reach 7 pipe_demo_killed" "on_cpu (ptab pipe_demo_killed) 1 2" "p_killed (ptable (ptab pipe_demo_killed) ! 2)"
  "pipe_of pipe_demo_killed = pipe_new (\<lambda>_. 1)" "inw pipe_demo_killed = (\<lambda>_. None)" "inr pipe_demo_killed 2 = None"
  "asleep_on (ChPipeRead 7) (ptab pipe_demo_killed) 1"
proof -
  let ?x = pipe_demo_asleep
  have f: "find_idx (\<lambda>p. p_pid p = 3) (ptable (ptab ?x)) = Some 2"
    using pipe_demo_asleep_reach by (auto simp: find_idx_Some_iff less_2_cases_iff numeral_2_eq_2 less_Suc_eq)
  have run: "p_state (ptable (ptab ?x) ! 2) = RUNNING"
    using pipe_demo_asleep_reach(5) by (simp add: on_cpu_def)
  show "pipe_reach 7 pipe_demo_killed"
    using pipe_demo_asleep_reach(1) pipe_step.killed [of 7 ?x 3] unfolding pipe_demo_killed_def by (rule pipe_reach.step)
  show "on_cpu (ptab pipe_demo_killed) 1 2" "p_killed (ptable (ptab pipe_demo_killed) ! 2)"
    "pipe_of pipe_demo_killed = pipe_new (\<lambda>_. 1)" "inw pipe_demo_killed = (\<lambda>_. None)"
    "asleep_on (ChPipeRead 7) (ptab pipe_demo_killed) 1"
    using pipe_demo_asleep_reach(2-5,9) f run
    by (simp_all add: pipe_demo_killed_def kill_def on_cpu_def set_proc_def asleep_on_def Let_def)
  show "inr pipe_demo_killed 2 = None"
    by (simp add: pipe_demo_killed_def pipe_demo_asleep_def do_read_def piperead_def pipe_demo_def
        pipe_new_def pipe_empty_def zero_psys_def zero_proc_def)
qed

text \<open>A \<^verbatim>\<open>pipewrite\<close> by a killed process, of more than fits, fills the pipe and returns -1 without a wakeup.\<close>

lemma pipewrite_killed:
  assumes ok: "pipe_ok p" and "p_killed (ptable s ! cur)" and "PIPESIZE < length (pipe_contents p) + nat n"
  shows "\<exists>p'. pipewrite pid c cur addr n s 0 p = (Return (- 1), int PIPESIZE - int (length (pipe_contents p)), s, p') \<and>
    pipe_ok p' \<and> writeopen p' = writeopen p \<and>
    pipe_contents p' = pipe_contents p @ map addr [0 .. int PIPESIZE - int (length (pipe_contents p)) - 1] \<and> pipe_full p'"
proof -
  obtain t i p' s' where e: "pipewrite pid c cur addr n s 0 p = (t, i, s', p')" by (metis prod_cases4)
  have "length (pipe_contents p) \<le> 512" by (rule pq.bounded [OF ok])
  then have n: "0 \<le> n" using assms(3) by simp
  note sp = pipewrite_spec [OF e ok n]
  have "length (pipe_contents p') \<le> 512" by (rule pq.bounded [OF sp(2)])
  then have "i \<noteq> n" using sp(5) assms(3) by auto
  then have r: "t = Return (- 1)" "s' = s" "pipe_full p'" using sp(6) assms(2) by auto
  have "length (pipe_contents p') = 512" using pq.full_iff [OF sp(2)] r(3) by simp
  then have "i = 512 - int (length (pipe_contents p))" using sp(1,5) by simp
  with e r sp(2,4,5) show ?thesis by simp
qed

text \<open>
  C36: a pipe can hold data beside a sleeping reader.  There is a run in which a process
  sleeps in \<^verbatim>\<open>piperead\<close> on the empty pipe, a killed process then writes 600 bytes, which fills
  the pipe with 512 bytes and returns -1 without a wakeup, and after that the reader still
  sleeps on the full pipe, while the write end is open and nobody is inside \<^verbatim>\<open>pipewrite\<close>.
  Until another write, a close of the write end or a kill the reader does not get the bytes.
\<close>

theorem pipe_stranded_reader:
  "\<exists>x y. pipe_reach 7 x \<and> pipe_empty (pipe_of x) \<and> asleep_on (ChPipeRead 7) (ptab x) 1 \<and>
     p_killed (ptable (ptab x) ! 2) \<and>
     fst (pipewrite 7 1 2 (\<lambda>_. 42) 600 (ptab x) 0 (pipe_of x)) = Return (- 1) \<and>
     y = do_write 7 1 2 (\<lambda>_. 42) 600 0 (ptab x) x \<and> pipe_step 7 x y \<and>
     asleep_on (ChPipeRead 7) (ptab y) 1 \<and> pipe_contents (pipe_of y) = replicate PIPESIZE 42 \<and>
     writeopen (pipe_of y) \<and> inw y = (\<lambda>_. None)"
proof -
  let ?x = pipe_demo_killed
  define y where "y = do_write 7 1 2 (\<lambda>_. 42) 600 0 (ptab ?x) ?x"
  note x = pipe_demo_killed_reach
  have p: "pipe_ok (pipe_of ?x)" "pipe_contents (pipe_of ?x) = []" "pipe_empty (pipe_of ?x)" "writeopen (pipe_of ?x)"
    by (simp_all add: x pipe_new_def pipe_ok_def pipe_contents_def pipe_empty_def)
  obtain p' where w: "pipewrite 7 1 2 (\<lambda>_. 42) 600 (ptab ?x) 0 (pipe_of ?x) = (Return (- 1), 512, ptab ?x, p')"
    "writeopen p'" "pipe_contents p' = map (\<lambda>_. 42) [0 .. 511]"
    using pipewrite_killed [OF p(1) x(3), of 600 7 1 "\<lambda>_. 42"] p by auto
  have "pipe_contents p' = replicate 512 42" using w(3) by (simp add: map_replicate_const)
  moreover have "ptab y = ptab ?x" "pipe_of y = p'" "inw y = (\<lambda>_. None)"
    unfolding y_def do_write_def w(1) using x(5) by auto
  moreover have "pipe_step 7 ?x y" unfolding y_def by (rule pipe_step.pwrite [OF x(2)]) (simp_all add: x(5,6))
  ultimately show ?thesis using x(1,3,7) p(3) w by (intro exI [of _ ?x] exI [of _ y]) (simp add: y_def)
qed

section \<open>Witnesses\<close>

theorem pipe_fifo_witness:
  "\<exists>x. pipe_reach 7 x \<and> wrote x = got x @ pipe_contents (pipe_of x) \<and>
     length (pipe_contents (pipe_of x)) \<le> PIPESIZE"
  using pipe_fifo [OF pipe_demo_asleep_reach(1)] pipe_demo_asleep_reach(1) by blast

theorem pipe_no_lost_wakeup_witness:
  "\<exists>x. pipe_reach 7 x \<and> asleep_on (ChPipeRead 7) (ptab x) 1 \<and> pipe_empty (pipe_of x) \<and> writeopen (pipe_of x)"
proof -
  have "\<not> dropped pipe_demo_asleep"
    by (simp add: pipe_demo_asleep_def do_read_def piperead_def pipe_demo_def pipe_new_def pipe_empty_def zero_psys_def zero_proc_def)
  with pipe_no_lost_wakeup [OF pipe_demo_asleep_reach(1)] pipe_demo_asleep_reach(1,2) show ?thesis by blast
qed

end
