(* ===== verification/Xv6_Ide.thy ===== *)
theory Xv6_Ide
  imports Xv6_Sleeplock
begin

text \<open>
  The disk driver: \<^verbatim>\<open>src/xv6/ide.c\<close> with its queue of requests and its interrupt handler, and
  the memory disk \<^verbatim>\<open>src/xv6/memide.c\<close>.  The disks themselves are maps from block numbers to
  blocks; a write command hands the block to the disk at once, a read command delivers it when
  the handler asks for it.  The theory shows that the queue serves the requests in order and
  that serving one is the effect of the synchronous \<open>iderw_sync\<close>, which the buffer cache is
  built on.
\<close>

section \<open>Buffers\<close>

text \<open>
  \<^verbatim>\<open>struct buf\<close>; the two bits of \<^verbatim>\<open>flags\<close> are \<open>b_valid\<close> and \<open>b_dirty\<close>, pointers to buffers are
  indices.  A block is its array of 512 bytes.
\<close>

type_synonym block = "nat \<Rightarrow> uchar"

record buf =
  b_valid :: bool
  b_dirty :: bool
  b_dev :: uint
  b_blockno :: uint
  b_lock :: sleeplock
  b_refcnt :: uint
  b_prev :: nat
  b_next :: nat
  b_qnext :: "nat option"
  b_data :: block

text \<open>The disk that \<^verbatim>\<open>b->dev & 1\<close> selects, and the block on it.\<close>

definition bkey :: "buf \<Rightarrow> uint \<times> uint" where
  "bkey b = (b_dev b AND 1, b_blockno b)"

type_synonym disks = "uint \<times> uint \<Rightarrow> block"

section \<open>The effect of a request\<close>

definition rw :: "buf \<Rightarrow> disks \<Rightarrow> buf \<times> disks" where
  "rw b d = (if b_dirty b then (b\<lparr>b_valid := True, b_dirty := False\<rparr>, d(bkey b := b_data b))
             else (b\<lparr>b_valid := True, b_data := d (bkey b)\<rparr>, d))"

text \<open>The checks of \<^verbatim>\<open>iderw\<close> and of \<^verbatim>\<open>idestart\<close>; \<open>pid\<close> is the calling process.\<close>

definition iderw_check :: "bool \<Rightarrow> int \<Rightarrow> buf \<Rightarrow> string option" where
  "iderw_check havedisk1 pid b =
     (if \<not> holdingsleep pid (b_lock b) then Some ''iderw: buf not locked''
      else if b_valid b \<and> \<not> b_dirty b then Some ''iderw: nothing to do''
      else if b_dev b \<noteq> 0 \<and> \<not> havedisk1 then Some ''iderw: ide disk 1 not present''
      else None)"

definition iderw_sync :: "bool \<Rightarrow> int \<Rightarrow> buf \<Rightarrow> disks \<Rightarrow> (buf \<times> disks) outcome" where
  "iderw_sync havedisk1 pid b d =
     (case iderw_check havedisk1 pid b of
        Some m \<Rightarrow> Panic m
      | None \<Rightarrow> if 1000 \<le> b_blockno b then Panic ''incorrect blockno'' else Ok (rw b d))"

text \<open>\<^verbatim>\<open>iderw\<close> of the memory disk, which has one disk, number 1, of \<open>disksize\<close> blocks.\<close>

definition mem_iderw :: "uint \<Rightarrow> int \<Rightarrow> buf \<Rightarrow> (uint \<Rightarrow> block) \<Rightarrow> (buf \<times> (uint \<Rightarrow> block)) outcome" where
  "mem_iderw disksize pid b m =
     (if \<not> holdingsleep pid (b_lock b) then Panic ''iderw: buf not locked''
      else if b_valid b \<and> \<not> b_dirty b then Panic ''iderw: nothing to do''
      else if b_dev b \<noteq> 1 then Panic ''iderw: request not for disk 1''
      else if disksize \<le> b_blockno b then Panic ''iderw: block out of range''
      else if b_dirty b then Ok (b\<lparr>b_dirty := False, b_valid := True\<rparr>, m(b_blockno b := b_data b))
      else Ok (b\<lparr>b_data := m (b_blockno b), b_valid := True\<rparr>, m))"

section \<open>The controller\<close>

text \<open>
  \<open>ports\<close> are the values that successive reads of the status port give; the loop of \<^verbatim>\<open>idewait\<close>
  ends at the first one that is ready and not busy.
\<close>

primrec idewait :: "bool \<Rightarrow> uchar list \<Rightarrow> int option" where
  "idewait checkerr [] = None"
| "idewait checkerr (r # ports) =
     (if (r AND (0x80 OR 0x40)) \<noteq> 0x40 then idewait checkerr ports
      else if checkerr \<and> (r AND (0x20 OR 0x01)) \<noteq> 0 then Some (- 1)
      else Some 0)"

text \<open>The command registers that \<^verbatim>\<open>idestart\<close> writes, for ports 0x1f2 to 0x1f7.\<close>

record ide_regs =
  r_count :: uchar
  r_lba0 :: uchar
  r_lba1 :: uchar
  r_lba2 :: uchar
  r_drive :: uchar
  r_cmd :: uchar

definition ide_command :: "buf \<Rightarrow> ide_regs" where
  "ide_command b =
     (let sector = b_blockno b * 1
      in \<lparr>r_count = 1, r_lba0 = ucast (sector AND 0xff), r_lba1 = ucast (drop_bit 8 sector AND 0xff),
          r_lba2 = ucast (drop_bit 16 sector AND 0xff),
          r_drive = ucast (0xe0 OR push_bit 4 (b_dev b AND 1) OR (drop_bit 24 sector AND 0x0f)),
          r_cmd = (if b_dirty b then 0x30 else 0x20)\<rparr>)"

text \<open>What the controller makes of the registers: the disk and the sector.\<close>

definition regs_target :: "ide_regs \<Rightarrow> uint \<times> uint" where
  "regs_target r =
     (drop_bit 4 (ucast (r_drive r)) AND 1,
      ucast (r_lba0 r) OR push_bit 8 (ucast (r_lba1 r)) OR push_bit 16 (ucast (r_lba2 r)) OR
        push_bit 24 (ucast (r_drive r) AND 0x0f))"

section \<open>The request queue\<close>

record idesys =
  idequeue :: "nat option"
  id_bufs :: "buf list"
  id_disks :: disks
  id_regs :: "ide_regs option"

definition set_buf :: "idesys \<Rightarrow> nat \<Rightarrow> buf \<Rightarrow> idesys" where
  "set_buf s i b = s\<lparr>id_bufs := (id_bufs s)[i := b]\<rparr>"

definition idestart :: "idesys \<Rightarrow> nat option \<Rightarrow> idesys outcome" where
  "idestart s b =
     (case b of None \<Rightarrow> Panic ''idestart''
      | Some i \<Rightarrow>
          let bf = id_bufs s ! i
          in if 1000 \<le> b_blockno bf then Panic ''incorrect blockno''
             else Ok (s\<lparr>id_regs := Some (ide_command bf),
                        id_disks := (if b_dirty bf then (id_disks s)(regs_target (ide_command bf) := b_data bf)
                                     else id_disks s)\<rparr>))"

text \<open>
  \<^verbatim>\<open>for(pp=&idequeue; *pp; pp=&(*pp)->qnext); *pp = b\<close>: the walk to the last queued buffer;
  \<open>k\<close> bounds the number of steps.
\<close>

primrec queue_last :: "nat \<Rightarrow> buf list \<Rightarrow> nat \<Rightarrow> nat option" where
  "queue_last 0 bs i = None"
| "queue_last (Suc k) bs i = (case b_qnext (bs ! i) of None \<Rightarrow> Some i | Some j \<Rightarrow> queue_last k bs j)"

definition enqueue :: "idesys \<Rightarrow> nat \<Rightarrow> idesys outcome" where
  "enqueue s i =
     (let s1 = set_buf s i ((id_bufs s ! i)\<lparr>b_qnext := None\<rparr>)
      in case idequeue s1 of
           None \<Rightarrow> Ok (s1\<lparr>idequeue := Some i\<rparr>)
         | Some h \<Rightarrow>
             (case queue_last (length (id_bufs s1)) (id_bufs s1) h of
                None \<Rightarrow> Blocked
              | Some t \<Rightarrow> Ok (set_buf s1 t ((id_bufs s1 ! t)\<lparr>b_qnext := Some i\<rparr>))))"

text \<open>\<^verbatim>\<open>iderw\<close> up to its first \<^verbatim>\<open>sleep\<close>.\<close>

definition iderw_begin :: "bool \<Rightarrow> int \<Rightarrow> idesys \<Rightarrow> nat \<Rightarrow> idesys outcome" where
  "iderw_begin havedisk1 pid s i =
     (case iderw_check havedisk1 pid (id_bufs s ! i) of
        Some m \<Rightarrow> Panic m
      | None \<Rightarrow> obind (enqueue s i) (\<lambda>s1. if idequeue s1 = Some i then idestart s1 (Some i) else Ok s1))"

text \<open>
  The interrupt handler; \<open>ports\<close> are the status values that it reads.  It also wakes up the
  processes that sleep on the buffer.
\<close>

definition ideintr :: "uchar list \<Rightarrow> idesys \<Rightarrow> idesys outcome" where
  "ideintr ports s =
     (case idequeue s of
        None \<Rightarrow> Ok s
      | Some i \<Rightarrow>
          let b = id_bufs s ! i;
              s1 = s\<lparr>idequeue := b_qnext b\<rparr>
          in if \<not> b_dirty b \<and> idewait True ports = None then Blocked
             else let b1 = (if \<not> b_dirty b \<and> the (idewait True ports) \<ge> 0
                            then b\<lparr>b_data := (case id_regs s of None \<Rightarrow> b_data b
                                                | Some r \<Rightarrow> id_disks s (regs_target r))\<rparr> else b);
                      s2 = set_buf s1 i (b1\<lparr>b_valid := True, b_dirty := False\<rparr>)
                  in if idequeue s2 \<noteq> None then idestart s2 (idequeue s2) else Ok s2)"

definition iderw_done :: "buf \<Rightarrow> bool" where
  "iderw_done b \<longleftrightarrow> b_valid b \<and> \<not> b_dirty b"

section \<open>The command names the block\<close>

lemma byte_roundtrip: "ucast (ucast ((w :: uint) AND 0xff) :: uchar) = take_bit 8 w"
proof -
  have m: "w AND 0xff = take_bit 8 w" by (simp add: take_bit_eq_mask mask_eq_exp_minus_1)
  show ?thesis unfolding m by (rule bit_word_eqI) (auto simp: bit_simps)
qed

lemma regs_target_command:
  assumes "b_blockno b < 1000"
  shows "regs_target (ide_command b) = bkey b"
proof -
  define w where "w = b_blockno b"
  have "unat w < 2 ^ 10" using assms by (simp add: w_def word_less_nat_alt)
  then have w: "take_bit 10 w = w"
    by (simp add: word_unat_eq_iff unsigned_take_bit_eq take_bit_nat_eq_self)
  have hi: "drop_bit 24 w = 0" "drop_bit 16 w = 0"
    by (subst w [symmetric], simp add: drop_bit_take_bit)+
  have lo: "take_bit 8 w OR push_bit 8 (take_bit 8 (drop_bit 8 w)) = w"
  proof (rule bit_word_eqI)
    fix n
    have "bit w n \<Longrightarrow> n < 10" by (metis bit_take_bit_iff w)
    then show "bit (take_bit 8 w OR push_bit 8 (take_bit 8 (drop_bit 8 w))) n = bit w n"
      by (cases "n < 8") (auto simp: bit_simps)
  qed
  define d where "d = b_dev b AND 1"
  have "d = 0 \<or> d = 1" unfolding d_def by (metis and_one_eq mod2_eq_if)
  then have "drop_bit 4 (ucast (ucast (0xe0 OR push_bit 4 d OR 0 :: uint) :: uchar)) AND 1 = d"
    "(ucast (ucast (0xe0 OR push_bit 4 d OR 0 :: uint) :: uchar) AND 0x0f) = (0 :: uint)"
    by (elim disjE; simp)+
  then show ?thesis
    using lo hi by (simp add: regs_target_def ide_command_def bkey_def Let_def byte_roundtrip flip: w_def d_def)
qed

section \<open>The queue as a list\<close>

primrec qpath :: "buf list \<Rightarrow> nat option \<Rightarrow> nat list \<Rightarrow> bool" where
  "qpath bs p [] \<longleftrightarrow> p = None"
| "qpath bs p (i # is) \<longleftrightarrow> p = Some i \<and> i < length bs \<and> qpath bs (b_qnext (bs ! i)) is"

lemma qpath_update: "j \<notin> set is \<Longrightarrow> qpath (bs[j := b]) p is = qpath bs p is"
  by (induction "is" arbitrary: p) auto

lemma qpath_update_qnext: "b_qnext b = b_qnext (bs ! j) \<Longrightarrow> qpath (bs[j := b]) p is = qpath bs p is"
proof (induction "is" arbitrary: p)
  case (Cons i "is")
  have "b_qnext (bs[j := b] ! i) = b_qnext (bs ! i)" if "i < length bs"
  proof (cases "j = i")
    case True
    then have "bs[j := b] ! i = b" using that by (simp only: nth_list_update_eq)
    then show ?thesis using Cons.prems True by (simp only:)
  qed (simp only: nth_list_update_neq not_False_eq_True)
  with Cons.IH [OF Cons.prems] show ?case by (simp cong: conj_cong)
qed simp

lemma qpath_bound: "qpath bs p is \<Longrightarrow> set is \<subseteq> {..< length bs}"
  by (induction "is" arbitrary: p) auto

lemma qpath_length:
  assumes "qpath bs p is" and "distinct is"
  shows "length is \<le> length bs"
  using card_mono [OF finite_lessThan qpath_bound [OF assms(1)]] distinct_card [OF assms(2)] by simp

lemma queue_last_path:
  "qpath bs (Some h) is \<Longrightarrow> is \<noteq> [] \<Longrightarrow> length is \<le> k \<Longrightarrow> queue_last k bs h = Some (last is)"
proof (induction "is" arbitrary: h k)
  case (Cons i "is")
  then obtain k' where k: "k = Suc k'" by (cases k) auto
  show ?case
  proof (cases "is")
    case Nil
    with Cons k show ?thesis by simp
  next
    case (Cons j js)
    with Cons.prems have "b_qnext (bs ! i) = Some j" by simp
    with Cons.IH [of j k'] Cons.prems k Cons show ?thesis by simp
  qed
qed simp

lemma qpath_append:
  assumes "qpath bs p is" and "is \<noteq> []" and "distinct is" and "i \<notin> set is" and "i < length bs"
    and "b_qnext (bs ! i) = None"
  shows "qpath (bs[last is := (bs ! last is)\<lparr>b_qnext := Some i\<rparr>]) p (is @ [i])"
  using assms
proof (induction "is" arbitrary: p)
  case (Cons j js)
  show ?case
  proof (cases js)
    case Nil
    with Cons.prems show ?thesis by auto
  next
    case (Cons k ks)
    then have "last (j # js) = last js" "js \<noteq> []" by auto
    moreover from this Cons.prems(3) have "last js \<noteq> j" by auto
    ultimately show ?thesis using Cons.prems Cons.IH [of "b_qnext (bs ! j)"] by (auto simp: nth_list_update)
  qed
qed simp

section \<open>Requests in order\<close>

text \<open>
  The abstract driver serves a request when it is made.  Its state are the buffers, without
  their queue pointers, and the disks.
\<close>

definition unq :: "buf \<Rightarrow> buf" where
  "unq b = b\<lparr>b_qnext := None\<rparr>"

definition serve :: "nat \<Rightarrow> buf list \<times> disks \<Rightarrow> buf list \<times> disks" where
  "serve i a = (case rw (fst a ! i) (snd a) of (b, d) \<Rightarrow> ((fst a)[i := b], d))"

definition settled :: "idesys \<Rightarrow> nat list \<Rightarrow> buf list \<times> disks" where
  "settled s qs = fold serve qs (map unq (id_bufs s), id_disks s)"

lemma serve_length [simp]: "length (fst (serve i a)) = length (fst a)"
  by (simp add: serve_def split: prod.split)

lemma fold_serve_length [simp]: "length (fst (fold serve qs a)) = length (fst a)"
  by (induction qs arbitrary: a) auto

lemma serve_other: "i \<noteq> j \<Longrightarrow> fst (serve i a) ! j = fst a ! j"
  by (simp add: serve_def split: prod.split)

lemma fold_serve_other: "j \<notin> set qs \<Longrightarrow> fst (fold serve qs a) ! j = fst a ! j"
  by (induction qs arbitrary: a) (auto simp: serve_other)

lemma serve_update:
  "i \<noteq> j \<Longrightarrow> serve i (bs[j := b], d) = ((fst (serve i (bs, d)))[j := b], snd (serve i (bs, d)))"
  by (auto simp: serve_def list_update_swap split: prod.split)

lemma fold_serve_update:
  "j \<notin> set qs \<Longrightarrow> fold serve qs (bs[j := b], d) =
     ((fst (fold serve qs (bs, d)))[j := b], snd (fold serve qs (bs, d)))"
proof (induction qs arbitrary: bs d)
  case (Cons i qs)
  from Cons.IH [of "fst (serve i (bs, d))" "snd (serve i (bs, d))"] Cons.prems show ?case
    by (simp add: serve_update)
qed simp

text \<open>
  The state of the driver: the queue is \<open>qs\<close>, all its buffers wait for service, and the
  command of the first one is with the controller, its data with the disk if it is a write.
\<close>

definition idq :: "idesys \<Rightarrow> nat list \<Rightarrow> bool" where
  "idq s qs \<longleftrightarrow> qpath (id_bufs s) (idequeue s) qs \<and> distinct qs \<and>
     (\<forall>i \<in> set qs. b_blockno (id_bufs s ! i) < 1000 \<and> \<not> iderw_done (id_bufs s ! i)) \<and>
     (case qs of [] \<Rightarrow> True
      | i # _ \<Rightarrow> id_regs s = Some (ide_command (id_bufs s ! i)) \<and>
          (b_dirty (id_bufs s ! i) \<longrightarrow> id_disks s (bkey (id_bufs s ! i)) = b_data (id_bufs s ! i)))"

lemma idestart_Ok:
  assumes "b_blockno (id_bufs s ! i) < 1000"
  shows "idestart s (Some i) = Ok (s\<lparr>id_regs := Some (ide_command (id_bufs s ! i)),
    id_disks := (if b_dirty (id_bufs s ! i) then (id_disks s)(bkey (id_bufs s ! i) := b_data (id_bufs s ! i))
                 else id_disks s)\<rparr>)"
  using assms by (simp add: idestart_def Let_def regs_target_command flip: linorder_not_less)

lemma serve_again:
  assumes "i < length bs"
  shows "serve i (bs, if b_dirty (bs ! i) then d(bkey (bs ! i) := b_data (bs ! i)) else d) = serve i (bs, d)"
  using assms by (simp add: serve_def rw_def)

lemma unq_simps [simp]:
  "b_dirty (unq b) = b_dirty b" "b_valid (unq b) = b_valid b" "b_data (unq b) = b_data b"
  "bkey (unq b) = bkey b" "b_blockno (unq b) = b_blockno b" "unq (b\<lparr>b_qnext := q\<rparr>) = unq b"
  by (simp_all add: unq_def bkey_def)


lemma map_unq_qnext [simp]: "map unq (bs[j := (bs ! j)\<lparr>b_qnext := q\<rparr>]) = map unq bs"
  by (cases "j < length bs") (simp_all add: map_update list_update_same_conv list_update_beyond)

lemma qnext_fields:
  assumes "i < length bs"
  shows "unq (bs[j := (bs ! j)\<lparr>b_qnext := q\<rparr>] ! i) = unq (bs ! i)"
  using assms by (cases "i = j") simp_all

lemma unq_fields:
  assumes "unq b = unq c"
  shows "b_blockno b = b_blockno c" "b_dirty b = b_dirty c" "b_data b = b_data c" "bkey b = bkey c"
    "iderw_done b = iderw_done c" "ide_command b = ide_command c"
proof -
  have "b_dev b = b_dev c" using arg_cong [OF assms, of b_dev] by (simp add: unq_def)
  moreover have "b_valid b = b_valid c" using arg_cong [OF assms, of b_valid] by (simp add: unq_def)
  ultimately show "b_blockno b = b_blockno c" "b_dirty b = b_dirty c" "b_data b = b_data c" "bkey b = bkey c"
    "iderw_done b = iderw_done c" "ide_command b = ide_command c"
    using arg_cong [OF assms, of b_blockno] arg_cong [OF assms, of b_dirty] arg_cong [OF assms, of b_data]
    by (simp_all add: unq_def bkey_def iderw_done_def ide_command_def)
qed

lemma iderw_begin_idq:
  assumes q: "idq s qs" and i: "i \<notin> set qs" "i < length (id_bufs s)"
    and chk: "iderw_check hd1 pid (id_bufs s ! i) = None" and bn: "b_blockno (id_bufs s ! i) < 1000"
  shows "\<exists>s'. iderw_begin hd1 pid s i = Ok s' \<and> idq s' (qs @ [i]) \<and> settled s' (qs @ [i]) = serve i (settled s qs) \<and>
    length (id_bufs s') = length (id_bufs s)"
proof -
  define bs1 where "bs1 = (id_bufs s)[i := (id_bufs s ! i)\<lparr>b_qnext := None\<rparr>]"
  have bs1i: "bs1 ! i = (id_bufs s ! i)\<lparr>b_qnext := None\<rparr>" "length bs1 = length (id_bufs s)"
    using i by (simp_all add: bs1_def)
  have path1: "qpath bs1 (idequeue s) qs" using q i(1) by (simp add: idq_def bs1_def qpath_update)
  have unq1: "unq (bs1 ! j) = unq (id_bufs s ! j)" if "j < length bs1" for j
    using that qnext_fields [of j "id_bufs s" i None] by (simp add: bs1_def)
  have nd: "\<not> iderw_done (id_bufs s ! i)"
    using chk by (auto simp: iderw_check_def iderw_done_def split: if_splits)
  show ?thesis
  proof (cases qs)
    case Nil
    then have none: "idequeue s = None" using q by (simp add: idq_def)
    define s1 where "s1 = s\<lparr>id_bufs := bs1, idequeue := Some i\<rparr>"
    have beg: "iderw_begin hd1 pid s i = idestart s1 (Some i)"
      using none chk by (simp add: iderw_begin_def enqueue_def set_buf_def s1_def bs1_def Let_def)
    have bn1: "b_blockno (id_bufs s1 ! i) < 1000" using bn by (simp add: s1_def bs1i)
    note st = idestart_Ok [OF bn1]
    let ?d = "if b_dirty (bs1 ! i) then (id_disks s)(bkey (bs1 ! i) := b_data (bs1 ! i)) else id_disks s"
    define s2 where "s2 = s1\<lparr>id_regs := Some (ide_command (bs1 ! i)), id_disks := ?d\<rparr>"
    have s2: "iderw_begin hd1 pid s i = Ok s2"
      unfolding beg st by (simp add: s2_def s1_def)
    have "idq s2 [i]"
      using bn1 nd i(2) by (simp add: idq_def s2_def s1_def bs1i iderw_done_def)
    moreover have "settled s2 [i] = serve i (settled s [])"
    proof -
      have m: "map unq bs1 = map unq (id_bufs s)" by (simp add: bs1_def)
      have f: "bkey (bs1 ! i) = bkey (map unq (id_bufs s) ! i)" "b_data (bs1 ! i) = b_data (map unq (id_bufs s) ! i)"
        "b_dirty (bs1 ! i) = b_dirty (map unq (id_bufs s) ! i)"
        using i(2) by (simp_all add: bs1i bkey_def unq_def)
      have "settled s2 [i] = serve i (map unq (id_bufs s), ?d)"
        by (simp add: settled_def s2_def s1_def m)
      also have "\<dots> = serve i (map unq (id_bufs s), id_disks s)"
        unfolding f using i(2) by (intro serve_again) simp
      finally show ?thesis by (simp add: settled_def)
    qed
    ultimately show ?thesis using s2 Nil bs1i by (auto simp: s2_def s1_def)
  next
    case (Cons h qs')
    then have h: "idequeue s = Some h" using q by (simp add: idq_def)
    have dq: "distinct qs" using q by (simp add: idq_def)
    have last: "queue_last (length bs1) bs1 h = Some (last qs)"
      using path1 h Cons qpath_length [OF path1 dq] by (intro queue_last_path) simp_all
    define s2 where "s2 = s\<lparr>id_bufs := bs1[last qs := (bs1 ! last qs)\<lparr>b_qnext := Some i\<rparr>]\<rparr>"
    have "h \<noteq> i" using Cons i(1) by auto
    then have beg: "iderw_begin hd1 pid s i = Ok s2"
      using h chk last by (simp add: iderw_begin_def enqueue_def set_buf_def Let_def s2_def flip: bs1_def)
    have unq2: "unq (id_bufs s2 ! j) = unq (id_bufs s ! j)" if "j < length bs1" for j
      using that qnext_fields [of j bs1 "last qs" "Some i"] unq1 [OF that] by (simp add: s2_def)
    have "qpath (id_bufs s2) (idequeue s2) (qs @ [i])"
      using qpath_append [OF path1 _ dq i(1)] Cons i(2) bs1i by (simp add: s2_def)
    moreover have "b_blockno (id_bufs s2 ! j) < 1000 \<and> \<not> iderw_done (id_bufs s2 ! j)" if "j \<in> set (qs @ [i])" for j
    proof -
      have "j < length bs1" using that qpath_bound [OF path1] i(2) bs1i by auto
      from unq_fields [OF unq2 [OF this]] that q bn nd show ?thesis by (auto simp: idq_def)
    qed
    moreover have "id_regs s2 = Some (ide_command (id_bufs s2 ! h)) \<and>
      (b_dirty (id_bufs s2 ! h) \<longrightarrow> id_disks s2 (bkey (id_bufs s2 ! h)) = b_data (id_bufs s2 ! h))"
    proof -
      have "h < length bs1" using path1 Cons by simp
      from unq_fields [OF unq2 [OF this]] q Cons show ?thesis by (simp add: idq_def s2_def)
    qed
    ultimately have "idq s2 (qs @ [i])" using Cons dq i(1) by (auto simp: idq_def)
    moreover have "map unq (id_bufs s2) = map unq (id_bufs s)" by (simp add: s2_def bs1_def)
    then have "settled s2 (qs @ [i]) = serve i (settled s qs)" by (simp add: settled_def s2_def)
    ultimately show ?thesis using beg bs1i by (auto simp: s2_def)
  qed
qed


lemma ideintr_idq:
  assumes q: "idq s (i # qs)" and ports: "idewait True ports = Some 0"
  shows "\<exists>s'. ideintr ports s = Ok s' \<and> idq s' qs \<and> settled s' qs = settled s (i # qs) \<and>
    iderw_done (id_bufs s' ! i) \<and> length (id_bufs s') = length (id_bufs s)"
proof -
  define b where "b = id_bufs s ! i"
  have h: "idequeue s = Some i" "i < length (id_bufs s)" and path: "qpath (id_bufs s) (b_qnext b) qs"
    and iq: "i \<notin> set qs" "distinct qs" and regs: "id_regs s = Some (ide_command b)"
    and wr: "b_dirty b \<Longrightarrow> id_disks s (bkey b) = b_data b"
    and bn: "b_blockno b < 1000"
    and wait: "\<And>j. j \<in> set qs \<Longrightarrow> b_blockno (id_bufs s ! j) < 1000 \<and> \<not> iderw_done (id_bufs s ! j)"
    using q by (auto simp: idq_def b_def)
  define b1 where "b1 = (if b_dirty b then b\<lparr>b_valid := True, b_dirty := False\<rparr>
    else b\<lparr>b_data := id_disks s (bkey b), b_valid := True, b_dirty := False\<rparr>)"
  define s2 where "s2 = s\<lparr>idequeue := b_qnext b, id_bufs := (id_bufs s)[i := b1]\<rparr>"
  have rwb: "rw (unq b) (id_disks s) = (unq b1, id_disks s)"
    using wr by (auto simp: rw_def b1_def unq_def bkey_def fun_upd_idem)
  have sv: "serve i (map unq (id_bufs s), id_disks s) = (map unq (id_bufs s2), id_disks s2)"
    using h(2) rwb by (simp add: serve_def s2_def map_update flip: b_def)
  have st2: "settled s2 qs = settled s (i # qs)" by (simp add: settled_def sv)
  have intr: "ideintr ports s = (if b_qnext b \<noteq> None then idestart s2 (b_qnext b) else Ok s2)"
  proof -
    have "b_dirty b \<Longrightarrow> ideintr ports s = (if b_qnext b \<noteq> None then idestart s2 (b_qnext b) else Ok s2)"
      using h by (simp add: ideintr_def set_buf_def s2_def b1_def Let_def flip: b_def)
    moreover have "\<not> b_dirty b \<Longrightarrow> ideintr ports s = (if b_qnext b \<noteq> None then idestart s2 (b_qnext b) else Ok s2)"
      using h regs ports by (simp add: ideintr_def set_buf_def s2_def b1_def Let_def regs_target_command [OF bn] flip: b_def)
    ultimately show ?thesis by blast
  qed
  have done1: "iderw_done b1" by (simp add: b1_def iderw_done_def)
  have path2: "qpath (id_bufs s2) (idequeue s2) qs" using path iq by (simp add: s2_def qpath_update)
  have same: "id_bufs s2 ! j = id_bufs s ! j" if "j \<in> set qs" for j
    using that iq by (cases "i = j") (auto simp: s2_def)
  show ?thesis
  proof (cases qs)
    case Nil
    then show ?thesis using path intr st2 h(2) done1 by (auto simp: idq_def s2_def)
  next
    case (Cons k ks)
    let ?c = "id_bufs s2 ! k"
    define s3 where "s3 = s2\<lparr>id_regs := Some (ide_command ?c),
      id_disks := (if b_dirty ?c then (id_disks s2)(bkey ?c := b_data ?c) else id_disks s2)\<rparr>"
    have k: "b_qnext b = Some k" "k < length (id_bufs s2)" using path path2 Cons by auto
    have "b_blockno ?c < 1000" using wait [of k] same [of k] Cons by simp
    then have "ideintr ports s = Ok s3" using intr k idestart_Ok [of s2 k] by (simp add: s3_def)
    moreover have "idq s3 qs"
      using path2 iq wait same Cons by (auto simp: idq_def s3_def)
    moreover have "settled s3 qs = settled s2 qs"
    proof -
      have "serve k (map unq (id_bufs s2), if b_dirty (map unq (id_bufs s2) ! k)
          then (id_disks s2)(bkey (map unq (id_bufs s2) ! k) := b_data (map unq (id_bufs s2) ! k)) else id_disks s2) =
        serve k (map unq (id_bufs s2), id_disks s2)"
        using k(2) by (intro serve_again) simp
      then show ?thesis using k(2) Cons by (cases "b_dirty ?c") (simp_all add: settled_def s3_def)
    qed
    ultimately show ?thesis using st2 done1 h(2) by (auto simp: s3_def s2_def)
  qed
qed


section \<open>All runs of the driver\<close>

text \<open>
  Processes make requests for buffers that are not queued and change buffers that are not
  queued; the disk interrupts without error.  The last component are the buffers in the queue.
\<close>

datatype ide_event = Request nat | Interrupt | Touch nat buf

inductive ide_run :: "bool \<Rightarrow> idesys \<Rightarrow> ide_event list \<Rightarrow> idesys \<Rightarrow> nat list \<Rightarrow> bool" for hd1 s0 where
  idle: "idequeue s0 = None \<Longrightarrow> ide_run hd1 s0 [] s0 []"
| request: "\<lbrakk>ide_run hd1 s0 es s qs; i \<notin> set qs; i < length (id_bufs s); b_blockno (id_bufs s ! i) < 1000;
    iderw_begin hd1 pid s i = Ok s'\<rbrakk> \<Longrightarrow> ide_run hd1 s0 (es @ [Request i]) s' (qs @ [i])"
| intr: "\<lbrakk>ide_run hd1 s0 es s qs; idewait True ports = Some 0; ideintr ports s = Ok s'\<rbrakk>
    \<Longrightarrow> ide_run hd1 s0 (es @ [Interrupt]) s' (tl qs)"
| touch: "\<lbrakk>ide_run hd1 s0 es s qs; i \<notin> set qs; i < length (id_bufs s)\<rbrakk>
    \<Longrightarrow> ide_run hd1 s0 (es @ [Touch i b]) (set_buf s i b) qs"

definition serve_event :: "ide_event \<Rightarrow> buf list \<times> disks \<Rightarrow> buf list \<times> disks" where
  "serve_event e a = (case e of Request i \<Rightarrow> serve i a | Interrupt \<Rightarrow> a | Touch i b \<Rightarrow> ((fst a)[i := unq b], snd a))"

primrec drain :: "nat \<Rightarrow> uchar list \<Rightarrow> idesys \<Rightarrow> idesys outcome" where
  "drain 0 ports s = Ok s"
| "drain (Suc n) ports s = obind (ideintr ports s) (drain n ports)"

lemma ide_run_idq:
  "ide_run hd1 s0 es s qs \<Longrightarrow> idq s qs \<and> settled s qs = fold serve_event es (map unq (id_bufs s0), id_disks s0)"
proof (induction rule: ide_run.induct)
  case idle
  then show ?case by (simp add: idq_def settled_def)
next
  case (request es s qs i pid s')
  have "iderw_check hd1 pid (id_bufs s ! i) = None"
    using request.hyps(5) by (auto simp: iderw_begin_def split: option.splits)
  with iderw_begin_idq [of s qs i hd1 pid] request show ?case by (auto simp: serve_event_def)
next
  case (intr es s qs ports s')
  show ?case
  proof (cases qs)
    case Nil
    then have "idequeue s = None" using intr.IH by (simp add: idq_def)
    then have "s' = s" using intr.hyps(3) by (simp add: ideintr_def)
    then show ?thesis using intr.IH Nil by (simp add: serve_event_def)
  next
    case (Cons i qs')
    with ideintr_idq [of s i qs' ports] intr show ?thesis by (auto simp: serve_event_def)
  qed
next
  case (touch es s qs i b)
  have "idq (set_buf s i b) qs"
  proof -
    have o: "(id_bufs s)[i := b] ! j = id_bufs s ! j" if "j \<in> set qs" for j
      using that touch.hyps(2) by (cases "i = j") auto
    show ?thesis
      using touch.IH touch.hyps(2) o
      by (auto simp: idq_def set_buf_def qpath_update split: list.splits)
  qed
  moreover have "settled (set_buf s i b) qs = ((fst (settled s qs))[i := unq b], snd (settled s qs))"
    using touch.hyps(2) by (simp add: settled_def set_buf_def map_update fold_serve_update)
  ultimately show ?case using touch.IH by (simp add: serve_event_def)
qed

lemma drain_idq:
  assumes "idq s qs" and "idewait True ports = Some 0"
  shows "\<exists>s'. drain (length qs) ports s = Ok s' \<and> idequeue s' = None \<and> (map unq (id_bufs s'), id_disks s') = settled s qs"
  using assms(1)
proof (induction qs arbitrary: s)
  case Nil
  then show ?case by (simp add: idq_def settled_def)
next
  case (Cons i qs)
  from ideintr_idq [OF Cons.prems assms(2)] obtain s1 where
    "ideintr ports s = Ok s1" "idq s1 qs" "settled s1 qs = settled s (i # qs)" by blast
  with Cons.IH [of s1] show ?case by auto
qed

text \<open>
  C14: the interrupt-driven driver is the synchronous one.  After any run of requests,
  interrupts and changes to idle buffers, as many interrupts as there are queued requests empty
  the queue without a panic, and then the buffers and the disks are what serving every request
  at once, in the order in which they were made, gives.
\<close>

theorem ide_refines_sync:
  assumes "ide_run hd1 s0 es s qs" and "idewait True ports = Some 0"
  shows "\<exists>s'. drain (length qs) ports s = Ok s' \<and> idequeue s' = None \<and>
    (map unq (id_bufs s'), id_disks s') = fold serve_event es (map unq (id_bufs s0), id_disks s0)"
  using drain_idq [of s qs ports] ide_run_idq [OF assms(1)] assms(2) by auto

text \<open>
  The memory disk has the effect of the synchronous request whenever both accept it.
\<close>

lemma mem_iderw_rw:
  assumes "mem_iderw disksize pid b m = Ok (b', m')"
  shows "iderw_check True pid b = None" and "rw b (\<lambda>(d, n). m n) = (b', (\<lambda>(d, n). m n)((1, b_blockno b) := m' (b_blockno b)))"
proof -
  have dev: "bkey b = (1, b_blockno b)" using assms by (auto simp: mem_iderw_def bkey_def split: if_splits)
  show "iderw_check True pid b = None" using assms by (auto simp: mem_iderw_def iderw_check_def split: if_splits)
  show "rw b (\<lambda>(d, n). m n) = (b', (\<lambda>(d, n). m n)((1, b_blockno b) := m' (b_blockno b)))"
    using assms dev by (auto simp: mem_iderw_def rw_def fun_upd_idem split: if_splits)
qed

section \<open>Witness\<close>

text \<open>Two buffers of process 9: the first to be written to block 3 of disk 1, the second to be read from block 5.\<close>

definition ide_demo_buf :: buf where
  "ide_demo_buf = \<lparr>b_valid = False, b_dirty = False, b_dev = 1, b_blockno = 5,
     b_lock = \<lparr>sl_locked = True, sl_name = ''buffer'', sl_pid = 9\<rparr>, b_refcnt = 1,
     b_prev = 0, b_next = 0, b_qnext = None, b_data = (\<lambda>_. 7)\<rparr>"

definition ide_demo :: idesys where
  "ide_demo = \<lparr>idequeue = None, id_bufs = [ide_demo_buf\<lparr>b_dirty := True, b_blockno := 3\<rparr>, ide_demo_buf],
     id_disks = (\<lambda>_ _. 1), id_regs = None\<rparr>"

lemmas ide_demo_defs = ide_demo_def ide_demo_buf_def

theorem ide_refines_sync_witness:
  "\<exists>s qs s'. ide_run True ide_demo [Request 0, Request 1] s qs \<and> drain (length qs) [0xC0, 0x40] s = Ok s' \<and>
     idequeue s' = None \<and> id_disks s' (1, 3) = (\<lambda>_. 7) \<and> b_data (id_bufs s' ! 1) = (\<lambda>_. 1)"
proof -
  have r0: "ide_run True ide_demo [] ide_demo []"
    by (rule ide_run.idle) (simp add: ide_demo_defs)
  have c: "iderw_check True 9 (id_bufs ide_demo ! 0) = None" "iderw_check True 9 (id_bufs ide_demo ! 1) = None"
    by (simp_all add: ide_demo_defs iderw_check_def holdingsleep_def)
  obtain s1 where s1: "iderw_begin True 9 ide_demo 0 = Ok s1" "id_bufs s1 = id_bufs ide_demo"
    by (simp add: ide_demo_defs iderw_begin_def iderw_check_def holdingsleep_def enqueue_def set_buf_def idestart_def Let_def)
  have r1: "ide_run True ide_demo ([] @ [Request 0]) s1 ([] @ [0])"
    by (rule ide_run.request [OF r0 _ _ _ s1(1)]) (simp_all add: ide_demo_defs)
  have q1: "idq s1 [0]" using ide_run_idq [OF r1] by simp
  obtain s2 where s2: "iderw_begin True 9 s1 1 = Ok s2"
    using iderw_begin_idq [OF q1, of 1 True 9] s1(2) c by (auto simp: ide_demo_defs)
  have r2: "ide_run True ide_demo ([Request 0] @ [Request 1]) s2 ([0] @ [1])"
    by (rule ide_run.request [OF _ _ _ _ s2]) (use r1 s1(2) in \<open>simp_all add: ide_demo_defs\<close>)
  then have r: "ide_run True ide_demo [Request 0, Request 1] s2 [0, 1]" by simp
  have "idewait True [0xC0, 0x40] = Some 0" by simp
  from ide_refines_sync [OF r this] obtain s' where s': "drain (length [0, 1 :: nat]) [0xC0, 0x40] s2 = Ok s'"
    "idequeue s' = None"
    "(map unq (id_bufs s'), id_disks s') = fold serve_event [Request 0, Request 1] (map unq (id_bufs ide_demo), id_disks ide_demo)"
    by blast
  have e: "fold serve_event [Request 0, Request 1] (map unq (id_bufs ide_demo), id_disks ide_demo) =
    (map unq [(id_bufs ide_demo ! 0)\<lparr>b_valid := True, b_dirty := False\<rparr>, (id_bufs ide_demo ! 1)\<lparr>b_valid := True, b_data := \<lambda>_. 1\<rparr>],
     (\<lambda>_ _. 1)((1, 3) := \<lambda>_. 7))"
    by (simp add: ide_demo_defs serve_event_def serve_def rw_def unq_def bkey_def)
  have m: "map unq (id_bufs s') = map unq [(id_bufs ide_demo ! 0)\<lparr>b_valid := True, b_dirty := False\<rparr>,
      (id_bufs ide_demo ! 1)\<lparr>b_valid := True, b_data := \<lambda>_. 1\<rparr>]" and d: "id_disks s' = (\<lambda>_ _. 1)((1, 3) := \<lambda>_. 7)"
    using s'(3) unfolding e by auto
  have len: "length (id_bufs s') = 2" using arg_cong [OF m, of length] by simp
  have "b_data (map unq (id_bufs s') ! 1) = (\<lambda>_. 1)" unfolding m by simp
  then have "b_data (id_bufs s' ! 1) = (\<lambda>_. 1)" using len by simp
  moreover have "id_disks s' (1, 3) = (\<lambda>_. 7)" unfolding d by simp
  ultimately show ?thesis using r s'(1,2) by blast
qed

end
