(* ===== verification/Xv6_Bio.thy ===== *)
theory Xv6_Bio
  imports Xv6_Ide
begin

text \<open>
  The buffer cache, \<^verbatim>\<open>src/xv6/bio.c\<close>: 30 buffers on a doubly linked list in order of use, with
  \<^verbatim>\<open>bcache.head\<close> at index 30.  Disk requests are the synchronous ones of the driver theory.
  \<open>wlog\<close> only records the blocks sent to the disks, in order; crash safety of the log is
  stated on it.  A call either runs to its end or is blocked: a buffer whose sleep lock is
  taken makes \<^verbatim>\<open>bread\<close> wait in \<^verbatim>\<open>acquiresleep\<close>, and \<^term>\<open>Blocked\<close> then stands for a call that is
  still waiting, with no state of its own.  The invariant is about the states between calls, in
  which nobody waits and so a buffer in use has one reference, that of its holder.
\<close>

section \<open>The cache\<close>

record bcache =
  bufs :: "buf list"
  bc_disks :: disks
  havedisk1 :: bool
  wlog :: "((uint \<times> uint) \<times> block) list"

abbreviation (input) HEAD :: nat where "HEAD \<equiv> 30"

definition set_b :: "bcache \<Rightarrow> nat \<Rightarrow> buf \<Rightarrow> bcache" where
  "set_b s i b = s\<lparr>bufs := (bufs s)[i := b]\<rparr>"

text \<open>Linking a buffer in front, and taking one out: the pointer assignments of the source.\<close>

definition link_front :: "buf list \<Rightarrow> nat \<Rightarrow> buf list" where
  "link_front bs b =
     (let bs1 = bs[b := (bs ! b)\<lparr>b_next := b_next (bs ! HEAD), b_prev := HEAD\<rparr>];
          n = b_next (bs1 ! HEAD);
          bs2 = bs1[n := (bs1 ! n)\<lparr>b_prev := b\<rparr>]
      in bs2[HEAD := (bs2 ! HEAD)\<lparr>b_next := b\<rparr>])"

definition unlink :: "buf list \<Rightarrow> nat \<Rightarrow> buf list" where
  "unlink bs b =
     (let n = b_next (bs ! b);
          bs1 = bs[n := (bs ! n)\<lparr>b_prev := b_prev (bs ! b)\<rparr>];
          p = b_prev (bs1 ! b)
      in bs1[p := (bs1 ! p)\<lparr>b_next := b_next (bs1 ! b)\<rparr>])"

definition init_buf :: "nat \<Rightarrow> buf list \<Rightarrow> buf list" where
  "init_buf b bs = link_front (bs[b := (bs ! b)\<lparr>b_lock := initsleeplock ''buffer''\<rparr>]) b"

definition binit :: "bcache \<Rightarrow> bcache" where
  "binit s = (let bs = (bufs s)[HEAD := (bufs s ! HEAD)\<lparr>b_prev := HEAD, b_next := HEAD\<rparr>]
              in s\<lparr>bufs := fold init_buf [0 ..< NBUF] bs\<rparr>)"

text \<open>
  \<^verbatim>\<open>for(b = ...; b != &bcache.head; b = b->next)\<close>, also along \<^verbatim>\<open>prev\<close>; \<open>k\<close> bounds the number of
  steps, and a list that does not come back to the head is a loop without end.
\<close>

primrec scan :: "(buf \<Rightarrow> nat) \<Rightarrow> (buf \<Rightarrow> bool) \<Rightarrow> buf list \<Rightarrow> nat \<Rightarrow> nat \<Rightarrow> nat option outcome" where
  "scan nx P bs 0 b = Blocked"
| "scan nx P bs (Suc k) b =
     (if b = HEAD then Ok None else if P (bs ! b) then Ok (Some b) else scan nx P bs k (nx (bs ! b)))"

definition lock_buf :: "int \<Rightarrow> bcache \<Rightarrow> nat \<Rightarrow> buf \<Rightarrow> (nat \<times> bcache) outcome" where
  "lock_buf pid s i b =
     obind (acquiresleep pid (b_lock b)) (\<lambda>lk. Ok (i, set_b s i (b\<lparr>b_lock := lk\<rparr>)))"

definition bget :: "int \<Rightarrow> bcache \<Rightarrow> uint \<Rightarrow> uint \<Rightarrow> (nat \<times> bcache) outcome" where
  "bget pid s dev blockno =
     obind (scan b_next (\<lambda>b. b_dev b = dev \<and> b_blockno b = blockno) (bufs s) (NBUF + 1) (b_next (bufs s ! HEAD)))
       (\<lambda>r. case r of
          Some i \<Rightarrow> (let b = bufs s ! i in lock_buf pid s i (b\<lparr>b_refcnt := b_refcnt b + 1\<rparr>))
        | None \<Rightarrow>
            obind (scan b_prev (\<lambda>b. b_refcnt b = 0 \<and> \<not> b_dirty b) (bufs s) (NBUF + 1) (b_prev (bufs s ! HEAD)))
              (\<lambda>r. case r of
                 Some i \<Rightarrow> lock_buf pid s i ((bufs s ! i)\<lparr>b_dev := dev, b_blockno := blockno, b_valid := False,
                              b_dirty := False, b_refcnt := 1\<rparr>)
               | None \<Rightarrow> Panic ''bget: no buffers''))"

definition do_iderw :: "int \<Rightarrow> bcache \<Rightarrow> nat \<Rightarrow> bcache outcome" where
  "do_iderw pid s i =
     (let b = bufs s ! i
      in obind (iderw_sync (havedisk1 s) pid b (bc_disks s)) (\<lambda>(b', d').
           Ok ((set_b s i b')\<lparr>bc_disks := d',
                 wlog := (if b_dirty b then wlog s @ [(bkey b, b_data b)] else wlog s)\<rparr>)))"

definition bread :: "int \<Rightarrow> bcache \<Rightarrow> uint \<Rightarrow> uint \<Rightarrow> (nat \<times> bcache) outcome" where
  "bread pid s dev blockno =
     obind (bget pid s dev blockno) (\<lambda>(i, s1).
       if \<not> b_valid (bufs s1 ! i) then obind (do_iderw pid s1 i) (\<lambda>s2. Ok (i, s2)) else Ok (i, s1))"

definition bwrite :: "int \<Rightarrow> bcache \<Rightarrow> nat \<Rightarrow> bcache outcome" where
  "bwrite pid s i =
     (if \<not> holdingsleep pid (b_lock (bufs s ! i)) then Panic ''bwrite''
      else do_iderw pid (set_b s i ((bufs s ! i)\<lparr>b_dirty := True\<rparr>)) i)"

definition brelse :: "int \<Rightarrow> bcache \<Rightarrow> nat \<Rightarrow> bcache outcome" where
  "brelse pid s i =
     (let b = bufs s ! i
      in if \<not> holdingsleep pid (b_lock b) then Panic ''brelse''
         else let b1 = b\<lparr>b_lock := releasesleep (b_lock b), b_refcnt := b_refcnt b - 1\<rparr>;
                  s1 = set_b s i b1
              in Ok (if b_refcnt b1 = 0 then s1\<lparr>bufs := link_front (unlink (bufs s1) i) i\<rparr> else s1))"

section \<open>Rings of pointers\<close>

primrec path :: "(nat \<Rightarrow> nat) \<Rightarrow> nat \<Rightarrow> nat list \<Rightarrow> nat \<Rightarrow> bool" where
  "path f x [] y \<longleftrightarrow> f x = y"
| "path f x (z # zs) y \<longleftrightarrow> f x = z \<and> path f z zs y"

lemma path_append: "path f x (l1 @ y # l2) z \<longleftrightarrow> path f x l1 y \<and> path f y l2 z"
  by (induction l1 arbitrary: x) auto

lemma path_other: "w \<notin> set (x # l) \<Longrightarrow> path (f(w := v)) x l y = path f x l y"
  by (induction l arbitrary: x) auto

lemma path_redirect: "path f x l y \<Longrightarrow> distinct (x # l) \<Longrightarrow> path (f(last (x # l) := z)) x l z"
proof (induction l arbitrary: x)
  case (Cons w l)
  then have "last (w # l) \<noteq> x" by (metis distinct.simps(2) last_in_set list.distinct(1))
  with Cons show ?case by auto
qed simp

lemma path_last: "path f x l y \<Longrightarrow> f (last (x # l)) = y"
  by (induction l arbitrary: x) auto

abbreviation (input) circle :: "(nat \<Rightarrow> nat) \<Rightarrow> nat list \<Rightarrow> bool" where
  "circle f l \<equiv> path f HEAD l HEAD"

lemma circle_hd: "circle f l \<Longrightarrow> f HEAD = hd (l @ [HEAD])"
  by (cases l) auto

lemma last_rev_hd: "last (x # rev l) = hd (l @ [x])"
  by (cases l) auto

lemma path_mid: "circle f (l1 @ b # l2) \<Longrightarrow> f b = hd (l2 @ [HEAD])"
  by (cases l2) (auto simp: path_append)

lemma circle_remove:
  assumes "circle f (l1 @ b # l2)" and "distinct (HEAD # l1 @ b # l2)"
  shows "circle (f(last (HEAD # l1) := f b)) (l1 @ l2)"
proof (cases l2)
  case Nil
  with assms show ?thesis by (auto simp: path_append dest: path_redirect [where z = "f b"])
next
  case (Cons c cs)
  with assms have p: "path f HEAD l1 b" "f b = c" "path f c cs HEAD" by (auto simp: path_append)
  have "last (HEAD # l1) \<in> set (HEAD # l1)" by (rule last_in_set) simp
  then have "last (HEAD # l1) \<notin> set (c # cs)" using assms(2) Cons by auto
  then have "path (f(last (HEAD # l1) := c)) c cs HEAD" using p(3) by (simp only: path_other not_False_eq_True)
  moreover have "path (f(last (HEAD # l1) := c)) HEAD l1 c" using p(1) assms(2) by (intro path_redirect) auto
  ultimately show ?thesis using Cons p(2) by (simp only: path_append)
qed

lemma circle_push:
  assumes "circle f l" and "b \<notin> set (HEAD # l)" and "HEAD \<notin> set l"
  shows "circle (f(b := f HEAD, HEAD := b)) (b # l)"
proof (cases l)
  case Nil
  with assms show ?thesis by auto
next
  case (Cons c cs)
  with assms have "path f c cs HEAD" "f HEAD = c" "b \<notin> set (c # cs)" "HEAD \<notin> set (c # cs)" "b \<noteq> HEAD" by auto
  then have "path (f(b := c, HEAD := b)) c cs HEAD" by (simp only: path_other not_False_eq_True)
  then show ?thesis using Cons \<open>f HEAD = c\<close> \<open>b \<noteq> HEAD\<close> by simp
qed

lemma circle_snoc:
  assumes "circle g m" and "b \<notin> set (HEAD # m)" and "distinct (HEAD # m)"
  shows "circle (g(b := HEAD, last (HEAD # m) := b)) (m @ [b])"
proof -
  have "path (g(b := HEAD)) HEAD m HEAD" using assms(1,2) by (simp only: path_other not_False_eq_True)
  then have "path (g(b := HEAD, last (HEAD # m) := b)) HEAD m b" using assms(3) by (rule path_redirect)
  moreover have "last (HEAD # m) \<in> set (HEAD # m)" by (rule last_in_set) simp
  then have "last (HEAD # m) \<noteq> b" using assms(2) by (intro notI) (simp only:)
  ultimately show ?thesis by (simp add: path_append)
qed

section \<open>The list of buffers\<close>

definition nextf :: "buf list \<Rightarrow> nat \<Rightarrow> nat" where "nextf bs i = b_next (bs ! i)"
definition prevf :: "buf list \<Rightarrow> nat \<Rightarrow> nat" where "prevf bs i = b_prev (bs ! i)"

definition linked :: "buf list \<Rightarrow> nat list \<Rightarrow> bool" where
  "linked bs l \<longleftrightarrow> length bs = NBUF + 1 \<and> distinct l \<and> set l \<subseteq> {..< NBUF} \<and>
     circle (nextf bs) l \<and> circle (prevf bs) (rev l)"

text \<open>The fields that the list operations do not touch.\<close>

definition core :: "buf \<Rightarrow> buf" where
  "core b = b\<lparr>b_next := 0, b_prev := 0\<rparr>"

lemma nextf_update: "i < length bs \<Longrightarrow> nextf (bs[i := b]) = (nextf bs)(i := b_next b)"
  by (auto simp: nextf_def fun_eq_iff)

lemma prevf_update: "i < length bs \<Longrightarrow> prevf (bs[i := b]) = (prevf bs)(i := b_prev b)"
  by (auto simp: prevf_def fun_eq_iff)

lemma circle_hd_bound: "set l \<subseteq> {..< NBUF} \<Longrightarrow> hd (l @ [HEAD]) < NBUF + 1"
  by (cases l) auto

lemma map_core_update: "core b = core (bs ! i) \<Longrightarrow> map core (bs[i := b]) = map core bs"
  by (cases "i < length bs") (simp_all add: map_update list_update_same_conv list_update_beyond)

lemma core_links [simp]: "core (b\<lparr>b_next := n\<rparr>) = core b" "core (b\<lparr>b_prev := p\<rparr>) = core b"
  by (simp_all add: core_def)

lemma core_link_front [simp]: "map core (link_front bs b) = map core bs"
  unfolding link_front_def Let_def by (simp add: map_core_update)

lemma core_unlink [simp]: "map core (unlink bs b) = map core bs"
  unfolding unlink_def Let_def by (simp add: map_core_update)


lemma linked_push:
  assumes l: "linked bs l" and b: "b < NBUF" "b \<notin> set l"
  shows "linked (link_front bs b) (b # l)"
proof -
  have len: "length bs = 31" and d: "distinct l" "set l \<subseteq> {..< 30}" and c: "circle (nextf bs) l" "circle (prevf bs) (rev l)"
    using l by (auto simp: linked_def)
  define n where "n = nextf bs HEAD"
  have n: "n = hd (l @ [HEAD])" using circle_hd [OF c(1)] by (simp add: n_def)
  then have n31: "n < 31" using circle_hd_bound [OF d(2)] by simp
  define bs1 where "bs1 = bs[b := (bs ! b)\<lparr>b_next := n, b_prev := HEAD\<rparr>]"
  define bs2 where "bs2 = bs1[n := (bs1 ! n)\<lparr>b_prev := b\<rparr>]"
  have h: "bs1 ! HEAD = bs ! HEAD" using b by (simp add: bs1_def)
  have lf: "link_front bs b = bs2[HEAD := (bs2 ! HEAD)\<lparr>b_next := b\<rparr>]"
  proof -
    have e1: "bs[b := (bs ! b)\<lparr>b_next := b_next (bs ! HEAD), b_prev := HEAD\<rparr>] = bs1"
      by (simp add: bs1_def n_def nextf_def)
    have e2: "b_next (bs1 ! HEAD) = n" by (simp add: h n_def nextf_def)
    show ?thesis unfolding link_front_def Let_def e1 e2 bs2_def [symmetric] ..
  qed
  have len2: "length bs1 = 31" "length bs2 = 31" by (simp_all add: bs1_def bs2_def len)
  have nx: "nextf (link_front bs b) = (nextf bs)(b := nextf bs HEAD, HEAD := b)"
    unfolding lf bs2_def bs1_def using b n31 len
    by (simp add: nextf_update) (simp add: nextf_def n_def fun_eq_iff)
  have pv: "prevf (link_front bs b) = (prevf bs)(b := HEAD, last (HEAD # rev l) := b)"
    unfolding lf bs2_def bs1_def last_rev_hd n [symmetric] using b n31 len
    by (simp add: prevf_update) (simp add: prevf_def fun_eq_iff nth_list_update)
  have "circle (nextf (link_front bs b)) (b # l)"
    unfolding nx using c(1) b d by (intro circle_push) auto
  moreover have "circle (prevf (link_front bs b)) (rev l @ [b])"
    unfolding pv using c(2) b d by (intro circle_snoc) auto
  ultimately show ?thesis using d b by (simp add: linked_def lf len2)
qed

lemma linked_unlink:
  assumes l: "linked bs (l1 @ b # l2)"
  shows "linked (unlink bs b) (l1 @ l2)"
proof -
  have len: "length bs = 31" and d: "distinct (l1 @ b # l2)" "set (l1 @ b # l2) \<subseteq> {..< 30}"
    and c: "circle (nextf bs) (l1 @ b # l2)" "circle (prevf bs) (rev l2 @ b # rev l1)"
    using l by (auto simp: linked_def)
  define n where "n = nextf bs b"
  define p where "p = prevf bs b"
  have n: "n = last (HEAD # rev l2)"
    using path_mid [OF c(1)] by (simp only: n_def last_rev_hd)
  have p: "p = last (HEAD # l1)"
    using path_mid [OF c(2)] last_rev_hd [of HEAD "rev l1"] by (simp only: p_def rev_rev_ident)
  have "n \<in> set (HEAD # rev l2)" "p \<in> set (HEAD # l1)" unfolding n p by (rule last_in_set, simp)+
  then have np: "n \<noteq> b" "p \<noteq> b" "n < 31" "p < 31" using d by auto
  define bs1 where "bs1 = bs[n := (bs ! n)\<lparr>b_prev := p\<rparr>]"
  have bb: "bs1 ! b = bs ! b" using np by (simp add: bs1_def)
  have ul: "unlink bs b = bs1[p := (bs1 ! p)\<lparr>b_next := n\<rparr>]"
  proof -
    have e1: "bs[b_next (bs ! b) := (bs ! b_next (bs ! b))\<lparr>b_prev := b_prev (bs ! b)\<rparr>] = bs1"
      by (simp add: bs1_def n_def p_def nextf_def prevf_def)
    have e2: "b_prev (bs1 ! b) = p" "b_next (bs1 ! b) = n" by (simp_all add: bb n_def p_def nextf_def prevf_def)
    show ?thesis unfolding unlink_def Let_def e1 e2 ..
  qed
  have nx: "nextf (unlink bs b) = (nextf bs)(p := n)"
    unfolding ul bs1_def using np len by (simp add: nextf_update) (simp add: nextf_def fun_eq_iff)
  have pv: "prevf (unlink bs b) = (prevf bs)(n := p)"
    unfolding ul bs1_def using np len by (simp add: prevf_update) (simp add: prevf_def fun_eq_iff nth_list_update)
  have "circle (nextf (unlink bs b)) (l1 @ l2)"
    unfolding nx p unfolding n_def using c(1) d by (intro circle_remove) auto
  moreover have "circle (prevf (unlink bs b)) (rev l2 @ rev l1)"
    unfolding pv n unfolding p_def using c(2) d by (intro circle_remove) auto
  moreover have "length (unlink bs b) = 31" by (simp add: ul bs1_def len)
  ultimately show ?thesis using d by (simp add: linked_def)
qed


lemma scan_path:
  "path (\<lambda>i. nx (bs ! i)) x l HEAD \<Longrightarrow> HEAD \<notin> set l \<Longrightarrow> length l < k \<Longrightarrow>
     scan nx P bs k (nx (bs ! x)) = Ok (find (\<lambda>i. P (bs ! i)) l)"
proof (induction l arbitrary: x k)
  case Nil
  then show ?case by (cases k) auto
next
  case (Cons i l)
  then obtain k' where "k = Suc k'" by (cases k) auto
  with Cons.prems Cons.IH [of i k'] show ?case by auto
qed

lemma linked_scans:
  assumes "linked bs l"
  shows "scan b_next P bs (NBUF + 1) (b_next (bs ! HEAD)) = Ok (find (\<lambda>i. P (bs ! i)) l)"
    and "scan b_prev P bs (NBUF + 1) (b_prev (bs ! HEAD)) = Ok (find (\<lambda>i. P (bs ! i)) (rev l))"
proof -
  have d: "distinct l" "set l \<subseteq> {..< 30}"
    and c: "path (\<lambda>i. b_next (bs ! i)) HEAD l HEAD" "path (\<lambda>i. b_prev (bs ! i)) HEAD (rev l) HEAD"
    using assms by (auto simp: linked_def nextf_def prevf_def [abs_def] nextf_def [abs_def])
  have "length l \<le> 30" using card_mono [OF _ d(2)] distinct_card [OF d(1)] by simp
  moreover have "HEAD \<notin> set l" using d(2) by auto
  ultimately show "scan b_next P bs (NBUF + 1) (b_next (bs ! HEAD)) = Ok (find (\<lambda>i. P (bs ! i)) l)"
    "scan b_prev P bs (NBUF + 1) (b_prev (bs ! HEAD)) = Ok (find (\<lambda>i. P (bs ! i)) (rev l))"
    using scan_path [OF c(1)] scan_path [OF c(2)] by simp_all
qed

section \<open>What the cache holds\<close>

text \<open>
  All that the rest of the kernel can see: the buffers without their list pointers.  Only the
  root device, number 1, is ever used; a buffer that was never used has device 0.
\<close>

definition cell :: "buf list \<Rightarrow> uint \<Rightarrow> buf option" where
  "cell cs bn = map_option (\<lambda>i. cs ! i) (find_idx (\<lambda>b. b_dev b = 1 \<and> b_blockno b = bn) cs)"

definition good :: "disks \<Rightarrow> buf \<Rightarrow> bool" where
  "good d b \<longleftrightarrow>
     (b_dev b = 1 \<and> b_valid b \<and> b_blockno b < 1000 \<or> b_dev b = 0 \<and> \<not> b_valid b \<and> \<not> b_dirty b \<and> \<not> sl_locked (b_lock b)) \<and>
     b_refcnt b = (if sl_locked (b_lock b) then 1 else 0) \<and>
     (b_dev b = 1 \<and> \<not> b_dirty b \<and> \<not> sl_locked (b_lock b) \<longrightarrow> b_data b = d (1, b_blockno b))"

definition cells_ok :: "disks \<Rightarrow> buf list \<Rightarrow> bool" where
  "cells_ok d cs \<longleftrightarrow> length cs = NBUF \<and> (\<forall>i < NBUF. good d (cs ! i)) \<and>
     (\<forall>i < NBUF. \<forall>j < NBUF. b_dev (cs ! i) = 1 \<and> b_dev (cs ! j) = 1 \<and> b_blockno (cs ! i) = b_blockno (cs ! j) \<longrightarrow> i = j)"

lemma cell_Some:
  assumes "cells_ok d cs"
  shows "cell cs bn = Some b \<longleftrightarrow> (\<exists>i < NBUF. cs ! i = b \<and> b_dev b = 1 \<and> b_blockno b = bn)"
proof
  assume "cell cs bn = Some b"
  then obtain i where "find_idx (\<lambda>b. b_dev b = 1 \<and> b_blockno b = bn) cs = Some i" "b = cs ! i"
    by (auto simp: cell_def)
  with find_idx_SomeD(1,2) [OF this(1)] assms show "\<exists>i < NBUF. cs ! i = b \<and> b_dev b = 1 \<and> b_blockno b = bn"
    by (auto simp: cells_ok_def)
next
  assume "\<exists>i < NBUF. cs ! i = b \<and> b_dev b = 1 \<and> b_blockno b = bn"
  then obtain i where i: "i < 30" "cs ! i = b" "b_dev b = 1" "b_blockno b = bn" by blast
  then have "find_idx (\<lambda>b. b_dev b = 1 \<and> b_blockno b = bn) cs = Some i"
    using assms unfolding find_idx_Some_iff cells_ok_def by (metis less_trans nat_neq_iff)
  then show "cell cs bn = Some b" using i by (simp add: cell_def)
qed

lemma cell_None:
  assumes "cells_ok d cs"
  shows "cell cs bn = None \<longleftrightarrow> (\<forall>i < NBUF. \<not> (b_dev (cs ! i) = 1 \<and> b_blockno (cs ! i) = bn))"
  using cell_Some [OF assms, of bn] by (metis not_None_eq)

text \<open>Replacing one buffer, by the same block or by a block that was not in the cache.\<close>

lemma cells_replace:
  assumes ok: "cells_ok d cs" and i: "i < NBUF"
    and b: "good d' b" "b_dev b = 1" and new: "\<And>j. j < NBUF \<Longrightarrow> j \<noteq> i \<Longrightarrow> \<not> (b_dev (cs ! j) = 1 \<and> b_blockno (cs ! j) = b_blockno b)"
    and d': "\<And>bn. bn \<noteq> b_blockno b \<Longrightarrow> d' (1, bn) = d (1, bn)"
  shows "cells_ok d' (cs[i := b])"
    and "cell (cs[i := b]) bn = (if bn = b_blockno b then Some b
      else if b_dev (cs ! i) = 1 \<and> bn = b_blockno (cs ! i) then None else cell cs bn)"
proof -
  have len: "length cs = 30" and gd: "\<And>j. j < 30 \<Longrightarrow> good d (cs ! j)"
    and un: "\<And>j k. j < 30 \<Longrightarrow> k < 30 \<Longrightarrow> b_dev (cs ! j) = 1 \<Longrightarrow> b_dev (cs ! k) = 1 \<Longrightarrow>
      b_blockno (cs ! j) = b_blockno (cs ! k) \<Longrightarrow> j = k"
    using ok unfolding cells_ok_def by blast+
  have nth: "cs[i := b] ! j = (if j = i then b else cs ! j)" if "j < 30" for j
    using i len that by simp
  have gd': "good d' (cs[i := b] ! j)" if "j < 30" for j
  proof (cases "j = i")
    case False
    have "good d (cs ! j)" using gd that by blast
    moreover have "d' (1, b_blockno (cs ! j)) = d (1, b_blockno (cs ! j))" if "b_dev (cs ! j) = 1"
      using new [of j] False \<open>j < 30\<close> that by (intro d') auto
    ultimately show ?thesis using False by (auto simp: good_def)
  qed (use b i len in simp)
  have un': "j = k" if "j < 30" "k < 30" "b_dev (cs[i := b] ! j) = 1" "b_dev (cs[i := b] ! k) = 1"
    "b_blockno (cs[i := b] ! j) = b_blockno (cs[i := b] ! k)" for j k
    using that un [of j k] new [of j] new [of k] b(2) by (auto simp: nth split: if_splits)
  show ok': "cells_ok d' (cs[i := b])"
    unfolding cells_ok_def using len gd' un' by simp
  show "cell (cs[i := b]) bn = (if bn = b_blockno b then Some b
      else if b_dev (cs ! i) = 1 \<and> bn = b_blockno (cs ! i) then None else cell cs bn)"
  proof -
    consider "bn = b_blockno b" | "bn \<noteq> b_blockno b" "b_dev (cs ! i) = 1" "bn = b_blockno (cs ! i)"
      | "bn \<noteq> b_blockno b" "\<not> (b_dev (cs ! i) = 1 \<and> bn = b_blockno (cs ! i))" by blast
    then show ?thesis
    proof cases
      case 1
      then have "cell (cs[i := b]) bn = Some b" unfolding cell_Some [OF ok']
        using i b nth [OF i] by (intro exI [of _ i]) simp
      with 1 show ?thesis by simp
    next
      case 2
      have "cell (cs[i := b]) bn = None"
        unfolding cell_None [OF ok']
      proof (intro allI impI)
        fix j :: nat assume "j < NBUF"
        then show "\<not> (b_dev (cs[i := b] ! j) = 1 \<and> b_blockno (cs[i := b] ! j) = bn)"
          using 2 un [OF _ i, of j] by (cases "j = i") (auto simp: nth)
      qed
      with 2 show ?thesis by simp
    next
      case 3
      have "cell (cs[i := b]) bn = cell cs bn"
      proof (cases "cell cs bn")
        case None
        then have "\<forall>i < NBUF. \<not> (b_dev (cs ! i) = 1 \<and> b_blockno (cs ! i) = bn)" unfolding cell_None [OF ok] .
        then show ?thesis unfolding None cell_None [OF ok'] using 3 by (auto simp: nth)
      next
        case (Some c)
        then obtain j where "j < 30" "cs ! j = c" "b_dev c = 1" "b_blockno c = bn" unfolding cell_Some [OF ok] by blast
        moreover from this 3 have "j \<noteq> i" by auto
        ultimately show ?thesis unfolding Some cell_Some [OF ok'] by (intro exI [of _ j]) (simp add: nth)
      qed
      with 3 show ?thesis by auto
    qed
  qed
qed


section \<open>The state of the cache\<close>

definition cells :: "bcache \<Rightarrow> buf list" where
  "cells s = take NBUF (map core (bufs s))"

definition bio_ok :: "bcache \<Rightarrow> bool" where
  "bio_ok s \<longleftrightarrow> havedisk1 s \<and> (\<exists>l. linked (bufs s) l \<and> set l = {..< NBUF}) \<and> cells_ok (bc_disks s) (cells s)"

text \<open>The contents of a block, on the disk and as the kernel sees it.\<close>

definition disk_block :: "bcache \<Rightarrow> uint \<Rightarrow> block" where
  "disk_block s bn = bc_disks s (1, bn)"

definition bview :: "bcache \<Rightarrow> uint \<Rightarrow> block" where
  "bview s bn = (case cell (cells s) bn of Some b \<Rightarrow> b_data b | None \<Rightarrow> disk_block s bn)"

definition dirty_blocks :: "bcache \<Rightarrow> uint set" where
  "dirty_blocks s = {bn. \<exists>b. cell (cells s) bn = Some b \<and> b_dirty b}"

definition locked_blocks :: "bcache \<Rightarrow> uint set" where
  "locked_blocks s = {bn. \<exists>b. cell (cells s) bn = Some b \<and> sl_locked (b_lock b)}"

text \<open>Process \<open>pid\<close> holds buffer \<open>i\<close> with block \<open>bn\<close>.\<close>

definition bheld :: "int \<Rightarrow> bcache \<Rightarrow> nat \<Rightarrow> uint \<Rightarrow> bool" where
  "bheld pid s i bn \<longleftrightarrow> i < NBUF \<and> b_dev (bufs s ! i) = 1 \<and> b_blockno (bufs s ! i) = bn \<and>
     holdingsleep pid (b_lock (bufs s ! i))"

lemma core_fields [simp]:
  "b_dev (core b) = b_dev b" "b_blockno (core b) = b_blockno b" "b_valid (core b) = b_valid b"
  "b_dirty (core b) = b_dirty b" "b_lock (core b) = b_lock b" "b_refcnt (core b) = b_refcnt b"
  "b_data (core b) = b_data b"
  by (simp_all add: core_def)

lemma good_core [simp]: "good d (core b) = good d b"
  by (simp add: good_def)

lemma bio_okD:
  assumes "bio_ok s"
  shows "length (bufs s) = 31" "length (cells s) = 30" "cells_ok (bc_disks s) (cells s)" "havedisk1 s"
    "\<And>i. i < 30 \<Longrightarrow> cells s ! i = core (bufs s ! i)" "\<And>i. i < 30 \<Longrightarrow> good (bc_disks s) (bufs s ! i)"
proof -
  show l: "length (bufs s) = 31" "length (cells s) = 30" "cells_ok (bc_disks s) (cells s)" "havedisk1 s"
    using assms by (auto simp: bio_ok_def linked_def cells_def)
  show c: "\<And>i. i < 30 \<Longrightarrow> cells s ! i = core (bufs s ! i)" using l by (simp add: cells_def)
  show "\<And>i. i < 30 \<Longrightarrow> good (bc_disks s) (bufs s ! i)" using l c by (metis cells_ok_def good_core)
qed

lemma bio_cell_Some:
  assumes "bio_ok s"
  shows "cell (cells s) bn = Some b \<longleftrightarrow> (\<exists>i < NBUF. core (bufs s ! i) = b \<and> b_dev b = 1 \<and> b_blockno b = bn)"
  unfolding cell_Some [OF bio_okD(3) [OF assms]] using bio_okD(5) [OF assms] by auto

lemma bio_cell_at:
  assumes "bio_ok s" and "i < NBUF" and "b_dev (bufs s ! i) = 1"
  shows "cell (cells s) (b_blockno (bufs s ! i)) = Some (core (bufs s ! i))"
  unfolding bio_cell_Some [OF assms(1)] using assms(2,3) by (intro exI [of _ i]) simp

lemma bio_unique:
  assumes "bio_ok s" "i < NBUF" "j < NBUF" "b_dev (bufs s ! i) = 1" "b_dev (bufs s ! j) = 1"
    "b_blockno (bufs s ! i) = b_blockno (bufs s ! j)"
  shows "i = j"
proof -
  have "b_dev (cells s ! i) = 1 \<and> b_dev (cells s ! j) = 1 \<and> b_blockno (cells s ! i) = b_blockno (cells s ! j) \<longrightarrow> i = j"
    using bio_okD(3) [OF assms(1)] assms(2,3) unfolding cells_ok_def by blast
  then show ?thesis using assms bio_okD(5) [OF assms(1)] by simp
qed

lemma cells_set_b [simp]: "i < NBUF \<Longrightarrow> cells (set_b s i b) = (cells s)[i := core b]"
  by (simp add: cells_def set_b_def map_update take_update_swap)

lemma linked_set_b:
  assumes "linked bs l" and "i < length bs" and "b_next b = b_next (bs ! i)" and "b_prev b = b_prev (bs ! i)"
  shows "linked (bs[i := b]) l"
proof -
  have "nextf (bs[i := b]) = nextf bs" "prevf (bs[i := b]) = prevf bs"
    using assms by (simp_all add: nextf_update prevf_update nextf_def prevf_def fun_upd_idem)
  with assms(1) show ?thesis by (simp add: linked_def)
qed

text \<open>Changing a buffer that stays on its place in the list; \<open>d'\<close> are the disks afterwards.\<close>

lemma bio_set:
  assumes ok: "bio_ok s" and i: "i < NBUF" and b: "good d' b" "b_dev b = 1"
    and lk: "b_next b = b_next (bufs s ! i)" "b_prev b = b_prev (bufs s ! i)"
    and new: "\<And>j. j < NBUF \<Longrightarrow> j \<noteq> i \<Longrightarrow> \<not> (b_dev (bufs s ! j) = 1 \<and> b_blockno (bufs s ! j) = b_blockno b)"
    and d': "\<And>bn. bn \<noteq> b_blockno b \<Longrightarrow> d' (1, bn) = bc_disks s (1, bn)"
    and s': "bufs s' = (bufs s)[i := b]" "bc_disks s' = d'" "havedisk1 s' = havedisk1 s"
  shows "bio_ok s'"
    and "cell (cells s') bn = (if bn = b_blockno b then Some (core b)
      else if b_dev (bufs s ! i) = 1 \<and> bn = b_blockno (bufs s ! i) then None else cell (cells s) bn)"
proof -
  have cs: "cells s' = (cells s)[i := core b]"
    using i s'(1) cells_set_b [of i s b] by (simp add: cells_def set_b_def)
  have n: "\<not> (b_dev (cells s ! j) = 1 \<and> b_blockno (cells s ! j) = b_blockno (core b))" if "j < NBUF" "j \<noteq> i" for j
    using new [OF that] bio_okD(5) [OF ok that(1)] by simp
  have "cells_ok d' ((cells s)[i := core b])"
    by (rule cells_replace(1) [OF bio_okD(3) [OF ok] i _ _ n]) (use b d' in auto)
  moreover obtain l where "linked (bufs s) l" "set l = {..< NBUF}" using ok by (auto simp: bio_ok_def)
  then have "linked (bufs s') l \<and> set l = {..< NBUF}"
    using i lk bio_okD(1) [OF ok] by (simp add: s'(1) linked_set_b)
  ultimately show "bio_ok s'" using bio_okD(4) [OF ok] by (auto simp: bio_ok_def cs s')
  have "cell ((cells s)[i := core b]) bn = (if bn = b_blockno (core b) then Some (core b)
      else if b_dev (cells s ! i) = 1 \<and> bn = b_blockno (cells s ! i) then None else cell (cells s) bn)"
    by (rule cells_replace(2) [OF bio_okD(3) [OF ok] i _ _ n, of d']) (use b d' in auto)
  then show "cell (cells s') bn = (if bn = b_blockno b then Some (core b)
      else if b_dev (bufs s ! i) = 1 \<and> bn = b_blockno (bufs s ! i) then None else cell (cells s) bn)"
    using bio_okD(5) [OF ok i] by (simp add: cs)
qed


lemma bio_set_same:
  assumes ok: "bio_ok s" and i: "i < NBUF" "b_dev (bufs s ! i) = 1"
    and b: "good d' b" "b_dev b = 1" "b_blockno b = b_blockno (bufs s ! i)"
    and lk: "b_next b = b_next (bufs s ! i)" "b_prev b = b_prev (bufs s ! i)"
    and d': "\<And>bn. bn \<noteq> b_blockno b \<Longrightarrow> d' (1, bn) = bc_disks s (1, bn)"
    and s': "bufs s' = (bufs s)[i := b]" "bc_disks s' = d'" "havedisk1 s' = havedisk1 s"
  shows "bio_ok s'" and "cell (cells s') = (cell (cells s))(b_blockno b := Some (core b))"
proof -
  have new: "\<not> (b_dev (bufs s ! j) = 1 \<and> b_blockno (bufs s ! j) = b_blockno b)" if "j < NBUF" "j \<noteq> i" for j
    using bio_unique [OF ok that(1) i(1)] that i(2) b(3) by auto
  note st = bio_set [OF ok i(1) b(1,2) lk new d' s']
  show "bio_ok s'" by (rule st(1))
  show "cell (cells s') = (cell (cells s))(b_blockno b := Some (core b))"
    using st(2) b(3) by (auto simp: fun_eq_iff)
qed

definition locked_by :: "int \<Rightarrow> sleeplock \<Rightarrow> sleeplock" where
  "locked_by pid lk = lk\<lparr>sl_locked := True, sl_pid := pid\<rparr>"

lemma lock_buf_eq:
  "lock_buf pid s i b = (if sl_locked (b_lock b) then Blocked
     else Ok (i, set_b s i (b\<lparr>b_lock := locked_by pid (b_lock b)\<rparr>)))"
  by (simp add: lock_buf_def acquiresleep_def locked_by_def)

lemma find_in: "find P l = Some i \<Longrightarrow> i \<in> set l \<and> P i"
  by (auto simp: find_Some_iff)

lemma bread_hit:
  assumes ok: "bio_ok s" and c: "cell (cells s) bn = Some c"
  obtains i where "i < NBUF" "core (bufs s ! i) = c" "b_dev (bufs s ! i) = 1" "b_blockno (bufs s ! i) = bn"
    "bread pid s 1 bn = (if sl_locked (b_lock c) then Blocked
       else Ok (i, set_b s i ((bufs s ! i)\<lparr>b_refcnt := b_refcnt (bufs s ! i) + 1,
              b_lock := locked_by pid (b_lock (bufs s ! i))\<rparr>)))"
proof -
  obtain l where l: "linked (bufs s) l" "set l = {..< NBUF}" using ok by (auto simp: bio_ok_def)
  obtain i where i: "i < 30" "core (bufs s ! i) = c" "b_dev c = 1" "b_blockno c = bn"
    using c unfolding bio_cell_Some [OF ok] by blast
  then have i': "b_dev (bufs s ! i) = 1" "b_blockno (bufs s ! i) = bn" by auto
  have "find (\<lambda>i. b_dev (bufs s ! i) = 1 \<and> b_blockno (bufs s ! i) = bn) l = Some i"
  proof -
    obtain j where j: "find (\<lambda>i. b_dev (bufs s ! i) = 1 \<and> b_blockno (bufs s ! i) = bn) l = Some j"
      using i i' l(2) by (cases "find (\<lambda>i. b_dev (bufs s ! i) = 1 \<and> b_blockno (bufs s ! i) = bn) l")
        (auto simp: find_None_iff)
    then have "j \<in> set l" "b_dev (bufs s ! j) = 1" "b_blockno (bufs s ! j) = bn"
      by (auto simp: find_Some_iff)
    then have "j = i" using bio_unique [OF ok, of j i] i(1) i' l(2) by auto
    with j show ?thesis by simp
  qed
  then have sc: "scan b_next (\<lambda>b. b_dev b = 1 \<and> b_blockno b = bn) (bufs s) (NBUF + 1) (b_next (bufs s ! HEAD)) = Ok (Some i)"
    using linked_scans(1) [OF l(1)] by simp
  have v: "b_valid (bufs s ! i)" using bio_okD(6) [OF ok i(1)] i' by (simp add: good_def)
  have lkc: "sl_locked (b_lock c) = sl_locked (b_lock (bufs s ! i))" using i(2) by auto
  have len: "i < length (bufs s)" using i(1) bio_okD(1) [OF ok] by simp
  have "bread pid s 1 bn = (if sl_locked (b_lock c) then Blocked
       else Ok (i, set_b s i ((bufs s ! i)\<lparr>b_refcnt := b_refcnt (bufs s ! i) + 1,
              b_lock := locked_by pid (b_lock (bufs s ! i))\<rparr>)))"
    unfolding bread_def bget_def sc using v len by (simp add: lock_buf_eq Let_def lkc set_b_def)
  then show ?thesis using that i i' by blast
qed

lemma bread_miss:
  assumes ok: "bio_ok s" and c: "cell (cells s) bn = None" and bn: "bn < 1000"
    and free: "\<exists>i < NBUF. b_refcnt (bufs s ! i) = 0 \<and> \<not> b_dirty (bufs s ! i)"
  obtains i where "i < NBUF" "b_refcnt (bufs s ! i) = 0" "\<not> b_dirty (bufs s ! i)"
    "bread pid s 1 bn = Ok (i, set_b s i ((bufs s ! i)\<lparr>b_dev := 1, b_blockno := bn, b_dirty := False,
       b_refcnt := 1, b_lock := locked_by pid (b_lock (bufs s ! i)), b_valid := True, b_data := bc_disks s (1, bn)\<rparr>))"
proof -
  obtain l where l: "linked (bufs s) l" "set l = {..< NBUF}" using ok by (auto simp: bio_ok_def)
  have none: "find (\<lambda>i. b_dev (bufs s ! i) = 1 \<and> b_blockno (bufs s ! i) = bn) l = None"
    unfolding find_None_iff using c cell_None [OF bio_okD(3) [OF ok], of bn] l(2) bio_okD(5) [OF ok] by auto
  obtain i where f: "find (\<lambda>i. b_refcnt (bufs s ! i) = 0 \<and> \<not> b_dirty (bufs s ! i)) (rev l) = Some i"
    using free l(2) by (cases "find (\<lambda>i. b_refcnt (bufs s ! i) = 0 \<and> \<not> b_dirty (bufs s ! i)) (rev l)")
      (auto simp: find_None_iff)
  from find_in [OF f] have "i \<in> set (rev l)" and i: "b_refcnt (bufs s ! i) = 0" "\<not> b_dirty (bufs s ! i)"
    by auto
  then have i30: "i < 30" using l(2) by auto
  have ul: "\<not> sl_locked (b_lock (bufs s ! i))" using bio_okD(6) [OF ok i30] i by (auto simp: good_def split: if_splits)
  have sc: "scan b_next (\<lambda>b. b_dev b = 1 \<and> b_blockno b = bn) (bufs s) (NBUF + 1) (b_next (bufs s ! HEAD)) = Ok None"
    "scan b_prev (\<lambda>b. b_refcnt b = 0 \<and> \<not> b_dirty b) (bufs s) (NBUF + 1) (b_prev (bufs s ! HEAD)) = Ok (Some i)"
    using linked_scans [OF l(1)] none f by simp_all
  have len: "i < length (bufs s)" using i30 bio_okD(1) [OF ok] by simp
  have "bread pid s 1 bn = Ok (i, set_b s i ((bufs s ! i)\<lparr>b_dev := 1, b_blockno := bn, b_dirty := False,
       b_refcnt := 1, b_lock := locked_by pid (b_lock (bufs s ! i)), b_valid := True, b_data := bc_disks s (1, bn)\<rparr>))"
    unfolding bread_def bget_def sc using ul len bn bio_okD(4) [OF ok]
    by (simp add: lock_buf_eq set_b_def do_iderw_def iderw_sync_def iderw_check_def holdingsleep_def locked_by_def
        rw_def bkey_def Let_def flip: linorder_not_less)
  then show ?thesis using that i i30 by blast
qed


lemma bread_miss_ok:
  assumes ok: "bio_ok s" and c: "cell (cells s) bn = None" and r: "bread pid s 1 bn = Ok (i, s')"
  shows "bn < 1000" and "\<exists>i < NBUF. b_refcnt (bufs s ! i) = 0 \<and> \<not> b_dirty (bufs s ! i)"
proof -
  obtain l where l: "linked (bufs s) l" "set l = {..< NBUF}" using ok by (auto simp: bio_ok_def)
  have "find (\<lambda>i. b_dev (bufs s ! i) = 1 \<and> b_blockno (bufs s ! i) = bn) l = None"
    unfolding find_None_iff using c cell_None [OF bio_okD(3) [OF ok], of bn] l(2) bio_okD(5) [OF ok] by auto
  then have "scan b_next (\<lambda>b. b_dev b = 1 \<and> b_blockno b = bn) (bufs s) (NBUF + 1) (b_next (bufs s ! HEAD)) = Ok None"
    using linked_scans [OF l(1)] by simp
  with r obtain s1 k where f: "find (\<lambda>i. b_refcnt (bufs s ! i) = 0 \<and> \<not> b_dirty (bufs s ! i)) (rev l) = Some k"
    unfolding bread_def bget_def linked_scans(2) [OF l(1)]
    by (auto simp: obind_eq_Ok split: option.splits)
  from find_in [OF this] l(2) show free: "\<exists>i < NBUF. b_refcnt (bufs s ! i) = 0 \<and> \<not> b_dirty (bufs s ! i)"
    by (intro exI [of _ k]) auto
  have k: "k < 30" using find_in [OF f] l(2) by auto
  show "bn < 1000"
    using r \<open>scan b_next _ _ _ _ = Ok None\<close> k bio_okD(1) [OF ok]
    unfolding bread_def bget_def linked_scans(2) [OF l(1)] f
    by (auto simp: obind_eq_Ok lock_buf_eq set_b_def do_iderw_def iderw_sync_def Let_def not_le split: if_splits option.splits)
qed

section \<open>The contract of the cache\<close>

text \<open>A miss needs a buffer that is neither in use nor waiting for the log.\<close>

lemma free_buffer:
  assumes ok: "bio_ok s" and few: "card (dirty_blocks s \<union> locked_blocks s) < NBUF"
  shows "\<exists>i < NBUF. b_refcnt (bufs s ! i) = 0 \<and> \<not> b_dirty (bufs s ! i)"
proof (rule ccontr)
  assume no: "\<not> ?thesis"
  have all: "b_dev (bufs s ! i) = 1 \<and> b_blockno (bufs s ! i) \<in> dirty_blocks s \<union> locked_blocks s" if "i < 30" for i
  proof -
    have "b_refcnt (bufs s ! i) \<noteq> 0 \<or> b_dirty (bufs s ! i)" using no that by blast
    with bio_okD(6) [OF ok that] have use: "b_dev (bufs s ! i) = 1" "sl_locked (b_lock (bufs s ! i)) \<or> b_dirty (bufs s ! i)"
      by (auto simp: good_def split: if_splits)
    with bio_cell_at [OF ok that] show ?thesis by (auto simp: dirty_blocks_def locked_blocks_def)
  qed
  have "inj_on (\<lambda>i. b_blockno (bufs s ! i)) {..< 30}"
    using bio_unique [OF ok] all by (auto simp: inj_on_def)
  then have "30 = card ((\<lambda>i. b_blockno (bufs s ! i)) ` {..< 30})" by (simp add: card_image)
  also have "\<dots> \<le> card (dirty_blocks s \<union> locked_blocks s)"
  proof (rule card_mono)
    have "dirty_blocks s \<union> locked_blocks s \<subseteq> (\<lambda>i. b_blockno (bufs s ! i)) ` {..< 30}"
      using bio_cell_Some [OF ok] by (fastforce simp: dirty_blocks_def locked_blocks_def)
    then show "finite (dirty_blocks s \<union> locked_blocks s)" by (rule finite_subset) simp
    show "(\<lambda>i. b_blockno (bufs s ! i)) ` {..< 30} \<subseteq> dirty_blocks s \<union> locked_blocks s" using all by auto
  qed
  finally show False using few by simp
qed

lemma bread_total:
  assumes ok: "bio_ok s" and "bn < 1000" and "bn \<notin> locked_blocks s"
    and "bn \<in> dirty_blocks s \<or> card (dirty_blocks s \<union> locked_blocks s) < NBUF"
  shows "\<exists>i s'. bread pid s 1 bn = Ok (i, s')"
proof (cases "cell (cells s) bn")
  case None
  then have "bn \<notin> dirty_blocks s" by (simp add: dirty_blocks_def)
  with assms(4) have "card (dirty_blocks s \<union> locked_blocks s) < NBUF" by simp
  from bread_miss [OF ok None assms(2) free_buffer [OF ok this]] show ?thesis by metis
next
  case (Some c)
  then have "\<not> sl_locked (b_lock c)" using assms(3) by (auto simp: locked_blocks_def)
  with bread_hit [OF ok Some] show ?thesis by (metis (full_types))
qed

text \<open>What \<^verbatim>\<open>bread\<close> does when it returns: it changes no block, only the lock.\<close>

lemma bread_update:
  assumes ok: "bio_ok s" and r: "bread pid s 1 bn = Ok (i, s')"
  shows "bio_ok s' \<and> bn \<notin> locked_blocks s \<and> bheld pid s' i bn \<and> b_data (bufs s' ! i) = bview s bn \<and>
    bc_disks s' = bc_disks s \<and> wlog s' = wlog s \<and> bview s' = bview s \<and> dirty_blocks s' = dirty_blocks s \<and>
    locked_blocks s' = insert bn (locked_blocks s) \<and> (\<forall>j c. bheld p s j c \<longrightarrow> bheld p s' j c)"
proof (cases "cell (cells s) bn")
  case (Some c)
  show ?thesis
  proof (rule bread_hit [OF ok Some, of pid])
    fix j
    assume j: "j < 30" "core (bufs s ! j) = c" "b_dev (bufs s ! j) = 1" "b_blockno (bufs s ! j) = bn"
      and e: "bread pid s 1 bn = (if sl_locked (b_lock c) then Blocked
       else Ok (j, set_b s j ((bufs s ! j)\<lparr>b_refcnt := b_refcnt (bufs s ! j) + 1, b_lock := locked_by pid (b_lock (bufs s ! j))\<rparr>)))"
    let ?b = "(bufs s ! j)\<lparr>b_refcnt := b_refcnt (bufs s ! j) + 1, b_lock := locked_by pid (b_lock (bufs s ! j))\<rparr>"
    have cf: "sl_locked (b_lock c) = sl_locked (b_lock (bufs s ! j))" "b_data c = b_data (bufs s ! j)"
      "b_dirty c = b_dirty (bufs s ! j)" using j(2) by auto
    have ul: "\<not> sl_locked (b_lock (bufs s ! j))" and s': "i = j" "s' = set_b s j ?b"
      using e r cf(1) by (auto split: if_splits)
    have g: "good (bc_disks s) (bufs s ! j)" by (rule bio_okD(6) [OF ok j(1)])
    have gb: "good (bc_disks s) ?b" using g ul j by (simp add: good_def locked_by_def)
    have set: "bio_ok s'" "cell (cells s') = (cell (cells s))(bn := Some (core ?b))"
      using bio_set_same [OF ok j(1,3) gb, of s'] j(3,4) by (simp_all add: s' set_b_def)
    have len: "length (bufs s) = 31" by (rule bio_okD(1) [OF ok])
    have held: "bheld p s k d \<Longrightarrow> bheld p s' k d" for k d
      using ul len j(1) by (cases "k = j") (auto simp: bheld_def s' set_b_def holdingsleep_def)
    have dsk: "bc_disks s' = bc_disks s" "wlog s' = wlog s" by (simp_all add: s' set_b_def)
    have "bview s' = bview s"
      by (rule ext) (use Some cf in \<open>simp add: bview_def set(2) disk_block_def dsk split: option.split\<close>)
    moreover have "dirty_blocks s' = dirty_blocks s" using Some cf by (auto simp: dirty_blocks_def set(2))
    moreover have "locked_blocks s' = insert bn (locked_blocks s)" using Some cf ul
      by (auto simp: locked_blocks_def set(2) locked_by_def)
    moreover have "bheld pid s' i bn" "b_data (bufs s' ! i) = bview s bn"
      using Some cf j len by (simp_all add: bheld_def bview_def s' set_b_def holdingsleep_def locked_by_def)
    moreover have "bn \<notin> locked_blocks s" using Some cf ul by (simp add: locked_blocks_def)
    ultimately show ?thesis using set(1) held dsk by blast
  qed
next
  case None
  then have nl: "bn \<notin> locked_blocks s" by (simp add: locked_blocks_def)
  have bn: "bn < 1000" and free: "\<exists>i < NBUF. b_refcnt (bufs s ! i) = 0 \<and> \<not> b_dirty (bufs s ! i)"
    using bread_miss_ok [OF ok None r] by blast+
  show ?thesis
  proof (rule bread_miss [OF ok None bn free, of pid])
    fix j
    let ?b = "(bufs s ! j)\<lparr>b_dev := 1, b_blockno := bn, b_dirty := False,
       b_refcnt := 1, b_lock := locked_by pid (b_lock (bufs s ! j)), b_valid := True, b_data := bc_disks s (1, bn)\<rparr>"
    assume j: "j < 30" "b_refcnt (bufs s ! j) = 0" "\<not> b_dirty (bufs s ! j)"
      and e: "bread pid s 1 bn = Ok (j, set_b s j ?b)"
    have s': "i = j" "s' = set_b s j ?b" using e r by auto
    have g: "good (bc_disks s) (bufs s ! j)" by (rule bio_okD(6) [OF ok j(1)])
    then have ul: "\<not> sl_locked (b_lock (bufs s ! j))" using j by (auto simp: good_def split: if_splits)
    have gb: "good (bc_disks s) ?b" using bn by (simp add: good_def locked_by_def)
    have new: "\<not> (b_dev (bufs s ! k) = 1 \<and> b_blockno (bufs s ! k) = b_blockno ?b)" if "k < NBUF" for k
      using None cell_None [OF bio_okD(3) [OF ok], of bn] that bio_okD(5) [OF ok that] by auto
    note st = bio_set [OF ok j(1) gb _ _ _ new, of s', simplified]
    have dsk: "bc_disks s' = bc_disks s" "wlog s' = wlog s" by (simp_all add: s' set_b_def)
    have ok': "bio_ok s'" by (rule st(1)) (simp_all add: s' set_b_def)
    have cl: "cell (cells s') c = (if c = bn then Some (core ?b)
      else if b_dev (bufs s ! j) = 1 \<and> c = b_blockno (bufs s ! j) then None else cell (cells s) c)" for c
      by (rule st(2)) (simp_all add: s' set_b_def)
    have old: "cell (cells s) (b_blockno (bufs s ! j)) = Some (core (bufs s ! j))" if "b_dev (bufs s ! j) = 1"
      by (rule bio_cell_at [OF ok j(1) that])
    have len: "length (bufs s) = 31" by (rule bio_okD(1) [OF ok])
    have held: "bheld p s k d \<Longrightarrow> bheld p s' k d" for k d
      using ul len j(1) by (cases "k = j") (auto simp: bheld_def s' set_b_def holdingsleep_def)
    have "bview s' = bview s"
    proof (rule ext)
      fix c
      have "b_data (bufs s ! j) = bc_disks s (1, b_blockno (bufs s ! j))" if "b_dev (bufs s ! j) = 1"
        using g ul j(3) that by (simp add: good_def)
      then show "bview s' c = bview s c"
        using None old by (simp add: bview_def cl disk_block_def dsk split: option.split)
    qed
    moreover have "dirty_blocks s' = dirty_blocks s" using None old j by (auto simp: dirty_blocks_def cl split: if_splits)
    moreover have "locked_blocks s' = insert bn (locked_blocks s)" using None old ul
      by (auto simp: locked_blocks_def cl locked_by_def split: if_splits)
    moreover have "bheld pid s' i bn" "b_data (bufs s' ! i) = bview s bn"
      using None j len by (simp_all add: bheld_def bview_def disk_block_def s' set_b_def holdingsleep_def locked_by_def)
    ultimately show ?thesis using ok' held dsk nl by blast
  qed
qed


text \<open>Changing the bytes of a held buffer, and the mark that keeps it in the cache for the log.\<close>

definition bset :: "bcache \<Rightarrow> nat \<Rightarrow> block \<Rightarrow> bcache" where
  "bset s i d = set_b s i ((bufs s ! i)\<lparr>b_data := d\<rparr>)"

definition bpin :: "bcache \<Rightarrow> nat \<Rightarrow> bcache" where
  "bpin s i = set_b s i ((bufs s ! i)\<lparr>b_dirty := True\<rparr>)"

lemma bheld_cell:
  assumes "bio_ok s" and "bheld pid s i bn"
  shows "cell (cells s) bn = Some (core (bufs s ! i))" and "bview s bn = b_data (bufs s ! i)" and "bn \<in> locked_blocks s"
  using assms bio_cell_at [OF assms(1), of i] by (auto simp: bheld_def bview_def locked_blocks_def holdingsleep_def)

text \<open>All changes to a held buffer have this form.\<close>

lemma held_set:
  assumes ok: "bio_ok s" and h: "bheld pid s i bn"
    and b: "good d' b" "b_dev b = 1" "b_blockno b = bn" "b_lock b = b_lock (bufs s ! i)"
    and lk: "b_next b = b_next (bufs s ! i)" "b_prev b = b_prev (bufs s ! i)"
    and d': "\<And>c. c \<noteq> bn \<Longrightarrow> d' (1, c) = bc_disks s (1, c)"
    and s': "bufs s' = (bufs s)[i := b]" "bc_disks s' = d'" "havedisk1 s' = havedisk1 s"
  shows "bio_ok s'" and "bview s' = (bview s)(bn := b_data b)" and "locked_blocks s' = locked_blocks s"
    and "dirty_blocks s' = (if b_dirty b then insert bn (dirty_blocks s) else dirty_blocks s - {bn})"
    and "bheld p s j c \<Longrightarrow> bheld p s' j c" and "bufs s' ! i = b"
proof -
  have i: "i < 30" "b_dev (bufs s ! i) = 1" "b_blockno b = b_blockno (bufs s ! i)" using h b(3) by (auto simp: bheld_def)
  have cl: "cell (cells s') = (cell (cells s))(bn := Some (core b))"
    using bio_set_same(2) [OF ok i(1,2) b(1,2) i(3) lk _ s'] d' b(3) by simp
  show "bio_ok s'" using bio_set_same(1) [OF ok i(1,2) b(1,2) i(3) lk _ s'] d' b(3) by simp
  note c = bheld_cell [OF ok h]
  show "bview s' = (bview s)(bn := b_data b)"
  proof (rule ext)
    fix x
    show "bview s' x = ((bview s)(bn := b_data b)) x"
      using d' [of x] by (simp add: bview_def cl disk_block_def s'(2) split: option.split)
  qed
  show "locked_blocks s' = locked_blocks s"
    using c(1) b(4) by (auto simp: locked_blocks_def cl)
  show "dirty_blocks s' = (if b_dirty b then insert bn (dirty_blocks s) else dirty_blocks s - {bn})"
    by (auto simp: dirty_blocks_def cl)
  have len: "i < length (bufs s)" using i(1) bio_okD(1) [OF ok] by simp
  then show "bufs s' ! i = b" by (simp add: s'(1))
  show "bheld p s' j c" if "bheld p s j c"
  proof (cases "j = i")
    case True
    with that i b len show ?thesis by (simp add: bheld_def s'(1))
  next
    case False
    with that show ?thesis by (simp add: bheld_def s'(1))
  qed
qed

lemma held_good:
  assumes "bio_ok s" and "bheld pid s i bn"
  shows "b_valid (bufs s ! i)" "bn < 1000" "b_refcnt (bufs s ! i) = 1" "sl_locked (b_lock (bufs s ! i))"
    "b_dev (bufs s ! i) = 1" "b_blockno (bufs s ! i) = bn" "i < 30" "i < length (bufs s)"
    "holdingsleep pid (b_lock (bufs s ! i))"
  using bio_okD(1) [OF assms(1)] bio_okD(6) [OF assms(1), of i] assms(2)
  by (auto simp: bheld_def good_def holdingsleep_def split: if_splits)

lemma bset_update:
  assumes ok: "bio_ok s" and h: "bheld pid s i bn"
  shows "bio_ok (bset s i d)" "bview (bset s i d) = (bview s)(bn := d)" "locked_blocks (bset s i d) = locked_blocks s"
    "dirty_blocks (bset s i d) = dirty_blocks s" "bheld p s j c \<Longrightarrow> bheld p (bset s i d) j c"
    "b_data (bufs (bset s i d) ! i) = d" "bc_disks (bset s i d) = bc_disks s" "wlog (bset s i d) = wlog s"
proof -
  let ?b = "(bufs s ! i)\<lparr>b_data := d\<rparr>"
  note hg = held_good [OF ok h]
  have g: "good (bc_disks s) ?b" using hg by (simp add: good_def)
  note st = held_set [OF ok h g, of "bset s i d"]
  show "bio_ok (bset s i d)" "bview (bset s i d) = (bview s)(bn := d)" "locked_blocks (bset s i d) = locked_blocks s"
    "bheld p s j c \<Longrightarrow> bheld p (bset s i d) j c" "b_data (bufs (bset s i d) ! i) = d"
    using st(1,2,3,5,6) hg by (simp_all add: bset_def set_b_def)
  have "dirty_blocks (bset s i d) = (if b_dirty ?b then insert bn (dirty_blocks s) else dirty_blocks s - {bn})"
    using st(4) hg by (simp add: bset_def set_b_def)
  moreover have "bn \<in> dirty_blocks s \<longleftrightarrow> b_dirty (bufs s ! i)"
    using bheld_cell(1) [OF ok h] by (simp add: dirty_blocks_def)
  ultimately show "dirty_blocks (bset s i d) = dirty_blocks s" by auto
qed (simp_all add: bset_def set_b_def)

lemma bpin_update:
  assumes ok: "bio_ok s" and h: "bheld pid s i bn"
  shows "bio_ok (bpin s i)" "bview (bpin s i) = bview s" "locked_blocks (bpin s i) = locked_blocks s"
    "dirty_blocks (bpin s i) = insert bn (dirty_blocks s)" "bheld p s j c \<Longrightarrow> bheld p (bpin s i) j c"
    "bc_disks (bpin s i) = bc_disks s" "wlog (bpin s i) = wlog s"
proof -
  let ?b = "(bufs s ! i)\<lparr>b_dirty := True\<rparr>"
  note hg = held_good [OF ok h]
  have g: "good (bc_disks s) ?b" using hg by (simp add: good_def)
  note st = held_set [OF ok h g, of "bpin s i"]
  show "bio_ok (bpin s i)" "locked_blocks (bpin s i) = locked_blocks s"
    "dirty_blocks (bpin s i) = insert bn (dirty_blocks s)" "bheld p s j c \<Longrightarrow> bheld p (bpin s i) j c"
    using st(1,3,4,5) hg by (simp_all add: bpin_def set_b_def)
  show "bview (bpin s i) = bview s"
    using st(2) hg bheld_cell(2) [OF ok h] by (simp add: bpin_def set_b_def fun_upd_idem)
qed (simp_all add: bpin_def set_b_def)

lemma bwrite_update:
  assumes ok: "bio_ok s" and h: "bheld pid s i bn"
  obtains s' where "bwrite pid s i = Ok s'" "bio_ok s'" "bview s' = bview s" "locked_blocks s' = locked_blocks s"
    "dirty_blocks s' = dirty_blocks s - {bn}" "\<And>p j c. bheld p s j c \<Longrightarrow> bheld p s' j c"
    "disk_block s' = (disk_block s)(bn := bview s bn)" "wlog s' = wlog s @ [((1, bn), bview s bn)]"
    "bc_disks s' = (bc_disks s)((1, bn) := bview s bn)"
proof -
  note hg = held_good [OF ok h] and hc = bheld_cell [OF ok h]
  let ?b = "(bufs s ! i)\<lparr>b_dirty := False\<rparr>"
  let ?d = "(bc_disks s)((1, bn) := bview s bn)"
  let ?s = "s\<lparr>bufs := (bufs s)[i := ?b], bc_disks := ?d, wlog := wlog s @ [((1, bn), bview s bn)]\<rparr>"
  have v: "(bufs s ! i)\<lparr>b_valid := True, b_dirty := False\<rparr> = ?b" using hg(1) by simp
  have "bwrite pid s i = Ok ?s"
    using hg hc(2) bio_okD(4) [OF ok]
    by (simp add: bwrite_def do_iderw_def iderw_sync_def iderw_check_def set_b_def rw_def bkey_def Let_def v flip: linorder_not_less)
  moreover have g: "good ?d ?b" using hg by (simp add: good_def)
  note st = held_set [OF ok h g, of ?s]
  have "bio_ok ?s" "locked_blocks ?s = locked_blocks s" "dirty_blocks ?s = dirty_blocks s - {bn}"
    "\<And>p j c. bheld p s j c \<Longrightarrow> bheld p ?s j c" "bview ?s = (bview s)(bn := b_data ?b)"
    using st(1,3,4,5,2) hg by simp_all
  moreover have "(bview s)(bn := b_data ?b) = bview s" using hc(2) by (simp add: fun_upd_idem)
  moreover have "disk_block ?s = (disk_block s)(bn := bview s bn)" by (auto simp: disk_block_def)
  ultimately show ?thesis by (intro that [of ?s]) simp_all
qed

lemma brelse_update:
  assumes ok: "bio_ok s" and h: "bheld pid s i bn" and clean: "bn \<in> dirty_blocks s \<or> bview s bn = disk_block s bn"
  obtains s' where "brelse pid s i = Ok s'" "bio_ok s'" "bview s' = bview s" "locked_blocks s' = locked_blocks s - {bn}"
    "dirty_blocks s' = dirty_blocks s" "\<And>p j c. bheld p s j c \<Longrightarrow> c \<noteq> bn \<Longrightarrow> bheld p s' j c"
    "bc_disks s' = bc_disks s" "wlog s' = wlog s"
proof -
  note hg = held_good [OF ok h] and hc = bheld_cell [OF ok h]
  let ?b = "(bufs s ! i)\<lparr>b_lock := releasesleep (b_lock (bufs s ! i)), b_refcnt := 0\<rparr>"
  define s1 where "s1 = set_b s i ?b"
  have "b_dirty (bufs s ! i) \<or> b_data (bufs s ! i) = bc_disks s (1, bn)"
    using clean hc by (auto simp: dirty_blocks_def disk_block_def)
  then have g: "good (bc_disks s) ?b" using hg by (auto simp: good_def releasesleep_def)
  have s1: "bufs s1 = (bufs s)[i := ?b]" "bc_disks s1 = bc_disks s" "havedisk1 s1 = havedisk1 s" "wlog s1 = wlog s"
    by (simp_all add: s1_def set_b_def)
  have ok1: "bio_ok s1" and cl: "cell (cells s1) = (cell (cells s))(bn := Some (core ?b))"
    using bio_set_same [OF ok hg(7,5) g, of s1] hg(5,6) s1 by simp_all
  define s' where "s' = s1\<lparr>bufs := link_front (unlink (bufs s1) i) i\<rparr>"
  have rel: "brelse pid s i = Ok s'"
    using hg by (simp add: brelse_def Let_def s'_def s1_def)
  have core_eq: "map core (bufs s') = map core (bufs s1)" by (simp add: s'_def)
  then have cells': "cells s' = cells s1" by (simp add: cells_def)
  obtain l where l: "linked (bufs s1) l" "set l = {..< NBUF}" using ok1 by (auto simp: bio_ok_def)
  obtain l1 l2 where l12: "l = l1 @ i # l2" using l(2) hg(7) split_list [of i l] by auto
  then have d: "i \<notin> set (l1 @ l2)" using l(1) by (auto simp: linked_def)
  have "linked (unlink (bufs s1) i) (l1 @ l2)" using linked_unlink l(1) l12 by blast
  from linked_push [OF this hg(7) d] have "linked (bufs s') (i # l1 @ l2)" by (simp add: s'_def)
  moreover have "set (i # l1 @ l2) = {..< NBUF}" using l(2) l12 by auto
  ultimately have ok': "bio_ok s'"
    using bio_okD(3,4) [OF ok1] cells' unfolding bio_ok_def by (auto simp: s'_def)
  have dsk: "bc_disks s' = bc_disks s" "wlog s' = wlog s" using s1 by (simp_all add: s'_def)
  have cl': "cell (cells s') = (cell (cells s))(bn := Some (core ?b))" by (simp add: cells' cl)
  have "bview s' = bview s"
    by (rule ext) (use hc(1) in \<open>simp add: bview_def cl' disk_block_def dsk split: option.split\<close>)
  moreover have "locked_blocks s' = locked_blocks s - {bn}" by (auto simp: locked_blocks_def cl' releasesleep_def)
  moreover have "dirty_blocks s' = dirty_blocks s" using hc(1) by (auto simp: dirty_blocks_def cl')
  moreover have "bheld p s' j c" if a: "bheld p s j c" "c \<noteq> bn" for p j c
  proof -
    have j: "j \<noteq> i" "j < 30" using a hg(6) by (auto simp: bheld_def)
    have len: "length (bufs s') = 31" "length (bufs s1) = 31" using bio_okD(1) ok' ok1 by blast+
    have "core (bufs s' ! j) = core (bufs s1 ! j)"
      using arg_cong [OF core_eq, of "\<lambda>x. x ! j"] len j by simp
    moreover have "bufs s1 ! j = bufs s ! j" using j by (simp add: s1)
    ultimately have "b_dev (bufs s' ! j) = b_dev (bufs s ! j)" "b_blockno (bufs s' ! j) = b_blockno (bufs s ! j)"
      "b_lock (bufs s' ! j) = b_lock (bufs s ! j)" by (metis core_fields(1), metis core_fields(2), metis core_fields(5))
    then show ?thesis using a by (simp add: bheld_def)
  qed
  ultimately show ?thesis using rel ok' dsk by (intro that [of s']) simp_all
qed


section \<open>The interface of the cache\<close>

text \<open>
  What the log and the file system rely on.  \<open>view\<close> is the contents of a block, \<open>disk\<close> what
  would survive a crash, \<open>pinned\<close> the blocks that may differ, \<open>busy\<close> the locked ones, \<open>cap\<close> the
  number of buffers; \<open>hist\<close> lists the blocks sent to the disk.
\<close>

locale block_cache =
  fixes ok :: "'s \<Rightarrow> bool"
    and view :: "'s \<Rightarrow> uint \<Rightarrow> block"
    and disk :: "'s \<Rightarrow> uint \<Rightarrow> block"
    and hist :: "'s \<Rightarrow> ((uint \<times> uint) \<times> block) list"
    and pinned :: "'s \<Rightarrow> uint set"
    and busy :: "'s \<Rightarrow> uint set"
    and held :: "int \<Rightarrow> 's \<Rightarrow> nat \<Rightarrow> uint \<Rightarrow> bool"
    and cap :: nat
    and get :: "int \<Rightarrow> 's \<Rightarrow> uint \<Rightarrow> (nat \<times> 's) outcome"
    and dat :: "'s \<Rightarrow> nat \<Rightarrow> block"
    and upd :: "'s \<Rightarrow> nat \<Rightarrow> block \<Rightarrow> 's"
    and pin :: "'s \<Rightarrow> nat \<Rightarrow> 's"
    and flush :: "int \<Rightarrow> 's \<Rightarrow> nat \<Rightarrow> 's outcome"
    and rel :: "int \<Rightarrow> 's \<Rightarrow> nat \<Rightarrow> 's outcome"
  assumes get_total: "\<lbrakk>ok s; bn < 1000; bn \<notin> busy s; bn \<in> pinned s \<or> card (pinned s \<union> busy s) < cap\<rbrakk>
      \<Longrightarrow> \<exists>i s'. get pid s bn = Ok (i, s')"
    and get_post: "\<lbrakk>ok s; get pid s bn = Ok (i, s')\<rbrakk> \<Longrightarrow>
      ok s' \<and> bn \<notin> busy s \<and> held pid s' i bn \<and> view s' = view s \<and> disk s' = disk s \<and> hist s' = hist s \<and>
      pinned s' = pinned s \<and> busy s' = insert bn (busy s) \<and> (\<forall>p j c. held p s j c \<longrightarrow> held p s' j c)"
    and held_data: "\<lbrakk>ok s; held pid s i bn\<rbrakk> \<Longrightarrow> dat s i = view s bn \<and> bn < 1000 \<and> bn \<in> busy s"
    and upd_post: "\<lbrakk>ok s; held pid s i bn\<rbrakk> \<Longrightarrow>
      ok (upd s i d) \<and> view (upd s i d) = (view s)(bn := d) \<and> disk (upd s i d) = disk s \<and> hist (upd s i d) = hist s \<and>
      pinned (upd s i d) = pinned s \<and> busy (upd s i d) = busy s \<and> (\<forall>p j c. held p s j c \<longrightarrow> held p (upd s i d) j c)"
    and pin_post: "\<lbrakk>ok s; held pid s i bn\<rbrakk> \<Longrightarrow>
      ok (pin s i) \<and> view (pin s i) = view s \<and> disk (pin s i) = disk s \<and> hist (pin s i) = hist s \<and>
      pinned (pin s i) = insert bn (pinned s) \<and> busy (pin s i) = busy s \<and> (\<forall>p j c. held p s j c \<longrightarrow> held p (pin s i) j c)"
    and flush_post: "\<lbrakk>ok s; held pid s i bn\<rbrakk> \<Longrightarrow>
      \<exists>s'. flush pid s i = Ok s' \<and> ok s' \<and> view s' = view s \<and> disk s' = (disk s)(bn := view s bn) \<and>
        hist s' = hist s @ [((1, bn), view s bn)] \<and> pinned s' = pinned s - {bn} \<and> busy s' = busy s \<and>
        (\<forall>p j c. held p s j c \<longrightarrow> held p s' j c)"
    and rel_post: "\<lbrakk>ok s; held pid s i bn; bn \<in> pinned s \<or> view s bn = disk s bn\<rbrakk> \<Longrightarrow>
      \<exists>s'. rel pid s i = Ok s' \<and> ok s' \<and> view s' = view s \<and> disk s' = disk s \<and> hist s' = hist s \<and>
        pinned s' = pinned s \<and> busy s' = busy s - {bn} \<and> (\<forall>p j c. held p s j c \<and> c \<noteq> bn \<longrightarrow> held p s' j c)"
    and clean: "\<lbrakk>ok s; bn \<notin> pinned s; bn \<notin> busy s\<rbrakk> \<Longrightarrow> view s bn = disk s bn"
begin

text \<open>Reading a block: the value of \<open>bread\<close> followed by \<open>brelse\<close>.\<close>

lemma read_block:
  assumes "ok s" and "get pid s bn = Ok (i, s1)"
  shows "dat s1 i = view s bn \<and> (\<exists>s2. rel pid s1 i = Ok s2 \<and> ok s2 \<and> view s2 = view s \<and> disk s2 = disk s \<and>
    hist s2 = hist s \<and> pinned s2 = pinned s \<and> busy s2 = busy s \<and>
    (\<forall>p j c. held p s j c \<and> c \<noteq> bn \<longrightarrow> held p s2 j c))"
proof -
  note g = get_post [OF assms]
  have "bn \<in> pinned s1 \<or> view s1 bn = disk s1 bn" using g clean [OF assms(1), of bn] by auto
  then obtain s2 where "rel pid s1 i = Ok s2 \<and> ok s2 \<and> view s2 = view s1 \<and> disk s2 = disk s1 \<and> hist s2 = hist s1 \<and>
        pinned s2 = pinned s1 \<and> busy s2 = busy s1 - {bn} \<and> (\<forall>p j c. held p s1 j c \<and> c \<noteq> bn \<longrightarrow> held p s2 j c)"
    using rel_post g by metis
  moreover have "dat s1 i = view s bn" using held_data g by metis
  ultimately show ?thesis using g by auto
qed

text \<open>Changing a held block through the log: new bytes, the mark, and the release.\<close>

lemma write_held:
  assumes "ok s" and "held pid s i bn"
  shows "\<exists>s2. rel pid (pin (upd s i d) i) i = Ok s2 \<and> ok s2 \<and> view s2 = (view s)(bn := d) \<and> disk s2 = disk s \<and>
    hist s2 = hist s \<and> pinned s2 = insert bn (pinned s) \<and> busy s2 = busy s - {bn} \<and>
    (\<forall>p j c. held p s j c \<and> c \<noteq> bn \<longrightarrow> held p s2 j c)"
proof -
  note u = upd_post [OF assms, of d]
  with assms(2) have "held pid (upd s i d) i bn" "ok (upd s i d)" by blast+
  note p = pin_post [OF this(2,1)]
  then have h: "held pid (pin (upd s i d) i) i bn" "ok (pin (upd s i d) i)" "bn \<in> pinned (pin (upd s i d) i)"
    using \<open>held pid (upd s i d) i bn\<close> by auto
  from rel_post [OF h(2,1)] h(3) u p show ?thesis by auto
qed

text \<open>Copying one held block over another one, straight to the disk.\<close>

lemma copy_held:
  assumes "ok s" and "held pid s i a" and "held pid s j b" and "a \<noteq> b" and "a \<in> pinned s \<or> view s a = disk s a"
  shows "\<exists>s1 s2 s3. flush pid (upd s j (dat s i)) j = Ok s1 \<and> rel pid s1 i = Ok s2 \<and> rel pid s2 j = Ok s3 \<and> ok s3 \<and>
    view s3 = (view s)(b := view s a) \<and> disk s3 = (disk s)(b := view s a) \<and>
    hist s3 = hist s @ [((1, b), view s a)] \<and> pinned s3 = pinned s - {b} \<and> busy s3 = busy s - {a, b} \<and>
    (\<forall>p k c. held p s k c \<and> c \<noteq> a \<and> c \<noteq> b \<longrightarrow> held p s3 k c)"
proof -
  have d: "dat s i = view s a" using held_data assms by blast
  define w where "w = upd s j (dat s i)"
  have u: "ok w" "view w = (view s)(b := view s a)" "disk w = disk s" "hist w = hist s" "pinned w = pinned s" "busy w = busy s"
    "\<And>p k c. held p s k c \<Longrightarrow> held p w k c"
    using upd_post [OF assms(1,3), of "view s a"] by (auto simp: w_def d)
  have h: "held pid w j b" "held pid w i a" using u(7) assms(2,3) by blast+
  from flush_post [OF u(1) h(1)] obtain s1 where s1: "flush pid w j = Ok s1" "ok s1"
    "view s1 = view w" "disk s1 = (disk w)(b := view w b)" "hist s1 = hist w @ [((1, b), view w b)]"
    "pinned s1 = pinned w - {b}" "busy s1 = busy w" "\<forall>p k c. held p w k c \<longrightarrow> held p s1 k c" by blast
  have "held pid s1 i a" "a \<in> pinned s1 \<or> view s1 a = disk s1 a"
    using s1(3,4,6) u(2,3,5) assms(4,5) by (simp_all add: s1(8) h(2))
  from rel_post [OF s1(2) this] obtain s2 where s2: "rel pid s1 i = Ok s2" "ok s2" "view s2 = view s1"
    "disk s2 = disk s1" "hist s2 = hist s1" "pinned s2 = pinned s1" "busy s2 = busy s1 - {a}"
    "\<forall>p k c. held p s1 k c \<and> c \<noteq> a \<longrightarrow> held p s2 k c" by blast
  have "held pid s2 j b" using s1(8) s2(8) h(1) assms(4) by blast
  moreover have "b \<in> pinned s2 \<or> view s2 b = disk s2 b" using s1(3,4) s2(3,4) by simp
  ultimately obtain s3 where s3: "rel pid s2 j = Ok s3" "ok s3" "view s3 = view s2" "disk s3 = disk s2"
    "hist s3 = hist s2" "pinned s3 = pinned s2" "busy s3 = busy s2 - {b}"
    "\<forall>p k c. held p s2 k c \<and> c \<noteq> b \<longrightarrow> held p s3 k c"
    using rel_post [OF s2(2)] by blast
  have "view s3 = (view s)(b := view s a)" using s1(3) s2(3) s3(3) u(2) by simp
  moreover have "disk s3 = (disk s)(b := view s a)" using s1(4) s2(4) s3(4) u(2,3) by simp
  moreover have "hist s3 = hist s @ [((1, b), view s a)]" using s1(5) s2(5) s3(5) u(2,4) by simp
  moreover have "pinned s3 = pinned s - {b}" using s1(6) s2(6) s3(6) u(5) by simp
  moreover have "busy s3 = busy s - {a, b}" using s1(7) s2(7) s3(7) u(6) by auto
  moreover have "\<forall>p k c. held p s k c \<and> c \<noteq> a \<and> c \<noteq> b \<longrightarrow> held p s3 k c" using s1(8) s2(8) s3(8) u(7) by blast
  ultimately show ?thesis using s1(1) s2(1) s3(1,2) unfolding w_def by blast
qed

end

interpretation bc: block_cache bio_ok bview disk_block wlog dirty_blocks locked_blocks bheld NBUF
  "\<lambda>pid s bn. bread pid s 1 bn" "\<lambda>s i. b_data (bufs s ! i)" bset bpin bwrite brelse
proof
  fix s s' :: bcache and pid p :: int and i :: nat and bn :: uint and d :: block
  assume ok: "bio_ok s"
  show "\<exists>i s'. bread pid s 1 bn = Ok (i, s')" if "bn < 1000" "bn \<notin> locked_blocks s"
    "bn \<in> dirty_blocks s \<or> card (dirty_blocks s \<union> locked_blocks s) < NBUF"
    by (rule bread_total [OF ok that])
  show "bio_ok s' \<and> bn \<notin> locked_blocks s \<and> bheld pid s' i bn \<and> bview s' = bview s \<and> disk_block s' = disk_block s \<and>
    wlog s' = wlog s \<and> dirty_blocks s' = dirty_blocks s \<and> locked_blocks s' = insert bn (locked_blocks s) \<and>
    (\<forall>p j c. bheld p s j c \<longrightarrow> bheld p s' j c)" if "bread pid s 1 bn = Ok (i, s')"
    using bread_update [OF ok that] by (auto simp: disk_block_def fun_eq_iff)
  show "bview s bn = disk_block s bn" if "bn \<notin> dirty_blocks s" "bn \<notin> locked_blocks s"
  proof (cases "cell (cells s) bn")
    case (Some b)
    then obtain k where k: "k < 30" "core (bufs s ! k) = b" "b_dev b = 1" "b_blockno b = bn"
      unfolding bio_cell_Some [OF ok] by blast
    have "good (bc_disks s) b" using bio_okD(6) [OF ok k(1)] good_core [of "bc_disks s" "bufs s ! k"] k(2) by simp
    with Some that k show ?thesis by (auto simp: good_def bview_def disk_block_def dirty_blocks_def locked_blocks_def)
  qed (simp add: bview_def)
next
  fix s :: bcache and pid :: int and i :: nat and bn :: uint and d :: block
  assume ok: "bio_ok s" and h: "bheld pid s i bn"
  show "b_data (bufs s ! i) = bview s bn \<and> bn < 1000 \<and> bn \<in> locked_blocks s"
    using bheld_cell [OF ok h] held_good [OF ok h] by simp
  show "bio_ok (bset s i d) \<and> bview (bset s i d) = (bview s)(bn := d) \<and> disk_block (bset s i d) = disk_block s \<and>
    wlog (bset s i d) = wlog s \<and> dirty_blocks (bset s i d) = dirty_blocks s \<and>
    locked_blocks (bset s i d) = locked_blocks s \<and> (\<forall>p j c. bheld p s j c \<longrightarrow> bheld p (bset s i d) j c)"
    using bset_update [OF ok h] by (auto simp: disk_block_def fun_eq_iff)
  show "bio_ok (bpin s i) \<and> bview (bpin s i) = bview s \<and> disk_block (bpin s i) = disk_block s \<and>
    wlog (bpin s i) = wlog s \<and> dirty_blocks (bpin s i) = insert bn (dirty_blocks s) \<and>
    locked_blocks (bpin s i) = locked_blocks s \<and> (\<forall>p j c. bheld p s j c \<longrightarrow> bheld p (bpin s i) j c)"
    using bpin_update [OF ok h] by (auto simp: disk_block_def fun_eq_iff)
  show "\<exists>s'. bwrite pid s i = Ok s' \<and> bio_ok s' \<and> bview s' = bview s \<and> disk_block s' = (disk_block s)(bn := bview s bn) \<and>
    wlog s' = wlog s @ [((1, bn), bview s bn)] \<and> dirty_blocks s' = dirty_blocks s - {bn} \<and>
    locked_blocks s' = locked_blocks s \<and> (\<forall>p j c. bheld p s j c \<longrightarrow> bheld p s' j c)"
    by (rule bwrite_update [OF ok h]) blast
  show "\<exists>s'. brelse pid s i = Ok s' \<and> bio_ok s' \<and> bview s' = bview s \<and> disk_block s' = disk_block s \<and> wlog s' = wlog s \<and>
    dirty_blocks s' = dirty_blocks s \<and> locked_blocks s' = locked_blocks s - {bn} \<and>
    (\<forall>p j c. bheld p s j c \<and> c \<noteq> bn \<longrightarrow> bheld p s' j c)" if "bn \<in> dirty_blocks s \<or> bview s bn = disk_block s bn"
    by (rule brelse_update [OF ok h that]) (auto simp: disk_block_def fun_eq_iff)
qed


section \<open>Initialisation\<close>

lemma init_buf_linked:
  assumes "linked bs l" and "b < NBUF" and "b \<notin> set l"
  shows "linked (init_buf b bs) (b # l)"
  unfolding init_buf_def using assms by (intro linked_push linked_set_b) (auto simp: linked_def)

lemma init_buf_core:
  "map core (init_buf b bs) = map core (bs[b := (bs ! b)\<lparr>b_lock := initsleeplock ''buffer''\<rparr>])"
  by (simp add: init_buf_def)

lemma init_bufs:
  assumes "linked bs []" and "n \<le> NBUF"
  shows "linked (fold init_buf [0 ..< n] bs) (rev [0 ..< n]) \<and>
    (\<forall>i < NBUF. core (fold init_buf [0 ..< n] bs ! i) =
       core (if i < n then (bs ! i)\<lparr>b_lock := initsleeplock ''buffer''\<rparr> else bs ! i))"
  using assms(2)
proof (induction n)
  case 0
  then show ?case using assms(1) by simp
next
  case (Suc n)
  define cs where "cs = fold init_buf [0 ..< n] bs"
  have IH: "linked cs (rev [0 ..< n])" "\<And>i. i < 30 \<Longrightarrow> core (cs ! i) =
       core (if i < n then (bs ! i)\<lparr>b_lock := initsleeplock ''buffer''\<rparr> else bs ! i)"
    using Suc by (auto simp: cs_def)
  have step: "fold init_buf [0 ..< Suc n] bs = init_buf n cs" by (simp add: cs_def)
  have l: "linked (init_buf n cs) (n # rev [0 ..< n])" using IH(1) Suc.prems by (intro init_buf_linked) auto
  have len: "length cs = 31" "length (init_buf n cs) = 31" using IH(1) l by (simp_all add: linked_def)
  have "core (init_buf n cs ! i) = core (if i < Suc n then (bs ! i)\<lparr>b_lock := initsleeplock ''buffer''\<rparr> else bs ! i)"
    if "i < 30" for i
  proof -
    have "core (init_buf n cs ! i) = map core (init_buf n cs) ! i" using that len by simp
    also have "\<dots> = core (cs[n := (cs ! n)\<lparr>b_lock := initsleeplock ''buffer''\<rparr>] ! i)"
      unfolding init_buf_core using that len by simp
    also have "\<dots> = core (if i < Suc n then (bs ! i)\<lparr>b_lock := initsleeplock ''buffer''\<rparr> else bs ! i)"
    proof (cases "i = n")
      case True
      have "core (cs ! n) = core (bs ! n)" using IH(2) [of n] Suc.prems by simp
      then have "core ((cs ! n)\<lparr>b_lock := x\<rparr>) = core ((bs ! n)\<lparr>b_lock := x\<rparr>)" for x
        by (cases "cs ! n"; cases "bs ! n") (simp add: core_def)
      then show ?thesis using True that len by simp
    next
      case False
      then show ?thesis using IH(2) [OF that] by auto
    qed
    finally show ?thesis .
  qed
  with l show ?case unfolding step by simp
qed

lemma binit_ok:
  assumes "length (bufs s) = NBUF + 1" and "havedisk1 s"
    and z: "\<And>i. i < NBUF \<Longrightarrow> b_dev (bufs s ! i) = 0 \<and> \<not> b_valid (bufs s ! i) \<and> \<not> b_dirty (bufs s ! i) \<and> b_refcnt (bufs s ! i) = 0"
  shows "bio_ok (binit s)" and "dirty_blocks (binit s) = {}" and "locked_blocks (binit s) = {}"
    and "bc_disks (binit s) = bc_disks s" and "wlog (binit s) = wlog s" and "bview (binit s) = disk_block s"
    and "cell (cells (binit s)) bn = None"
proof -
  define bs where "bs = (bufs s)[HEAD := (bufs s ! HEAD)\<lparr>b_prev := HEAD, b_next := HEAD\<rparr>]"
  have "linked bs []" using assms(1) by (simp add: linked_def bs_def nextf_def prevf_def)
  note i = init_bufs [OF this, of 30, simplified]
  have b: "bufs (binit s) = fold init_buf [0 ..< 30] bs" "bc_disks (binit s) = bc_disks s" "havedisk1 (binit s)" "wlog (binit s) = wlog s"
    using assms(2) by (simp_all add: binit_def Let_def bs_def)
  have len: "length (bufs (binit s)) = 31" using i by (simp add: b linked_def)
  have c: "cells (binit s) ! k = core ((bufs s ! k)\<lparr>b_lock := initsleeplock ''buffer''\<rparr>)" if "k < 30" for k
    using i that len by (simp add: cells_def b bs_def)
  have cells: "cells_ok (bc_disks (binit s)) (cells (binit s))"
    unfolding cells_ok_def using z len c by (auto simp: cells_def [of "binit s"] good_def initsleeplock_def)
  show ok: "bio_ok (binit s)"
    unfolding bio_ok_def using i cells b by (intro conjI exI [of _ "rev [0 ..< 30]"]) (auto simp: linked_def)
  have none: "cell (cells (binit s)) bn = None" for bn
    unfolding cell_None [OF cells] using z c by auto
  then show "cell (cells (binit s)) bn = None" .
  show "dirty_blocks (binit s) = {}" "locked_blocks (binit s) = {}" "bview (binit s) = disk_block s"
    using b(2) by (auto simp: dirty_blocks_def locked_blocks_def none bview_def fun_eq_iff disk_block_def)
qed (simp_all add: binit_def Let_def)

section \<open>Properties\<close>

text \<open>
  C13: \<^verbatim>\<open>bread\<close> is coherent.  It returns whenever the block exists, nobody holds it and fewer than
  30 blocks are locked or waiting for the log; the buffer it returns is locked by the caller
  and has the current contents of the block; and no block, on disk or as seen through the
  cache, changes.
\<close>

theorem bread_coherent:
  assumes "bio_ok s" and "bn < 1000" and "bn \<notin> locked_blocks s" and "card (dirty_blocks s \<union> locked_blocks s) < NBUF"
  shows "\<exists>i s'. bread pid s 1 bn = Ok (i, s') \<and> bio_ok s' \<and> bheld pid s' i bn \<and> b_data (bufs s' ! i) = bview s bn \<and>
    bview s' = bview s \<and> bc_disks s' = bc_disks s \<and> locked_blocks s' = insert bn (locked_blocks s)"
  using bread_total [of s bn pid] bread_update [of s pid bn] assms by metis

lemma brelse_order:
  assumes l: "linked (bufs s) l" "set l = {..< NBUF}" and i: "i < NBUF" and r: "brelse pid s i = Ok s'"
  shows "linked (bufs s') (if b_refcnt (bufs s ! i) = 1 then i # remove1 i l else l)"
proof -
  define bs where "bs = (bufs s)[i := (bufs s ! i)\<lparr>b_lock := releasesleep (b_lock (bufs s ! i)),
    b_refcnt := b_refcnt (bufs s ! i) - 1\<rparr>]"
  have len: "i < length (bufs s)" using l(1) i by (simp add: linked_def)
  have "s' = s\<lparr>bufs := (if b_refcnt (bufs s ! i) = 1 then link_front (unlink bs i) i else bs)\<rparr>"
    using r by (auto simp: brelse_def Let_def set_b_def bs_def split: if_splits)
  moreover have lb: "linked bs l" unfolding bs_def using l(1) len by (intro linked_set_b) auto
  moreover have "linked (link_front (unlink bs i) i) (i # remove1 i l)"
  proof -
    obtain l1 l2 where l12: "l = l1 @ i # l2" using l(2) i split_list [of i l] by auto
    then have d: "i \<notin> set (l1 @ l2)" "remove1 i l = l1 @ l2" using l(1) by (auto simp: linked_def remove1_append)
    have "linked (unlink bs i) (l1 @ l2)" using linked_unlink lb l12 by blast
    from linked_push [OF this i d(1)] show ?thesis by (simp add: d)
  qed
  ultimately show ?thesis by simp
qed

text \<open>
  C27: the buffers are kept in order of use.  \<^verbatim>\<open>brelse\<close> of a held buffer puts it in front of the
  list, and a \<^verbatim>\<open>bread\<close> that misses takes the last buffer of the list that is free and clean.
  In any state, \<^verbatim>\<open>brelse\<close> of a buffer on which others still have references leaves the order.
\<close>

theorem bcache_lru:
  assumes l: "linked (bufs s) l" "set l = {..< NBUF}"
  shows "(bio_ok s \<and> bheld pid s i bn \<and> brelse pid s i = Ok s' \<longrightarrow> linked (bufs s') (i # remove1 i l)) \<and>
    (bio_ok s \<and> cell (cells s) c = None \<and> bread pid s 1 c = Ok (j, t) \<longrightarrow>
       (\<exists>l1 l2. l = l1 @ j # l2 \<and> b_refcnt (bufs s ! j) = 0 \<and> \<not> b_dirty (bufs s ! j) \<and>
          (\<forall>k \<in> set l2. b_refcnt (bufs s ! k) \<noteq> 0 \<or> b_dirty (bufs s ! k)))) \<and>
    (i < NBUF \<and> b_refcnt (bufs s ! i) \<noteq> 1 \<and> brelse pid s i = Ok s' \<longrightarrow> linked (bufs s') l)"
proof (intro conjI impI)
  assume h: "bio_ok s \<and> bheld pid s i bn \<and> brelse pid s i = Ok s'"
  note hg = held_good [OF conjunct1 [OF h] conjunct1 [OF conjunct2 [OF h]]]
  show "linked (bufs s') (i # remove1 i l)" using brelse_order [OF l hg(7)] h hg by auto
next
  assume "i < NBUF \<and> b_refcnt (bufs s ! i) \<noteq> 1 \<and> brelse pid s i = Ok s'"
  then show "linked (bufs s') l" using brelse_order [OF l, of i pid s'] by simp
next
  assume m0: "bio_ok s \<and> cell (cells s) c = None \<and> bread pid s 1 c = Ok (j, t)"
  note ok = conjunct1 [OF m0] and m = conjunct2 [OF m0]
  have "find (\<lambda>i. b_dev (bufs s ! i) = 1 \<and> b_blockno (bufs s ! i) = c) l = None"
    unfolding find_None_iff using m cell_None [OF bio_okD(3) [OF ok], of c] l(2) bio_okD(5) [OF ok] by auto
  then have sc: "scan b_next (\<lambda>b. b_dev b = 1 \<and> b_blockno b = c) (bufs s) (NBUF + 1) (b_next (bufs s ! HEAD)) = Ok None"
    using linked_scans [OF l(1)] by simp
  obtain k where k: "find (\<lambda>i. b_refcnt (bufs s ! i) = 0 \<and> \<not> b_dirty (bufs s ! i)) (rev l) = Some k"
    using m unfolding bread_def bget_def sc linked_scans(2) [OF l(1)]
    by (auto simp: obind_eq_Ok split: option.splits)
  then have "k = j" using m unfolding bread_def bget_def sc linked_scans(2) [OF l(1)] k
    by (auto simp: obind_eq_Ok lock_buf_eq split: if_splits)
  with k obtain n where n: "n < length l" "rev l ! n = j" "b_refcnt (bufs s ! j) = 0" "\<not> b_dirty (bufs s ! j)"
    "\<And>x. x < n \<Longrightarrow> b_refcnt (bufs s ! (rev l ! x)) \<noteq> 0 \<or> b_dirty (bufs s ! (rev l ! x))"
    by (auto simp: find_Some_iff)
  have "rev l = take n (rev l) @ j # drop (Suc n) (rev l)"
    using n(1,2) id_take_nth_drop [of n "rev l"] by simp
  from arg_cong [OF this, of rev] have "l = rev (drop (Suc n) (rev l)) @ j # rev (take n (rev l))"
    by (simp only: rev_rev_ident rev_append rev.simps append_assoc append.simps)
  moreover have "b_refcnt (bufs s ! k) \<noteq> 0 \<or> b_dirty (bufs s ! k)" if "k \<in> set (rev (take n (rev l)))" for k
    using that n(1,5) by (auto simp: in_set_conv_nth)
  ultimately show "\<exists>l1 l2. l = l1 @ j # l2 \<and> b_refcnt (bufs s ! j) = 0 \<and> \<not> b_dirty (bufs s ! j) \<and>
          (\<forall>k \<in> set l2. b_refcnt (bufs s ! k) \<noteq> 0 \<or> b_dirty (bufs s ! k))"
    using n(3,4) by blast
qed


section \<open>The cache after boot\<close>

definition zero_buf :: buf where
  "zero_buf = \<lparr>b_valid = False, b_dirty = False, b_dev = 0, b_blockno = 0, b_lock = initsleeplock [], b_refcnt = 0,
     b_prev = 0, b_next = 0, b_qnext = None, b_data = (\<lambda>_. 0)\<rparr>"

definition fresh_cache :: "disks \<Rightarrow> bcache" where
  "fresh_cache d = binit \<lparr>bufs = replicate (NBUF + 1) zero_buf, bc_disks = d, havedisk1 = True, wlog = []\<rparr>"

lemma fresh_cache:
  "bio_ok (fresh_cache d)" "dirty_blocks (fresh_cache d) = {}" "locked_blocks (fresh_cache d) = {}"
  "bc_disks (fresh_cache d) = d" "wlog (fresh_cache d) = []" "bview (fresh_cache d) = (\<lambda>bn. d (1, bn))"
  "cell (cells (fresh_cache d)) bn = None"
proof -
  let ?s = "\<lparr>bufs = replicate (NBUF + 1) zero_buf, bc_disks = d, havedisk1 = True, wlog = []\<rparr>"
  have "b_dev (bufs ?s ! i) = 0 \<and> \<not> b_valid (bufs ?s ! i) \<and> \<not> b_dirty (bufs ?s ! i) \<and> b_refcnt (bufs ?s ! i) = 0"
    if "i < NBUF" for i using that by (simp add: zero_buf_def)
  note b = binit_ok [OF _ _ this, simplified]
  show "bio_ok (fresh_cache d)" "dirty_blocks (fresh_cache d) = {}" "locked_blocks (fresh_cache d) = {}"
    "bc_disks (fresh_cache d) = d" "wlog (fresh_cache d) = []" "bview (fresh_cache d) = (\<lambda>bn. d (1, bn))"
    "cell (cells (fresh_cache d)) bn = None"
    using b by (simp_all add: fresh_cache_def disk_block_def [abs_def] zero_buf_def)
qed

theorem bread_coherent_witness:
  "\<exists>i s'. bread 9 (fresh_cache (\<lambda>_ _. 7)) 1 3 = Ok (i, s') \<and> bheld 9 s' i 3 \<and> b_data (bufs s' ! i) = (\<lambda>_. 7)"
  using bread_coherent [OF fresh_cache(1), of 3 "\<lambda>_ _. 7" 9] by (auto simp: fresh_cache)

theorem bcache_lru_witness:
  "\<exists>l j t. linked (bufs (fresh_cache (\<lambda>_ _. 7))) l \<and> bread 9 (fresh_cache (\<lambda>_ _. 7)) 1 3 = Ok (j, t) \<and>
     (\<exists>l1 l2. l = l1 @ j # l2 \<and> b_refcnt (bufs (fresh_cache (\<lambda>_ _. 7)) ! j) = 0)"
proof -
  let ?s = "fresh_cache (\<lambda>_ _. 7)"
  obtain l where l: "linked (bufs ?s) l" "set l = {..< NBUF}" using fresh_cache(1) by (auto simp: bio_ok_def)
  obtain j t where r: "bread 9 ?s 1 3 = Ok (j, t)"
    using bread_total [OF fresh_cache(1), of 3 "\<lambda>_ _. 7" 9] by (auto simp: fresh_cache)
  have n: "cell (cells ?s) 3 = None" by (rule fresh_cache)
  have "\<exists>l1 l2. l = l1 @ j # l2 \<and> b_refcnt (bufs ?s ! j) = 0"
    using bcache_lru [OF l, THEN conjunct2, THEN conjunct1, rule_format, of 3 9 j t] fresh_cache(1) n r by blast
  with l r show ?thesis by blast
qed

end
