(* ===== verification/Xv6_Layout.thy ===== *)
theory Xv6_Layout
  imports Xv6_Bio
begin

text \<open>
  How the file system stores integers in a disk block: little-endian words of 32 and 16 bits
  at byte offsets, the way the compiler lays out the structures of \<^verbatim>\<open>src/xv6/fs.h\<close> and the log
  header of \<^verbatim>\<open>src/xv6/log.c\<close>.  Reads give back what was written, and writes at other offsets do
  not disturb them.  Also the loops of the kernel that may panic half-way.
\<close>

section \<open>Loops\<close>

text \<open>\<^verbatim>\<open>for(i = ...; ...; i++)\<close> over the given indices, stopping at the first panic.\<close>

primrec ofold :: "('i \<Rightarrow> 's \<Rightarrow> 's outcome) \<Rightarrow> 'i list \<Rightarrow> 's \<Rightarrow> 's outcome" where
  "ofold f [] s = Ok s"
| "ofold f (i # is) s = obind (f i s) (ofold f is)"

lemma ofold_append: "ofold f (xs @ ys) s = obind (ofold f xs s) (ofold f ys)"
  by (induction xs arbitrary: s) (simp_all add: obind_assoc cong: obind_cong)

lemma ofold_inv:
  assumes "ofold f is s = Ok t" and "P s" and "\<And>i s s'. i \<in> set is \<Longrightarrow> P s \<Longrightarrow> f i s = Ok s' \<Longrightarrow> P s'"
  shows "P t"
  using assms
proof (induction "is" arbitrary: s)
  case (Cons i "is")
  then obtain s1 where "f i s = Ok s1" "ofold f is s1 = Ok t" by (auto simp: obind_eq_Ok)
  then show ?case using Cons.IH [of s1] Cons.prems(2,3) by (meson list.set_intros)
qed simp

section \<open>Words in a block\<close>

definition get32 :: "block \<Rightarrow> nat \<Rightarrow> uint" where
  "get32 d a = ucast (d a) OR push_bit 8 (ucast (d (a + 1))) OR push_bit 16 (ucast (d (a + 2))) OR
     push_bit 24 (ucast (d (a + 3)))"

definition put32 :: "block \<Rightarrow> nat \<Rightarrow> uint \<Rightarrow> block" where
  "put32 d a v = d(a := ucast v, a + 1 := ucast (drop_bit 8 v), a + 2 := ucast (drop_bit 16 v),
     a + 3 := ucast (drop_bit 24 v))"

definition get16 :: "block \<Rightarrow> nat \<Rightarrow> ushort" where
  "get16 d a = ucast (d a) OR push_bit 8 (ucast (d (a + 1)))"

definition put16 :: "block \<Rightarrow> nat \<Rightarrow> ushort \<Rightarrow> block" where
  "put16 d a v = d(a := ucast v, a + 1 := ucast (drop_bit 8 v))"

lemma bytes32:
  "ucast (ucast (v :: uint) :: uchar) OR push_bit 8 (ucast (ucast (drop_bit 8 v) :: uchar)) OR
     push_bit 16 (ucast (ucast (drop_bit 16 v) :: uchar)) OR push_bit 24 (ucast (ucast (drop_bit 24 v) :: uchar)) = v"
  (is "?l = v")
proof (rule bit_word_eqI)
  fix n assume "n < LENGTH(32)"
  then have "n < 8 \<or> 8 \<le> n \<and> n < 16 \<or> 16 \<le> n \<and> n < 24 \<or> 24 \<le> n \<and> n < 32" by auto
  then show "bit ?l n = bit v n" by (elim disjE) (auto simp: bit_simps)
qed

lemma bytes16:
  "ucast (ucast (v :: ushort) :: uchar) OR push_bit 8 (ucast (ucast (drop_bit 8 v) :: uchar)) = v" (is "?l = v")
proof (rule bit_word_eqI)
  fix n assume "n < LENGTH(16)"
  then have "n < 8 \<or> 8 \<le> n \<and> n < 16" by auto
  then show "bit ?l n = bit v n" by (elim disjE) (auto simp: bit_simps)
qed

lemma get32_put32 [simp]: "get32 (put32 d a v) a = v"
  by (simp add: get32_def put32_def bytes32)

lemma get16_put16 [simp]: "get16 (put16 d a v) a = v"
  by (simp add: get16_def put16_def bytes16)

lemma get32_put32_other [simp]: "a + 4 \<le> b \<or> b + 4 \<le> a \<Longrightarrow> get32 (put32 d a v) b = get32 d b"
  by (auto simp: get32_def put32_def)

lemma get16_put32_other [simp]: "a + 4 \<le> b \<or> b + 2 \<le> a \<Longrightarrow> get16 (put32 d a v) b = get16 d b"
  by (auto simp: get16_def put32_def)

lemma get32_put16_other [simp]: "a + 2 \<le> b \<or> b + 4 \<le> a \<Longrightarrow> get32 (put16 d a v) b = get32 d b"
  by (auto simp: get32_def put16_def)

lemma get16_put16_other [simp]: "a + 2 \<le> b \<or> b + 2 \<le> a \<Longrightarrow> get16 (put16 d a v) b = get16 d b"
  by (auto simp: get16_def put16_def)

end
