(* ===== verification/Xv6_Log.thy ===== *)
theory Xv6_Log
  imports Xv6_Layout
begin

text \<open>
  The write-ahead log, \<^verbatim>\<open>src/xv6/log.c\<close>, on top of the buffer cache.  The state is \<^verbatim>\<open>struct log\<close>
  together with the cache.  The main result is crash safety: whatever prefix of the disk writes
  of a commit reaches the disk, recovery makes the file system either what it was before the
  transaction or what the transaction made of it.
\<close>

section \<open>The log\<close>

record logsys =
  bio :: bcache
  log_start :: uint
  log_size :: int
  outstanding :: int
  committing :: bool
  log_dev :: uint
  lh_n :: int
  lh_block :: "uint list"

text \<open>The header block: \<^verbatim>\<open>int n; int block[LOGSIZE]\<close>.\<close>

definition hd_n :: "block \<Rightarrow> int" where
  "hd_n d = sint (get32 d 0)"

definition hd_block :: "block \<Rightarrow> nat \<Rightarrow> uint" where
  "hd_block d i = get32 d (4 + 4 * i)"

definition put_head :: "block \<Rightarrow> int \<Rightarrow> uint list \<Rightarrow> block" where
  "put_head d n bl = fold (\<lambda>i d. put32 d (4 + 4 * i) (bl ! i)) [0 ..< nat n] (put32 d 0 (of_int n))"

text \<open>The number of the log block for entry \<open>tail\<close>.\<close>

definition log_block :: "logsys \<Rightarrow> nat \<Rightarrow> uint" where
  "log_block s tail = log_start s + of_nat tail + 1"

definition install_trans1 :: "int \<Rightarrow> nat \<Rightarrow> logsys \<Rightarrow> logsys outcome" where
  "install_trans1 pid tail s =
     obind (bread pid (bio s) (log_dev s) (log_block s tail)) (\<lambda>(lbuf, b1).
     obind (bread pid b1 (log_dev s) (lh_block s ! tail)) (\<lambda>(dbuf, b2).
     obind (bwrite pid (bset b2 dbuf (b_data (bufs b2 ! lbuf))) dbuf) (\<lambda>b3.
     obind (brelse pid b3 lbuf) (\<lambda>b4.
     obind (brelse pid b4 dbuf) (\<lambda>b5. Ok (s\<lparr>bio := b5\<rparr>))))))"

definition install_trans :: "int \<Rightarrow> logsys \<Rightarrow> logsys outcome" where
  "install_trans pid s = ofold (install_trans1 pid) [0 ..< nat (lh_n s)] s"

text \<open>
  \<^verbatim>\<open>read_head\<close> copies \<^verbatim>\<open>n\<close> entries into an array of 30; a header with more of them would be
  written past its end.
\<close>

definition read_head :: "int \<Rightarrow> logsys \<Rightarrow> logsys outcome" where
  "read_head pid s =
     obind (bread pid (bio s) (log_dev s) (log_start s)) (\<lambda>(b, b1).
       let d = b_data (bufs b1 ! b); n = hd_n d
       in if n > int LOGSIZE then Panic ''trap''
          else obind (brelse pid b1 b) (\<lambda>b2.
            Ok (s\<lparr>bio := b2, lh_n := n,
                  lh_block := fold (\<lambda>i bl. bl[i := hd_block d i]) [0 ..< nat n] (lh_block s)\<rparr>)))"

definition write_head :: "int \<Rightarrow> logsys \<Rightarrow> logsys outcome" where
  "write_head pid s =
     obind (bread pid (bio s) (log_dev s) (log_start s)) (\<lambda>(b, b1).
     obind (bwrite pid (bset b1 b (put_head (b_data (bufs b1 ! b)) (lh_n s) (lh_block s))) b) (\<lambda>b2.
     obind (brelse pid b2 b) (\<lambda>b3. Ok (s\<lparr>bio := b3\<rparr>))))"

definition recover_from_log :: "int \<Rightarrow> logsys \<Rightarrow> logsys outcome" where
  "recover_from_log pid s =
     obind (read_head pid s) (\<lambda>s1.
     obind (install_trans pid s1) (\<lambda>s2. write_head pid (s2\<lparr>lh_n := 0\<rparr>)))"

text \<open>The superblock: its seven words.\<close>

record superblock =
  sb_size :: uint
  sb_nblocks :: uint
  sb_ninodes :: uint
  sb_nlog :: uint
  sb_logstart :: uint
  sb_inodestart :: uint
  sb_bmapstart :: uint

definition sb_of :: "block \<Rightarrow> superblock" where
  "sb_of d = \<lparr>sb_size = get32 d 0, sb_nblocks = get32 d 4, sb_ninodes = get32 d 8, sb_nlog = get32 d 12,
     sb_logstart = get32 d 16, sb_inodestart = get32 d 20, sb_bmapstart = get32 d 24\<rparr>"

definition readsb :: "int \<Rightarrow> bcache \<Rightarrow> uint \<Rightarrow> (superblock \<times> bcache) outcome" where
  "readsb pid s dev =
     obind (bread pid s dev 1) (\<lambda>(bp, s1).
     obind (brelse pid s1 bp) (\<lambda>s2. Ok (sb_of (b_data (bufs s1 ! bp)), s2)))"

text \<open>The size in bytes of \<^verbatim>\<open>struct logheader\<close>: \<^verbatim>\<open>n\<close> and the array \<^verbatim>\<open>block\<close>.\<close>

definition logheader_size :: nat where "logheader_size = 4 + 4 * LOGSIZE"

definition initlog :: "int \<Rightarrow> logsys \<Rightarrow> uint \<Rightarrow> logsys outcome" where
  "initlog pid s dev =
     (if logheader_size \<ge> BSIZE then Panic ''initlog: too big logheader''
      else obind (readsb pid (bio s) dev) (\<lambda>(sb, b1).
        recover_from_log pid (s\<lparr>bio := b1, log_start := sb_logstart sb, log_size := sint (sb_nlog sb), log_dev := dev\<rparr>)))"

text \<open>\<^verbatim>\<open>begin_op\<close> sleeps on the log while it cannot go on.\<close>

definition begin_op :: "logsys \<Rightarrow> logsys outcome" where
  "begin_op s =
     (if committing s then Blocked
      else if lh_n s + (outstanding s + 1) * int MAXOPBLOCKS > int LOGSIZE then Blocked
      else Ok (s\<lparr>outstanding := outstanding s + 1\<rparr>))"

definition write_log1 :: "int \<Rightarrow> nat \<Rightarrow> logsys \<Rightarrow> logsys outcome" where
  "write_log1 pid tail s =
     obind (bread pid (bio s) (log_dev s) (log_block s tail)) (\<lambda>(tob, b1).
     obind (bread pid b1 (log_dev s) (lh_block s ! tail)) (\<lambda>(frm, b2).
     obind (bwrite pid (bset b2 tob (b_data (bufs b2 ! frm))) tob) (\<lambda>b3.
     obind (brelse pid b3 frm) (\<lambda>b4.
     obind (brelse pid b4 tob) (\<lambda>b5. Ok (s\<lparr>bio := b5\<rparr>))))))"

definition write_log :: "int \<Rightarrow> logsys \<Rightarrow> logsys outcome" where
  "write_log pid s = ofold (write_log1 pid) [0 ..< nat (lh_n s)] s"

definition commit :: "int \<Rightarrow> logsys \<Rightarrow> logsys outcome" where
  "commit pid s =
     (if lh_n s > 0
      then obind (write_log pid s) (\<lambda>s1.
           obind (write_head pid s1) (\<lambda>s2.
           obind (install_trans pid s2) (\<lambda>s3. write_head pid (s3\<lparr>lh_n := 0\<rparr>))))
      else Ok s)"

text \<open>\<^verbatim>\<open>end_op\<close> also wakes up the processes that sleep on the log.\<close>

definition end_op :: "int \<Rightarrow> logsys \<Rightarrow> logsys outcome" where
  "end_op pid s =
     (let s1 = s\<lparr>outstanding := outstanding s - 1\<rparr>
      in if committing s1 then Panic ''log.committing''
         else if outstanding s1 = 0
         then obind (commit pid (s1\<lparr>committing := True\<rparr>)) (\<lambda>s2. Ok (s2\<lparr>committing := False\<rparr>))
         else Ok s1)"

definition log_write :: "logsys \<Rightarrow> nat \<Rightarrow> logsys outcome" where
  "log_write s b =
     (if lh_n s \<ge> int LOGSIZE \<or> lh_n s \<ge> log_size s - 1 then Panic ''too big a transaction''
      else if outstanding s < 1 then Panic ''log_write outside of trans''
      else let bn = b_blockno (bufs (bio s) ! b);
               n = nat (lh_n s);
               i = (case find_idx (\<lambda>x. x = bn) (take n (lh_block s)) of Some i \<Rightarrow> i | None \<Rightarrow> n)
           in Ok (s\<lparr>lh_block := (lh_block s)[i := bn], lh_n := (if i = n then lh_n s + 1 else lh_n s),
                    bio := bpin (bio s) b\<rparr>))"

section \<open>Sequences of writes\<close>

definition upds :: "('a \<Rightarrow> 'b) \<Rightarrow> ('a \<times> 'b) list \<Rightarrow> 'a \<Rightarrow> 'b" where
  "upds f ws = fold (\<lambda>(k, v) f. f(k := v)) ws f"

lemma upds_Nil [simp]: "upds f [] = f"
  by (simp add: upds_def)

lemma upds_append: "upds f (xs @ ys) = upds (upds f xs) ys"
  by (simp add: upds_def)

lemma upds_single [simp]: "upds f [(k, v)] = f(k := v)"
  by (simp add: upds_def)

lemma upds_Cons: "upds f ((k, v) # ws) = upds (f(k := v)) ws"
  by (simp add: upds_def)

lemma upds_notin: "k \<notin> fst ` set ws \<Longrightarrow> upds f ws k = f k"
proof (induction ws rule: rev_induct)
  case (snoc w ws)
  then show ?case by (cases w) (auto simp: upds_append)
qed simp

lemma upds_in: "k \<in> fst ` set ws \<Longrightarrow> (\<And>v'. (k, v') \<in> set ws \<Longrightarrow> v' = v) \<Longrightarrow> upds f ws k = v"
proof (induction ws rule: rev_induct)
  case (snoc w ws)
  obtain j u where w: "w = (j, u)" by (cases w)
  show ?case
  proof (cases "j = k")
    case True
    then show ?thesis using snoc.prems(2) [of u] by (simp add: w upds_append)
  next
    case False
    moreover from this snoc.prems(1) have "k \<in> fst ` set ws" by (auto simp: w)
    ultimately show ?thesis using snoc by (auto simp: w upds_append)
  qed
qed simp

section \<open>The header block\<close>

lemma put_entries:
  "get32 (fold (\<lambda>i d. put32 d (4 + 4 * i) (bl ! i)) [0 ..< k] d) 0 = get32 d 0 \<and>
   (\<forall>i < k. get32 (fold (\<lambda>i d. put32 d (4 + 4 * i) (bl ! i)) [0 ..< k] d) (4 + 4 * i) = bl ! i)"
proof (induction k)
  case (Suc k)
  have "get32 (put32 e (4 + 4 * k) (bl ! k)) (4 + 4 * i) = (if i = k then bl ! k else get32 e (4 + 4 * i))"
    if "i < Suc k" for e i
    using that by (cases "i = k") auto
  with Suc show ?case by (auto simp: less_Suc_eq)
qed simp

lemma sint_small: "0 \<le> n \<Longrightarrow> n < 2 ^ 31 \<Longrightarrow> sint (of_int n :: uint) = n"
  by (simp add: sint_sbintrunc' signed_take_bit_int_eq_self)

lemma hd_put_head:
  assumes "0 \<le> n" and "n \<le> 30"
  shows "hd_n (put_head d n bl) = n" and "i < nat n \<Longrightarrow> hd_block (put_head d n bl) i = bl ! i"
  using put_entries [of bl "nat n" "put32 d 0 (of_int n)"] assms
  by (auto simp: hd_n_def hd_block_def put_head_def sint_small)

section \<open>Moving one block\<close>

lemma get_two:
  assumes ok: "bio_ok b" and free: "locked_blocks b = {}" and xy: "x \<noteq> y" "x < 1000" "y < 1000"
    and x: "card (dirty_blocks b) < NBUF" and y: "y \<in> dirty_blocks b \<or> card (insert x (dirty_blocks b)) < NBUF"
  obtains i b1 j b2 where "bread pid b 1 x = Ok (i, b1)" "bread pid b1 1 y = Ok (j, b2)" "bio_ok b2"
    "bheld pid b2 i x" "bheld pid b2 j y" "bview b2 = bview b" "disk_block b2 = disk_block b" "wlog b2 = wlog b"
    "dirty_blocks b2 = dirty_blocks b" "locked_blocks b2 = {x, y}"
proof -
  obtain i b1 where r1: "bread pid b 1 x = Ok (i, b1)"
    using bc.get_total [OF ok xy(2), of pid] free x by auto
  note p1 = bc.get_post [OF ok r1]
  have "\<exists>j b2. bread pid b1 1 y = Ok (j, b2)"
    using p1 free xy y by (intro bc.get_total) (auto simp: Un_commute)
  then obtain j b2 where r2: "bread pid b1 1 y = Ok (j, b2)" by blast
  have ok1: "bio_ok b1" using p1 by blast
  note p2 = bc.get_post [OF ok1 r2]
  show ?thesis using that [OF r1 r2] p1 p2 free by (simp add: insert_commute)
qed

text \<open>Copying block \<open>a\<close> onto block \<open>c\<close> and to the disk, whichever of the two is read first.\<close>

lemma copy_disk:
  assumes "bio_ok b2" and h: "bheld pid b2 i a" "bheld pid b2 j c" and "a \<noteq> c" and "locked_blocks b2 = {a, c}"
    and "a \<in> dirty_blocks b2 \<or> bview b2 a = disk_block b2 a"
  obtains b3 b4 b5 where "bwrite pid (bset b2 j (b_data (bufs b2 ! i))) j = Ok b3" "brelse pid b3 i = Ok b4"
    "brelse pid b4 j = Ok b5" "bio_ok b5" "bview b5 = (bview b2)(c := bview b2 a)"
    "disk_block b5 = (disk_block b2)(c := bview b2 a)" "wlog b5 = wlog b2 @ [((1, c), bview b2 a)]"
    "dirty_blocks b5 = dirty_blocks b2 - {c}" "locked_blocks b5 = {}"
  using bc.copy_held [OF assms(1) h assms(4,6)] assms(5) by (metis Diff_cancel)

lemma clean_or_dirty: "bio_ok b \<Longrightarrow> locked_blocks b = {} \<Longrightarrow> a \<in> dirty_blocks b \<or> bview b a = disk_block b a"
  using bc.clean by auto

lemma write_log1_step:
  assumes ok: "bio_ok (bio s)" "locked_blocks (bio s) = {}" "log_dev s = 1"
    and l: "log_block s k = l" "l < 1000" and c: "lh_block s ! k = c" "c < 1000" "c \<in> dirty_blocks (bio s)" "c \<noteq> l"
    and few: "card (dirty_blocks (bio s)) < NBUF"
  obtains b where "write_log1 pid k s = Ok (s\<lparr>bio := b\<rparr>)" "bio_ok b" "locked_blocks b = {}"
    "bview b = (bview (bio s))(l := bview (bio s) c)" "disk_block b = (disk_block (bio s))(l := bview (bio s) c)"
    "wlog b = wlog (bio s) @ [((1, l), bview (bio s) c)]" "dirty_blocks b = dirty_blocks (bio s) - {l}"
proof -
  obtain i b1 j b2 where g: "bread pid (bio s) 1 l = Ok (i, b1)" "bread pid b1 1 c = Ok (j, b2)" "bio_ok b2"
    "bheld pid b2 i l" "bheld pid b2 j c" "bview b2 = bview (bio s)" "disk_block b2 = disk_block (bio s)"
    "wlog b2 = wlog (bio s)" "dirty_blocks b2 = dirty_blocks (bio s)" "locked_blocks b2 = {l, c}"
    by (rule get_two [OF ok(1,2) c(4) [symmetric] l(2) c(2) few, of pid]) (use c(3) in auto)
  have lk: "locked_blocks b2 = {c, l}" using g(10) by auto
  have pd: "c \<in> dirty_blocks b2 \<or> bview b2 c = disk_block b2 c" using c(3) g(9) by simp
  obtain b3 b4 b5 where w: "bwrite pid (bset b2 i (b_data (bufs b2 ! j))) i = Ok b3" "brelse pid b3 j = Ok b4"
    "brelse pid b4 i = Ok b5" "bio_ok b5" "bview b5 = (bview b2)(l := bview b2 c)"
    "disk_block b5 = (disk_block b2)(l := bview b2 c)" "wlog b5 = wlog b2 @ [((1, l), bview b2 c)]"
    "dirty_blocks b5 = dirty_blocks b2 - {l}" "locked_blocks b5 = {}"
    by (rule copy_disk [OF g(3,5,4) c(4) lk pd])
  have "write_log1 pid k s = Ok (s\<lparr>bio := b5\<rparr>)"
    using g(1,2) w(1-3) by (simp add: write_log1_def ok(3) l(1) c(1))
  then show ?thesis using that [of b5] w(4-9) g(6-9) by simp
qed

lemma install_trans1_step:
  assumes ok: "bio_ok (bio s)" "locked_blocks (bio s) = {}" "log_dev s = 1"
    and l: "log_block s k = l" "l < 1000" and c: "lh_block s ! k = c" "c < 1000" "c \<noteq> l"
    and few: "card (dirty_blocks (bio s)) < NBUF" "c \<in> dirty_blocks (bio s) \<or> card (insert l (dirty_blocks (bio s))) < NBUF"
  obtains b where "install_trans1 pid k s = Ok (s\<lparr>bio := b\<rparr>)" "bio_ok b" "locked_blocks b = {}"
    "bview b = (bview (bio s))(c := bview (bio s) l)" "disk_block b = (disk_block (bio s))(c := bview (bio s) l)"
    "wlog b = wlog (bio s) @ [((1, c), bview (bio s) l)]" "dirty_blocks b = dirty_blocks (bio s) - {c}"
proof -
  obtain i b1 j b2 where g: "bread pid (bio s) 1 l = Ok (i, b1)" "bread pid b1 1 c = Ok (j, b2)" "bio_ok b2"
    "bheld pid b2 i l" "bheld pid b2 j c" "bview b2 = bview (bio s)" "disk_block b2 = disk_block (bio s)"
    "wlog b2 = wlog (bio s)" "dirty_blocks b2 = dirty_blocks (bio s)" "locked_blocks b2 = {l, c}"
    by (rule get_two [OF ok(1,2) c(3) [symmetric] l(2) c(2) few, of pid]) auto
  have pd: "l \<in> dirty_blocks b2 \<or> bview b2 l = disk_block b2 l"
    using clean_or_dirty [OF ok(1,2), of l] g(6,7,9) by simp
  obtain b3 b4 b5 where w: "bwrite pid (bset b2 j (b_data (bufs b2 ! i))) j = Ok b3" "brelse pid b3 i = Ok b4"
    "brelse pid b4 j = Ok b5" "bio_ok b5" "bview b5 = (bview b2)(c := bview b2 l)"
    "disk_block b5 = (disk_block b2)(c := bview b2 l)" "wlog b5 = wlog b2 @ [((1, c), bview b2 l)]"
    "dirty_blocks b5 = dirty_blocks b2 - {c}" "locked_blocks b5 = {}"
    by (rule copy_disk [OF g(3,4,5) c(3) [symmetric] g(10) pd])
  have "install_trans1 pid k s = Ok (s\<lparr>bio := b5\<rparr>)"
    using g(1,2) w(1-3) by (simp add: install_trans1_def ok(3) l(1) c(1))
  then show ?thesis using that [of b5] w(4-9) g(6-9) by simp
qed

lemma write_head_step:
  assumes ok: "bio_ok (bio s)" "locked_blocks (bio s) = {}" "log_dev s = 1" and st: "log_start s < 1000"
    and few: "card (dirty_blocks (bio s)) < NBUF"
  obtains b where "write_head pid s = Ok (s\<lparr>bio := b\<rparr>)" "bio_ok b" "locked_blocks b = {}"
    "bview b = (bview (bio s))(log_start s := put_head (bview (bio s) (log_start s)) (lh_n s) (lh_block s))"
    "disk_block b = (disk_block (bio s))(log_start s := put_head (bview (bio s) (log_start s)) (lh_n s) (lh_block s))"
    "wlog b = wlog (bio s) @ [((1, log_start s), put_head (bview (bio s) (log_start s)) (lh_n s) (lh_block s))]"
    "dirty_blocks b = dirty_blocks (bio s) - {log_start s}"
proof -
  let ?h = "put_head (bview (bio s) (log_start s)) (lh_n s) (lh_block s)"
  obtain i b1 where r: "bread pid (bio s) 1 (log_start s) = Ok (i, b1)"
    using bc.get_total [OF ok(1) st, of pid] ok(2) few by auto
  note p = bc.get_post [OF ok(1) r]
  then have h: "bio_ok b1" "bheld pid b1 i (log_start s)" by blast+
  have dat: "b_data (bufs b1 ! i) = bview (bio s) (log_start s)" using bc.held_data [OF h] p by simp
  note u = bc.upd_post [OF h, of ?h]
  have h2: "bio_ok (bset b1 i ?h)" "bheld pid (bset b1 i ?h) i (log_start s)" using u h by blast+
  from bc.flush_post [OF h2] obtain b2 where f: "bwrite pid (bset b1 i ?h) i = Ok b2" "bio_ok b2"
    "bview b2 = bview (bset b1 i ?h)" "disk_block b2 = (disk_block (bset b1 i ?h))(log_start s := bview (bset b1 i ?h) (log_start s))"
    "wlog b2 = wlog (bset b1 i ?h) @ [((1, log_start s), bview (bset b1 i ?h) (log_start s))]"
    "dirty_blocks b2 = dirty_blocks (bset b1 i ?h) - {log_start s}" "locked_blocks b2 = locked_blocks (bset b1 i ?h)"
    "bheld pid b2 i (log_start s)" using h2(2) by blast
  have "log_start s \<in> dirty_blocks b2 \<or> bview b2 (log_start s) = disk_block b2 (log_start s)" using f(3,4) by simp
  from bc.rel_post [OF f(2,8) this] obtain b3 where b3: "brelse pid b2 i = Ok b3" "bio_ok b3" "bview b3 = bview b2"
    "disk_block b3 = disk_block b2" "wlog b3 = wlog b2" "dirty_blocks b3 = dirty_blocks b2"
    "locked_blocks b3 = locked_blocks b2 - {log_start s}" by blast
  have "write_head pid s = Ok (s\<lparr>bio := b3\<rparr>)"
    using r f(1) b3(1) by (simp add: write_head_def ok(3) dat)
  then show ?thesis using that [of b3] b3 f(3-7) u p ok(2) by simp
qed


section \<open>The loops of commit and recovery\<close>

lemma log_block_bio [simp]: "log_block (s\<lparr>bio := b\<rparr>) = log_block s"
  by (simp add: log_block_def fun_eq_iff)

definition dev1 :: "(uint \<times> block) list \<Rightarrow> ((uint \<times> uint) \<times> block) list" where
  "dev1 ws = map (\<lambda>(k, v). ((1, k), v)) ws"

lemma dev1_append [simp]: "dev1 (xs @ ys) = dev1 xs @ dev1 ys"
  by (simp add: dev1_def)

text \<open>What a part of the commit has done: the blocks \<open>ws\<close> went to the cache and to the disk.\<close>

definition wrote_out :: "bcache \<Rightarrow> (uint \<times> block) list \<Rightarrow> uint set \<Rightarrow> bcache \<Rightarrow> bool" where
  "wrote_out b ws dirty b' \<longleftrightarrow> bio_ok b' \<and> locked_blocks b' = {} \<and> bview b' = upds (bview b) ws \<and>
     disk_block b' = upds (disk_block b) ws \<and> wlog b' = wlog b @ dev1 ws \<and> dirty_blocks b' = dirty"

lemma wrote_out_trans:
  "wrote_out b ws d b' \<Longrightarrow> wrote_out b' ws' d' b'' \<Longrightarrow> wrote_out b (ws @ ws') d' b''"
  by (simp add: wrote_out_def upds_append)

lemma write_log_loop:
  assumes ok: "bio_ok (bio s)" "locked_blocks (bio s) = {}" "log_dev s = 1" and few: "card (dirty_blocks (bio s)) < NBUF"
    and en: "\<And>i. i < n \<Longrightarrow> log_block s i < 1000 \<and> lh_block s ! i < 1000 \<and> lh_block s ! i \<in> dirty_blocks (bio s) \<and>
      log_block s i \<notin> dirty_blocks (bio s)"
  shows "\<exists>b. ofold (write_log1 pid) [0 ..< n] s = Ok (s\<lparr>bio := b\<rparr>) \<and>
    wrote_out (bio s) (map (\<lambda>i. (log_block s i, bview (bio s) (lh_block s ! i))) [0 ..< n]) (dirty_blocks (bio s)) b"
  using en
proof (induction n)
  case 0
  then show ?case using ok by (intro exI [of _ "bio s"]) (simp add: wrote_out_def dev1_def)
next
  case (Suc n)
  let ?w = "\<lambda>n. map (\<lambda>i. (log_block s i, bview (bio s) (lh_block s ! i))) [0 ..< n]"
  obtain b where b: "ofold (write_log1 pid) [0 ..< n] s = Ok (s\<lparr>bio := b\<rparr>)" "wrote_out (bio s) (?w n) (dirty_blocks (bio s)) b"
    using Suc by auto
  let ?l = "log_block s n" and ?c = "lh_block s ! n"
  have e: "?l < 1000" "?c < 1000" "?c \<in> dirty_blocks (bio s)" "?l \<notin> dirty_blocks (bio s)" using Suc.prems [of n] by auto
  have vc: "bview b ?c = bview (bio s) ?c"
  proof -
    have "?c \<notin> fst ` set (?w n)" using Suc.prems e(3) by force
    from upds_notin [OF this] show ?thesis using b(2) by (simp only: wrote_out_def)
  qed
  have s1: "bio_ok (bio (s\<lparr>bio := b\<rparr>))" "locked_blocks (bio (s\<lparr>bio := b\<rparr>)) = {}" "log_dev (s\<lparr>bio := b\<rparr>) = 1"
    "log_block (s\<lparr>bio := b\<rparr>) n = ?l" "lh_block (s\<lparr>bio := b\<rparr>) ! n = ?c" "?c \<in> dirty_blocks (bio (s\<lparr>bio := b\<rparr>))" "?c \<noteq> ?l"
    "card (dirty_blocks (bio (s\<lparr>bio := b\<rparr>))) < NBUF"
    using b(2) ok(3) e few by (auto simp: wrote_out_def)
  obtain b' where b': "write_log1 pid n (s\<lparr>bio := b\<rparr>) = Ok (s\<lparr>bio := b'\<rparr>)" "bio_ok b'" "locked_blocks b' = {}"
    "bview b' = (bview b)(?l := bview b ?c)" "disk_block b' = (disk_block b)(?l := bview b ?c)"
    "wlog b' = wlog b @ [((1, ?l), bview b ?c)]" "dirty_blocks b' = dirty_blocks b - {?l}"
    using write_log1_step [OF s1(1-4) e(1) s1(5) e(2) s1(6-8), of pid] by auto
  have "wrote_out b [(?l, bview (bio s) ?c)] (dirty_blocks (bio s)) b'"
    using b'(2-7) vc b(2) e(4) by (simp add: wrote_out_def dev1_def)
  from wrote_out_trans [OF b(2) this] show ?case
    using b(1) b'(1) by (auto simp: ofold_append intro!: exI [of _ b'])
qed

lemma install_loop:
  assumes ok: "bio_ok (bio s)" "locked_blocks (bio s) = {}" "log_dev s = 1" and few: "card (dirty_blocks (bio s)) < NBUF"
    and d: "finite (dirty_blocks (bio s))"
    and en: "\<And>i. i < n \<Longrightarrow> log_block s i < 1000 \<and> lh_block s ! i < 1000 \<and>
      (lh_block s ! i \<in> dirty_blocks (bio s) - (\<lambda>k. lh_block s ! k) ` {..< i} \<or> dirty_blocks (bio s) = {}) \<and>
      (\<forall>j < n. lh_block s ! i \<noteq> log_block s j)"
  shows "\<exists>b. ofold (install_trans1 pid) [0 ..< n] s = Ok (s\<lparr>bio := b\<rparr>) \<and>
    wrote_out (bio s) (map (\<lambda>i. (lh_block s ! i, bview (bio s) (log_block s i))) [0 ..< n])
      (dirty_blocks (bio s) - (\<lambda>k. lh_block s ! k) ` {..< n}) b"
  using en
proof (induction n)
  case 0
  then show ?case using ok by (intro exI [of _ "bio s"]) (simp add: wrote_out_def dev1_def)
next
  case (Suc n)
  let ?w = "\<lambda>n. map (\<lambda>i. (lh_block s ! i, bview (bio s) (log_block s i))) [0 ..< n]"
  let ?d = "\<lambda>n. dirty_blocks (bio s) - (\<lambda>k. lh_block s ! k) ` {..< n}"
  have en': "log_block s i < 1000 \<and> lh_block s ! i < 1000 \<and>
      (lh_block s ! i \<in> dirty_blocks (bio s) - (\<lambda>k. lh_block s ! k) ` {..< i} \<or> dirty_blocks (bio s) = {}) \<and>
      (\<forall>j < n. lh_block s ! i \<noteq> log_block s j)" if "i < n" for i
    using Suc.prems [of i] that by auto
  obtain b where b: "ofold (install_trans1 pid) [0 ..< n] s = Ok (s\<lparr>bio := b\<rparr>)" "wrote_out (bio s) (?w n) (?d n) b"
    using Suc.IH [OF en'] by auto
  let ?l = "log_block s n" and ?c = "lh_block s ! n"
  have e: "?l < 1000" "?c < 1000" "?c \<in> ?d n \<or> dirty_blocks (bio s) = {}" "?c \<noteq> ?l" using Suc.prems [of n] by auto
  have vl: "bview b ?l = bview (bio s) ?l"
  proof -
    have "lh_block s ! i \<noteq> ?l" if "i < n" for i using Suc.prems [of i] that by auto
    moreover have "\<exists>i < n. ?l = lh_block s ! i" if "?l \<in> fst ` set (?w n)" using that by auto
    ultimately have "?l \<notin> fst ` set (?w n)" by metis
    from upds_notin [OF this] show ?thesis using b(2) by (simp only: wrote_out_def)
  qed
  have le: "card (?d n) < NBUF" using card_mono [OF d, of "?d n"] few by force
  have s1: "bio_ok (bio (s\<lparr>bio := b\<rparr>))" "locked_blocks (bio (s\<lparr>bio := b\<rparr>)) = {}" "log_dev (s\<lparr>bio := b\<rparr>) = 1"
    "log_block (s\<lparr>bio := b\<rparr>) n = ?l" "lh_block (s\<lparr>bio := b\<rparr>) ! n = ?c" "card (dirty_blocks (bio (s\<lparr>bio := b\<rparr>))) < NBUF"
    "?c \<in> dirty_blocks (bio (s\<lparr>bio := b\<rparr>)) \<or> card (insert ?l (dirty_blocks (bio (s\<lparr>bio := b\<rparr>)))) < NBUF"
    using b(2) ok(3) e(3) le by (auto simp: wrote_out_def)
  obtain b' where b': "install_trans1 pid n (s\<lparr>bio := b\<rparr>) = Ok (s\<lparr>bio := b'\<rparr>)" "bio_ok b'" "locked_blocks b' = {}"
    "bview b' = (bview b)(?c := bview b ?l)" "disk_block b' = (disk_block b)(?c := bview b ?l)"
    "wlog b' = wlog b @ [((1, ?c), bview b ?l)]" "dirty_blocks b' = dirty_blocks b - {?c}"
    using install_trans1_step [OF s1(1-4) e(1) s1(5) e(2,4) s1(6,7), of pid] by auto
  have "dirty_blocks b - {?c} = ?d (Suc n)" using b(2) by (auto simp: wrote_out_def lessThan_Suc)
  then have "wrote_out b [(?c, bview (bio s) ?l)] (?d (Suc n)) b'"
    using b'(2-7) vl by (simp add: wrote_out_def dev1_def)
  from wrote_out_trans [OF b(2) this] show ?case
    using b(1) b'(1) by (auto simp: ofold_append intro!: exI [of _ b'])
qed


section \<open>Commit\<close>

text \<open>The blocks from the header of the log to its last data block.\<close>

definition log_area :: "uint \<Rightarrow> uint set" where
  "log_area st0 = {b. unat st0 \<le> unat b \<and> unat b < unat st0 + LOGSIZE}"

definition log_ok :: "logsys \<Rightarrow> bool" where
  "log_ok s \<longleftrightarrow> bio_ok (bio s) \<and> log_dev s = 1 \<and> 0 \<le> lh_n s \<and> lh_n s < int LOGSIZE \<and> log_size s \<le> int LOGSIZE \<and> length (lh_block s) = LOGSIZE \<and>
     unat (log_start s) + LOGSIZE < 1000 \<and> distinct (take (nat (lh_n s)) (lh_block s)) \<and>
     (\<forall>b \<in> set (take (nat (lh_n s)) (lh_block s)). b < 1000 \<and> b \<notin> log_area (log_start s)) \<and>
     dirty_blocks (bio s) = set (take (nat (lh_n s)) (lh_block s))"

lemma log_block_nat:
  assumes "unat (log_start s) + LOGSIZE < 1000" and "i < LOGSIZE"
  shows "unat (log_block s i) = unat (log_start s) + i + 1"
proof -
  have "log_block s i = of_nat (unat (log_start s) + i + 1)" by (simp add: log_block_def)
  then show ?thesis using assms unat_of_nat_uint [of "unat (log_start s) + i + 1"] by simp
qed

lemma log_block_facts:
  assumes "unat (log_start s) + LOGSIZE < 1000" and "Suc i < LOGSIZE"
  shows "log_block s i < 1000" "log_block s i \<in> log_area (log_start s)" "log_block s i \<noteq> log_start s"
    "Suc j < LOGSIZE \<Longrightarrow> log_block s i = log_block s j \<Longrightarrow> i = j"
proof -
  note n = log_block_nat [OF assms(1) Suc_lessD [OF assms(2)]]
  show "log_block s i < 1000" unfolding word_less_nat_alt n using assms by simp
  show "log_block s i \<in> log_area (log_start s)" unfolding log_area_def mem_Collect_eq n using assms(2) by simp
  show "log_block s i \<noteq> log_start s" using n by (intro notI) simp
  show "i = j" if "Suc j < LOGSIZE" "log_block s i = log_block s j"
    using arg_cong [OF that(2), of unat] unfolding n log_block_nat [OF assms(1) Suc_lessD [OF that(1)]] by simp
qed

lemma log_start_facts:
  assumes "unat (log_start s) + LOGSIZE < 1000"
  shows "log_start s < 1000" "log_start s \<in> log_area (log_start s)"
proof -
  show "log_start s < 1000" unfolding word_less_nat_alt using assms by simp
  show "log_start s \<in> log_area (log_start s)" unfolding log_area_def mem_Collect_eq by simp
qed

definition commit_ws :: "logsys \<Rightarrow> (uint \<times> block) list" where
  "commit_ws s =
     (let n = nat (lh_n s); v = bview (bio s); h = put_head (v (log_start s)) (lh_n s) (lh_block s)
      in map (\<lambda>i. (log_block s i, v (lh_block s ! i))) [0 ..< n] @ [(log_start s, h)] @
         map (\<lambda>i. (lh_block s ! i, v (lh_block s ! i))) [0 ..< n] @ [(log_start s, put_head h 0 (lh_block s))])"

lemma log_okD:
  assumes "log_ok s"
  shows "bio_ok (bio s)" "log_dev s = 1" "0 \<le> lh_n s" "nat (lh_n s) < 30" "unat (log_start s) + LOGSIZE < 1000"
    "\<And>i. i < nat (lh_n s) \<Longrightarrow> lh_block s ! i < 1000 \<and> lh_block s ! i \<notin> log_area (log_start s) \<and> lh_block s ! i \<in> dirty_blocks (bio s)"
    "\<And>i j. i < nat (lh_n s) \<Longrightarrow> j < nat (lh_n s) \<Longrightarrow> lh_block s ! i = lh_block s ! j \<Longrightarrow> i = j"
    "dirty_blocks (bio s) = (\<lambda>k. lh_block s ! k) ` {..< nat (lh_n s)}" "card (dirty_blocks (bio s)) < NBUF"
    "dirty_blocks (bio s) \<inter> log_area (log_start s) = {}"
proof -
  define n where "n = nat (lh_n s)"
  have n: "n < 30" "length (lh_block s) = 30" "distinct (take n (lh_block s))"
    "\<forall>b \<in> set (take n (lh_block s)). b < 1000 \<and> b \<notin> log_area (log_start s)"
    "dirty_blocks (bio s) = set (take n (lh_block s))"
    using assms by (auto simp: log_ok_def n_def)
  have nth: "take n (lh_block s) ! i = lh_block s ! i" "lh_block s ! i \<in> set (take n (lh_block s))" if "i < n" for i
    using that n(1,2) nth_mem [of i "take n (lh_block s)"] by simp_all
  have im: "set (take n (lh_block s)) = (\<lambda>k. lh_block s ! k) ` {..< n}"
    using n(1,2) nth(1) by (auto simp: set_conv_nth image_def) (metis nth(1))+
  show "bio_ok (bio s)" "log_dev s = 1" "0 \<le> lh_n s" "nat (lh_n s) < 30" "unat (log_start s) + LOGSIZE < 1000"
    using assms by (auto simp: log_ok_def)
  show "lh_block s ! i < 1000 \<and> lh_block s ! i \<notin> log_area (log_start s) \<and> lh_block s ! i \<in> dirty_blocks (bio s)"
    if "i < nat (lh_n s)" for i
    using that nth(2) n(4,5) by (simp flip: n_def)
  show "i = j" if "i < nat (lh_n s)" "j < nat (lh_n s)" "lh_block s ! i = lh_block s ! j" for i j
    using that nth(1) n(1-3) unfolding distinct_conv_nth by (fold n_def) force
  show "dirty_blocks (bio s) = (\<lambda>k. lh_block s ! k) ` {..< nat (lh_n s)}" using n(5) im by (simp add: n_def)
  have "card (set (take n (lh_block s))) \<le> n" using card_length [of "take n (lh_block s)"] n(1,2) by simp
  then show "card (dirty_blocks (bio s)) < NBUF" using n(1,5) by simp
  show "dirty_blocks (bio s) \<inter> log_area (log_start s) = {}" using n(4,5) by auto
qed

text \<open>The block of the log that holds the copy of the \<open>i\<close>-th logged block, and where it is installed.\<close>

lemma logged_copy:
  assumes "log_ok s" and "i < nat (lh_n s)"
  shows "upds f (map (\<lambda>i. (log_block s i, g i)) [0 ..< nat (lh_n s)]) (log_block s i) = g i"
proof (rule upds_in)
  have n30: "j < nat (lh_n s) \<Longrightarrow> Suc j < LOGSIZE" for j using log_okD(4) [OF assms(1)] by simp
  show "log_block s i \<in> fst ` set (map (\<lambda>i. (log_block s i, g i)) [0 ..< nat (lh_n s)])" using assms(2) by force
  fix x
  assume "(log_block s i, x) \<in> set (map (\<lambda>i. (log_block s i, g i)) [0 ..< nat (lh_n s)])"
  then obtain j where j: "j < nat (lh_n s)" "log_block s i = log_block s j" "x = g j" by auto
  then have "i = j" using log_block_facts(4) [OF log_okD(5) [OF assms(1)] n30 [OF assms(2)] n30 [OF j(1)]] by blast
  with j(3) show "x = g i" by simp
qed

lemma install_target:
  assumes "log_ok s" and i: "i < nat (lh_n s)"
  shows "log_block s i < 1000 \<and> lh_block s ! i < 1000 \<and>
    lh_block s ! i \<in> dirty_blocks (bio s) - (\<lambda>k. lh_block s ! k) ` {..< i} \<and> (\<forall>j < nat (lh_n s). lh_block s ! i \<noteq> log_block s j)"
proof -
  note D = log_okD [OF assms(1)]
  note L = log_block_facts [OF D(5)]
  have n30: "j < nat (lh_n s) \<Longrightarrow> Suc j < LOGSIZE" for j using D(4) by simp
  have "lh_block s ! i \<notin> (\<lambda>k. lh_block s ! k) ` {..< i}"
  proof
    assume "lh_block s ! i \<in> (\<lambda>k. lh_block s ! k) ` {..< i}"
    then obtain j where "j < i" "lh_block s ! i = lh_block s ! j" by blast
    with D(7) [OF i, of j] i show False by simp
  qed
  moreover have "lh_block s ! i \<noteq> log_block s j" if "j < nat (lh_n s)" for j using D(6) [OF i] L(2) [OF n30 [OF that]] by auto
  ultimately show ?thesis using D(6) [OF i] L(1) [OF n30 [OF i]] by simp
qed

lemma commit_writes:
  assumes "log_ok s" and lk: "locked_blocks (bio s) = {}" and pos: "lh_n s > 0"
  shows "\<exists>b. commit pid s = Ok (s\<lparr>bio := b, lh_n := 0\<rparr>) \<and> wrote_out (bio s) (commit_ws s) {} b"
proof -
  note D = log_okD [OF assms(1)]
  let ?n = "nat (lh_n s)" and ?v = "bview (bio s)" and ?st = "log_start s" and ?c = "\<lambda>i. lh_block s ! i"
  let ?h = "put_head (?v ?st) (lh_n s) (lh_block s)"
  let ?w1 = "map (\<lambda>i. (log_block s i, ?v (?c i))) [0 ..< ?n]" and ?w3 = "map (\<lambda>i. (?c i, ?v (?c i))) [0 ..< ?n]"
  note L = log_block_facts [OF D(5)] and ST = log_start_facts [OF D(5)]
  have n30: "i < ?n \<Longrightarrow> Suc i < 30" for i using D(4) by simp
  have lb: "log_block s i \<notin> dirty_blocks (bio s)" if "i < ?n" for i
    using L(2) [OF n30 [OF that]] D(10) by blast
  obtain b1 where b1: "write_log pid s = Ok (s\<lparr>bio := b1\<rparr>)" "wrote_out (bio s) ?w1 (dirty_blocks (bio s)) b1"
    using write_log_loop [OF D(1) lk D(2,9), of ?n pid] L(1) n30 D(6) lb by (auto simp: write_log_def)
  have st1: "bview b1 ?st = ?v ?st"
  proof -
    have "?st \<notin> fst ` set ?w1" using L(3) n30 by force
    from upds_notin [OF this] show ?thesis using b1(2) by (simp only: wrote_out_def)
  qed
  let ?s1 = "s\<lparr>bio := b1\<rparr>"
  have "bio_ok (bio ?s1)" "locked_blocks (bio ?s1) = {}" "log_dev ?s1 = 1" "log_start ?s1 < 1000"
    "card (dirty_blocks (bio ?s1)) < NBUF" using b1(2) D(2,9) ST(1) by (simp_all add: wrote_out_def)
  from write_head_step [OF this, of pid] obtain b2 where b2: "write_head pid ?s1 = Ok (?s1\<lparr>bio := b2\<rparr>)"
    "bio_ok b2" "locked_blocks b2 = {}" "bview b2 = (bview b1)(?st := ?h)" "disk_block b2 = (disk_block b1)(?st := ?h)"
    "wlog b2 = wlog b1 @ [((1, ?st), ?h)]" "dirty_blocks b2 = dirty_blocks b1 - {?st}" using st1 by auto
  have dst: "?st \<notin> dirty_blocks (bio s)" using ST(2) D(10) by blast
  have wo2: "wrote_out b1 [(?st, ?h)] (dirty_blocks (bio s)) b2"
    using b2 b1(2) dst by (simp add: wrote_out_def dev1_def)
  let ?s2 = "s\<lparr>bio := b2\<rparr>"
  have vl: "bview b2 (log_block s i) = ?v (?c i)" if "i < ?n" for i
    using logged_copy [OF assms(1) that, of ?v "\<lambda>i. ?v (?c i)"] b1(2) b2(4) L(3) [OF n30 [OF that]] by (simp add: wrote_out_def)
  have ok2: "bio_ok (bio ?s2)" "locked_blocks (bio ?s2) = {}" "log_dev ?s2 = 1" "card (dirty_blocks (bio ?s2)) < NBUF"
    "finite (dirty_blocks (bio ?s2))"
    using wo2 D(2,8,9) by (simp_all add: wrote_out_def)
  have en: "log_block ?s2 i < 1000 \<and> lh_block ?s2 ! i < 1000 \<and>
      (lh_block ?s2 ! i \<in> dirty_blocks (bio ?s2) - (\<lambda>k. lh_block ?s2 ! k) ` {..< i} \<or> dirty_blocks (bio ?s2) = {}) \<and>
      (\<forall>j < ?n. lh_block ?s2 ! i \<noteq> log_block ?s2 j)" if i: "i < ?n" for i
    using install_target [OF assms(1) i] wo2 by (simp add: wrote_out_def)
  obtain b3 where b3: "install_trans pid ?s2 = Ok (s\<lparr>bio := b3\<rparr>)"
    "wrote_out b2 (map (\<lambda>i. (?c i, bview b2 (log_block s i))) [0 ..< ?n]) (dirty_blocks b2 - ?c ` {..< ?n}) b3"
    using install_loop [OF ok2 en, of pid] by (auto simp: install_trans_def)
  have "map (\<lambda>i. (?c i, bview b2 (log_block s i))) [0 ..< ?n] = ?w3" using vl by (intro map_cong) auto
  moreover have "dirty_blocks b2 - ?c ` {..< ?n} = {}" using wo2 D(8) by (simp add: wrote_out_def)
  ultimately have wo3: "wrote_out b2 ?w3 {} b3" using b3(2) by (simp only:)
  have st3: "bview b3 ?st = ?h"
  proof -
    have "?st \<notin> fst ` set ?w3" using D(6) ST(2) by force
    from upds_notin [OF this] show ?thesis using wo3 b2(4) by (simp add: wrote_out_def)
  qed
  let ?s3 = "s\<lparr>bio := b3, lh_n := 0\<rparr>"
  have "bio_ok (bio ?s3)" "locked_blocks (bio ?s3) = {}" "log_dev ?s3 = 1" "log_start ?s3 < 1000"
    "card (dirty_blocks (bio ?s3)) < NBUF" using wo3 D(2) ST(1) by (simp_all add: wrote_out_def)
  from write_head_step [OF this, of pid] obtain b4 where b4: "write_head pid ?s3 = Ok (?s3\<lparr>bio := b4\<rparr>)"
    "bio_ok b4" "locked_blocks b4 = {}" "bview b4 = (bview b3)(?st := put_head ?h 0 (lh_block s))"
    "disk_block b4 = (disk_block b3)(?st := put_head ?h 0 (lh_block s))"
    "wlog b4 = wlog b3 @ [((1, ?st), put_head ?h 0 (lh_block s))]" "dirty_blocks b4 = dirty_blocks b3 - {?st}"
    using st3 by auto
  have wo4: "wrote_out b3 [(?st, put_head ?h 0 (lh_block s))] {} b4"
    using b4(2-7) wo3 by (simp add: wrote_out_def dev1_def)
  have "wrote_out (bio s) (?w1 @ [(?st, ?h)] @ ?w3 @ [(?st, put_head ?h 0 (lh_block s))]) {} b4"
    using wrote_out_trans [OF b1(2) wrote_out_trans [OF wo2 wrote_out_trans [OF wo3 wo4]]] by simp
  then have "wrote_out (bio s) (commit_ws s) {} b4" by (simp add: commit_ws_def Let_def)
  moreover have "commit pid s = Ok (s\<lparr>bio := b4, lh_n := 0\<rparr>)"
    using pos b1(1) b2(1) b3(1) b4(1) by (simp add: commit_def)
  ultimately show ?thesis by blast
qed


section \<open>Recovery\<close>

text \<open>The state in which the kernel finds the disks \<open>d\<close> when it boots, with the log at \<open>start\<close>.\<close>

definition log_boot :: "disks \<Rightarrow> uint \<Rightarrow> logsys" where
  "log_boot d lstart = \<lparr>bio = fresh_cache d, log_start = lstart, log_size = int LOGSIZE, outstanding = 0,
     committing = False, log_dev = 1, lh_n = 0, lh_block = replicate LOGSIZE 0\<rparr>"

lemma fold_update_nth:
  "n \<le> length bl \<Longrightarrow> length (fold (\<lambda>i bl. bl[i := f i]) [0 ..< n] bl) = length bl \<and>
     (\<forall>i < length bl. fold (\<lambda>i bl. bl[i := f i]) [0 ..< n] bl ! i = (if i < n then f i else bl ! i))"
proof (induction n)
  case (Suc n)
  then show ?case by (auto simp: nth_list_update less_Suc_eq)
qed simp

lemma upds_dev1: "upds d (dev1 ws) (1, bn) = upds (\<lambda>bn. d (1, bn)) ws bn"
proof (induction ws rule: rev_induct)
  case (snoc w ws)
  then show ?case by (cases w) (simp add: upds_append, simp add: dev1_def)
qed (simp add: dev1_def)

lemma log_block_boot: "log_start s = log_start s' \<Longrightarrow> log_block s = log_block s'"
  by (simp add: log_block_def fun_eq_iff)

lemma recover_writes:
  assumes st: "unat lstart + LOGSIZE < 1000" and h: "h = d (1, lstart)" and n: "0 \<le> hd_n h" "hd_n h < 30"
    and en: "\<And>i. i < nat (hd_n h) \<Longrightarrow> hd_block h i < 1000 \<and> hd_block h i \<notin> log_area lstart"
  shows "\<exists>r x. recover_from_log pid (log_boot d lstart) = Ok r \<and> dirty_blocks (bio r) = {} \<and> lh_n r = 0 \<and>
    disk_block (bio r) = upds (\<lambda>bn. d (1, bn))
      (map (\<lambda>i. (hd_block h i, d (1, log_block (log_boot d lstart) i))) [0 ..< nat (hd_n h)] @ [(lstart, x)])"
proof -
  let ?s = "log_boot d lstart" and ?n = "nat (hd_n h)"
  have b: "bio ?s = fresh_cache d" "log_start ?s = lstart" "log_dev ?s = 1" "lh_block ?s = replicate 30 0"
    by (simp_all add: log_boot_def)
  have st': "unat (log_start ?s) + LOGSIZE < 1000" using st b by simp
  note L = log_block_facts [OF st'] and ST = log_start_facts [OF st', unfolded b(2)]
  obtain i b1 where r: "bread pid (fresh_cache d) 1 lstart = Ok (i, b1)"
    using bc.get_total [OF fresh_cache(1) ST(1), of d pid] by (auto simp: fresh_cache)
  from bc.read_block [OF fresh_cache(1) r] obtain b2 where b2: "b_data (bufs b1 ! i) = h" "brelse pid b1 i = Ok b2"
    "bio_ok b2" "bview b2 = (\<lambda>bn. d (1, bn))" "disk_block b2 = (\<lambda>bn. d (1, bn))" "dirty_blocks b2 = {}" "locked_blocks b2 = {}"
    using h by (auto simp: fresh_cache disk_block_def [abs_def])
  define s1 where "s1 = ?s\<lparr>bio := b2, lh_n := hd_n h, lh_block := fold (\<lambda>i bl. bl[i := hd_block h i]) [0 ..< ?n] (replicate 30 0)\<rparr>"
  have rh: "read_head pid ?s = Ok s1"
    using r b2(1,2) n by (simp add: read_head_def b s1_def Let_def)
  have bl: "lh_block s1 ! k = hd_block h k" if "k < ?n" for k
    using fold_update_nth [of ?n "replicate 30 0" "hd_block h"] that n by (simp add: s1_def)
  have s1: "bio_ok (bio s1)" "locked_blocks (bio s1) = {}" "log_dev s1 = 1" "card (dirty_blocks (bio s1)) < NBUF"
    "finite (dirty_blocks (bio s1))" "lh_n s1 = hd_n h" "log_start s1 = lstart" "bio s1 = b2"
    using b2 b by (simp_all add: s1_def)
  have lb: "log_block s1 = log_block ?s" by (rule log_block_boot) (simp add: s1 b)
  have "log_block s1 k < 1000 \<and> lh_block s1 ! k < 1000 \<and>
      (lh_block s1 ! k \<in> dirty_blocks (bio s1) - (\<lambda>k. lh_block s1 ! k) ` {..< k} \<or> dirty_blocks (bio s1) = {}) \<and>
      (\<forall>j < ?n. lh_block s1 ! k \<noteq> log_block s1 j)" if k: "k < ?n" for k
  proof -
    have "hd_block h k \<noteq> log_block ?s j" if "j < ?n" for j
      using en [OF k] L(2) [of j] that n by (auto simp: b)
    then show ?thesis using en [OF k] L(1) [of k] k n b2(6) by (simp add: lb bl s1(8))
  qed
  from install_loop [OF s1(1-5) this, of pid] obtain b3 where b3: "install_trans pid s1 = Ok (s1\<lparr>bio := b3\<rparr>)"
    "wrote_out b2 (map (\<lambda>i. (lh_block s1 ! i, bview b2 (log_block s1 i))) [0 ..< ?n]) {} b3"
    using b2(6) s1(6,8) by (auto simp: install_trans_def)
  have w: "map (\<lambda>i. (lh_block s1 ! i, bview b2 (log_block s1 i))) [0 ..< ?n] =
      map (\<lambda>i. (hd_block h i, d (1, log_block ?s i))) [0 ..< ?n]"
    using bl b2(4) lb by (intro map_cong) auto
  let ?s3 = "s1\<lparr>bio := b3, lh_n := 0\<rparr>"
  have "bio_ok (bio ?s3)" "locked_blocks (bio ?s3) = {}" "log_dev ?s3 = 1" "log_start ?s3 < 1000" "card (dirty_blocks (bio ?s3)) < NBUF"
    using b3(2) s1(3,7) ST(1) by (simp_all add: wrote_out_def)
  from write_head_step [OF this, of pid] obtain b4 where b4: "write_head pid ?s3 = Ok (?s3\<lparr>bio := b4\<rparr>)"
    "bio_ok b4" "locked_blocks b4 = {}"
    "bview b4 = (bview b3)(lstart := put_head (bview b3 lstart) 0 (lh_block s1))"
    "disk_block b4 = (disk_block b3)(lstart := put_head (bview b3 lstart) 0 (lh_block s1))"
    "wlog b4 = wlog b3 @ [((1, lstart), put_head (bview b3 lstart) 0 (lh_block s1))]"
    "dirty_blocks b4 = dirty_blocks b3 - {lstart}"
    using s1(7) by auto
  define x where "x = put_head (bview b3 lstart) 0 (lh_block s1)"
  have "recover_from_log pid ?s = Ok (?s3\<lparr>bio := b4\<rparr>)"
    using rh b3(1) b4(1) by (simp add: recover_from_log_def)
  moreover have "disk_block b4 = upds (\<lambda>bn. d (1, bn)) (map (\<lambda>i. (hd_block h i, d (1, log_block ?s i))) [0 ..< ?n] @ [(lstart, x)])"
    using b3(2) b2(5) b4(5) w by (simp add: wrote_out_def upds_append x_def)
  ultimately show ?thesis using b3(2) b4(7) by (auto simp: wrote_out_def)
qed

section \<open>Crash safety\<close>

text \<open>Which blocks the writes of a commit reach, and with what.\<close>

lemma commit_ws_outside:
  assumes ok: "log_ok s" and lk: "locked_blocks (bio s) = {}" and b: "b \<notin> log_area (log_start s)"
  shows "upds (disk_block (bio s)) (commit_ws s) b = bview (bio s) b"
    and "b \<notin> dirty_blocks (bio s) \<Longrightarrow> bview (bio s) b = disk_block (bio s) b"
proof -
  note D = log_okD [OF ok]
  show clean: "bview (bio s) b = disk_block (bio s) b" if "b \<notin> dirty_blocks (bio s)"
    using clean_or_dirty [OF D(1) lk, of b] that by simp
  have st: "log_start s \<noteq> b" using b log_start_facts(2) [OF D(5)] by blast
  have lb: "log_block s i \<noteq> b" if "i < nat (lh_n s)" for i
    using b log_block_facts(2) [OF D(5), of i] that D(4) by force
  have vals: "v = bview (bio s) b" if "(b, v) \<in> set (commit_ws s)" for v
    using that st by (auto simp: commit_ws_def Let_def dest: lb)
  show "upds (disk_block (bio s)) (commit_ws s) b = bview (bio s) b"
  proof (cases "b \<in> dirty_blocks (bio s)")
    case True
    then obtain i where "i < nat (lh_n s)" "b = lh_block s ! i" unfolding D(8) by blast
    then have "b \<in> fst ` set (commit_ws s)" by (auto simp: commit_ws_def Let_def image_Un image_image)
    then show ?thesis by (rule upds_in) (rule vals)
  next
    case False
    then have "b \<notin> fst ` set (commit_ws s)" using st D(8) by (auto simp: commit_ws_def Let_def dest: lb)
    then show ?thesis using clean [OF False] by (simp add: upds_notin)
  qed
qed

lemma dev1_take: "take k (dev1 ws) = dev1 (take k ws)"
  by (simp add: dev1_def take_map)

text \<open>Recovery from an empty header changes nothing outside the log.\<close>

lemma recover_empty:
  assumes st: "unat lstart + LOGSIZE < 1000" and "hd_n (d (1, lstart)) = 0"
  shows "\<exists>r. recover_from_log pid (log_boot d lstart) = Ok r \<and>
    (\<forall>b. b \<notin> log_area lstart \<longrightarrow> disk_block (bio r) b = d (1, b))"
proof -
  obtain r x where r: "recover_from_log pid (log_boot d lstart) = Ok r" "disk_block (bio r) = (\<lambda>bn. d (1, bn))(lstart := x)"
    using recover_writes [OF st refl, of d pid] assms(2) by auto
  have "lstart \<in> log_area lstart" by (simp add: log_area_def)
  then show ?thesis using r by auto
qed

lemma crash_after_head:
  fixes s :: logsys and dd :: disks
  defines "w1 \<equiv> map (\<lambda>i. (log_block s i, bview (bio s) (lh_block s ! i))) [0 ..< nat (lh_n s)]"
    and "w3 \<equiv> map (\<lambda>i. (lh_block s ! i, bview (bio s) (lh_block s ! i))) [0 ..< nat (lh_n s)]"
    and "h \<equiv> put_head (bview (bio s) (log_start s)) (lh_n s) (lh_block s)"
  assumes ok: "log_ok s" and lk: "locked_blocks (bio s) = {}"
    and e: "\<And>bn. dd (1, bn) = upds ((upds (disk_block (bio s)) w1)(log_start s := h)) (take j w3) bn"
  shows "\<exists>r. recover_from_log pid (log_boot dd (log_start s)) = Ok r \<and>
     (\<forall>b. b \<notin> log_area (log_start s) \<longrightarrow> disk_block (bio r) b = bview (bio s) b)"
proof -
  note D = log_okD [OF ok]
  let ?st = "log_start s" and ?n = "nat (lh_n s)" and ?v = "bview (bio s)" and ?d = "disk_block (bio s)" and ?c = "\<lambda>i. lh_block s ! i"
  note L = log_block_facts [OF D(5)] and ST = log_start_facts [OF D(5)]
  have n30: "i < ?n \<Longrightarrow> Suc i < 30" for i using D(4) by simp
  have k1: "fst ` set w1 \<subseteq> log_area ?st - {?st}" using L(2,3) n30 by (auto simp: w1_def)
  have k3: "fst ` set w3 \<subseteq> dirty_blocks (bio s)" using D(8) by (auto simp: w3_def)
  have st3: "?st \<notin> dirty_blocks (bio s)" using D(10) ST(2) by blast
  have take3: "fst ` set (take j w3) \<subseteq> dirty_blocks (bio s)" using k3 set_take_subset [of j w3] by blast
  have "?st \<notin> fst ` set (take j w3)" using take3 st3 by blast
  then have hst: "dd (1, ?st) = h" unfolding e by (simp add: upds_notin)
  have el: "dd (1, log_block s i) = ?v (?c i)" if i: "i < ?n" for i
  proof -
    have "log_block s i \<notin> fst ` set (take j w3)" using take3 D(10) L(2) [OF n30 [OF i]] by blast
    then show ?thesis unfolding e w1_def
      using logged_copy [OF ok i, of ?d "\<lambda>i. ?v (?c i)"] L(3) [OF n30 [OF i]] by (simp add: upds_notin)
  qed
  have hn: "hd_n h = lh_n s" "\<And>i. i < ?n \<Longrightarrow> hd_block h i = ?c i"
    using hd_put_head [of "lh_n s"] D(3,4) by (auto simp: h_def)
  have lb: "log_block (log_boot dd ?st) = log_block s" by (rule log_block_boot) (simp add: log_boot_def)
  have "lh_n s < 30" using D(3,4) by simp
  then obtain r x where r: "recover_from_log pid (log_boot dd ?st) = Ok r"
    "disk_block (bio r) = upds (\<lambda>bn. dd (1, bn)) (map (\<lambda>i. (hd_block h i, dd (1, log_block s i))) [0 ..< ?n] @ [(?st, x)])"
    using recover_writes [where lstart = ?st and h = h and d = dd and pid = pid] hst hn D(3,4,5,6) unfolding lb by auto
  have m: "map (\<lambda>i. (hd_block h i, dd (1, log_block s i))) [0 ..< ?n] = w3"
    unfolding w3_def using hn(2) el by (intro map_cong) auto
  have dr: "disk_block (bio r) = upds (\<lambda>bn. dd (1, bn)) (w3 @ [(?st, x)])" using r(2) unfolding m .
  have "disk_block (bio r) b = ?v b" if b: "b \<notin> log_area ?st" for b
  proof (cases "b \<in> dirty_blocks (bio s)")
    case True
    then obtain i where i: "i < ?n" "b = ?c i" unfolding D(8) by blast
    have "upds (\<lambda>bn. dd (1, bn)) w3 b = ?v b"
      by (rule upds_in) (use i in \<open>auto simp: w3_def image_image\<close>)
    then show ?thesis using b ST(2) by (auto simp: dr upds_append)
  next
    case False
    then have "b \<notin> fst ` set w3" "b \<notin> fst ` set (take j w3)" "b \<notin> fst ` set w1" "b \<noteq> ?st"
      using k3 take3 k1 b ST(2) by blast+
    then have "dd (1, b) = ?d b" "disk_block (bio r) b = dd (1, b)"
      by (simp add: e upds_notin, simp add: dr upds_append upds_notin)
    then show ?thesis using commit_ws_outside(2) [OF ok lk b False] by simp
  qed
  with r(1) show ?thesis by blast
qed

lemma crash_recover:
  assumes ok: "log_ok s" and lk: "locked_blocks (bio s) = {}" and h0: "hd_n (disk_block (bio s) (log_start s)) = 0"
    and dk: "\<And>bn. dd (1, bn) = upds (disk_block (bio s)) (take k (commit_ws s)) bn"
  shows "\<exists>r. recover_from_log pid (log_boot dd (log_start s)) = Ok r \<and>
    ((\<forall>b. b \<notin> log_area (log_start s) \<longrightarrow> disk_block (bio r) b = disk_block (bio s) b) \<or>
     (\<forall>b. b \<notin> log_area (log_start s) \<longrightarrow> disk_block (bio r) b = bview (bio s) b))"
proof -
  note D = log_okD [OF ok]
  let ?st = "log_start s" and ?n = "nat (lh_n s)" and ?v = "bview (bio s)" and ?d = "disk_block (bio s)"
  let ?c = "\<lambda>i. lh_block s ! i"
  define h where "h = put_head (?v ?st) (lh_n s) (lh_block s)"
  define w1 where "w1 = map (\<lambda>i. (log_block s i, ?v (?c i))) [0 ..< ?n]"
  define w3 where "w3 = map (\<lambda>i. (?c i, ?v (?c i))) [0 ..< ?n]"
  define h1 where "h1 = put_head h 0 (lh_block s)"
  have cw: "commit_ws s = w1 @ [(?st, h)] @ w3 @ [(?st, h1)]"
    by (simp add: commit_ws_def Let_def w1_def w3_def h_def h1_def)
  have len: "length w1 = ?n" "length w3 = ?n" by (simp_all add: w1_def w3_def)
  note L = log_block_facts [OF D(5)] and ST = log_start_facts [OF D(5)]
  have n30: "i < ?n \<Longrightarrow> Suc i < 30" for i using D(4) by simp
  have k1: "fst ` set w1 \<subseteq> log_area ?st - {?st}" using L(2,3) n30 by (auto simp: w1_def)
  have take1: "fst ` set (take j w1) \<subseteq> log_area ?st - {?st}" for j using k1 set_take_subset [of j w1] by blast
  consider (before) "k \<le> ?n" | (after) "?n < k" "k < 2 * ?n + 2" | (all) "2 * ?n + 2 \<le> k" by linarith
  then show ?thesis
  proof cases
    case before
    then have t: "take k (commit_ws s) = take k w1" by (simp add: cw len)
    have "upds ?d (take k w1) ?st = ?d ?st" using take1 [of k] by (intro upds_notin) blast
    then have "hd_n (dd (1, ?st)) = 0" using h0 by (simp add: dk t)
    moreover have "dd (1, b) = ?d b" if "b \<notin> log_area ?st" for b
      unfolding dk t using take1 [of k] that by (intro upds_notin) blast
    ultimately show ?thesis using recover_empty [OF D(5), of dd pid] by metis
  next
    case all
    then have t: "take k (commit_ws s) = commit_ws s" by (simp add: cw len)
    have "dd (1, ?st) = h1" unfolding dk t unfolding cw by (simp add: upds_append upds_Cons)
    then have "hd_n (dd (1, ?st)) = 0" by (simp add: h1_def hd_put_head)
    moreover have "dd (1, b) = ?v b" if "b \<notin> log_area ?st" for b
      unfolding dk t by (rule commit_ws_outside(1) [OF ok lk that])
    ultimately show ?thesis using recover_empty [OF D(5), of dd pid] by metis
  next
    case after
    have "take k (commit_ws s) = w1 @ [(?st, h)] @ take (k - ?n - 1) w3"
      using after by (simp add: cw len take_Cons' numeral_2_eq_2)
    then have "dd (1, bn) = upds ((upds ?d w1)(?st := h)) (take (k - ?n - 1) w3) bn" for bn
      unfolding dk by (simp add: upds_append upds_Cons)
    from crash_after_head [OF ok lk this [unfolded w1_def w3_def h_def]] show ?thesis by metis
  qed
qed

text \<open>
  C1: a transaction is atomic across crashes.  If the log is empty on disk, \<^verbatim>\<open>commit\<close> returns
  without a panic and leaves on the disk, outside the log, exactly the blocks that the kernel
  saw.  And if the machine stops after any number \<open>k\<close> of the block writes that it makes, then
  recovery at the next boot returns, with the blocks outside the log either all as they were
  on disk before the commit or all as the transaction left them.
\<close>

theorem commit_crash_safe:
  assumes ok: "log_ok s" and lk: "locked_blocks (bio s) = {}" and h0: "hd_n (disk_block (bio s) (log_start s)) = 0"
  shows "\<exists>s' ws. commit pid s = Ok s' \<and> wlog (bio s') = wlog (bio s) @ ws \<and> lh_n s' = 0 \<and>
    (\<forall>b. b \<notin> log_area (log_start s) \<longrightarrow> disk_block (bio s') b = bview (bio s) b) \<and>
    (\<forall>k. \<exists>r. recover_from_log pid (log_boot (upds (bc_disks (bio s)) (take k ws)) (log_start s)) = Ok r \<and>
       ((\<forall>b. b \<notin> log_area (log_start s) \<longrightarrow> disk_block (bio r) b = disk_block (bio s) b) \<or>
        (\<forall>b. b \<notin> log_area (log_start s) \<longrightarrow> disk_block (bio r) b = bview (bio s) b)))"
proof -
  note D = log_okD [OF ok]
  let ?st = "log_start s" and ?n = "nat (lh_n s)" and ?v = "bview (bio s)" and ?d = "disk_block (bio s)"
  let ?c = "\<lambda>i. lh_block s ! i"
  let ?good = "\<lambda>k ws. \<exists>r. recover_from_log pid (log_boot (upds (bc_disks (bio s)) (take k ws)) ?st) = Ok r \<and>
       ((\<forall>b. b \<notin> log_area ?st \<longrightarrow> disk_block (bio r) b = ?d b) \<or> (\<forall>b. b \<notin> log_area ?st \<longrightarrow> disk_block (bio r) b = ?v b))"
  show ?thesis
  proof (cases "lh_n s > 0")
    case False
    then have z: "lh_n s = 0" "dirty_blocks (bio s) = {}" using D(3,8) by auto
    have "?good k []" for k
      using recover_empty [OF D(5), of "bc_disks (bio s)" pid] h0 by (auto simp: disk_block_def)
    moreover have "commit pid s = Ok s" using z by (simp add: commit_def)
    moreover have "?d b = ?v b" if "b \<notin> log_area ?st" for b
      using commit_ws_outside(2) [OF ok lk that] z(2) by simp
    ultimately show ?thesis using z(1) by (intro exI [of _ s] exI [of _ "[]"]) simp
  next
    case True
    obtain b where b: "commit pid s = Ok (s\<lparr>bio := b, lh_n := 0\<rparr>)" "wrote_out (bio s) (commit_ws s) {} b"
      using commit_writes [OF ok lk True] by blast
    have "?good k (dev1 (commit_ws s))" for k
    proof -
      let ?dk = "upds (bc_disks (bio s)) (take k (dev1 (commit_ws s)))"
      have dk: "?dk (1, bn) = upds ?d (take k (commit_ws s)) bn" for bn
        by (simp add: dev1_take upds_dev1 disk_block_def [abs_def])
      show ?thesis
        by (rule crash_recover [OF ok lk h0 dk])
    qed
    then show ?thesis
      using b commit_ws_outside(1) [OF ok lk]
      by (intro exI [of _ "s\<lparr>bio := b, lh_n := 0\<rparr>"] exI [of _ "dev1 (commit_ws s)"]) (simp add: wrote_out_def)
  qed
qed

section \<open>Writing through the log\<close>

text \<open>
  What \<^verbatim>\<open>log_write\<close> does to the header: a block is recorded once, however often it is written.
\<close>

lemma log_write_header:
  assumes "length bl = LOGSIZE" and "n < LOGSIZE" and "distinct (take n bl)"
    and i: "i = (case find_idx (\<lambda>x. x = bn) (take n bl) of Some i \<Rightarrow> i | None \<Rightarrow> n)"
  shows "bn \<in> set (take n bl) \<Longrightarrow> i < n \<and> bl[i := bn] = bl"
    and "bn \<notin> set (take n bl) \<Longrightarrow> i = n \<and> take (Suc n) (bl[i := bn]) = take n bl @ [bn]"
proof -
  show "i < n \<and> bl[i := bn] = bl" if m: "bn \<in> set (take n bl)"
  proof -
    obtain k where k: "find_idx (\<lambda>x. x = bn) (take n bl) = Some k" using find_idx_exists [OF m, of "\<lambda>x. x = bn"] by auto
    with find_idx_SomeD(1,2) [OF k] i assms(1,2) show ?thesis by (auto simp: list_update_same_conv)
  qed
  show "i = n \<and> take (Suc n) (bl[i := bn]) = take n bl @ [bn]" if "bn \<notin> set (take n bl)"
  proof -
    have "find_idx (\<lambda>x. x = bn) (take n bl) = None" using that by (auto simp: find_idx_None_iff)
    then show ?thesis using i assms(1,2) by (simp add: take_Suc_conv_app_nth)
  qed
qed

lemma log_write_ok:
  assumes ok: "log_ok s" and h: "bheld pid (bio s) b bn" and out: "bn \<notin> log_area (log_start s)"
    and room: "1 \<le> outstanding s" "lh_n s < log_size s - 1"
  obtains s' where "log_write s b = Ok s'" "log_ok s'" "bio s' = bpin (bio s) b" "log_start s' = log_start s"
    "outstanding s' = outstanding s" "log_size s' = log_size s" "log_dev s' = log_dev s" "committing s' = committing s"
    "lh_n s' = (if bn \<in> dirty_blocks (bio s) then lh_n s else lh_n s + 1)"
proof -
  define n where "n = nat (lh_n s)"
  define bl where "bl = lh_block s"
  have f: "length bl = 30" "n < 30" "distinct (take n bl)" "dirty_blocks (bio s) = set (take n bl)" "lh_n s = int n" "lh_n s < 29"
    "\<And>b. b \<in> set (take n bl) \<Longrightarrow> b < 1000 \<and> b \<notin> log_area (log_start s)"
    using ok room by (auto simp: log_ok_def n_def bl_def)
  define i where "i = (case find_idx (\<lambda>x. x = bn) (take n bl) of Some i \<Rightarrow> i | None \<Rightarrow> n)"
  note hd = log_write_header [OF f(1,2,3) i_def]
  define s' where "s' = s\<lparr>lh_block := bl[i := bn], lh_n := (if i = n then lh_n s + 1 else lh_n s), bio := bpin (bio s) b\<rparr>"
  have bno: "b_blockno (bufs (bio s) ! b) = bn" using h by (simp add: bheld_def)
  have w: "log_write s b = Ok s'"
    unfolding log_write_def Let_def bno n_def [symmetric] bl_def [symmetric] i_def [symmetric] s'_def
    using room f(6) by simp
  note pin = bc.pin_post [OF log_okD(1) [OF ok] h]
  have lt: "bn < 1000" using bc.held_data [OF log_okD(1) [OF ok] h] by blast
  have base: "log_dev s' = 1" "log_size s' \<le> 30" "unat (log_start s') + 30 < 1000" "log_start s' = log_start s"
    "bio s' = bpin (bio s) b" "length (lh_block s') = 30" "0 \<le> lh_n s'" "lh_n s' < 30"
    using ok f(1,6) by (auto simp: log_ok_def s'_def bl_def)
  have pin': "bio_ok (bio s')" "dirty_blocks (bio s') = insert bn (set (take n bl))"
    using pin f(4) by (simp_all add: base(5))
  have intro: "log_ok s'" if d: "distinct (take (nat (lh_n s')) (lh_block s'))"
    and st: "set (take (nat (lh_n s')) (lh_block s')) = insert bn (set (take n bl))"
    unfolding log_ok_def using base pin' d f(7) lt out unfolding st by auto
  have "log_ok s' \<and> lh_n s' = (if bn \<in> dirty_blocks (bio s) then lh_n s else lh_n s + 1)"
  proof (cases "bn \<in> set (take n bl)")
    case True
    have "i \<noteq> n" "bl[i := bn] = bl" using hd(1) [OF True] by auto
    then have e: "lh_n s' = lh_n s" "lh_block s' = bl" by (simp_all add: s'_def)
    have "log_ok s'" by (rule intro) (use f(3) True in \<open>simp_all add: e insert_absorb flip: n_def\<close>)
    then show ?thesis using e True f(4) by simp
  next
    case False
    have i: "i = n" "take (Suc n) (bl[i := bn]) = take n bl @ [bn]" using hd(2) [OF False] by auto
    have e: "lh_n s' = lh_n s + 1" "nat (lh_n s') = Suc n" "lh_block s' = bl[i := bn]"
      using f(5) i(1) by (simp_all add: s'_def)
    have "log_ok s'" by (rule intro) (use f(3) False in \<open>simp_all only: e(2,3) i(2), auto\<close>)
    then show ?thesis using e False f(4) by simp
  qed
  then have fin: "log_ok s'" "lh_n s' = (if bn \<in> dirty_blocks (bio s) then lh_n s else lh_n s + 1)" by simp_all
  have same: "outstanding s' = outstanding s" "log_size s' = log_size s" "log_dev s' = log_dev s" "committing s' = committing s"
    by (simp_all add: s'_def)
  show ?thesis by (rule that [OF w fin(1) base(5,4) same fin(2)])
qed


text \<open>The way the file system changes a block: read it, change it, log it and release it.\<close>

lemma log_update:
  assumes ok: "log_ok s" and h: "bheld pid (bio s) i bn" and out: "bn \<notin> log_area (log_start s)"
    and room: "1 \<le> outstanding s" "lh_n s < log_size s - 1"
  obtains s1 b2 where "log_write (s\<lparr>bio := bset (bio s) i d\<rparr>) i = Ok s1" "brelse pid (bio s1) i = Ok b2"
    "log_ok (s1\<lparr>bio := b2\<rparr>)" "bview b2 = (bview (bio s))(bn := d)" "disk_block b2 = disk_block (bio s)"
    "locked_blocks b2 = locked_blocks (bio s) - {bn}" "log_start s1 = log_start s" "outstanding s1 = outstanding s"
    "log_size s1 = log_size s" "lh_n s1 = (if bn \<in> dirty_blocks (bio s) then lh_n s else lh_n s + 1)"
    "dirty_blocks b2 = insert bn (dirty_blocks (bio s))" "\<forall>p j c. bheld p (bio s) j c \<and> c \<noteq> bn \<longrightarrow> bheld p b2 j c"
proof -
  let ?s = "s\<lparr>bio := bset (bio s) i d\<rparr>"
  have okb: "bio_ok (bio s)" by (rule log_okD(1) [OF ok])
  note u = bc.upd_post [OF okb h, of d]
  have ok1: "log_ok ?s" using ok u by (simp add: log_ok_def)
  have h1: "bheld pid (bio ?s) i bn" using u h by simp
  have room1: "bn \<notin> log_area (log_start ?s)" "1 \<le> outstanding ?s" "lh_n ?s < log_size ?s - 1" using out room by auto
  obtain s1 where s1: "log_write ?s i = Ok s1" "log_ok s1" "bio s1 = bpin (bio ?s) i" "log_start s1 = log_start ?s"
    "outstanding s1 = outstanding ?s" "log_size s1 = log_size ?s" "log_dev s1 = log_dev ?s" "committing s1 = committing ?s"
    "lh_n s1 = (if bn \<in> dirty_blocks (bio ?s) then lh_n ?s else lh_n ?s + 1)"
    by (rule log_write_ok [OF ok1 h1 room1])
  from bc.write_held [OF okb h, of d] obtain b2 where b2: "brelse pid (bpin (bset (bio s) i d) i) i = Ok b2" "bio_ok b2"
    "bview b2 = (bview (bio s))(bn := d)" "disk_block b2 = disk_block (bio s)" "wlog b2 = wlog (bio s)"
    "dirty_blocks b2 = insert bn (dirty_blocks (bio s))" "locked_blocks b2 = locked_blocks (bio s) - {bn}"
    "\<forall>p j c. bheld p (bio s) j c \<and> c \<noteq> bn \<longrightarrow> bheld p b2 j c"
    by blast
  have "dirty_blocks (bio s1) = dirty_blocks b2"
    using s1(3) b2(6) bc.pin_post [OF log_okD(1) [OF ok1] h1] u by simp
  then have "log_ok (s1\<lparr>bio := b2\<rparr>)" using s1(2) b2(2) by (simp add: log_ok_def)
  then show ?thesis using that [of s1 b2] s1 b2 u by simp
qed

text \<open>
  C26: \<^verbatim>\<open>log_write\<close> records a block that the transaction has not touched yet as one more entry of
  the header and absorbs a second write of the same block; either way the block stays in the
  cache until the commit, the log stays well-formed and the number of entries stays below 30.
\<close>

theorem log_write_absorbs:
  assumes "log_ok s" and "bheld pid (bio s) b bn" and "bn \<notin> log_area (log_start s)"
    and "1 \<le> outstanding s" and "lh_n s < log_size s - 1"
  shows "\<exists>s'. log_write s b = Ok s' \<and> log_ok s' \<and> dirty_blocks (bio s') = insert bn (dirty_blocks (bio s)) \<and>
    lh_n s' = (if bn \<in> dirty_blocks (bio s) then lh_n s else lh_n s + 1) \<and> bview (bio s') = bview (bio s)"
  by (rule log_write_ok [OF assms]) (use bc.pin_post [OF log_okD(1) [OF assms(1)] assms(2)] in auto)

section \<open>Witnesses\<close>

text \<open>A disk of zeros with the log at block 2, and a transaction that writes block 50.\<close>

definition log_demo :: logsys where
  "log_demo = (log_boot (\<lambda>_ _. 0) 2)\<lparr>outstanding := 1\<rparr>"

lemma log_demo_ok: "log_ok log_demo" "locked_blocks (bio log_demo) = {}" "dirty_blocks (bio log_demo) = {}"
  "disk_block (bio log_demo) = (\<lambda>_ _. 0)" "log_start log_demo = 2" "outstanding log_demo = 1" "lh_n log_demo = 0"
  "log_size log_demo = 30"
  by (simp_all add: log_ok_def log_demo_def log_boot_def fresh_cache disk_block_def [abs_def])

lemma log_demo_held: "\<exists>i s. bread 9 (bio log_demo) 1 50 = Ok (i, bio s) \<and> s = log_demo\<lparr>bio := bio s\<rparr> \<and> log_ok s \<and> bheld 9 (bio s) i 50 \<and>
    dirty_blocks (bio s) = {} \<and> locked_blocks (bio s) = {50} \<and> disk_block (bio s) = (\<lambda>_ _. 0)"
proof -
  have ok: "bio_ok (bio log_demo)" by (rule log_okD(1) [OF log_demo_ok(1)])
  obtain i b where r: "bread 9 (bio log_demo) 1 50 = Ok (i, b)"
    using bc.get_total [OF ok, of 50 9] log_demo_ok by auto
  note p = bc.get_post [OF ok r]
  have "log_ok (log_demo\<lparr>bio := b\<rparr>)" using log_demo_ok(1) p by (simp add: log_ok_def)
  then show ?thesis using r p log_demo_ok by (intro exI [of _ i] exI [of _ "log_demo\<lparr>bio := b\<rparr>"]) simp
qed

lemma log_demo_txn: "\<exists>s. log_ok s \<and> locked_blocks (bio s) = {} \<and> log_start s = 2 \<and> lh_n s = 1 \<and>
    bview (bio s) 50 = (\<lambda>_. 7) \<and> disk_block (bio s) = (\<lambda>_ _. 0)"
proof -
  obtain i s where s: "s = log_demo\<lparr>bio := bio s\<rparr>" "log_ok s" "bheld 9 (bio s) i 50" "dirty_blocks (bio s) = {}"
    "locked_blocks (bio s) = {50}" "disk_block (bio s) = (\<lambda>_ _. 0)" using log_demo_held by blast
  have f: "log_start s = 2" "outstanding s = 1" "lh_n s = 0" "log_size s = 30"
    by (subst s(1), simp add: log_demo_ok)+
  have c: "50 \<notin> log_area (log_start s)" "1 \<le> outstanding s" "lh_n s < log_size s - 1"
    by (simp_all add: f log_area_def)
  obtain s1 b2 where "log_ok (s1\<lparr>bio := b2\<rparr>)" "bview b2 = (bview (bio s))(50 := \<lambda>_. 7)" "disk_block b2 = disk_block (bio s)"
    "locked_blocks b2 = locked_blocks (bio s) - {50}" "log_start s1 = log_start s"
    "lh_n s1 = (if 50 \<in> dirty_blocks (bio s) then lh_n s else lh_n s + 1)"
    by (rule log_update [OF s(2,3) c, where d = "\<lambda>_. 7"])
  then show ?thesis using s f by (intro exI [of _ "s1\<lparr>bio := b2\<rparr>"]) simp
qed

theorem commit_crash_safe_witness:
  "\<exists>s s'. log_ok s \<and> lh_n s = 1 \<and> disk_block (bio s) 50 = (\<lambda>_. 0) \<and> commit 9 s = Ok s' \<and> disk_block (bio s') 50 = (\<lambda>_. 7)"
proof -
  obtain s where s: "log_ok s" "locked_blocks (bio s) = {}" "log_start s = 2" "lh_n s = 1" "bview (bio s) 50 = (\<lambda>_. 7)"
    "disk_block (bio s) = (\<lambda>_ _. 0)" using log_demo_txn by blast
  have "hd_n (disk_block (bio s) (log_start s)) = 0" by (simp add: s hd_n_def get32_def)
  from commit_crash_safe [OF s(1,2) this, of 9] obtain s' where "commit 9 s = Ok s'"
    "\<forall>b. b \<notin> log_area (log_start s) \<longrightarrow> disk_block (bio s') b = bview (bio s) b" by blast
  moreover have "50 \<notin> log_area (log_start s)" by (simp add: s log_area_def)
  ultimately show ?thesis using s by (intro exI [of _ s] exI [of _ s']) simp
qed

theorem log_write_absorbs_witness:
  "\<exists>s i s'. bheld 9 (bio s) i 50 \<and> log_write s i = Ok s' \<and> lh_n s = 0 \<and> lh_n s' = 1"
proof -
  obtain i s where s: "s = log_demo\<lparr>bio := bio s\<rparr>" "log_ok s" "bheld 9 (bio s) i 50" "dirty_blocks (bio s) = {}"
    using log_demo_held by blast
  have f: "log_start s = 2" "outstanding s = 1" "lh_n s = 0" "log_size s = 30"
    by (subst s(1), simp add: log_demo_ok)+
  have c: "50 \<notin> log_area (log_start s)" "1 \<le> outstanding s" "lh_n s < log_size s - 1"
    by (simp_all add: f log_area_def)
  from log_write_absorbs [OF s(2,3) c] obtain s' where "log_write s i = Ok s'" "lh_n s' = 1" using s(4) f by auto
  with s(3) f(3) show ?thesis by blast
qed

end
