(* ===== verification/Xv6_Balloc.thy ===== *)
theory Xv6_Balloc
  imports Xv6_Log
begin

text \<open>
  The state of the file system and its lowest layer, the allocator of disk blocks in
  \<^verbatim>\<open>src/xv6/fs.c\<close>: the superblock, the inode cache, \<^verbatim>\<open>bzero\<close>, \<^verbatim>\<open>balloc\<close> and \<^verbatim>\<open>bfree\<close>.  The
  allocator is shown to implement a set of free blocks.  The lemmas on \<open>room\<close> count how many
  more blocks a transaction may log; all of the file system rests on them.
\<close>

section \<open>The state\<close>

text \<open>\<^verbatim>\<open>struct inode\<close>; \<^verbatim>\<open>short\<close> fields are kept at their width.\<close>

record inode =
  i_dev :: uint
  i_inum :: uint
  i_ref :: int
  i_lock :: sleeplock
  i_valid :: bool
  i_type :: ushort
  i_major :: ushort
  i_minor :: ushort
  i_nlink :: ushort
  i_size :: uint
  i_addrs :: "uint list"

text \<open>
  The log with the buffer cache under it, the superblock read at boot, the inode cache, and
  the state of the devices that inodes may stand for.
\<close>

record 'd fssys =
  fs_log :: logsys
  fs_sb :: superblock
  icache :: "inode list"
  fs_devs :: 'd

text \<open>\<^verbatim>\<open>bread\<close>, the contents of a buffer, assignment to it, \<^verbatim>\<open>log_write\<close> and \<^verbatim>\<open>brelse\<close> on this state.\<close>

definition fs_bread :: "int \<Rightarrow> 'd fssys \<Rightarrow> uint \<Rightarrow> uint \<Rightarrow> (nat \<times> 'd fssys) outcome" where
  "fs_bread pid s dev bn =
     obind (bread pid (bio (fs_log s)) dev bn) (\<lambda>(bp, b). Ok (bp, s\<lparr>fs_log := (fs_log s)\<lparr>bio := b\<rparr>\<rparr>))"

definition fs_data :: "'d fssys \<Rightarrow> nat \<Rightarrow> block" where
  "fs_data s bp = b_data (bufs (bio (fs_log s)) ! bp)"

definition fs_set :: "'d fssys \<Rightarrow> nat \<Rightarrow> block \<Rightarrow> 'd fssys" where
  "fs_set s bp d = s\<lparr>fs_log := (fs_log s)\<lparr>bio := bset (bio (fs_log s)) bp d\<rparr>\<rparr>"

definition fs_log_write :: "'d fssys \<Rightarrow> nat \<Rightarrow> 'd fssys outcome" where
  "fs_log_write s bp = obind (log_write (fs_log s) bp) (\<lambda>l. Ok (s\<lparr>fs_log := l\<rparr>))"

definition fs_brelse :: "int \<Rightarrow> 'd fssys \<Rightarrow> nat \<Rightarrow> 'd fssys outcome" where
  "fs_brelse pid s bp =
     obind (brelse pid (bio (fs_log s)) bp) (\<lambda>b. Ok (s\<lparr>fs_log := (fs_log s)\<lparr>bio := b\<rparr>\<rparr>))"

section \<open>Blocks\<close>

abbreviation (input) BPB :: nat where "BPB \<equiv> 4096"

definition zero_data :: "block \<Rightarrow> block" where
  "zero_data d = (\<lambda>k. if k < BSIZE then 0 else d k)"

definition bzero :: "int \<Rightarrow> 'd fssys \<Rightarrow> uint \<Rightarrow> uint \<Rightarrow> 'd fssys outcome" where
  "bzero pid s dev bno =
     obind (fs_bread pid s dev bno) (\<lambda>(bp, s1).
     obind (fs_log_write (fs_set s1 bp (zero_data (fs_data s1 bp))) bp) (\<lambda>s2. fs_brelse pid s2 bp))"

text \<open>\<^verbatim>\<open>BBLOCK\<close>, and the bit of block \<open>b\<close> in its block of the free map.\<close>

definition BBLOCK :: "nat \<Rightarrow> superblock \<Rightarrow> uint" where
  "BBLOCK b sb = of_nat (b div BPB) + sb_bmapstart sb"

definition bmask :: "nat \<Rightarrow> uchar" where
  "bmask bi = push_bit (bi mod 8) 1"

definition bit_used :: "block \<Rightarrow> nat \<Rightarrow> bool" where
  "bit_used d bi \<longleftrightarrow> d (bi div 8) AND bmask bi \<noteq> 0"

definition mark_used :: "block \<Rightarrow> nat \<Rightarrow> block" where
  "mark_used d bi = d(bi div 8 := d (bi div 8) OR bmask bi)"

definition mark_free :: "block \<Rightarrow> nat \<Rightarrow> block" where
  "mark_free d bi = d(bi div 8 := d (bi div 8) AND NOT (bmask bi))"

text \<open>The outer loop of \<^verbatim>\<open>balloc\<close>, from block \<open>b\<close> on.\<close>

function balloc_from :: "int \<Rightarrow> 'd fssys \<Rightarrow> uint \<Rightarrow> nat \<Rightarrow> (uint \<times> 'd fssys) outcome" where
  "balloc_from pid s dev b =
     (if b < unat (sb_size (fs_sb s)) then
        obind (fs_bread pid s dev (BBLOCK b (fs_sb s))) (\<lambda>(bp, s1).
          case find (\<lambda>bi. b + bi < unat (sb_size (fs_sb s)) \<and> \<not> bit_used (fs_data s1 bp) bi) [0 ..< BPB] of
            Some bi \<Rightarrow>
              obind (fs_log_write (fs_set s1 bp (mark_used (fs_data s1 bp) bi)) bp) (\<lambda>s2.
              obind (fs_brelse pid s2 bp) (\<lambda>s3.
              obind (bzero pid s3 dev (of_nat (b + bi))) (\<lambda>s4. Ok (of_nat (b + bi), s4))))
          | None \<Rightarrow> obind (fs_brelse pid s1 bp) (\<lambda>s2. balloc_from pid s2 dev (b + BPB)))
      else Panic ''balloc: out of blocks'')"
  by pat_completeness auto

lemma fs_sb_bread: "fs_bread pid s dev bn = Ok (bp, s1) \<Longrightarrow> fs_sb s1 = fs_sb s"
  by (auto simp: fs_bread_def obind_eq_Ok)

lemma fs_sb_brelse: "fs_brelse pid s bp = Ok s1 \<Longrightarrow> fs_sb s1 = fs_sb s"
  by (auto simp: fs_brelse_def obind_eq_Ok)

termination balloc_from
  by (relation "measure (\<lambda>(pid, s, dev, b). unat (sb_size (fs_sb s)) - b)")
    (auto dest!: fs_sb_bread fs_sb_brelse)

declare balloc_from.simps [simp del]

definition balloc :: "int \<Rightarrow> 'd fssys \<Rightarrow> uint \<Rightarrow> (uint \<times> 'd fssys) outcome" where
  "balloc pid s dev = balloc_from pid s dev 0"

definition bfree :: "int \<Rightarrow> 'd fssys \<Rightarrow> uint \<Rightarrow> uint \<Rightarrow> 'd fssys outcome" where
  "bfree pid s dev b =
     obind (fs_bread pid s dev (BBLOCK (unat b) (fs_sb s))) (\<lambda>(bp, s1).
       let bi = unat b mod BPB
       in if \<not> bit_used (fs_data s1 bp) bi then Panic ''freeing free block''
          else obind (fs_log_write (fs_set s1 bp (mark_free (fs_data s1 bp) bi)) bp) (\<lambda>s2. fs_brelse pid s2 bp))"

section \<open>Bits of the free map\<close>

lemma bit_used_bit: "bit_used d bi \<longleftrightarrow> bit (d (bi div 8)) (bi mod 8)"
proof -
  have "x AND push_bit k 1 \<noteq> 0 \<longleftrightarrow> bit x k" if "k < 8" for x :: uchar and k
  proof
    assume "bit x k"
    then have "bit (x AND push_bit k 1) k" using that by (simp add: bit_simps)
    then show "x AND push_bit k 1 \<noteq> 0" by auto
  next
    assume "x AND push_bit k 1 \<noteq> 0"
    then obtain n where "bit (x AND push_bit k 1) n" by (auto simp: bit_eq_iff)
    then show "bit x k" by (auto simp: bit_simps)
  qed
  then show ?thesis by (simp add: bit_used_def bmask_def)
qed

lemma div_mod8_eq: "(i :: nat) div 8 = j div 8 \<Longrightarrow> i mod 8 = j mod 8 \<Longrightarrow> i = j"
  by (metis div_mult_mod_eq)

lemma bmask_bit: "bit (bmask i) k \<longleftrightarrow> k = i mod 8"
  by (auto simp: bmask_def bit_simps)

lemma bit_used_mark_used [simp]: "bit_used (mark_used d i) j \<longleftrightarrow> j = i \<or> bit_used d j"
proof (cases "j div 8 = i div 8")
  case True
  then have "j mod 8 = i mod 8 \<longleftrightarrow> j = i" using div_mod8_eq [of j i] by blast
  with True show ?thesis by (auto simp: bit_used_bit mark_used_def bit_or_iff bmask_bit)
next
  case False
  then show ?thesis by (auto simp: bit_used_bit mark_used_def)
qed

lemma bit_used_mark_free [simp]: "bit_used (mark_free d i) j \<longleftrightarrow> j \<noteq> i \<and> bit_used d j"
proof (cases "j div 8 = i div 8")
  case True
  then have "j mod 8 = i mod 8 \<longleftrightarrow> j = i" using div_mod8_eq [of j i] by blast
  with True show ?thesis by (auto simp: bit_used_bit mark_free_def bit_and_iff bit_not_iff bmask_bit)
next
  case False
  then show ?thesis by (auto simp: bit_used_bit mark_free_def)
qed

section \<open>Steps of the file system\<close>

abbreviation fview :: "'d fssys \<Rightarrow> uint \<Rightarrow> block" where "fview s \<equiv> bview (bio (fs_log s))"
abbreviation fdirty :: "'d fssys \<Rightarrow> uint set" where "fdirty s \<equiv> dirty_blocks (bio (fs_log s))"
abbreviation flocked :: "'d fssys \<Rightarrow> uint set" where "flocked s \<equiv> locked_blocks (bio (fs_log s))"
abbreviation fheld :: "int \<Rightarrow> 'd fssys \<Rightarrow> nat \<Rightarrow> uint \<Rightarrow> bool" where "fheld pid s \<equiv> bheld pid (bio (fs_log s))"

text \<open>
  \<open>evolves s s' v d l\<close>: only the log and the cache have changed from \<open>s\<close> to \<open>s'\<close>; the blocks
  are now \<open>v\<close>, the logged ones \<open>d\<close> and the locked ones \<open>l\<close>.
\<close>

definition evolves :: "'d fssys \<Rightarrow> 'd fssys \<Rightarrow> (uint \<Rightarrow> block) \<Rightarrow> uint set \<Rightarrow> uint set \<Rightarrow> bool" where
  "evolves s s' v d l \<longleftrightarrow> s' = s\<lparr>fs_log := fs_log s'\<rparr> \<and> log_ok (fs_log s') \<and>
     log_start (fs_log s') = log_start (fs_log s) \<and> outstanding (fs_log s') = outstanding (fs_log s) \<and>
     log_size (fs_log s') = log_size (fs_log s) \<and> fview s' = v \<and> fdirty s' = d \<and> flocked s' = l \<and>
     (\<forall>p j c. fheld p s j c \<and> c \<in> l \<longrightarrow> fheld p s' j c) \<and>
     disk_block (bio (fs_log s')) = disk_block (bio (fs_log s))"

lemma evolvesD:
  assumes "evolves s s' v d l"
  shows "log_ok (fs_log s')" "log_start (fs_log s') = log_start (fs_log s)" "outstanding (fs_log s') = outstanding (fs_log s)"
    "log_size (fs_log s') = log_size (fs_log s)" "fview s' = v" "fdirty s' = d" "flocked s' = l"
    "fs_sb s' = fs_sb s" "icache s' = icache s" "fs_devs s' = fs_devs s"
    "\<And>p j c. fheld p s j c \<Longrightarrow> c \<in> l \<Longrightarrow> fheld p s' j c"
    "disk_block (bio (fs_log s')) = disk_block (bio (fs_log s))"
proof -
  have e: "s' = s\<lparr>fs_log := fs_log s'\<rparr>" using assms by (simp add: evolves_def)
  show "fs_sb s' = fs_sb s" "icache s' = icache s" "fs_devs s' = fs_devs s" by (subst e, simp)+
qed (use assms in \<open>simp_all add: evolves_def\<close>)

lemma evolves_trans:
  assumes "evolves s s1 v1 d1 l1" and "evolves s1 s2 v2 d2 l2" and "flocked s \<inter> l2 \<subseteq> l1" and "log_ok (fs_log s)"
  shows "evolves s s2 v2 d2 l2"
proof -
  have "fheld p s2 j c" if "fheld p s j c" "c \<in> l2" for p j c
  proof -
    have "c \<in> flocked s" using bc.held_data [OF log_okD(1) [OF assms(4)] that(1)] by simp
    with that assms(3) evolvesD(11) [OF assms(1) that(1)] evolvesD(11) [OF assms(2)] show ?thesis by blast
  qed
  moreover have "s2 = s\<lparr>fs_log := fs_log s2\<rparr>"
    using assms(1,2) unfolding evolves_def by (metis fssys.surjective fssys.update_convs(1))
  ultimately show ?thesis using evolvesD(1-7,12) [OF assms(1)] evolvesD(1-7,12) [OF assms(2)] by (simp add: evolves_def)
qed

lemma evolves_refl: "log_ok (fs_log s) \<Longrightarrow> evolves s s (fview s) (fdirty s) (flocked s)"
  by (simp add: evolves_def)

text \<open>
  \<open>room K k s\<close>: the transaction may still log the blocks of \<open>K\<close> and \<open>k\<close> more.
\<close>

definition room :: "uint set \<Rightarrow> nat \<Rightarrow> 'd fssys \<Rightarrow> bool" where
  "room K k s \<longleftrightarrow> finite K \<and> 1 \<le> outstanding (fs_log s) \<and> int (card (K \<union> fdirty s) + k) < log_size (fs_log s) - 1"

lemma log_dirty:
  assumes "log_ok l"
  shows "finite (dirty_blocks (bio l))" "int (card (dirty_blocks (bio l))) = lh_n l" "log_size l \<le> 30"
proof -
  have "card (set (take (nat (lh_n l)) (lh_block l))) = nat (lh_n l)"
    using assms by (subst distinct_card) (auto simp: log_ok_def)
  then show "int (card (dirty_blocks (bio l))) = lh_n l" using assms by (simp add: log_ok_def)
qed (use assms in \<open>simp_all add: log_ok_def\<close>)

lemma room_less:
  assumes "log_ok (fs_log s)" and "room K k s"
  shows "1 \<le> outstanding (fs_log s)" "lh_n (fs_log s) < log_size (fs_log s) - 1" "card (fdirty s) < 29"
proof -
  note d = log_dirty [OF assms(1)]
  have "card (fdirty s) \<le> card (K \<union> fdirty s)" using assms(2) d(1) by (intro card_mono) (auto simp: room_def)
  then show "1 \<le> outstanding (fs_log s)" "lh_n (fs_log s) < log_size (fs_log s) - 1" "card (fdirty s) < 29"
    using assms(2) d by (auto simp: room_def)
qed

text \<open>Logging a block costs nothing if it is expected or logged already.\<close>

lemma room_evolves:
  assumes "room K k s" and "evolves s s' v d l" and "card (K \<union> d) + k' \<le> card (K \<union> fdirty s) + k"
  shows "room K k' s'"
  using assms(1,3) evolvesD(3,4,6) [OF assms(2)] by (simp add: room_def)

lemma room_insert:
  assumes "room K k s" and "evolves s s' v (insert bn (fdirty s)) l" and "bn \<in> K \<union> fdirty s \<or> Suc k' \<le> k"
    and "bn \<in> K \<union> fdirty s \<Longrightarrow> k' \<le> k"
  shows "room K k' s'"
proof (rule room_evolves [OF assms(1,2)])
  show "card (K \<union> insert bn (fdirty s)) + k' \<le> card (K \<union> fdirty s) + k"
  proof (cases "bn \<in> K \<union> fdirty s")
    case True
    then have "K \<union> insert bn (fdirty s) = K \<union> fdirty s" by auto
    with True assms(4) show ?thesis by simp
  next
    case False
    have "card (K \<union> insert bn (fdirty s)) \<le> Suc (card (K \<union> fdirty s))" by (simp add: card_insert_le_m1 card_insert_if)
    with False assms(3) show ?thesis by simp
  qed
qed

lemma fs_get:
  assumes ok: "log_ok (fs_log s)" and bn: "bn < 1000" "bn \<notin> flocked s" and few: "card (fdirty s \<union> flocked s) < 30"
  obtains bp s1 where "fs_bread pid s 1 bn = Ok (bp, s1)" "fs_data s1 bp = fview s bn" "fheld pid s1 bp bn"
    "evolves s s1 (fview s) (fdirty s) (insert bn (flocked s))"
    "\<exists>s2. fs_brelse pid s1 bp = Ok s2 \<and> evolves s s2 (fview s) (fdirty s) (flocked s)"
proof -
  let ?l = "fs_log s"
  note okb = log_okD(1) [OF ok]
  obtain bp b where r: "bread pid (bio ?l) 1 bn = Ok (bp, b)" using bc.get_total [OF okb bn, of pid] few by auto
  note g = bc.get_post [OF okb r] and rb = bc.read_block [OF okb r]
  define s1 where "s1 = s\<lparr>fs_log := ?l\<lparr>bio := b\<rparr>\<rparr>"
  have l1: "log_ok (?l\<lparr>bio := b'\<rparr>)" if "bio_ok b'" "dirty_blocks b' = fdirty s" for b'
    using ok that by (simp add: log_ok_def)
  have 1: "fs_bread pid s 1 bn = Ok (bp, s1)" using r by (simp add: fs_bread_def s1_def)
  have 2: "fs_data s1 bp = fview s bn" using rb by (simp add: fs_data_def s1_def)
  have 3: "fheld pid s1 bp bn" using g by (simp add: s1_def)
  have 4: "evolves s s1 (fview s) (fdirty s) (insert bn (flocked s))"
    using g l1 [of b] by (simp add: evolves_def s1_def)
  obtain b2 where b2: "brelse pid b bp = Ok b2" "bio_ok b2" "bview b2 = fview s" "dirty_blocks b2 = fdirty s"
    "locked_blocks b2 = flocked s" "\<forall>p j c. bheld p (bio ?l) j c \<and> c \<noteq> bn \<longrightarrow> bheld p b2 j c"
    "disk_block b2 = disk_block (bio ?l)" using rb by blast
  have hh: "bheld p b2 j c" if "fheld p s j c" "c \<in> flocked s" for p j c using b2(6) that bn(2) by metis
  have 5: "\<exists>s2. fs_brelse pid s1 bp = Ok s2 \<and> evolves s s2 (fview s) (fdirty s) (flocked s)"
    using b2(1-5,7) l1 [of b2] hh
    by (intro exI [of _ "s\<lparr>fs_log := ?l\<lparr>bio := b2\<rparr>\<rparr>"]) (auto simp: fs_brelse_def s1_def evolves_def)
  show ?thesis by (rule that [OF 1 2 3 4 5])
qed

text \<open>Releasing an unchanged buffer, and logging and releasing a changed one.\<close>

lemma fs_drop:
  assumes ok: "log_ok (fs_log s)" and h: "fheld pid s bp bn" and c: "bn \<in> fdirty s \<or> fview s bn = disk_block (bio (fs_log s)) bn"
  obtains s2 where "fs_brelse pid s bp = Ok s2" "evolves s s2 (fview s) (fdirty s) (flocked s - {bn})"
proof -
  let ?l = "fs_log s"
  note okb = log_okD(1) [OF ok]
  obtain b2 where b2: "brelse pid (bio ?l) bp = Ok b2" "bio_ok b2" "bview b2 = fview s" "dirty_blocks b2 = fdirty s"
    "locked_blocks b2 = flocked s - {bn}" "\<forall>p j c. bheld p (bio ?l) j c \<and> c \<noteq> bn \<longrightarrow> bheld p b2 j c"
    "disk_block b2 = disk_block (bio ?l)"
    using bc.rel_post [OF okb h c] by blast
  have "log_ok (?l\<lparr>bio := b2\<rparr>)" using ok b2 by (simp add: log_ok_def)
  then show ?thesis
    using b2 by (intro that [of "s\<lparr>fs_log := ?l\<lparr>bio := b2\<rparr>\<rparr>"]) (auto simp: fs_brelse_def evolves_def)
qed

lemma fs_write_held:
  assumes ok: "log_ok (fs_log s)" and h: "fheld pid s bp bn" and out: "bn \<notin> log_area (log_start (fs_log s))" and r: "room K k s"
  obtains s1 s2 where "fs_log_write (fs_set s bp d) bp = Ok s1" "fs_brelse pid s1 bp = Ok s2"
    "evolves s s2 ((fview s)(bn := d)) (insert bn (fdirty s)) (flocked s - {bn})"
proof -
  note rm = room_less [OF ok r]
  obtain l1 b2 where u: "log_write ((fs_log s)\<lparr>bio := bset (bio (fs_log s)) bp d\<rparr>) bp = Ok l1" "brelse pid (bio l1) bp = Ok b2"
    "log_ok (l1\<lparr>bio := b2\<rparr>)" "bview b2 = (fview s)(bn := d)" "disk_block b2 = disk_block (bio (fs_log s))"
    "locked_blocks b2 = flocked s - {bn}" "log_start l1 = log_start (fs_log s)" "outstanding l1 = outstanding (fs_log s)"
    "log_size l1 = log_size (fs_log s)" "lh_n l1 = (if bn \<in> fdirty s then lh_n (fs_log s) else lh_n (fs_log s) + 1)"
    "dirty_blocks b2 = insert bn (fdirty s)" "\<forall>p j c. fheld p s j c \<and> c \<noteq> bn \<longrightarrow> bheld p b2 j c"
    by (rule log_update [OF ok h out rm(1,2), of d])
  show ?thesis
    using u by (intro that [of "s\<lparr>fs_log := l1\<rparr>" "s\<lparr>fs_log := l1\<lparr>bio := b2\<rparr>\<rparr>"])
      (auto simp: fs_log_write_def fs_set_def fs_brelse_def evolves_def)
qed

lemma few_buffers:
  assumes "log_ok (fs_log s)" and "room K k s" and "card (flocked s) \<le> 1"
  shows "card (fdirty s \<union> flocked s) < 30"
  using room_less(3) [OF assms(1,2)] card_Un_le [of "fdirty s" "flocked s"] assms(3) by linarith

lemma room_same: "room K k s \<Longrightarrow> evolves s s' v (fdirty s) l \<Longrightarrow> room K k s'"
  by (rule room_evolves) auto

text \<open>Changing one block: \<^verbatim>\<open>bread\<close>, an assignment, \<^verbatim>\<open>log_write\<close>, \<^verbatim>\<open>brelse\<close>.\<close>

lemma fs_modify:
  assumes ok: "log_ok (fs_log s)" and r: "room K k s" and one: "card (flocked s) \<le> 1"
    and bn: "bn < 1000" "bn \<notin> flocked s" "bn \<notin> log_area (log_start (fs_log s))"
  obtains bp s1 where "fs_bread pid s 1 bn = Ok (bp, s1)" "fs_data s1 bp = fview s bn" "fs_sb s1 = fs_sb s"
    "\<exists>s2. fs_brelse pid s1 bp = Ok s2 \<and> evolves s s2 (fview s) (fdirty s) (flocked s)"
    "\<forall>d. \<exists>s2 s3. fs_log_write (fs_set s1 bp d) bp = Ok s2 \<and> fs_brelse pid s2 bp = Ok s3 \<and>
       evolves s s3 ((fview s)(bn := d)) (insert bn (fdirty s)) (flocked s)"
proof -
  obtain bp s1 where g: "fs_bread pid s 1 bn = Ok (bp, s1)" "fs_data s1 bp = fview s bn" "fheld pid s1 bp bn"
    "evolves s s1 (fview s) (fdirty s) (insert bn (flocked s))"
    "\<exists>s2. fs_brelse pid s1 bp = Ok s2 \<and> evolves s s2 (fview s) (fdirty s) (flocked s)"
    by (rule fs_get [OF ok bn(1,2) few_buffers [OF ok r one]])
  note e = evolvesD [OF g(4)]
  have out: "bn \<notin> log_area (log_start (fs_log s1))" using bn(3) e(2) by simp
  note r1 = room_same [OF r g(4)]
  have "\<exists>s2 s3. fs_log_write (fs_set s1 bp d) bp = Ok s2 \<and> fs_brelse pid s2 bp = Ok s3 \<and>
       evolves s s3 ((fview s)(bn := d)) (insert bn (fdirty s)) (flocked s)" for d
  proof -
    obtain s2 s3 where w: "fs_log_write (fs_set s1 bp d) bp = Ok s2" "fs_brelse pid s2 bp = Ok s3"
      "evolves s1 s3 ((fview s1)(bn := d)) (insert bn (fdirty s1)) (flocked s1 - {bn})"
      by (rule fs_write_held [OF e(1) g(3) out r1])
    have l: "flocked s1 - {bn} = flocked s" using e(7) bn(2) by auto
    have "evolves s s3 ((fview s)(bn := d)) (insert bn (fdirty s)) (flocked s)"
      using evolves_trans [OF g(4) w(3)] l ok e(5,6) by auto
    with w show ?thesis by blast
  qed
  then show ?thesis using that g(1,2,5) e(8) by blast
qed

section \<open>The allocator\<close>

text \<open>
  The layout that \<^verbatim>\<open>mkfs\<close> makes: log, inodes, one block of free map, data; everything up to the
  free map is marked as in use.
\<close>

definition fs_ok :: "'d fssys \<Rightarrow> bool" where
  "fs_ok s \<longleftrightarrow> log_ok (fs_log s) \<and>
     (let sb = fs_sb s
      in log_start (fs_log s) = sb_logstart sb \<and> unat (sb_logstart sb) + LOGSIZE \<le> unat (sb_inodestart sb) \<and>
         unat (sb_inodestart sb) + unat (sb_ninodes sb) div 8 < unat (sb_bmapstart sb) \<and>
         unat (sb_bmapstart sb) < unat (sb_size sb) \<and> unat (sb_size sb) \<le> 1000 \<and>
         (\<forall>b \<le> unat (sb_bmapstart sb). bit_used (fview s (sb_bmapstart sb)) b))"

abbreviation fmap :: "'d fssys \<Rightarrow> uint" where "fmap s \<equiv> sb_bmapstart (fs_sb s)"

definition fs_free :: "'d fssys \<Rightarrow> uint set" where
  "fs_free s = {b. unat b < unat (sb_size (fs_sb s)) \<and> \<not> bit_used (fview s (fmap s)) (unat b)}"

lemma BBLOCK_small: "b < 4096 \<Longrightarrow> BBLOCK b sb = sb_bmapstart sb"
  by (simp add: BBLOCK_def)

lemma not_log_area: "unat st0 + LOGSIZE \<le> unat b \<Longrightarrow> b \<notin> log_area st0"
  by (simp add: log_area_def)

lemma fs_okD:
  assumes "fs_ok s"
  shows "log_ok (fs_log s)" "fmap s < 1000" "fmap s \<notin> log_area (log_start (fs_log s))" "unat (sb_size (fs_sb s)) \<le> 1000"
    "\<And>b. b \<in> fs_free s \<Longrightarrow> b < 1000 \<and> b \<notin> log_area (log_start (fs_log s)) \<and> b \<noteq> fmap s \<and> unat (fmap s) < unat b"
proof -
  show "log_ok (fs_log s)" "fmap s < 1000" "unat (sb_size (fs_sb s)) \<le> 1000"
    using assms by (auto simp: fs_ok_def Let_def word_less_nat_alt)
  have up: "unat (log_start (fs_log s)) + LOGSIZE \<le> unat b" if "unat (fmap s) \<le> unat b" for b
    using that assms by (auto simp: fs_ok_def Let_def)
  show "fmap s \<notin> log_area (log_start (fs_log s))" using not_log_area [OF up] by simp
  fix b assume b: "b \<in> fs_free s"
  then have lt: "unat (fmap s) < unat b" using assms by (force simp: fs_free_def fs_ok_def Let_def not_less [symmetric])
  have "unat b < 1000" using b assms by (auto simp: fs_free_def fs_ok_def Let_def)
  with lt not_log_area [OF up, of b] show "b < 1000 \<and> b \<notin> log_area (log_start (fs_log s)) \<and> b \<noteq> fmap s \<and> unat (fmap s) < unat b"
    by (auto simp: word_less_nat_alt)
qed

text \<open>The map block may change, as long as what is below it stays in use.\<close>

lemma fs_ok_evolves:
  assumes "fs_ok s" and e: "evolves s s' v d l" and "\<And>b. b \<le> unat (fmap s) \<Longrightarrow> bit_used (v (fmap s)) b"
  shows "fs_ok s'"
  using assms(1,3) evolvesD [OF e] by (simp add: fs_ok_def Let_def)

lemma bzero_ok:
  assumes "log_ok (fs_log s)" and "room K k s" and "card (flocked s) \<le> 1"
    and "bn < 1000" "bn \<notin> flocked s" "bn \<notin> log_area (log_start (fs_log s))"
  shows "\<exists>s'. bzero pid s 1 bn = Ok s' \<and>
    evolves s s' ((fview s)(bn := zero_data (fview s bn))) (insert bn (fdirty s)) (flocked s)"
proof -
  obtain bp s1 where m: "fs_bread pid s 1 bn = Ok (bp, s1)" "fs_data s1 bp = fview s bn" "fs_sb s1 = fs_sb s"
    "\<exists>s2. fs_brelse pid s1 bp = Ok s2 \<and> evolves s s2 (fview s) (fdirty s) (flocked s)"
    "\<forall>d. \<exists>s2 s3. fs_log_write (fs_set s1 bp d) bp = Ok s2 \<and> fs_brelse pid s2 bp = Ok s3 \<and>
       evolves s s3 ((fview s)(bn := d)) (insert bn (fdirty s)) (flocked s)"
    by (rule fs_modify [OF assms, of pid])
  from m(5) [rule_format, of "zero_data (fview s bn)"] m(1,2) show ?thesis by (auto simp: bzero_def)
qed

lemma find_upt_Some: "find P [0 ..< n] = Some i \<longleftrightarrow> i < n \<and> P i \<and> (\<forall>j < i. \<not> P j)"
  by (auto simp: find_Some_iff)

lemma find_upt_least: "P i \<Longrightarrow> i < n \<Longrightarrow> \<exists>j. find P [0 ..< n] = Some j"
  by (cases "find P [0 ..< n]") (auto simp: find_None_iff)

text \<open>\<^verbatim>\<open>balloc\<close> takes the lowest free block, marks it and clears it.\<close>

lemma balloc_ok:
  assumes ok: "fs_ok s" and r: "room K (Suc k) s" and K: "fmap s \<in> K" and one: "card (flocked s) \<le> 1"
    and lk: "fmap s \<notin> flocked s" "fs_free s \<inter> flocked s = {}" and ne: "fs_free s \<noteq> {}"
  obtains a s' where "balloc pid s 1 = Ok (a, s')" "a \<in> fs_free s" "\<forall>b \<in> fs_free s. a \<le> b"
    "evolves s s' ((fview s)(fmap s := mark_used (fview s (fmap s)) (unat a), a := zero_data (fview s a)))
       (insert a (insert (fmap s) (fdirty s))) (flocked s)"
    "fs_ok s'" "room K k s'" "fs_free s' = fs_free s - {a}"
proof -
  note D = fs_okD [OF ok]
  let ?m = "fmap s" and ?sz = "unat (sb_size (fs_sb s))"
  let ?P = "\<lambda>bi. 0 + bi < ?sz \<and> \<not> bit_used (fview s ?m) bi"
  obtain b where "b \<in> fs_free s" using ne by blast
  then have "?P (unat b)" "unat b < 4096" using D(4) by (auto simp: fs_free_def)
  then obtain bi where bi: "find ?P [0 ..< 4096] = Some bi" using find_upt_least [of ?P] by blast
  then have bi': "bi < 4096" "bi < ?sz" "\<not> bit_used (fview s ?m) bi" "\<forall>j < bi. \<not> ?P j" unfolding find_upt_Some by auto
  define a where "a = (of_nat bi :: uint)"
  have a: "unat a = bi" using bi'(1) unfolding a_def by (intro unat_of_nat_uint) simp
  have fr: "a \<in> fs_free s" using a bi' by (simp add: fs_free_def)
  have least: "\<forall>b \<in> fs_free s. a \<le> b"
  proof
    fix b assume "b \<in> fs_free s"
    then have "?P (unat b)" by (simp add: fs_free_def)
    then have "\<not> unat b < bi" using bi'(4) by blast
    then show "a \<le> b" using a by (simp add: word_le_nat_alt)
  qed
  obtain bp s1 where m: "fs_bread pid s 1 ?m = Ok (bp, s1)" "fs_data s1 bp = fview s ?m" "fs_sb s1 = fs_sb s"
    "\<exists>s2. fs_brelse pid s1 bp = Ok s2 \<and> evolves s s2 (fview s) (fdirty s) (flocked s)"
    "\<forall>d. \<exists>s2 s3. fs_log_write (fs_set s1 bp d) bp = Ok s2 \<and> fs_brelse pid s2 bp = Ok s3 \<and>
       evolves s s3 ((fview s)(?m := d)) (insert ?m (fdirty s)) (flocked s)"
    by (rule fs_modify [OF D(1) r one D(2) lk(1) D(3), of pid])
  obtain s2 s3 where w: "fs_log_write (fs_set s1 bp (mark_used (fview s ?m) bi)) bp = Ok s2" "fs_brelse pid s2 bp = Ok s3"
    "evolves s s3 ((fview s)(?m := mark_used (fview s ?m) bi)) (insert ?m (fdirty s)) (flocked s)"
    using m(5) by blast
  note e3 = evolvesD [OF w(3)]
  have r3: "room K (Suc k) s3" by (rule room_insert [OF r w(3)]) (use K in auto)
  note fa = D(5) [OF fr]
  have c: "card (flocked s3) \<le> 1" "a < 1000" "a \<notin> flocked s3" "a \<notin> log_area (log_start (fs_log s3))"
    using one fa fr lk(2) e3(2,7) by auto
  obtain s4 where z: "bzero pid s3 1 a = Ok s4"
    "evolves s3 s4 ((fview s3)(a := zero_data (fview s3 a))) (insert a (fdirty s3)) (flocked s3)"
    using bzero_ok [OF e3(1) r3 c, of pid] by blast
  have "(fview s3)(a := zero_data (fview s3 a)) = (fview s)(?m := mark_used (fview s ?m) (unat a), a := zero_data (fview s a))"
    using fa e3(5) a by simp
  then have ev: "evolves s s4 ((fview s)(?m := mark_used (fview s ?m) (unat a), a := zero_data (fview s a)))
       (insert a (insert ?m (fdirty s))) (flocked s)"
    using evolves_trans [OF w(3) z(2)] D(1) e3(6,7) by simp
  have "balloc pid s 1 = Ok (a, s4)"
    using m(1-3) bi bi'(2) w(1,2) z(1)
    by (simp add: balloc_def balloc_from.simps [of pid s] BBLOCK_small a_def)
  moreover have "fs_ok s4"
    by (rule fs_ok_evolves [OF ok ev]) (use ok fa in \<open>auto simp: fs_ok_def Let_def\<close>)
  moreover have "room K k s4" by (rule room_insert [OF r3 z(2)]) auto
  moreover have "fs_free s4 = fs_free s - {a}"
    using evolvesD(5,8) [OF ev] fa by (auto simp: fs_free_def word_unat_eq_iff)
  ultimately show ?thesis using fr least ev by (intro that [of a s4])
qed

lemma balloc_full:
  assumes "fs_free s = {}" and ok: "fs_ok s" and r: "room K k s" and one: "card (flocked s) \<le> 1" and lk: "fmap s \<notin> flocked s"
  shows "balloc pid s 1 = Panic ''balloc: out of blocks''"
proof -
  note D = fs_okD [OF ok]
  let ?sz = "unat (sb_size (fs_sb s))"
  obtain bp s1 where m: "fs_bread pid s 1 (fmap s) = Ok (bp, s1)" "fs_data s1 bp = fview s (fmap s)" "fs_sb s1 = fs_sb s"
    "\<exists>s2. fs_brelse pid s1 bp = Ok s2 \<and> evolves s s2 (fview s) (fdirty s) (flocked s)"
    "\<forall>d. \<exists>s2 s3. fs_log_write (fs_set s1 bp d) bp = Ok s2 \<and> fs_brelse pid s2 bp = Ok s3 \<and>
       evolves s s3 ((fview s)(fmap s := d)) (insert (fmap s) (fdirty s)) (flocked s)"
    by (rule fs_modify [OF D(1) r one D(2) lk(1) D(3), of pid])
  obtain s2 where s2: "fs_brelse pid s1 bp = Ok s2" "fs_sb s2 = fs_sb s" using m(4) evolvesD(8) by blast
  have "bit_used (fview s (fmap s)) bi" if "bi < ?sz" for bi
  proof -
    have "unat (of_nat bi :: uint) = bi" using that D(4) by (intro unat_of_nat_uint) simp
    moreover have "(of_nat bi :: uint) \<notin> fs_free s" using assms(1) by simp
    ultimately show ?thesis using that unfolding fs_free_def mem_Collect_eq by simp
  qed
  then have "find (\<lambda>bi. 0 + bi < ?sz \<and> \<not> bit_used (fview s (fmap s)) bi) [0 ..< 4096] = None"
    by (auto simp: find_None_iff)
  moreover have "0 < ?sz" using ok by (auto simp: fs_ok_def Let_def)
  moreover have "balloc_from pid s2 1 4096 = Panic ''balloc: out of blocks''"
    using D(4) s2(2) by (simp add: balloc_from.simps [of pid s2])
  ultimately show ?thesis
    using m(1-3) s2(1) by (simp add: balloc_def balloc_from.simps [of pid s] BBLOCK_small)
qed

lemma bfree_ok:
  assumes ok: "fs_ok s" and r: "room K k s" and K: "fmap s \<in> K" and one: "card (flocked s) \<le> 1" and lk: "fmap s \<notin> flocked s"
    and b: "unat (fmap s) < unat b" "unat b < unat (sb_size (fs_sb s))" "b \<notin> fs_free s"
  obtains s' where "bfree pid s 1 b = Ok s'"
    "evolves s s' ((fview s)(fmap s := mark_free (fview s (fmap s)) (unat b))) (insert (fmap s) (fdirty s)) (flocked s)"
    "fs_ok s'" "room K k s'" "fs_free s' = insert b (fs_free s)"
proof -
  note D = fs_okD [OF ok]
  let ?m = "fmap s"
  obtain bp s1 where m: "fs_bread pid s 1 ?m = Ok (bp, s1)" "fs_data s1 bp = fview s ?m" "fs_sb s1 = fs_sb s"
    "\<exists>s2. fs_brelse pid s1 bp = Ok s2 \<and> evolves s s2 (fview s) (fdirty s) (flocked s)"
    "\<forall>d. \<exists>s2 s3. fs_log_write (fs_set s1 bp d) bp = Ok s2 \<and> fs_brelse pid s2 bp = Ok s3 \<and>
       evolves s s3 ((fview s)(?m := d)) (insert ?m (fdirty s)) (flocked s)"
    by (rule fs_modify [OF D(1) r one D(2) lk(1) D(3), of pid])
  obtain s2 s3 where w: "fs_log_write (fs_set s1 bp (mark_free (fview s ?m) (unat b))) bp = Ok s2" "fs_brelse pid s2 bp = Ok s3"
    "evolves s s3 ((fview s)(?m := mark_free (fview s ?m) (unat b))) (insert ?m (fdirty s)) (flocked s)"
    using m(5) by blast
  have lt: "unat b < 4096" using b(2) D(4) by simp
  have u: "bit_used (fview s ?m) (unat b)" using b(2,3) by (simp add: fs_free_def)
  have "bfree pid s 1 b = Ok s3"
    using m(1,2) w(1,2) u lt by (simp add: bfree_def BBLOCK_small Let_def)
  moreover have "fs_ok s3"
    by (rule fs_ok_evolves [OF ok w(3)]) (use ok b(1) in \<open>auto simp: fs_ok_def Let_def\<close>)
  moreover have "room K k s3" by (rule room_insert [OF r w(3)]) (use K in auto)
  moreover have "fs_free s3 = insert b (fs_free s)"
    using evolvesD(5,8) [OF w(3)] b by (auto simp: fs_free_def word_unat_eq_iff)
  ultimately show ?thesis using w(3) by (intro that [of s3])
qed

text \<open>
  C15: \<^verbatim>\<open>balloc\<close> implements a set of free blocks.  Inside a transaction with room for two more
  blocks it returns the lowest free block, filled with zeros, takes it out of the set and
  changes no block but this one and the free map; \<^verbatim>\<open>bfree\<close> puts it back.  It panics only when
  no block is free.
\<close>

theorem balloc_implements_set:
  assumes "fs_ok s" and "room {fmap s} 1 s" and "flocked s = {}"
  shows "if fs_free s = {} then balloc pid s 1 = Panic ''balloc: out of blocks''
    else \<exists>a s' s''. balloc pid s 1 = Ok (a, s') \<and> a \<in> fs_free s \<and> (\<forall>b. b \<in> fs_free s \<longrightarrow> a \<le> b) \<and>
      fs_free s' = fs_free s - {a} \<and> (\<forall>k < BSIZE. fview s' a k = 0) \<and> fs_ok s' \<and>
      (\<forall>b. b \<noteq> a \<and> b \<noteq> fmap s \<longrightarrow> fview s' b = fview s b) \<and>
      bfree pid s' 1 a = Ok s'' \<and> fs_free s'' = fs_free s"
proof (cases "fs_free s = {}")
  case True
  then show ?thesis using balloc_full [OF True assms(1,2)] assms(3) by simp
next
  case False
  have r: "room {fmap s} (Suc 0) s" using assms(2) by simp
  obtain a s' where a: "balloc pid s 1 = Ok (a, s')" "a \<in> fs_free s" "\<forall>b \<in> fs_free s. a \<le> b"
    "evolves s s' ((fview s)(fmap s := mark_used (fview s (fmap s)) (unat a), a := zero_data (fview s a)))
       (insert a (insert (fmap s) (fdirty s))) (flocked s)"
    "fs_ok s'" "room {fmap s} 0 s'" "fs_free s' = fs_free s - {a}"
    by (rule balloc_ok [OF assms(1) r _ _ _ _ False, of pid]) (use assms(3) in simp_all)
  note e = evolvesD [OF a(4)] and f = fs_okD(5) [OF assms(1) a(2)]
  have c: "fmap s' \<in> {fmap s}" "card (flocked s') \<le> 1" "fmap s' \<notin> flocked s'" "unat (fmap s') < unat a"
    "unat a < unat (sb_size (fs_sb s'))" "a \<notin> fs_free s'"
    using e(7,8) f a(2,7) assms(3) by (auto simp: fs_free_def)
  obtain s'' where s'': "bfree pid s' 1 a = Ok s''" "fs_free s'' = insert a (fs_free s')"
    by (rule bfree_ok [OF a(5,6) c, of pid])
  have "fs_free s'' = fs_free s" using s''(2) a(2,7) by auto
  with False a s'' e(5) show ?thesis by (auto simp: zero_data_def)
qed

text \<open>A file system of 200 blocks with 8 inodes, inside a transaction.\<close>

definition demo_sb :: superblock where
  "demo_sb = \<lparr>sb_size = 200, sb_nblocks = 165, sb_ninodes = 8, sb_nlog = 30, sb_logstart = 2, sb_inodestart = 32,
     sb_bmapstart = 34\<rparr>"

definition demo_map :: block where
  "demo_map = (\<lambda>k. if k < 4 then 255 else if k = 4 then 7 else 0)"

definition demo_fs :: "(uint \<Rightarrow> block) \<Rightarrow> inode list \<Rightarrow> unit fssys" where
  "demo_fs d ic = \<lparr>fs_log = (log_boot (\<lambda>(dev, b). if b = 34 then demo_map else d b) 2)\<lparr>outstanding := 1\<rparr>,
     fs_sb = demo_sb, icache = ic, fs_devs = ()\<rparr>"

lemma bits_255_7: "k < 8 \<Longrightarrow> bit (255 :: uchar) k" "bit (7 :: uchar) k \<longleftrightarrow> k < 3"
proof -
  have e: "(7 :: uchar) = mask 3" "(255 :: uchar) = mask 8" by (simp_all add: mask_eq_exp_minus_1)
  show "k < 8 \<Longrightarrow> bit (255 :: uchar) k" "bit (7 :: uchar) k \<longleftrightarrow> k < 3" unfolding e bit_mask_iff by auto
qed

lemma demo_map_used: "bit_used demo_map b \<longleftrightarrow> b < 35"
proof -
  consider "b < 32" | "32 \<le> b" "b < 40" | "40 \<le> b" by linarith
  then show ?thesis
  proof cases
    case 1
    then have "b div 8 < 4" by auto
    then have "demo_map (b div 8) = 255" by (simp add: demo_map_def)
    then show ?thesis using 1 bits_255_7(1) [of "b mod 8"] unfolding bit_used_bit by simp
  next
    case 2
    have b: "b = (b - 32) + 4 * 8" "b - 32 < 8" using 2 by simp_all
    have "b mod 8 = (b - 32) mod 8" by (subst b(1)) (rule mod_mult_self1)
    then have m: "b mod 8 = b - 32" using b(2) by simp
    have "b div 8 = 4" using 2 by auto
    then have "demo_map (b div 8) = 7" by (simp add: demo_map_def)
    then show ?thesis using 2 unfolding bit_used_bit m bits_255_7(2) [of "b - 32", symmetric] by (simp only: bits_255_7(2)) auto
  next
    case 3
    then have "5 \<le> b div 8" by auto
    then have "demo_map (b div 8) = 0" by (simp add: demo_map_def)
    then show ?thesis using 3 unfolding bit_used_bit by simp
  qed
qed

lemma demo_fs_facts:
  shows "fs_ok (demo_fs d ic)" "flocked (demo_fs d ic) = {}" "fdirty (demo_fs d ic) = {}" "fs_sb (demo_fs d ic) = demo_sb"
    "fview (demo_fs d ic) = d(34 := demo_map)" "icache (demo_fs d ic) = ic" "fs_free (demo_fs d ic) = {b. 35 \<le> unat b \<and> unat b < 200}"
    "finite K \<Longrightarrow> card K + k < 29 \<Longrightarrow> room K k (demo_fs d ic)"
proof -
  let ?s = "demo_fs d ic"
  have l: "log_ok (fs_log ?s)" by (simp add: log_ok_def demo_fs_def log_boot_def fresh_cache)
  show sb: "fs_sb ?s = demo_sb" "flocked ?s = {}" "icache ?s = ic" by (simp_all add: demo_fs_def log_boot_def fresh_cache)
  show d: "fdirty ?s = {}" by (simp add: demo_fs_def log_boot_def fresh_cache)
  show v: "fview ?s = d(34 := demo_map)" by (auto simp: demo_fs_def log_boot_def fresh_cache fun_eq_iff)
  show "fs_ok ?s"
    using l unfolding fs_ok_def Let_def sb v by (simp add: demo_sb_def demo_map_used) (simp add: demo_fs_def log_boot_def)
  show "fs_free ?s = {b. 35 \<le> unat b \<and> unat b < 200}"
    unfolding fs_free_def sb v by (auto simp: demo_sb_def demo_map_used)
  show "room K k ?s" if "finite K" "card K + k < 29"
    using that unfolding room_def d by (simp add: demo_fs_def log_boot_def)
qed

theorem balloc_implements_set_witness:
  "\<exists>a s'. balloc 9 (demo_fs (\<lambda>_ _. 0) []) 1 = Ok (a, s') \<and> a = 35 \<and> fs_free s' = fs_free (demo_fs (\<lambda>_ _. 0) []) - {35}"
proof -
  let ?s = "demo_fs (\<lambda>_ _. 0) []"
  have 35: "35 \<in> fs_free ?s" by (simp add: demo_fs_facts)
  then have ne: "fs_free ?s \<noteq> {}" by blast
  have "room {fmap ?s} 1 ?s" by (rule demo_fs_facts(8)) simp_all
  from balloc_implements_set [OF demo_fs_facts(1) this demo_fs_facts(2), of 9, unfolded if_not_P [OF ne]]
  obtain a s' where a: "balloc 9 ?s 1 = Ok (a, s')" "a \<in> fs_free ?s" "\<forall>b. b \<in> fs_free ?s \<longrightarrow> a \<le> b" "fs_free s' = fs_free ?s - {a}"
    by blast
  have "unat a \<le> 35" using a(3) 35 by (force simp: word_le_nat_alt)
  then have "unat a = unat (35 :: uint)" using a(2) by (simp add: demo_fs_facts)
  then have "a = 35" by (simp only: word_unat_eq_iff)
  with a show ?thesis by blast
qed

end
