(* ===== verification/Xv6_Inode.thy ===== *)
theory Xv6_Inode
  imports Xv6_Balloc
begin

text \<open>
  Inodes, \<^verbatim>\<open>src/xv6/fs.c\<close>: the cache of inodes in memory, the mapping from file offsets to disk
  blocks, and reading, writing and truncating files.  An inode pointer is an index of the
  cache.  The contents of a file is a function from byte positions to bytes; \<^verbatim>\<open>writei\<close> updates
  it, \<^verbatim>\<open>readi\<close> reads it, \<^verbatim>\<open>bmap\<close> leaves it alone when it allocates a block, and \<^verbatim>\<open>itrunc\<close> gives
  all blocks back.
\<close>

section \<open>Inodes on the disk\<close>

abbreviation (input) T_DIR :: ushort where "T_DIR \<equiv> 1"
abbreviation (input) T_FILE :: ushort where "T_FILE \<equiv> 2"
abbreviation (input) T_DEV :: ushort where "T_DEV \<equiv> 3"
abbreviation (input) NDIRECT :: nat where "NDIRECT \<equiv> 12"
abbreviation (input) NINDIRECT :: nat where "NINDIRECT \<equiv> 128"

definition IBLOCK :: "uint \<Rightarrow> superblock \<Rightarrow> uint" where
  "IBLOCK i sb = i div 8 + sb_inodestart sb"

text \<open>\<^verbatim>\<open>(struct dinode*)bp->data + inum%IPB\<close>: reading all fields of it, writing them, clearing it.\<close>

definition dino_off :: "uint \<Rightarrow> nat" where
  "dino_off inum = 64 * unat (inum mod 8)"

definition get_dinode :: "block \<Rightarrow> nat \<Rightarrow> inode \<Rightarrow> inode" where
  "get_dinode d a i = i\<lparr>i_type := get16 d a, i_major := get16 d (a + 2), i_minor := get16 d (a + 4),
     i_nlink := get16 d (a + 6), i_size := get32 d (a + 8), i_addrs := map (\<lambda>j. get32 d (a + 12 + 4 * j)) [0 ..< NDIRECT + 1]\<rparr>"

definition put_dinode :: "block \<Rightarrow> nat \<Rightarrow> inode \<Rightarrow> block" where
  "put_dinode d a i =
     fold (\<lambda>j d. put32 d (a + 12 + 4 * j) (i_addrs i ! j)) [0 ..< NDIRECT + 1]
       (put32 (put16 (put16 (put16 (put16 d a (i_type i)) (a + 2) (i_major i)) (a + 4) (i_minor i)) (a + 6) (i_nlink i))
         (a + 8) (i_size i))"

definition zero_dinode :: "block \<Rightarrow> nat \<Rightarrow> block" where
  "zero_dinode d a = (\<lambda>k. if a \<le> k \<and> k < a + 64 then 0 else d k)"

section \<open>The inode cache\<close>

definition set_i :: "'d fssys \<Rightarrow> nat \<Rightarrow> inode \<Rightarrow> 'd fssys" where
  "set_i s ip i = s\<lparr>icache := (icache s)[ip := i]\<rparr>"

definition iinit :: "int \<Rightarrow> 'd fssys \<Rightarrow> uint \<Rightarrow> 'd fssys outcome" where
  "iinit pid s dev =
     (let s1 = s\<lparr>icache := map (\<lambda>i. i\<lparr>i_lock := initsleeplock ''inode''\<rparr>) (icache s)\<rparr>
      in obind (readsb pid (bio (fs_log s1)) dev) (\<lambda>(sb, b). Ok (s1\<lparr>fs_log := (fs_log s1)\<lparr>bio := b\<rparr>, fs_sb := sb\<rparr>)))"

definition iget :: "'d fssys \<Rightarrow> uint \<Rightarrow> uint \<Rightarrow> (nat \<times> 'd fssys) outcome" where
  "iget s dev inum =
     (case find_idx (\<lambda>i. i_ref i > 0 \<and> i_dev i = dev \<and> i_inum i = inum) (icache s) of
        Some ip \<Rightarrow> Ok (ip, set_i s ip ((icache s ! ip)\<lparr>i_ref := i_ref (icache s ! ip) + 1\<rparr>))
      | None \<Rightarrow>
          (case find_idx (\<lambda>i. i_ref i = 0) (icache s) of
             None \<Rightarrow> Panic ''iget: no inodes''
           | Some ip \<Rightarrow> Ok (ip, set_i s ip ((icache s ! ip)\<lparr>i_dev := dev, i_inum := inum, i_ref := 1, i_valid := False\<rparr>))))"

text \<open>The loop of \<^verbatim>\<open>ialloc\<close> over the given inode numbers.\<close>

primrec ialloc_in :: "int \<Rightarrow> 'd fssys \<Rightarrow> uint \<Rightarrow> ushort \<Rightarrow> nat list \<Rightarrow> (nat \<times> 'd fssys) outcome" where
  "ialloc_in pid s dev ty [] = Panic ''ialloc: no inodes''"
| "ialloc_in pid s dev ty (inum # rest) =
     obind (fs_bread pid s dev (IBLOCK (of_nat inum) (fs_sb s))) (\<lambda>(bp, s1).
       let d = fs_data s1 bp; a = dino_off (of_nat inum)
       in if get16 d a = 0
          then obind (fs_log_write (fs_set s1 bp (put16 (zero_dinode d a) a ty)) bp) (\<lambda>s2.
               obind (fs_brelse pid s2 bp) (\<lambda>s3. iget s3 dev (of_nat inum)))
          else obind (fs_brelse pid s1 bp) (\<lambda>s2. ialloc_in pid s2 dev ty rest))"

definition ialloc :: "int \<Rightarrow> 'd fssys \<Rightarrow> uint \<Rightarrow> ushort \<Rightarrow> (nat \<times> 'd fssys) outcome" where
  "ialloc pid s dev ty = ialloc_in pid s dev ty [1 ..< unat (sb_ninodes (fs_sb s))]"

definition iupdate :: "int \<Rightarrow> 'd fssys \<Rightarrow> nat \<Rightarrow> 'd fssys outcome" where
  "iupdate pid s ip =
     (let i = icache s ! ip
      in obind (fs_bread pid s (i_dev i) (IBLOCK (i_inum i) (fs_sb s))) (\<lambda>(bp, s1).
         obind (fs_log_write (fs_set s1 bp (put_dinode (fs_data s1 bp) (dino_off (i_inum i)) i)) bp) (\<lambda>s2.
         fs_brelse pid s2 bp)))"

definition idup :: "'d fssys \<Rightarrow> nat \<Rightarrow> 'd fssys" where
  "idup s ip = set_i s ip ((icache s ! ip)\<lparr>i_ref := i_ref (icache s ! ip) + 1\<rparr>)"

text \<open>\<open>None\<close> is the null pointer.\<close>

definition ilock :: "int \<Rightarrow> 'd fssys \<Rightarrow> nat option \<Rightarrow> 'd fssys outcome" where
  "ilock pid s p =
     (case p of
        None \<Rightarrow> Panic ''ilock''
      | Some ip \<Rightarrow>
          let i = icache s ! ip
          in if i_ref i < 1 then Panic ''ilock''
             else obind (acquiresleep pid (i_lock i)) (\<lambda>lk.
                  let s1 = set_i s ip (i\<lparr>i_lock := lk\<rparr>)
                  in if \<not> i_valid i
                     then obind (fs_bread pid s1 (i_dev i) (IBLOCK (i_inum i) (fs_sb s))) (\<lambda>(bp, s2).
                          let i' = get_dinode (fs_data s2 bp) (dino_off (i_inum i)) (i\<lparr>i_lock := lk\<rparr>)
                          in obind (fs_brelse pid s2 bp) (\<lambda>s3.
                             if i_type i' = 0 then Panic ''ilock: no type''
                             else Ok (set_i s3 ip (i'\<lparr>i_valid := True\<rparr>))))
                     else Ok s1))"

definition iunlock :: "int \<Rightarrow> 'd fssys \<Rightarrow> nat option \<Rightarrow> 'd fssys outcome" where
  "iunlock pid s p =
     (case p of
        None \<Rightarrow> Panic ''iunlock''
      | Some ip \<Rightarrow>
          let i = icache s ! ip
          in if \<not> holdingsleep pid (i_lock i) \<or> i_ref i < 1 then Panic ''iunlock''
             else Ok (set_i s ip (i\<lparr>i_lock := releasesleep (i_lock i)\<rparr>)))"

section \<open>The contents of an inode\<close>

text \<open>
  \<^verbatim>\<open>if((addr = ip->addrs[k]) == 0) ip->addrs[k] = addr = balloc(ip->dev)\<close>
\<close>

definition addr_alloc :: "int \<Rightarrow> 'd fssys \<Rightarrow> nat \<Rightarrow> nat \<Rightarrow> (uint \<times> 'd fssys) outcome" where
  "addr_alloc pid s ip k =
     (let i = icache s ! ip; addr = i_addrs i ! k
      in if addr = 0
         then obind (balloc pid s (i_dev i)) (\<lambda>(a, s1).
              Ok (a, set_i s1 ip ((icache s1 ! ip)\<lparr>i_addrs := (i_addrs (icache s1 ! ip))[k := a]\<rparr>)))
         else Ok (addr, s))"

definition bmap :: "int \<Rightarrow> 'd fssys \<Rightarrow> nat \<Rightarrow> uint \<Rightarrow> (uint \<times> 'd fssys) outcome" where
  "bmap pid s ip bn =
     (if bn < 12 then addr_alloc pid s ip (unat bn)
      else let bn = bn - 12
           in if bn < 128
              then obind (addr_alloc pid s ip NDIRECT) (\<lambda>(ind, s1).
                   obind (fs_bread pid s1 (i_dev (icache s1 ! ip)) ind) (\<lambda>(bp, s2).
                     let addr = get32 (fs_data s2 bp) (4 * unat bn)
                     in if addr = 0
                        then obind (balloc pid s2 (i_dev (icache s2 ! ip))) (\<lambda>(a, s3).
                             obind (fs_log_write (fs_set s3 bp (put32 (fs_data s3 bp) (4 * unat bn) a)) bp) (\<lambda>s4.
                             obind (fs_brelse pid s4 bp) (\<lambda>s5. Ok (a, s5))))
                        else obind (fs_brelse pid s2 bp) (\<lambda>s3. Ok (addr, s3))))
              else Panic ''bmap: out of range'')"

definition trunc_direct :: "int \<Rightarrow> nat \<Rightarrow> nat \<Rightarrow> 'd fssys \<Rightarrow> 'd fssys outcome" where
  "trunc_direct pid ip k s =
     (let i = icache s ! ip
      in if i_addrs i ! k \<noteq> 0
         then obind (bfree pid s (i_dev i) (i_addrs i ! k)) (\<lambda>s1.
              Ok (set_i s1 ip ((icache s1 ! ip)\<lparr>i_addrs := (i_addrs (icache s1 ! ip))[k := 0]\<rparr>)))
         else Ok s)"

definition trunc_entry :: "int \<Rightarrow> uint \<Rightarrow> nat \<Rightarrow> nat \<Rightarrow> 'd fssys \<Rightarrow> 'd fssys outcome" where
  "trunc_entry pid dev bp j s =
     (let a = get32 (fs_data s bp) (4 * j) in if a \<noteq> 0 then bfree pid s dev a else Ok s)"

definition itrunc :: "int \<Rightarrow> 'd fssys \<Rightarrow> nat \<Rightarrow> 'd fssys outcome" where
  "itrunc pid s ip =
     obind (ofold (trunc_direct pid ip) [0 ..< NDIRECT] s) (\<lambda>s1.
     obind (let i = icache s1 ! ip; ind = i_addrs i ! NDIRECT
            in if ind \<noteq> 0
               then obind (fs_bread pid s1 (i_dev i) ind) (\<lambda>(bp, s2).
                    obind (ofold (trunc_entry pid (i_dev i) bp) [0 ..< NINDIRECT] s2) (\<lambda>s3.
                    obind (fs_brelse pid s3 bp) (\<lambda>s4.
                    obind (bfree pid s4 (i_dev i) ind) (\<lambda>s5.
                    Ok (set_i s5 ip ((icache s5 ! ip)\<lparr>i_addrs := (i_addrs (icache s5 ! ip))[NDIRECT := 0]\<rparr>))))))
               else Ok s1) (\<lambda>s6.
     iupdate pid (set_i s6 ip ((icache s6 ! ip)\<lparr>i_size := 0\<rparr>)) ip))"

definition iput :: "int \<Rightarrow> 'd fssys \<Rightarrow> nat \<Rightarrow> 'd fssys outcome" where
  "iput pid s ip =
     (let i = icache s ! ip
      in obind (acquiresleep pid (i_lock i)) (\<lambda>lk.
         let s1 = set_i s ip (i\<lparr>i_lock := lk\<rparr>)
         in obind (if i_valid i \<and> i_nlink i = 0 \<and> i_ref i = 1
                   then obind (itrunc pid s1 ip) (\<lambda>s2.
                        obind (iupdate pid (set_i s2 ip ((icache s2 ! ip)\<lparr>i_type := 0\<rparr>)) ip) (\<lambda>s3.
                        Ok (set_i s3 ip ((icache s3 ! ip)\<lparr>i_valid := False\<rparr>))))
                   else Ok s1) (\<lambda>s4.
            let j = icache s4 ! ip
            in Ok (set_i s4 ip (j\<lparr>i_lock := releasesleep (i_lock j), i_ref := i_ref j - 1\<rparr>)))))"

definition iunlockput :: "int \<Rightarrow> 'd fssys \<Rightarrow> nat \<Rightarrow> 'd fssys outcome" where
  "iunlockput pid s ip = obind (iunlock pid s (Some ip)) (\<lambda>s1. iput pid s1 ip)"

record stat =
  st_type :: ushort
  st_dev :: uint
  st_ino :: uint
  st_nlink :: ushort
  st_size :: uint

definition stati :: "'d fssys \<Rightarrow> nat \<Rightarrow> stat" where
  "stati s ip = (let i = icache s ! ip
     in \<lparr>st_type = i_type i, st_dev = i_dev i, st_ino = i_inum i, st_nlink = i_nlink i, st_size = i_size i\<rparr>)"

text \<open>
  \<^verbatim>\<open>struct devsw\<close>: what a device does on a read and on a write; both get the inode, and are given
  the caller's process identifier.  A read returns the bytes that the driver stores.
\<close>

record 'd devsw =
  dev_read :: "(int \<Rightarrow> 'd fssys \<Rightarrow> nat \<Rightarrow> int \<Rightarrow> (int \<times> uchar list \<times> 'd fssys) outcome) option"
  dev_write :: "(int \<Rightarrow> 'd fssys \<Rightarrow> nat \<Rightarrow> uchar list \<Rightarrow> int \<Rightarrow> (int \<times> 'd fssys) outcome) option"

definition dev_ok :: "ushort \<Rightarrow> bool" where
  "dev_ok major \<longleftrightarrow> \<not> (sint major < 0 \<or> sint major \<ge> int NDEV)"

text \<open>\<^verbatim>\<open>m = min(n - tot, BSIZE - off%BSIZE)\<close>\<close>

definition chunk :: "uint \<Rightarrow> uint \<Rightarrow> uint \<Rightarrow> uint" where
  "chunk n tot off = (if n - tot < 512 - off mod 512 then n - tot else 512 - off mod 512)"

lemma unat_mod512: "unat (off mod 512 :: uint) = unat off mod 512"
  by (simp add: unat_mod_distrib)

lemma unat_512_minus: "unat (512 - off mod 512 :: uint) = 512 - unat off mod 512"
proof -
  have "unat (off mod 512) \<le> unat (512 :: uint)" using mod_less_divisor [of 512 "unat off"] by (simp add: unat_mod512)
  then show ?thesis by (simp add: unat_uint_sub unat_mod512)
qed

lemma chunk_nat:
  assumes "tot < n"
  shows "unat (chunk n tot off) = min (unat n - unat tot) (512 - unat off mod 512)" "0 < unat (chunk n tot off)"
    "unat (chunk n tot off) \<le> unat n - unat tot" "unat off mod 512 + unat (chunk n tot off) \<le> 512"
proof -
  have "unat (n - tot) = unat n - unat tot" using assms by (simp add: unat_uint_sub word_less_nat_alt)
  then show c: "unat (chunk n tot off) = min (unat n - unat tot) (512 - unat off mod 512)"
    by (simp add: chunk_def word_less_nat_alt unat_512_minus)
  show "0 < unat (chunk n tot off)" unfolding c using assms by (simp add: word_less_nat_alt)
  show "unat (chunk n tot off) \<le> unat n - unat tot" unfolding c by simp
  show "unat off mod 512 + unat (chunk n tot off) \<le> 512"
    unfolding c using mod_less_divisor [of 512 "unat off"] by simp
qed

lemma chunk_step:
  assumes "tot < n"
  shows "unat (tot + chunk n tot off) = unat tot + unat (chunk n tot off)" "unat (tot + chunk n tot off) \<le> unat n"
proof -
  have "unat tot + unat (chunk n tot off) \<le> unat n" using chunk_nat(3) [OF assms, of off] assms by (simp add: word_less_nat_alt)
  moreover have "unat n < 2 ^ 32" by (rule unat_uint_less)
  ultimately show "unat (tot + chunk n tot off) = unat tot + unat (chunk n tot off)" "unat (tot + chunk n tot off) \<le> unat n"
    by (simp_all add: unat_uint_add)
qed

text \<open>The loop of \<^verbatim>\<open>readi\<close>, with the bytes that it stores, and the loop of \<^verbatim>\<open>writei\<close>.\<close>

function readi_loop :: "int \<Rightarrow> 'd fssys \<Rightarrow> nat \<Rightarrow> uint \<Rightarrow> uint \<Rightarrow> uint \<Rightarrow> (uchar list \<times> 'd fssys) outcome" where
  "readi_loop pid s ip off n tot =
     (if tot < n then
        obind (bmap pid s ip (off div 512)) (\<lambda>(a, s1).
        obind (fs_bread pid s1 (i_dev (icache s1 ! ip)) a) (\<lambda>(bp, s2).
          let m = chunk n tot off;
              bytes = map (\<lambda>k. fs_data s2 bp (unat (off mod 512) + k)) [0 ..< unat m]
          in obind (fs_brelse pid s2 bp) (\<lambda>s3.
             obind (readi_loop pid s3 ip (off + m) n (tot + m)) (\<lambda>(rest, s4). Ok (bytes @ rest, s4)))))
      else Ok ([], s))"
  by pat_completeness auto

lemma chunk_decreases: "tot < n \<Longrightarrow> unat n - unat (tot + chunk n tot off) < unat n - unat tot"
  using chunk_step [of tot n off] chunk_nat(2) [of tot n off] by (simp add: word_less_nat_alt)

termination readi_loop
  by (relation "measure (\<lambda>(pid, s, ip, off, n, tot). unat n - unat tot)") (auto intro: chunk_decreases)

declare readi_loop.simps [simp del]

definition readi :: "'d devsw list \<Rightarrow> int \<Rightarrow> 'd fssys \<Rightarrow> nat \<Rightarrow> uint \<Rightarrow> uint \<Rightarrow> (int \<times> uchar list \<times> 'd fssys) outcome" where
  "readi devs pid s ip off n =
     (let i = icache s ! ip
      in if i_type i = T_DEV
         then (if \<not> dev_ok (i_major i) then Ok (-1, [], s)
               else case dev_read (devs ! unat (i_major i)) of
                      None \<Rightarrow> Ok (-1, [], s)
                    | Some f \<Rightarrow> f pid s ip (sint n))
         else if off > i_size i \<or> off + n < off then Ok (-1, [], s)
         else let n = (if off + n > i_size i then i_size i - off else n)
              in obind (readi_loop pid s ip off n 0) (\<lambda>(bytes, s1). Ok (sint n, bytes, s1)))"

definition store_bytes :: "block \<Rightarrow> nat \<Rightarrow> uchar list \<Rightarrow> block" where
  "store_bytes d a bs = (\<lambda>k. if a \<le> k \<and> k < a + length bs then bs ! (k - a) else d k)"

function writei_loop :: "int \<Rightarrow> 'd fssys \<Rightarrow> nat \<Rightarrow> uchar list \<Rightarrow> uint \<Rightarrow> uint \<Rightarrow> uint \<Rightarrow> (uint \<times> 'd fssys) outcome" where
  "writei_loop pid s ip src off n tot =
     (if tot < n then
        obind (bmap pid s ip (off div 512)) (\<lambda>(a, s1).
        obind (fs_bread pid s1 (i_dev (icache s1 ! ip)) a) (\<lambda>(bp, s2).
          let m = chunk n tot off
          in obind (fs_log_write (fs_set s2 bp (store_bytes (fs_data s2 bp) (unat (off mod 512)) (take (unat m) src))) bp) (\<lambda>s3.
             obind (fs_brelse pid s3 bp) (\<lambda>s4. writei_loop pid s4 ip (drop (unat m) src) (off + m) n (tot + m)))))
      else Ok (off, s))"
  by pat_completeness auto

termination writei_loop
  by (relation "measure (\<lambda>(pid, s, ip, src, off, n, tot). unat n - unat tot)") (auto intro: chunk_decreases)

declare writei_loop.simps [simp del]

definition writei :: "'d devsw list \<Rightarrow> int \<Rightarrow> 'd fssys \<Rightarrow> nat \<Rightarrow> uchar list \<Rightarrow> uint \<Rightarrow> uint \<Rightarrow> (int \<times> 'd fssys) outcome" where
  "writei devs pid s ip src off n =
     (let i = icache s ! ip
      in if i_type i = T_DEV
         then (if \<not> dev_ok (i_major i) then Ok (-1, s)
               else case dev_write (devs ! unat (i_major i)) of
                      None \<Rightarrow> Ok (-1, s)
                    | Some f \<Rightarrow> f pid s ip src (sint n))
         else if off > i_size i \<or> off + n < off then Ok (-1, s)
         else if off + n > 140 * 512 then Ok (-1, s)
         else obind (writei_loop pid s ip src off n 0) (\<lambda>(off', s1).
              if n > 0 \<and> off' > i_size (icache s1 ! ip)
              then obind (iupdate pid (set_i s1 ip ((icache s1 ! ip)\<lparr>i_size := off'\<rparr>)) ip) (\<lambda>s2. Ok (sint n, s2))
              else Ok (sint n, s1)))"

section \<open>The blocks of a file\<close>

text \<open>
  The block references of an inode: 0 to 139 are the blocks of the file, 140 the indirect block.
  Reference 0 stands for a block that is not there.
\<close>

definition iref :: "(uint \<Rightarrow> block) \<Rightarrow> inode \<Rightarrow> nat \<Rightarrow> uint" where
  "iref v i k =
     (if k < NDIRECT then i_addrs i ! k
      else if k < 140 then (if i_addrs i ! NDIRECT = 0 then 0 else get32 (v (i_addrs i ! NDIRECT)) (4 * (k - NDIRECT)))
      else i_addrs i ! NDIRECT)"

abbreviation sref :: "'d fssys \<Rightarrow> nat \<Rightarrow> nat \<Rightarrow> uint" where "sref s ip \<equiv> iref (fview s) (icache s ! ip)"

text \<open>An inode whose references are blocks in use, no two of them the same.\<close>

definition ino_ok :: "'d fssys \<Rightarrow> nat \<Rightarrow> bool" where
  "ino_ok s ip \<longleftrightarrow> ip < length (icache s) \<and> i_dev (icache s ! ip) = 1 \<and> length (i_addrs (icache s ! ip)) = 13 \<and>
     unat (i_inum (icache s ! ip)) < unat (sb_ninodes (fs_sb s)) \<and>
     (\<forall>k \<le> 140. sref s ip k \<noteq> 0 \<longrightarrow> unat (fmap s) < unat (sref s ip k) \<and> unat (sref s ip k) < unat (sb_size (fs_sb s)) \<and>
        sref s ip k \<notin> fs_free s) \<and>
     (\<forall>j \<le> 140. \<forall>k \<le> 140. sref s ip j = sref s ip k \<and> sref s ip j \<noteq> 0 \<longrightarrow> j = k)"

text \<open>The blocks of the file, together with the free ones.\<close>

definition owned :: "'d fssys \<Rightarrow> nat \<Rightarrow> uint set" where
  "owned s ip = {b. b \<noteq> 0 \<and> (\<exists>k \<le> 140. sref s ip k = b)}"

definition avail :: "'d fssys \<Rightarrow> nat \<Rightarrow> uint set" where
  "avail s ip = owned s ip \<union> fs_free s"

text \<open>The contents of the file; holes read as zeros.\<close>

definition fdata :: "'d fssys \<Rightarrow> nat \<Rightarrow> nat \<Rightarrow> uchar" where
  "fdata s ip p = (if p div 512 < 140 \<and> sref s ip (p div 512) \<noteq> 0 then fview s (sref s ip (p div 512)) (p mod 512) else 0)"

lemma ino_okD:
  assumes "ino_ok s ip"
  shows "ip < length (icache s)" "i_dev (icache s ! ip) = 1" "length (i_addrs (icache s ! ip)) = 13"
    "\<And>k. k \<le> 140 \<Longrightarrow> sref s ip k \<noteq> 0 \<Longrightarrow> unat (fmap s) < unat (sref s ip k) \<and> unat (sref s ip k) < unat (sb_size (fs_sb s)) \<and>
        sref s ip k \<notin> fs_free s"
    "\<And>j k. j \<le> 140 \<Longrightarrow> k \<le> 140 \<Longrightarrow> sref s ip j = sref s ip k \<Longrightarrow> sref s ip j \<noteq> 0 \<Longrightarrow> j = k"
    "unat (i_inum (icache s ! ip)) < unat (sb_ninodes (fs_sb s))"
  using assms by (auto simp: ino_ok_def)

lemma ref_block:
  assumes "fs_ok s" and "ino_ok s ip" and "k \<le> 140" and "sref s ip k \<noteq> 0"
  shows "sref s ip k < 1000" "sref s ip k \<notin> log_area (log_start (fs_log s))" "sref s ip k \<noteq> fmap s" "sref s ip k \<notin> fs_free s"
proof -
  note r = ino_okD(4) [OF assms(2-4)]
  have "unat (log_start (fs_log s)) + LOGSIZE \<le> unat (sref s ip k)" using assms(1) r by (auto simp: fs_ok_def Let_def)
  from not_log_area [OF this] show "sref s ip k \<notin> log_area (log_start (fs_log s))" .
  show "sref s ip k < 1000" using r fs_okD(4) [OF assms(1)] by (auto simp: word_less_nat_alt)
qed (use ino_okD(4) [OF assms(2-4)] in auto)

text \<open>A new block for a reference that was not there.\<close>

lemma new_ref:
  assumes fs: "fs_ok s" and ino: "ino_ok s ip" and j: "j \<le> 140" "sref s ip j = 0" and a: "a \<in> fs_free s"
    and ref: "\<And>k. k \<le> 140 \<Longrightarrow> sref s' ip k = (if k = j then a else sref s ip k)"
    and free: "fs_free s' = fs_free s - {a}" and sb: "fs_sb s' = fs_sb s"
    and ic: "icache s' = (icache s)[ip := (icache s ! ip)\<lparr>i_addrs := ad\<rparr>]" "length ad = 13"
    and view: "\<And>k. k < 140 \<Longrightarrow> sref s ip k \<noteq> 0 \<Longrightarrow> fview s' (sref s ip k) = fview s (sref s ip k)"
    and zero: "\<And>p. j < 140 \<Longrightarrow> p < 512 \<Longrightarrow> fview s' a p = 0"
  shows "ino_ok s' ip" "avail s' ip = avail s ip" "fdata s' ip p' = fdata s ip p'" "a \<noteq> 0"
proof -
  have fa: "unat (fmap s) < unat a" "unat a < unat (sb_size (fs_sb s))" using fs_okD(5) [OF fs a] a by (auto simp: fs_free_def)
  show a0: "a \<noteq> 0" using fa by auto
  have i: "icache s' ! ip = (icache s ! ip)\<lparr>i_addrs := ad\<rparr>" using ic ino_okD(1) [OF ino] by simp
  show "ino_ok s' ip"
    unfolding ino_ok_def
  proof (intro conjI allI impI)
    show "ip < length (icache s')" "i_dev (icache s' ! ip) = 1" "length (i_addrs (icache s' ! ip)) = 13"
      "unat (i_inum (icache s' ! ip)) < unat (sb_ninodes (fs_sb s'))"
      using ino_okD [OF ino] i ic sb by simp_all
    fix k assume k: "k \<le> 140" "sref s' ip k \<noteq> 0"
    show "unat (fmap s') < unat (sref s' ip k)" "unat (sref s' ip k) < unat (sb_size (fs_sb s'))" "sref s' ip k \<notin> fs_free s'"
      using ino_okD(4) [OF ino k(1)] k ref [OF k(1)] fa by (auto simp: sb free)
  next
    fix m k assume mk: "m \<le> 140" "k \<le> 140" "sref s' ip m = sref s' ip k \<and> sref s' ip m \<noteq> 0"
    show "m = k"
      using mk(3) ino_okD(5) [OF ino mk(1,2)] ino_okD(4) [OF ino mk(1)] ino_okD(4) [OF ino mk(2)] a a0 ref [OF mk(1)] ref [OF mk(2)]
      by (auto split: if_splits)
  qed
  show "avail s' ip = avail s ip"
  proof (rule set_eqI)
    fix b
    have "b \<in> owned s' ip \<longleftrightarrow> b = a \<or> b \<in> owned s ip"
    proof -
      have "b \<in> owned s' ip \<longleftrightarrow> b \<noteq> 0 \<and> (\<exists>k \<le> 140. (if k = j then a else sref s ip k) = b)"
        unfolding owned_def using ref by (auto simp del: if_split_asm)
      also have "\<dots> \<longleftrightarrow> b = a \<or> b \<in> owned s ip"
        unfolding owned_def using j a0 by (auto split: if_splits)
      finally show ?thesis .
    qed
    then show "b \<in> avail s' ip \<longleftrightarrow> b \<in> avail s ip" using a by (auto simp: avail_def free)
  qed
  show "fdata s' ip p' = fdata s ip p'"
  proof (cases "p' div 512 < 140")
    case True
    then have r: "sref s' ip (p' div 512) = (if p' div 512 = j then a else sref s ip (p' div 512))" by (intro ref) simp
    have z: "fview s' a (p' mod 512) = 0" if "p' div 512 = j" using True zero [of "p' mod 512"] that by simp
    show ?thesis unfolding fdata_def r using view [OF True] z a0 j(2) by (auto split: if_splits)
  qed (simp add: fdata_def)
qed

lemma set_i_simps [simp]:
  "fs_log (set_i s ip i) = fs_log s" "fs_sb (set_i s ip i) = fs_sb s" "fs_devs (set_i s ip i) = fs_devs s"
  "icache (set_i s ip i) = (icache s)[ip := i]"
  by (simp_all add: set_i_def)

lemma set_i_fs [simp]:
  "fs_ok (set_i s ip i) = fs_ok s" "fs_free (set_i s ip i) = fs_free s" "room K k (set_i s ip i) = room K k s"
  by (simp_all add: fs_ok_def fs_free_def room_def)

text \<open>Budget of blocks that may be logged, and as many that may be allocated.\<close>

definition funds :: "uint set \<Rightarrow> nat \<Rightarrow> 'd fssys \<Rightarrow> bool" where
  "funds K k s \<longleftrightarrow> room K k s \<and> k \<le> card (fs_free s)"

lemma funds_mono: "funds K k s \<Longrightarrow> j \<le> k \<Longrightarrow> funds K j s"
  by (auto simp: funds_def room_def)

text \<open>What reading and writing a file may do to the rest of the file system: nothing.\<close>

definition file_step :: "'d fssys \<Rightarrow> 'd fssys \<Rightarrow> nat \<Rightarrow> bool" where
  "file_step s s' ip \<longleftrightarrow> fs_ok s' \<and> ino_ok s' ip \<and> flocked s' = {} \<and> avail s' ip = avail s ip \<and> fs_sb s' = fs_sb s \<and>
     fs_devs s' = fs_devs s \<and> (\<exists>ad. icache s' = (icache s)[ip := (icache s ! ip)\<lparr>i_addrs := ad\<rparr>]) \<and>
     (\<forall>b. b \<notin> avail s ip \<and> b \<noteq> fmap s \<longrightarrow> fview s' b = fview s b)"

lemma file_stepD:
  assumes "file_step s s' ip"
  shows "fs_ok s'" "ino_ok s' ip" "flocked s' = {}" "avail s' ip = avail s ip" "fs_sb s' = fs_sb s" "fs_devs s' = fs_devs s"
    "\<exists>ad. icache s' = (icache s)[ip := (icache s ! ip)\<lparr>i_addrs := ad\<rparr>]"
    "\<And>b. b \<notin> avail s ip \<Longrightarrow> b \<noteq> fmap s \<Longrightarrow> fview s' b = fview s b"
  using assms by (auto simp: file_step_def)

lemma file_step_refl:
  assumes "fs_ok s" and "ino_ok s ip" and "flocked s = {}"
  shows "file_step s s ip"
  unfolding file_step_def
proof (intro conjI)
  show "\<exists>ad. icache s = (icache s)[ip := (icache s ! ip)\<lparr>i_addrs := ad\<rparr>]"
    by (rule exI [of _ "i_addrs (icache s ! ip)"]) simp
qed (use assms in auto)

lemma file_step_trans:
  assumes 1: "file_step s s1 ip" and 2: "file_step s1 s2 ip"
  shows "file_step s s2 ip"
  unfolding file_step_def
proof (intro conjI allI impI)
  note a = file_stepD [OF 1] and b = file_stepD [OF 2]
  obtain ad1 ad2 where ad: "icache s1 = (icache s)[ip := (icache s ! ip)\<lparr>i_addrs := ad1\<rparr>]"
    "icache s2 = (icache s1)[ip := (icache s1 ! ip)\<lparr>i_addrs := ad2\<rparr>]" using a(7) b(7) by blast
  have "ip < length (icache s)" using ino_okD(1) [OF a(2)] ad(1) by simp
  then show "\<exists>ad. icache s2 = (icache s)[ip := (icache s ! ip)\<lparr>i_addrs := ad\<rparr>]"
    unfolding ad(2) ad(1) by (intro exI [of _ ad2]) simp
  show "fview s2 c = fview s c" if "c \<notin> avail s ip \<and> c \<noteq> fmap s" for c
    using that a(4,5,8) b(8) by simp
qed (use file_stepD [OF 1] file_stepD [OF 2] in auto)

lemma file_step_fields:
  assumes "file_step s s' ip" and "ino_ok s ip"
  shows "i_size (icache s' ! ip) = i_size (icache s ! ip)" "i_type (icache s' ! ip) = i_type (icache s ! ip)"
    "i_inum (icache s' ! ip) = i_inum (icache s ! ip)" "i_dev (icache s' ! ip) = i_dev (icache s ! ip)"
    "length (icache s') = length (icache s)"
  using file_stepD(7) [OF assms(1)] ino_okD(1) [OF assms(2)] by auto

lemma get32_zero: "m < 128 \<Longrightarrow> get32 (zero_data d) (4 * m) = 0"
  by (simp add: get32_def zero_data_def)

lemma iref_set:
  assumes "length ad = 13" and "k \<le> 140" and "i_addrs i = ad"
  shows "m < 12 \<Longrightarrow> iref v (i\<lparr>i_addrs := ad[m := a]\<rparr>) k = (if k = m then a else iref v i k)"
    and "ad ! 12 = 0 \<Longrightarrow> (\<And>p. p < 128 \<Longrightarrow> get32 (v a) (4 * p) = 0) \<Longrightarrow>
      iref v (i\<lparr>i_addrs := ad[12 := a]\<rparr>) k = (if k = 140 then a else iref v i k)"
proof -
  show "m < 12 \<Longrightarrow> iref v (i\<lparr>i_addrs := ad[m := a]\<rparr>) k = (if k = m then a else iref v i k)"
    using assms by (auto simp: iref_def nth_list_update)
  assume "ad ! 12 = 0" "\<And>p. p < 128 \<Longrightarrow> get32 (v a) (4 * p) = 0"
  moreover from this(2) have "get32 (v a) (4 * (k - 12)) = 0" if "12 \<le> k" "k < 140" using that by simp
  ultimately show "iref v (i\<lparr>i_addrs := ad[12 := a]\<rparr>) k = (if k = 140 then a else iref v i k)"
    using assms by (auto simp: iref_def nth_list_update)
qed

lemma iref_view:
  "(i_addrs i ! NDIRECT \<noteq> 0 \<Longrightarrow> v' (i_addrs i ! NDIRECT) = v (i_addrs i ! NDIRECT)) \<Longrightarrow> iref v' i k = iref v i k"
  by (auto simp: iref_def)

lemma iref_140: "iref v i 140 = i_addrs i ! NDIRECT"
  by (simp add: iref_def)

lemma owned_ref: "k \<le> 140 \<Longrightarrow> sref s ip k \<noteq> 0 \<Longrightarrow> sref s ip k \<in> owned s ip"
  by (auto simp: owned_def)

lemma addr_alloc_ok:
  assumes fs: "fs_ok s" and ino: "ino_ok s ip" and lk: "flocked s = {}" and fu: "funds K (Suc k) s" and K: "fmap s \<in> K"
    and m: "m \<le> 12" and J: "J = (if m = 12 then 140 else m)"
  obtains a s' where "addr_alloc pid s ip m = Ok (a, s')" "file_step s s' ip" "a \<noteq> 0"
    "\<forall>k \<le> 140. sref s' ip k = (if k = J then a else sref s ip k)" "fdata s' ip = fdata s ip"
    "a = sref s ip J \<and> s' = s \<or> sref s ip J = 0 \<and> a \<in> fdirty s' \<and> funds K k s'"
proof -
  let ?i = "icache s ! ip"
  have J': "sref s ip J = i_addrs ?i ! m" "J \<le> 140" using m J by (auto simp: iref_def)
  show ?thesis
  proof (cases "i_addrs ?i ! m = 0")
    case False
    then have "addr_alloc pid s ip m = Ok (i_addrs ?i ! m, s)" by (simp add: addr_alloc_def Let_def)
    then show ?thesis using that [of _ s] file_step_refl [OF fs ino lk] False J' by auto
  next
    case True
    have ne: "fs_free s \<noteq> {}" and r: "room K (Suc k) s" using fu by (auto simp: funds_def)
    obtain a s1 where b: "balloc pid s 1 = Ok (a, s1)" "a \<in> fs_free s" "\<forall>b \<in> fs_free s. a \<le> b"
      "evolves s s1 ((fview s)(fmap s := mark_used (fview s (fmap s)) (unat a), a := zero_data (fview s a)))
         (insert a (insert (fmap s) (fdirty s))) (flocked s)"
      "fs_ok s1" "room K k s1" "fs_free s1 = fs_free s - {a}"
      by (rule balloc_ok [OF fs r K _ _ _ ne, of pid]) (use lk in simp_all)
    note e = evolvesD [OF b(4)] and fa = fs_okD(5) [OF fs b(2)] and D = ino_okD [OF ino]
    define ad where "ad = (i_addrs ?i)[m := a]"
    define s' where "s' = set_i s1 ip (?i\<lparr>i_addrs := ad\<rparr>)"
    have ok: "addr_alloc pid s ip m = Ok (a, s')"
      using True b(1) D(2) e(9) by (simp add: addr_alloc_def Let_def s'_def ad_def)
    have i': "icache s' = (icache s)[ip := ?i\<lparr>i_addrs := ad\<rparr>]" "icache s' ! ip = ?i\<lparr>i_addrs := ad\<rparr>"
      using D(1) e(9) by (simp_all add: s'_def)
    have v: "fview s' b = fview s b" if "b \<noteq> a" "b \<noteq> fmap s" for b using that e(5) by (simp add: s'_def)
    have rv: "fview s' (sref s ip q) = fview s (sref s ip q)" if "q \<le> 140" "sref s ip q \<noteq> 0" for q
      using ref_block(3,4) [OF fs ino that] b(2) by (intro v) auto
    have za: "fview s' a = zero_data (fview s a)" using e(5) by (simp add: s'_def)
    have ref: "sref s' ip q = (if q = J then a else sref s ip q)" if q: "q \<le> 140" for q
    proof (cases "m = 12")
      case True
      note iref_set(2) [OF D(3) q refl, of "fview s'" a]
      then have "sref s' ip q = (if q = 140 then a else iref (fview s') ?i q)"
        using True \<open>i_addrs ?i ! m = 0\<close> za get32_zero [of _ "fview s a"] unfolding i'(2) ad_def by simp
      moreover have "iref (fview s') ?i q = sref s ip q" by (rule iref_view) (use True \<open>i_addrs ?i ! m = 0\<close> in simp)
      ultimately show ?thesis using J True by simp
    next
      case False
      then have "sref s' ip q = (if q = m then a else iref (fview s') ?i q)"
        using iref_set(1) [OF D(3) q refl, of m "fview s'" a] m unfolding i'(2) ad_def by simp
      moreover have "iref (fview s') ?i q = sref s ip q"
        by (rule iref_view) (use rv [of 140] in \<open>simp add: iref_140\<close>)
      ultimately show ?thesis using J False by simp
    qed
    have len: "length ad = 13" using D(3) by (simp add: ad_def)
    have 0: "sref s ip J = 0" using J' True by simp
    have f': "fs_free s' = fs_free s - {a}" "fs_sb s' = fs_sb s" using b(7) e(8) by (simp_all add: s'_def)
    have z: "fview s' a p = 0" if "p < 512" for p using that za by (simp add: zero_data_def)
    have rv': "fview s' (sref s ip q) = fview s (sref s ip q)" if "q < 140" "sref s ip q \<noteq> 0" for q using rv that by simp
    note nr = new_ref [OF fs ino J'(2) 0 b(2) ref f' i'(1) len rv' z]
    have "file_step s s' ip"
      unfolding file_step_def
    proof (intro conjI allI impI)
      show "\<exists>ad. icache s' = (icache s)[ip := (icache s ! ip)\<lparr>i_addrs := ad\<rparr>]" using i'(1) by blast
      show "fview s' c = fview s c" if "c \<notin> avail s ip \<and> c \<noteq> fmap s" for c
        using that b(2) by (intro v) (auto simp: avail_def)
      show "fs_ok s'" "flocked s' = {}" "fs_devs s' = fs_devs s" using b(5) e(7,10) lk by (simp_all add: s'_def)
    qed (use nr(1,2) f'(2) in auto)
    moreover have "fdata s' ip = fdata s ip" by (rule ext) (rule nr(3))
    moreover have "funds K k s'"
    proof -
      have "Suc k \<le> card (fs_free s)" using fu by (simp add: funds_def)
      then have "k \<le> card (fs_free s - {a})" using b(2) by simp
      then show ?thesis using b(6,7) by (simp add: funds_def s'_def)
    qed
    moreover have "a \<in> fdirty s'" using e(6) by (simp add: s'_def)
    ultimately show ?thesis using ok nr(4) ref 0 by (intro that [of a s']) auto
  qed
qed

lemma same_view:
  assumes "fview s' = fview s" and "fs_sb s' = fs_sb s" and "icache s' = icache s"
  shows "fs_free s' = fs_free s" "ino_ok s' ip = ino_ok s ip" "avail s' ip = avail s ip" "fdata s' ip = fdata s ip"
proof -
  show f: "fs_free s' = fs_free s" using assms by (simp add: fs_free_def)
  show "ino_ok s' ip = ino_ok s ip" using assms f by (simp add: ino_ok_def)
  show "avail s' ip = avail s ip" using assms f by (simp add: avail_def owned_def)
  show "fdata s' ip = fdata s ip" by (rule ext) (simp add: fdata_def assms)
qed

lemma fs_ok_same: "fs_ok s \<Longrightarrow> evolves s s' (fview s) d l \<Longrightarrow> fs_ok s'"
  by (rule fs_ok_evolves) (auto simp: fs_ok_def Let_def)

lemma funds_same: "funds K k s \<Longrightarrow> evolves s s' (fview s) (fdirty s) l \<Longrightarrow> funds K k s'"
  using room_same evolvesD(5,8,9) same_view(1) by (metis funds_def)

lemma file_step_same:
  assumes "fs_ok s" and "ino_ok s ip" and e: "evolves s s' (fview s) d {}"
  shows "file_step s s' ip"
  unfolding file_step_def
proof (intro conjI)
  note E = evolvesD [OF e]
  note v = same_view [OF E(5,8,9)]
  show "\<exists>ad. icache s' = (icache s)[ip := (icache s ! ip)\<lparr>i_addrs := ad\<rparr>]"
    unfolding E(9) by (rule exI [of _ "i_addrs (icache s ! ip)"]) simp
  show "fs_ok s'" by (rule fs_ok_same [OF assms(1) e])
  show "ino_ok s' ip" "flocked s' = {}" "avail s' ip = avail s ip" "fs_sb s' = fs_sb s" "fs_devs s' = fs_devs s"
    "\<forall>b. b \<notin> avail s ip \<and> b \<noteq> fmap s \<longrightarrow> fview s' b = fview s b"
    using E v assms(2) by simp_all
qed

text \<open>The entry of an indirect block that is there already.\<close>

lemma indirect_alloc:
  assumes fs: "fs_ok s" and ino: "ino_ok s ip" and lk: "flocked s = {}" and r: "room K (Suc m) s" "ind \<in> fdirty s \<and> k = m \<or> m = Suc k" and K: "fmap s \<in> K"
    and q: "q < 128" and ind: "sref s ip 140 = ind" "ind \<noteq> 0" and none: "sref s ip (12 + q) = 0"
    and ne: "fs_free s \<noteq> {}"
  obtains bp s2 a s3 s4 s5 where "fs_bread pid s 1 ind = Ok (bp, s2)" "fs_data s2 bp = fview s ind" "icache s2 = icache s"
    "balloc pid s2 1 = Ok (a, s3)" "fs_log_write (fs_set s3 bp (put32 (fs_data s3 bp) (4 * q) a)) bp = Ok s4"
    "fs_brelse pid s4 bp = Ok s5" "file_step s s5 ip" "a \<noteq> 0"
    "\<forall>k \<le> 140. sref s5 ip k = (if k = 12 + q then a else sref s ip k)" "fdata s5 ip = fdata s ip"
    "a \<in> fdirty s5" "room K k s5" "card (fs_free s5) = card (fs_free s) - 1"
proof -
  have ind': "i_addrs (icache s ! ip) ! 12 = ind" using ind(1) by (simp add: iref_140)
  note rb = ref_block [OF fs ino order_refl, unfolded ind(1), OF ind(2)] and D = ino_okD [OF ino]
  have few: "card (fdirty s \<union> flocked s) < 30" by (rule few_buffers [OF fs_okD(1) [OF fs] r(1)]) (simp add: lk)
  obtain bp s2 where g: "fs_bread pid s 1 ind = Ok (bp, s2)" "fs_data s2 bp = fview s ind" "fheld pid s2 bp ind"
    "evolves s s2 (fview s) (fdirty s) (insert ind (flocked s))"
    "\<exists>s3. fs_brelse pid s2 bp = Ok s3 \<and> evolves s s3 (fview s) (fdirty s) (flocked s)"
    by (rule fs_get [OF fs_okD(1) [OF fs] rb(1) _ few, of pid]) (simp add: lk)
  note e2 = evolvesD [OF g(4)] and v2 = same_view [OF e2(5,8,9)]
  have r2: "room K (Suc m) s2" by (rule room_same [OF r(1) g(4)])
  have c2: "fmap s2 \<in> K" "card (flocked s2) \<le> 1" "fmap s2 \<notin> flocked s2" "fs_free s2 \<inter> flocked s2 = {}" "fs_free s2 \<noteq> {}"
    using K e2(7,8) lk rb(3,4) v2(1) ne by auto
  obtain a s3 where b: "balloc pid s2 1 = Ok (a, s3)" "a \<in> fs_free s2" "\<forall>b \<in> fs_free s2. a \<le> b"
    "evolves s2 s3 ((fview s2)(fmap s2 := mark_used (fview s2 (fmap s2)) (unat a), a := zero_data (fview s2 a)))
       (insert a (insert (fmap s2) (fdirty s2))) (flocked s2)"
    "fs_ok s3" "room K m s3" "fs_free s3 = fs_free s2 - {a}"
    by (rule balloc_ok [OF fs_ok_same [OF fs g(4)] r2 c2, of pid])
  note e3 = evolvesD [OF b(4)]
  have a: "a \<in> fs_free s" "a \<noteq> fmap s" "a \<noteq> ind" using b(2) v2(1) fs_okD(5) [OF fs] rb(4) by auto
  have h3: "fheld pid s3 bp ind" using e3(11) [OF g(3)] e2(7) by simp
  have out: "ind \<notin> log_area (log_start (fs_log s3))" using rb(2) e2(2) e3(2) by simp
  have d3: "fs_data s3 bp = fview s ind"
    using bc.held_data [OF log_okD(1) [OF e3(1)] h3] e3(5) e2(5,8) a(3) rb(3) by (simp add: fs_data_def)
  obtain s4 s5 where w: "fs_log_write (fs_set s3 bp (put32 (fview s ind) (4 * q) a)) bp = Ok s4" "fs_brelse pid s4 bp = Ok s5"
    "evolves s3 s5 ((fview s3)(ind := put32 (fview s ind) (4 * q) a)) (insert ind (fdirty s3)) (flocked s3 - {ind})"
    by (rule fs_write_held [OF e3(1) h3 out b(6)])
  note e5 = evolvesD [OF w(3)]
  let ?i = "icache s ! ip"
  have v5: "fview s5 = (fview s)(fmap s := mark_used (fview s (fmap s)) (unat a), a := zero_data (fview s a),
      ind := put32 (fview s ind) (4 * q) a)"
    using e5(5) e3(5) e2(5,8) by simp
  have vo: "fview s5 c = fview s c" if "c \<noteq> a" "c \<noteq> fmap s" "c \<noteq> ind" for c using that v5 by simp
  have i5: "icache s5 = icache s" "fs_sb s5 = fs_sb s" "fs_devs s5 = fs_devs s" using e5(8-10) e3(8-10) e2(8-10) by simp_all
  have ref: "sref s5 ip c = (if c = 12 + q then a else sref s ip c)" if c: "c \<le> 140" for c
  proof (cases "12 \<le> c \<and> c < 140")
    case True
    then have "sref s5 ip c = get32 (put32 (fview s ind) (4 * q) a) (4 * (c - 12))" "sref s ip c = get32 (fview s ind) (4 * (c - 12))"
      using ind' ind(2) v5 i5 by (simp_all add: iref_def)
    moreover have "get32 (put32 (fview s ind) (4 * q) a) (4 * (c - 12)) = get32 (fview s ind) (4 * (c - 12))" if "c \<noteq> 12 + q"
      using that True by (intro get32_put32_other) auto
    ultimately show ?thesis by simp
  next
    case False
    then show ?thesis using c q by (auto simp: iref_def i5)
  qed
  have f5: "fs_free s5 = fs_free s - {a}"
    using b(7) v2(1) e5(5,8) rb(3) e3(8) e2(8) unfolding fs_free_def [of s5] fs_free_def [of s3, symmetric] by (simp add: fs_free_def)
  have adr: "icache s5 = (icache s)[ip := ?i\<lparr>i_addrs := i_addrs ?i\<rparr>]" using i5(1) by simp
  have rv: "fview s5 (sref s ip c) = fview s (sref s ip c)" if "c < 140" "sref s ip c \<noteq> 0" for c
  proof (rule vo)
    show "sref s ip c \<noteq> ind" using D(5) [of c 140] that ind(1) by auto
    show "sref s ip c \<noteq> a" "sref s ip c \<noteq> fmap s" using ref_block(3,4) [OF fs ino _ that(2)] that(1) a(1) by auto
  qed
  have z: "fview s5 a p = 0" if "p < 512" for p using v5 a that by (simp add: zero_data_def)
  have q': "12 + q \<le> 140" using q by simp
  note nr = new_ref [OF fs ino q' none a(1) ref f5 i5(2) adr D(3) rv z]
  have fsok: "fs_ok s5"
    by (rule fs_ok_evolves [OF b(5) w(3)]) (use b(5) rb(3) e2(8) e3(8) in \<open>auto simp: fs_ok_def Let_def\<close>)
  have "file_step s s5 ip"
    unfolding file_step_def
  proof (intro conjI allI impI)
    show "\<exists>ad. icache s5 = (icache s)[ip := (icache s ! ip)\<lparr>i_addrs := ad\<rparr>]" using adr by blast
    show "flocked s5 = {}" using e5(7) e3(7) e2(7) lk by simp
    show "fview s5 c = fview s c" if "c \<notin> avail s ip \<and> c \<noteq> fmap s" for c
      using that a(1) owned_ref [of 140 s ip] ind by (intro vo) (auto simp: avail_def)
  qed (use nr(1,2) fsok i5 in auto)
  moreover have "fdata s5 ip = fdata s ip" by (rule ext) (rule nr(3))
  moreover have "a \<in> fdirty s5" using e5(6) e3(6) by simp
  moreover have "room K k s5" by (rule room_insert [OF b(6) w(3)]) (use r(2) e2(6) e3(6) in auto)
  moreover have "card (fs_free s5) = card (fs_free s) - 1" using f5 a(1) by simp
  ultimately show ?thesis using that [OF g(1,2) e2(9) b(1) _ w(2)] w(1) d3 nr(4) ref by auto
qed

text \<open>\<^verbatim>\<open>bmap\<close> finds or makes the block, and the file reads the same afterwards.\<close>

lemma bmap_ok:
  assumes fs: "fs_ok s" and ino: "ino_ok s ip" and lk: "flocked s = {}" and fu: "funds K (Suc (Suc k)) s" and K: "fmap s \<in> K"
    and bn: "unat bn < 140"
  obtains a s' where "bmap pid s ip bn = Ok (a, s')" "file_step s s' ip" "a \<noteq> 0" "sref s' ip (unat bn) = a"
    "fdata s' ip = fdata s ip" "a \<in> fdirty s' \<and> funds K k s' \<or> funds K (Suc k) s'"
    "\<forall>j \<le> 140. sref s ip j \<noteq> 0 \<longrightarrow> sref s' ip j = sref s ip j"
proof (cases "bn < 12")
  case True
  then have n: "unat bn \<le> 12" "unat bn = (if unat bn = 12 then 140 else unat bn)" "unat bn \<noteq> 12" by (auto simp: word_less_nat_alt)
  obtain a s' where "addr_alloc pid s ip (unat bn) = Ok (a, s')" "file_step s s' ip" "a \<noteq> 0"
    "\<forall>k \<le> 140. sref s' ip k = (if k = unat bn then a else sref s ip k)" "fdata s' ip = fdata s ip"
    "a = sref s ip (unat bn) \<and> s' = s \<or> sref s ip (unat bn) = 0 \<and> a \<in> fdirty s' \<and> funds K (Suc k) s'"
    by (rule addr_alloc_ok [OF fs ino lk fu K n(1,2), of pid])
  moreover have "funds K (Suc k) s" using fu by (rule funds_mono) simp
  ultimately show ?thesis using that [of a s'] True n by (auto simp: bmap_def)
next
  case False
  have n: "unat (bn - 12) = unat bn - 12" "unat bn - 12 < 128" "12 \<le> unat bn" "bn - 12 < 128"
    using False bn by (auto simp: word_less_nat_alt unat_uint_sub)
  let ?q = "unat bn - 12"
  obtain ind s1 where a1: "addr_alloc pid s ip 12 = Ok (ind, s1)" "file_step s s1 ip" "ind \<noteq> 0"
    "\<forall>k \<le> 140. sref s1 ip k = (if k = 140 then ind else sref s ip k)" "fdata s1 ip = fdata s ip"
    "ind = sref s ip 140 \<and> s1 = s \<or> sref s ip 140 = 0 \<and> ind \<in> fdirty s1 \<and> funds K (Suc k) s1"
    by (rule addr_alloc_ok [OF fs ino lk fu K order_refl, of 140 pid]) auto
  note st1 = file_stepD [OF a1(2)]
  have dev: "i_dev (icache s1 ! ip) = 1" using ino_okD(2) [OF st1(2)] .
  have ind: "sref s1 ip 140 = ind" using a1(4) by simp
  then have ind': "i_addrs (icache s1 ! ip) ! 12 = ind" by (simp add: iref_140)
  have ent: "get32 (fview s1 ind) (4 * ?q) = sref s1 ip (unat bn)" using ind' a1(3) n bn by (simp add: iref_def)
  have fu1: "funds K (Suc k) s1" using a1(6) fu by (auto intro: funds_mono)
  show ?thesis
  proof (cases "sref s1 ip (unat bn) = 0")
    case True
    have m: "\<exists>m. room K (Suc m) s1 \<and> (ind \<in> fdirty s1 \<and> k = m \<or> m = Suc k)" using a1(6) fu by (auto simp: funds_def)
    then obtain m where m: "room K (Suc m) s1" "ind \<in> fdirty s1 \<and> k = m \<or> m = Suc k" by blast
    have c: "fmap s1 \<in> K" "sref s1 ip (12 + ?q) = 0" "fs_free s1 \<noteq> {}" "Suc k \<le> card (fs_free s1)"
      using K st1(5) True n fu1 by (auto simp: funds_def)
    obtain bp s2 a s3 s4 s5 where i: "fs_bread pid s1 1 ind = Ok (bp, s2)" "fs_data s2 bp = fview s1 ind" "icache s2 = icache s1"
      "balloc pid s2 1 = Ok (a, s3)" "fs_log_write (fs_set s3 bp (put32 (fs_data s3 bp) (4 * ?q) a)) bp = Ok s4"
      "fs_brelse pid s4 bp = Ok s5" "file_step s1 s5 ip" "a \<noteq> 0"
      "\<forall>k \<le> 140. sref s5 ip k = (if k = 12 + ?q then a else sref s1 ip k)" "fdata s5 ip = fdata s1 ip"
      "a \<in> fdirty s5" "room K k s5" "card (fs_free s5) = card (fs_free s1) - 1"
      by (rule indirect_alloc [OF st1(1-3) m c(1) n(2) ind a1(3) c(2,3), of pid])
    have "bmap pid s ip bn = Ok (a, s5)"
      using False n i(1-6) a1(1) dev ent True by (simp add: bmap_def Let_def)
    moreover have "sref s5 ip (unat bn) = a" using i(9) n bn by simp
    moreover have "\<forall>j \<le> 140. sref s ip j \<noteq> 0 \<longrightarrow> sref s5 ip j = sref s ip j"
      using a1(4,6) i(9) True n bn by auto
    moreover have "funds K k s5" using i(12,13) c(4) by (simp add: funds_def)
    ultimately show ?thesis using that [of a s5] file_step_trans [OF a1(2) i(7)] i(8,10,11) a1(5) by auto
  next
    case nz: False
    note rb = ref_block [OF st1(1,2) order_refl, unfolded ind, OF a1(3)]
    have few: "card (fdirty s1 \<union> flocked s1) < 30"
      by (rule few_buffers [OF fs_okD(1) [OF st1(1)], of K "Suc k"]) (use fu1 st1(3) in \<open>simp_all add: funds_def\<close>)
    obtain bp s2 where g: "fs_bread pid s1 1 ind = Ok (bp, s2)" "fs_data s2 bp = fview s1 ind"
      "\<exists>s3. fs_brelse pid s2 bp = Ok s3 \<and> evolves s1 s3 (fview s1) (fdirty s1) (flocked s1)"
      by (rule fs_get [OF fs_okD(1) [OF st1(1)] rb(1) _ few, of pid]) (use st1(3) in simp)
    then obtain s3 where s3: "fs_brelse pid s2 bp = Ok s3" "evolves s1 s3 (fview s1) (fdirty s1) {}" using st1(3) by auto
    note e3 = evolvesD [OF s3(2)]
    have "bmap pid s ip bn = Ok (sref s1 ip (unat bn), s3)"
      using False n g(1,2) s3(1) a1(1) dev ent nz by (simp add: bmap_def Let_def)
    moreover have "file_step s1 s3 ip" by (rule file_step_same [OF st1(1,2) s3(2)])
    moreover have "sref s3 ip (unat bn) = sref s1 ip (unat bn)" using e3(5,9) by simp
    moreover have "\<forall>j \<le> 140. sref s ip j \<noteq> 0 \<longrightarrow> sref s3 ip j = sref s ip j" using a1(4,6) e3(5,9) by auto
    moreover have "fdata s3 ip = fdata s1 ip" by (rule same_view(4) [OF e3(5,8,9)])
    ultimately show ?thesis
      using that [of _ s3] nz a1(5) file_step_trans [OF a1(2)] funds_same [OF fu1 s3(2)] by auto
  qed
qed

text \<open>A block that is there is found without changing anything.\<close>

lemma bmap_read:
  assumes fs: "fs_ok s" and ino: "ino_ok s ip" and lk: "flocked s = {}" and bn: "unat bn < 140" and nz: "sref s ip (unat bn) \<noteq> 0"
  shows "\<exists>s'. bmap pid s ip bn = Ok (sref s ip (unat bn), s') \<and> evolves s s' (fview s) (fdirty s) {}"
proof (cases "bn < 12")
  case True
  then have n: "unat bn < 12" by (simp add: word_less_nat_alt)
  then have "i_addrs (icache s ! ip) ! unat bn = sref s ip (unat bn)" by (simp add: iref_def)
  then have "bmap pid s ip bn = Ok (sref s ip (unat bn), s)" using True nz by (simp add: bmap_def addr_alloc_def Let_def)
  then show ?thesis using evolves_refl [OF fs_okD(1) [OF fs]] lk by auto
next
  case False
  have n: "unat (bn - 12) = unat bn - 12" "bn - 12 < 128" "12 \<le> unat bn"
    using False bn by (auto simp: word_less_nat_alt unat_uint_sub)
  let ?ind = "i_addrs (icache s ! ip) ! 12"
  have ind: "?ind \<noteq> 0" "get32 (fview s ?ind) (4 * (unat bn - 12)) = sref s ip (unat bn)" "sref s ip 140 = ?ind"
    using nz n bn by (auto simp: iref_def)
  have rb: "?ind < 1000" using ref_block(1) [OF fs ino order_refl] ind by simp
  have few: "card (fdirty s \<union> flocked s) < 30" using log_okD(9) [OF fs_okD(1) [OF fs]] lk by simp
  obtain bp s2 where g: "fs_bread pid s 1 ?ind = Ok (bp, s2)" "fs_data s2 bp = fview s ?ind"
    "\<exists>s3. fs_brelse pid s2 bp = Ok s3 \<and> evolves s s3 (fview s) (fdirty s) (flocked s)"
    by (rule fs_get [OF fs_okD(1) [OF fs] rb _ few, of pid]) (use lk in simp)
  have "addr_alloc pid s ip 12 = Ok (?ind, s)" using ind(1) by (simp add: addr_alloc_def Let_def)
  then show ?thesis using g ino_okD(2) [OF ino] False n ind nz lk by (auto simp: bmap_def Let_def)
qed

text \<open>Overwriting one block of the file.\<close>

lemma data_write:
  assumes fs: "fs_ok s" and ino: "ino_ok s ip" and e: "evolves s s' ((fview s)(a := d)) D {}"
    and a: "sref s ip k = a" "k < 140" "a \<noteq> 0"
  shows "file_step s s' ip" "\<And>j. j \<le> 140 \<Longrightarrow> sref s' ip j = sref s ip j" "fs_free s' = fs_free s"
    "fdata s' ip p = (if p div 512 = k then d (p mod 512) else fdata s ip p)"
proof -
  note E = evolvesD [OF e] and D = ino_okD [OF ino]
  have rb: "a \<noteq> fmap s" "a \<notin> fs_free s" using ref_block(3,4) [OF fs ino, of k] a by auto
  show free: "fs_free s' = fs_free s" using E(5,8) rb(1) by (simp add: fs_free_def)
  have ni: "a \<noteq> i_addrs (icache s ! ip) ! 12" using D(5) [of k 140] a by (auto simp: iref_140)
  have ref: "sref s' ip j = sref s ip j" for j
    unfolding E(5) E(9) by (rule iref_view) (use ni in simp)
  show "sref s' ip j = sref s ip j" if "j \<le> 140" for j by (rule ref)
  have "ino_ok s' ip" using ino unfolding ino_ok_def free E(8) E(9) ref [unfolded E(9)] .
  moreover have "avail s' ip = avail s ip" using free ref by (simp add: avail_def owned_def)
  moreover have "fs_ok s'"
    by (rule fs_ok_evolves [OF fs e]) (use rb fs in \<open>auto simp: fs_ok_def Let_def\<close>)
  moreover have "fview s' b = fview s b" if "b \<notin> avail s ip" for b
    using that a owned_ref [of k s ip] E(5) by (auto simp: avail_def)
  moreover have "\<exists>ad. icache s' = (icache s)[ip := (icache s ! ip)\<lparr>i_addrs := ad\<rparr>]"
    unfolding E(9) by (rule exI [of _ "i_addrs (icache s ! ip)"]) simp
  ultimately show "file_step s s' ip" using E(7,8,10) by (simp add: file_step_def)
  show "fdata s' ip p = (if p div 512 = k then d (p mod 512) else fdata s ip p)"
  proof (cases "p div 512 = k")
    case True
    then show ?thesis using a E(5) ref by (simp add: fdata_def)
  next
    case False
    have "sref s ip (p div 512) \<noteq> a" if "p div 512 < 140"
      using D(5) [of k "p div 512"] a that False by auto
    then show ?thesis using False E(5) ref by (simp add: fdata_def)
  qed
qed

section \<open>Reading and writing\<close>

text \<open>The number of blocks that \<open>n\<close> bytes from \<open>off\<close> on touch.\<close>

definition nblk :: "nat \<Rightarrow> nat \<Rightarrow> nat" where
  "nblk off n = (if n = 0 then 0 else Suc ((off + n - 1) div 512 - off div 512))"

lemma nblk_step:
  assumes "0 < n" and "m = min n (512 - off mod 512)"
  shows "nblk off n = Suc (nblk (off + m) (n - m))"
proof (cases "n \<le> 512 - off mod 512")
  case True
  have "off div 512 = (off + n - 1) div 512"
  proof -
    have "off + n - 1 = 512 * (off div 512) + (off mod 512 + n - 1)" using assms(1) by (simp add: mult_div_mod_eq [symmetric] del: mult_div_mod_eq)
    moreover have "off mod 512 + n - 1 < 512" using True assms(1) mod_less_divisor [of 512 off] by linarith
    ultimately show ?thesis by simp
  qed
  with True assms show ?thesis by (simp add: nblk_def)
next
  case False
  then have m: "m = 512 - off mod 512" "m < n" using assms by auto
  have o: "off + m = 512 * Suc (off div 512)"
  proof -
    have "off mod 512 < 512" by simp
    then have a: "off mod 512 + m = 512" using m(1) by simp
    have "off + m = 512 * (off div 512) + (off mod 512 + m)" by simp
    then show ?thesis unfolding a by simp
  qed
  have "Suc (off div 512) \<le> (off + n - 1) div 512"
  proof -
    have "512 * Suc (off div 512) \<le> off + n - 1" using o m(2) by linarith
    then show ?thesis by (simp add: less_eq_div_iff_mult_less_eq mult.commute)
  qed
  moreover have "(off + m) div 512 = Suc (off div 512)" unfolding o by simp
  moreover have "off + m + (n - m) - 1 = off + n - 1" using m(2) by simp
  ultimately show ?thesis using m(2) by (simp add: nblk_def Suc_diff_Suc Suc_le_eq)
qed

text \<open>The part of a file that one round of the loops reads.\<close>

lemma chunk_positions:
  assumes "(k :: nat) < m" and "off mod 512 + m \<le> 512"
  shows "(off + k) div 512 = off div 512" "(off + k) mod 512 = off mod 512 + k"
proof -
  have lt: "off mod 512 + k < 512" using assms by linarith
  have e: "off + k = (off mod 512 + k) + off div 512 * 512" by simp
  have "(off + k) div 512 = off div 512 + (off mod 512 + k) div 512" by (subst e, subst div_mult_self1) simp_all
  with lt show "(off + k) div 512 = off div 512" by simp
  have "(off + k) mod 512 = (off mod 512 + k) mod 512" by (subst e, subst mod_mult_self1) (rule refl)
  with lt show "(off + k) mod 512 = off mod 512 + k" by simp
qed

lemma unat_div512: "unat (off div 512 :: uint) = unat off div 512"
  by (simp add: unat_div_distrib)

lemma readi_loop_ok:
  assumes "fs_ok s" and "ino_ok s ip" and "flocked s = {}" and "unat off + (unat n - unat tot) \<le> 140 * 512"
    and "\<And>p. unat off \<le> p \<Longrightarrow> p < unat off + (unat n - unat tot) \<Longrightarrow> sref s ip (p div 512) \<noteq> 0"
  shows "\<exists>s'. readi_loop pid s ip off n tot = Ok (map (fdata s ip) [unat off ..< unat off + (unat n - unat tot)], s') \<and>
    evolves s s' (fview s) (fdirty s) {}"
  using assms
proof (induction pid s ip off n tot rule: readi_loop.induct)
  case (1 pid s ip off n tot)
  note fs = "1.prems"(1) and ino = "1.prems"(2) and lk = "1.prems"(3)
  show ?case
  proof (cases "tot < n")
    case False
    then show ?thesis
      using evolves_refl [OF fs_okD(1) [OF fs]] lk by (auto simp: readi_loop.simps [of pid s] word_less_nat_alt)
  next
    case True
    define m where "m = chunk n tot off"
    define L where "L = unat n - unat tot"
    note ch = chunk_nat [OF True, of off, folded m_def] and cs = chunk_step [OF True, of off, folded m_def]
    have L: "0 < L" "unat m \<le> L" using True ch(3) by (auto simp: L_def word_less_nat_alt)
    have b: "unat (off div 512) < 140" using "1.prems"(4) L by (simp add: L_def unat_div512 less_mult_imp_div_less)
    have nz: "sref s ip (unat (off div 512)) \<noteq> 0" using "1.prems"(5) [of "unat off"] L by (simp add: L_def unat_div512)
    let ?a = "sref s ip (unat (off div 512))"
    obtain s1 where s1: "bmap pid s ip (off div 512) = Ok (?a, s1)" "evolves s s1 (fview s) (fdirty s) {}"
      using bmap_read [OF fs ino lk b nz] by blast
    note e1 = evolvesD [OF s1(2)] and v1 = same_view [OF e1(5,8,9)]
    have rb: "?a < 1000" using ref_block(1) [OF fs ino _ nz] b by simp
    have few: "card (fdirty s1 \<union> flocked s1) < 30" using log_okD(9) [OF e1(1)] e1(7) by simp
    obtain bp s2 where g: "fs_bread pid s1 1 ?a = Ok (bp, s2)" "fs_data s2 bp = fview s1 ?a"
      "\<exists>s3. fs_brelse pid s2 bp = Ok s3 \<and> evolves s1 s3 (fview s1) (fdirty s1) (flocked s1)"
      by (rule fs_get [OF e1(1) rb _ few, of pid]) (simp add: e1(7))
    then obtain s3 where s3: "fs_brelse pid s2 bp = Ok s3" "evolves s1 s3 (fview s1) (fdirty s1) (flocked s1)" by blast
    have ev: "evolves s s3 (fview s) (fdirty s) {}"
      using evolves_trans [OF s1(2) s3(2)] fs_okD(1) [OF fs] e1(5-7) by simp
    note e3 = evolvesD [OF ev] and v3 = same_view [OF e3(5,8,9)]
    have off': "unat (off + m) = unat off + unat m"
    proof -
      have "unat off + unat m \<le> 140 * 512" using "1.prems"(4) L(2) unfolding L_def by linarith
      then have "unat off + unat m < 4294967296" by simp
      then show ?thesis by (simp add: unat_uint_add)
    qed
    have L': "unat n - unat (tot + m) = L - unat m" using cs L by (simp add: L_def)
    have fs3: "fs_ok s3" by (rule fs_ok_same [OF fs ev])
    have ino3: "ino_ok s3 ip" using v3(2) ino by simp
    have nz3: "sref s3 ip (p div 512) \<noteq> 0" if "unat (off + m) \<le> p" "p < unat (off + m) + (unat n - unat (tot + m))" for p
      using "1.prems"(5) [of p] that L unfolding off' L' e3(5) e3(9) by (simp add: L_def)
    have le3: "unat (off + m) + (unat n - unat (tot + m)) \<le> 140 * 512"
      using "1.prems"(4) L unfolding off' L' by (simp add: L_def)
    have g': "fs_bread pid s1 (i_dev (icache s1 ! ip)) ?a = Ok (bp, s2)" using g(1) ino_okD(2) [OF ino] e1(9) by simp
    have "\<exists>s'. readi_loop pid s3 ip (off + m) n (tot + m) =
        Ok (map (fdata s3 ip) [unat (off + m) ..< unat (off + m) + (unat n - unat (tot + m))], s') \<and>
        evolves s3 s' (fview s3) (fdirty s3) {}"
      by (rule "1.IH" [OF True s1(1) refl g' refl m_def refl s3(1) fs3 ino3 e3(7) le3]) (rule nz3)
    then obtain s4 where s4: "readi_loop pid s3 ip (off + m) n (tot + m) =
        Ok (map (fdata s3 ip) [unat (off + m) ..< unat (off + m) + (unat n - unat (tot + m))], s4)"
      "evolves s3 s4 (fview s3) (fdirty s3) {}" by blast
    have head: "map (\<lambda>k. fs_data s2 bp (unat (off mod 512) + k)) [0 ..< unat m] = map (fdata s ip) [unat off ..< unat off + unat m]"
    proof (rule nth_equalityI; simp)
      fix k assume k: "k < unat m"
      note cp = chunk_positions [OF k ch(4)]
      show "fs_data s2 bp (unat (off mod 512) + k) = fdata s ip (unat off + k)"
        using b nz e1(5) unfolding g(2) fdata_def cp unat_mod512 by (simp add: unat_div512)
    qed
    have ev4: "evolves s s4 (fview s) (fdirty s) {}"
      using evolves_trans [OF ev s4(2)] fs_okD(1) [OF fs] e3(5-7) by simp
    have "readi_loop pid s ip off n tot = Ok (map (fdata s ip) [unat off ..< unat off + unat m] @
        map (fdata s ip) [unat off + unat m ..< unat off + L], s4)"
      using True s1(1) g(1) s3(1) s4(1) head ino_okD(2) [OF ino] e1(9) L(2) v3(4)
      unfolding off' L' by (simp add: readi_loop.simps [of pid s] Let_def flip: m_def)
    moreover have "[unat off ..< unat off + L] = [unat off ..< unat off + unat m] @ [unat off + unat m ..< unat off + L]"
      using L(2) upt_add_eq_append [of "unat off" "unat off + unat m" "L - unat m"] by simp
    ultimately show ?thesis using ev4 by (simp add: L_def [symmetric])
  qed
qed

text \<open>One round of \<^verbatim>\<open>writei\<close>.\<close>

lemma write_round:
  assumes fs: "fs_ok s" and ino: "ino_ok s ip" and lk: "flocked s = {}" and K: "fmap s \<in> K" and fu: "funds K (Suc (Suc k)) s"
    and b: "unat off div 512 < 140" and fit: "unat off mod 512 + length bs \<le> 512"
  obtains a s1 bp s2 s3 s4 where "bmap pid s ip (off div 512) = Ok (a, s1)"
    "fs_bread pid s1 (i_dev (icache s1 ! ip)) a = Ok (bp, s2)"
    "fs_log_write (fs_set s2 bp (store_bytes (fs_data s2 bp) (unat (off mod 512)) bs)) bp = Ok s3" "fs_brelse pid s3 bp = Ok s4"
    "file_step s s4 ip" "funds K k s4" "\<forall>j \<le> 140. sref s ip j \<noteq> 0 \<longrightarrow> sref s4 ip j \<noteq> 0" "sref s4 ip (unat off div 512) \<noteq> 0"
    "sref s ip (unat off div 512) \<noteq> 0 \<longrightarrow> icache s4 = icache s"
    "\<forall>p. fdata s4 ip p = (if unat off \<le> p \<and> p < unat off + length bs then bs ! (p - unat off) else fdata s ip p)"
proof -
  have bn: "unat (off div 512) < 140" using b by (simp add: unat_div512)
  obtain a s1 where m: "bmap pid s ip (off div 512) = Ok (a, s1)" "file_step s s1 ip" "a \<noteq> 0" "sref s1 ip (unat (off div 512)) = a"
    "fdata s1 ip = fdata s ip" "a \<in> fdirty s1 \<and> funds K k s1 \<or> funds K (Suc k) s1"
    "\<forall>j \<le> 140. sref s ip j \<noteq> 0 \<longrightarrow> sref s1 ip j = sref s ip j"
    by (rule bmap_ok [OF fs ino lk fu K bn, of pid])
  note st1 = file_stepD [OF m(2)]
  let ?k = "unat off div 512"
  have ref: "sref s1 ip ?k = a" using m(4) by (simp add: unat_div512)
  have rb: "a < 1000" "a \<notin> log_area (log_start (fs_log s1))" using ref_block(1,2) [OF st1(1,2), of ?k] ref m(3) b by auto
  obtain k1 where k1: "room K k1 s1" "k \<le> k1" "a \<in> K \<union> fdirty s1 \<or> Suc k \<le> k1" "k \<le> card (fs_free s1)"
    using m(6) by (auto simp: funds_def)
  have one: "card (flocked s1) \<le> 1" "a \<notin> flocked s1" using st1(3) by simp_all
  obtain bp s2 where md: "fs_bread pid s1 1 a = Ok (bp, s2)" "fs_data s2 bp = fview s1 a" "fs_sb s2 = fs_sb s1"
    "\<exists>s3. fs_brelse pid s2 bp = Ok s3 \<and> evolves s1 s3 (fview s1) (fdirty s1) (flocked s1)"
    "\<forall>d. \<exists>s3 s4. fs_log_write (fs_set s2 bp d) bp = Ok s3 \<and> fs_brelse pid s3 bp = Ok s4 \<and>
       evolves s1 s4 ((fview s1)(a := d)) (insert a (fdirty s1)) (flocked s1)"
    by (rule fs_modify [OF fs_okD(1) [OF st1(1)] k1(1) one(1) rb(1) one(2) rb(2), of pid])
  let ?d = "store_bytes (fview s1 a) (unat (off mod 512)) bs"
  obtain s3 s4 where w: "fs_log_write (fs_set s2 bp ?d) bp = Ok s3" "fs_brelse pid s3 bp = Ok s4"
    "evolves s1 s4 ((fview s1)(a := ?d)) (insert a (fdirty s1)) {}" using md(5) st1(3) by metis
  note dw = data_write [OF st1(1,2) w(3) ref b m(3)]
  have "file_step s s4 ip" by (rule file_step_trans [OF m(2) dw(1)])
  moreover have "funds K k s4"
    using room_insert [OF k1(1) w(3) k1(3)] k1(2,4) dw(3) by (simp add: funds_def)
  moreover have "\<forall>j \<le> 140. sref s ip j \<noteq> 0 \<longrightarrow> sref s4 ip j \<noteq> 0" "sref s4 ip ?k \<noteq> 0" using m(3,7) dw(2) ref b by auto
  moreover have "sref s ip ?k \<noteq> 0 \<longrightarrow> icache s4 = icache s"
  proof
    assume "sref s ip ?k \<noteq> 0"
    then have "icache s1 = icache s" using bmap_read [OF fs ino lk bn, of pid] m(1) evolvesD(9) by (auto simp: unat_div512)
    then show "icache s4 = icache s" using evolvesD(9) [OF w(3)] by simp
  qed
  moreover have "fdata s4 ip p = (if unat off \<le> p \<and> p < unat off + length bs then bs ! (p - unat off) else fdata s ip p)" for p
  proof (cases "p div 512 = ?k")
    case False
    have "\<not> (unat off \<le> p \<and> p < unat off + length bs)"
      using chunk_positions(1) [OF _ fit, of "p - unat off"] False by force
    then show ?thesis unfolding dw(4) [of p] if_not_P [OF False] m(5) by (rule if_not_P [symmetric])
  next
    case True
    have p: "p mod 512 + 512 * ?k = p" "unat off mod 512 + 512 * ?k = unat off" using True by (metis mod_mult_div_eq, metis mod_mult_div_eq)
    have eq: "unat off \<le> p \<longleftrightarrow> unat off mod 512 \<le> p mod 512" "p < unat off + length bs \<longleftrightarrow> p mod 512 < unat off mod 512 + length bs"
      "p - unat off = p mod 512 - unat off mod 512" using p by linarith+
    have "fview s1 a (p mod 512) = fdata s ip p" using m(3,5) ref b True by (metis fdata_def)
    then show ?thesis using True unfolding dw(4) [of p] by (simp add: store_bytes_def unat_mod512 eq)
  qed
  ultimately show ?thesis using that m(1) md(1,2) w(1,2) ino_okD(2) [OF st1(2)] by auto
qed

text \<open>The first chunk of a write and the rest of it make the whole write.\<close>

lemma write_join:
  assumes L: "w + length src \<le> 140 * 512" "0 < m" "m \<le> length src" "w mod 512 + m \<le> 512"
    and r: "\<forall>j \<le> 140. sref s ip j \<noteq> 0 \<longrightarrow> sref s1 ip j \<noteq> 0" "sref s1 ip (w div 512) \<noteq> 0" "sref s ip (w div 512) \<noteq> 0 \<longrightarrow> icache s1 = icache s"
      "\<forall>p. fdata s1 ip p = (if w \<le> p \<and> p < w + m then take m src ! (p - w) else fdata s ip p)"
    and q: "\<forall>j \<le> 140. sref s1 ip j \<noteq> 0 \<longrightarrow> sref s2 ip j \<noteq> 0" "\<forall>p. w + m \<le> p \<and> p < w + length src \<longrightarrow> sref s2 ip (p div 512) \<noteq> 0"
      "(\<forall>p. w + m \<le> p \<and> p < w + length src \<longrightarrow> sref s1 ip (p div 512) \<noteq> 0) \<longrightarrow> icache s2 = icache s1"
      "\<forall>p. fdata s2 ip p = (if w + m \<le> p \<and> p < w + length src then drop m src ! (p - (w + m)) else fdata s1 ip p)"
  shows "\<forall>p. w \<le> p \<and> p < w + length src \<longrightarrow> sref s2 ip (p div 512) \<noteq> 0"
    "(\<forall>p. w \<le> p \<and> p < w + length src \<longrightarrow> sref s ip (p div 512) \<noteq> 0) \<longrightarrow> icache s2 = icache s"
    "\<forall>p. fdata s2 ip p = (if w \<le> p \<and> p < w + length src then src ! (p - w) else fdata s ip p)"
proof -
  have in_file: "p div 512 \<le> 140" if "p < w + length src" for p using that L(1) by simp
  show "\<forall>p. fdata s2 ip p = (if w \<le> p \<and> p < w + length src then src ! (p - w) else fdata s ip p)"
    using r(4) q(4) L(2,3) by (auto simp: nth_append)
  show "\<forall>p. w \<le> p \<and> p < w + length src \<longrightarrow> sref s2 ip (p div 512) \<noteq> 0"
  proof (intro allI impI)
    fix p assume p: "w \<le> p \<and> p < w + length src"
    show "sref s2 ip (p div 512) \<noteq> 0"
    proof (cases "w + m \<le> p")
      case True
      then show ?thesis using q(2) p by blast
    next
      case False
      then have "p - w < m" using p by linarith
      then have "p div 512 = w div 512" using chunk_positions(1) [of "p - w" m w] p L(4) by simp
      then show ?thesis using r(2) q(1) in_file [of p] p by simp
    qed
  qed
  show "(\<forall>p. w \<le> p \<and> p < w + length src \<longrightarrow> sref s ip (p div 512) \<noteq> 0) \<longrightarrow> icache s2 = icache s"
  proof
    assume nz: "\<forall>p. w \<le> p \<and> p < w + length src \<longrightarrow> sref s ip (p div 512) \<noteq> 0"
    have "sref s1 ip (p div 512) \<noteq> 0" if "w + m \<le> p" "p < w + length src" for p
      using nz r(1) that in_file [of p] by auto
    then have "icache s2 = icache s1" using q(3) by blast
    moreover have "sref s ip (w div 512) \<noteq> 0" using nz [rule_format, of w] L(2,3) by linarith
    ultimately show "icache s2 = icache s" using r(3) by simp
  qed
qed

lemma writei_loop_ok:
  assumes "fs_ok s" and "ino_ok s ip" and "flocked s = {}" and "fmap s \<in> K" and "unat off + (unat n - unat tot) \<le> 140 * 512"
    and "length src = unat n - unat tot" and "funds K (2 * nblk (unat off) (unat n - unat tot)) s"
  shows "\<exists>s'. writei_loop pid s ip src off n tot = Ok (off + (n - (if tot < n then tot else n)), s') \<and> file_step s s' ip \<and> room K 0 s' \<and>
    (\<forall>j \<le> 140. sref s ip j \<noteq> 0 \<longrightarrow> sref s' ip j \<noteq> 0) \<and>
    (\<forall>p. unat off \<le> p \<and> p < unat off + length src \<longrightarrow> sref s' ip (p div 512) \<noteq> 0) \<and>
    ((\<forall>p. unat off \<le> p \<and> p < unat off + length src \<longrightarrow> sref s ip (p div 512) \<noteq> 0) \<longrightarrow> icache s' = icache s) \<and>
    (\<forall>p. fdata s' ip p = (if unat off \<le> p \<and> p < unat off + length src then src ! (p - unat off) else fdata s ip p))"
  using assms
proof (induction pid s ip src off n tot rule: writei_loop.induct)
  case (1 pid s ip src off n tot)
  note fs = "1.prems"(1) and ino = "1.prems"(2) and lk = "1.prems"(3) and K = "1.prems"(4) and len = "1.prems"(6)
  show ?case
  proof (cases "tot < n")
    case False
    then have "src = []" using len by (simp add: word_less_nat_alt)
    then show ?thesis
      using False file_step_refl [OF fs ino lk] funds_mono [OF "1.prems"(7), of 0]
      by (intro exI [of _ s]) (auto simp: writei_loop.simps [of pid s] funds_def)
  next
    case True
    define m where "m = chunk n tot off"
    define L where "L = unat n - unat tot"
    note ch = chunk_nat [OF True, of off, folded m_def] and cs = chunk_step [OF True, of off, folded m_def]
    have L: "0 < L" "unat m \<le> L" using True ch(3) by (auto simp: L_def word_less_nat_alt)
    have b: "unat off div 512 < 140" using "1.prems"(5) L by (simp add: L_def less_mult_imp_div_less)
    have nb: "nblk (unat off) L = Suc (nblk (unat off + unat m) (L - unat m))"
      by (rule nblk_step [OF L(1)]) (use ch(1) in \<open>simp add: L_def\<close>)
    let ?k = "2 * nblk (unat off + unat m) (L - unat m)" and ?bs = "take (unat m) src"
    have fu: "funds K (Suc (Suc ?k)) s" using "1.prems"(7) nb by (simp flip: L_def)
    have lbs: "length ?bs = unat m" "length src = L" using len L by (simp_all add: L_def)
    have fit: "unat off mod 512 + length ?bs \<le> 512" using ch(4) lbs by simp
    obtain a s1 bp s2 s3 s4 where r: "bmap pid s ip (off div 512) = Ok (a, s1)"
      "fs_bread pid s1 (i_dev (icache s1 ! ip)) a = Ok (bp, s2)"
      "fs_log_write (fs_set s2 bp (store_bytes (fs_data s2 bp) (unat (off mod 512)) ?bs)) bp = Ok s3" "fs_brelse pid s3 bp = Ok s4"
      "file_step s s4 ip" "funds K ?k s4" "\<forall>j \<le> 140. sref s ip j \<noteq> 0 \<longrightarrow> sref s4 ip j \<noteq> 0" "sref s4 ip (unat off div 512) \<noteq> 0"
      "sref s ip (unat off div 512) \<noteq> 0 \<longrightarrow> icache s4 = icache s"
      "\<forall>p. fdata s4 ip p = (if unat off \<le> p \<and> p < unat off + length ?bs then ?bs ! (p - unat off) else fdata s ip p)"
      by (rule write_round [OF fs ino lk K fu b fit, of pid])
    note st4 = file_stepD [OF r(5)]
    have off': "unat (off + m) = unat off + unat m"
    proof -
      have "unat off + unat m \<le> 140 * 512" using "1.prems"(5) L(2) unfolding L_def by linarith
      then have "unat off + unat m < 4294967296" by simp
      then show ?thesis by (simp add: unat_uint_add)
    qed
    have L': "unat n - unat (tot + m) = L - unat m" using cs L by (simp add: L_def)
    have c: "fmap s4 \<in> K" "unat (off + m) + (unat n - unat (tot + m)) \<le> 140 * 512" "length (drop (unat m) src) = unat n - unat (tot + m)"
      "funds K (2 * nblk (unat (off + m)) (unat n - unat (tot + m))) s4"
      using K st4(5) "1.prems"(5) L lbs r(6) unfolding off' L' by (simp_all add: L_def)
    obtain s5 where s5: "writei_loop pid s4 ip (drop (unat m) src) (off + m) n (tot + m) =
          Ok (off + m + (n - (if tot + m < n then tot + m else n)), s5)" "file_step s4 s5 ip" "room K 0 s5"
      "\<forall>j \<le> 140. sref s4 ip j \<noteq> 0 \<longrightarrow> sref s5 ip j \<noteq> 0"
      "\<forall>p. unat (off + m) \<le> p \<and> p < unat (off + m) + length (drop (unat m) src) \<longrightarrow> sref s5 ip (p div 512) \<noteq> 0"
      "(\<forall>p. unat (off + m) \<le> p \<and> p < unat (off + m) + length (drop (unat m) src) \<longrightarrow> sref s4 ip (p div 512) \<noteq> 0) \<longrightarrow> icache s5 = icache s4"
      "\<forall>p. fdata s5 ip p = (if unat (off + m) \<le> p \<and> p < unat (off + m) + length (drop (unat m) src)
         then drop (unat m) src ! (p - unat (off + m)) else fdata s4 ip p)"
      using "1.IH" [OF True r(1) refl r(2) refl m_def r(3) r(4) st4(1-3) c] by blast
    have "off + m + (n - (if tot + m < n then tot + m else n)) = off + (n - tot)"
    proof (cases "tot + m < n")
      case True
      then show ?thesis by simp
    next
      case False
      then have "tot + m = n" using cs(2) by (simp add: word_less_nat_alt word_unat_eq_iff)
      then show ?thesis by auto
    qed
    then have ok: "writei_loop pid s ip src off n tot = Ok (off + (n - tot), s5)"
      using True r(1-4) s5(1) by (simp add: writei_loop.simps [of pid s] Let_def flip: m_def)
    have jn: "unat off + length src \<le> 140 * 512" "0 < unat m" "unat m \<le> length src" "unat off mod 512 + unat m \<le> 512"
      using "1.prems"(5) L lbs ch by (simp_all add: L_def)
    have dr: "unat (off + m) + length (drop (unat m) src) = unat off + length src" using off' L lbs by simp
    note join = write_join [OF jn r(7-9) r(10) [unfolded lbs(1)] s5(4) s5(5-7) [unfolded dr, unfolded off']]
    show ?thesis using ok True file_step_trans [OF r(5) s5(2)] s5(3,4) r(7) join by auto
  qed
qed

section \<open>Inodes on the disk: lemmas\<close>

lemma put32_fold:
  assumes "\<And>j. j \<in> set js \<Longrightarrow> b + 4 \<le> a + 4 * j \<or> a + 4 * j + 4 \<le> b"
  shows "get32 (fold (\<lambda>j d. put32 d (a + 4 * j) (f j)) js d) b = get32 d b"
  using assms
proof (induction js arbitrary: d)
  case (Cons j js)
  have "a + 4 * j + 4 \<le> b \<or> b + 4 \<le> a + 4 * j" using Cons.prems [of j] by auto
  then show ?case using Cons by (simp add: get32_put32_other)
qed simp

lemma put16_fold:
  assumes "\<And>j. j \<in> set js \<Longrightarrow> b + 2 \<le> a + 4 * j \<or> a + 4 * j + 4 \<le> b"
  shows "get16 (fold (\<lambda>j d. put32 d (a + 4 * j) (f j)) js d) b = get16 d b"
  using assms
proof (induction js arbitrary: d)
  case (Cons j js)
  have "a + 4 * j + 4 \<le> b \<or> b + 2 \<le> a + 4 * j" using Cons.prems [of j] by auto
  then show ?case using Cons by (simp add: get16_put32_other)
qed simp

lemma fold_put32_nth:
  assumes "j < n"
  shows "get32 (fold (\<lambda>j d. put32 d (a + 4 * j) (f j)) [0 ..< n] d) (a + 4 * j) = f j"
proof -
  have "[0 ..< n] = [0 ..< j] @ j # [Suc j ..< n]" using assms by (metis upt_add_eq_append upt_conv_Cons le_add_diff_inverse less_imp_le_nat zero_le)
  moreover have "get32 (fold (\<lambda>j d. put32 d (a + 4 * j) (f j)) [Suc j ..< n] d') (a + 4 * j) = get32 d' (a + 4 * j)" for d'
    by (rule put32_fold) auto
  ultimately show ?thesis by simp
qed

text \<open>A structure written to the disk reads back, and its neighbours are not disturbed.\<close>

lemma get_put_dinode:
  assumes "length (i_addrs i) = 13"
  shows "get_dinode (put_dinode d a i) a i = i"
    and "a + 64 \<le> b \<or> b + 64 \<le> a \<Longrightarrow> get_dinode (put_dinode d a i) b j = get_dinode d b j"
proof -
  define H where "H = put32 (put16 (put16 (put16 (put16 d a (i_type i)) (a + 2) (i_major i)) (a + 4) (i_minor i)) (a + 6) (i_nlink i))
    (a + 8) (i_size i)"
  define F where "F = fold (\<lambda>j d. put32 d (a + 12 + 4 * j) (i_addrs i ! j)) [0 ..< 12 + 1] H"
  have p: "put_dinode d a i = F" by (simp only: put_dinode_def F_def H_def)
  have h: "get16 F b = get16 H b" if "b + 2 \<le> a + 12 \<or> a + 64 \<le> b" for b
    unfolding F_def by (rule put16_fold) (use that in auto)
  have g: "get32 F b = get32 H b" if "b + 4 \<le> a + 12 \<or> a + 64 \<le> b" for b
    unfolding F_def by (rule put32_fold) (use that in auto)
  have f: "get32 F (a + 12 + 4 * j) = i_addrs i ! j" if "j < 13" for j
    unfolding F_def by (rule fold_put32_nth) (use that in simp)
  have ad: "map (\<lambda>j. get32 F (a + 12 + 4 * j)) [0 ..< 12 + 1] = i_addrs i"
    by (rule nth_equalityI) (use assms f in \<open>auto simp del: upt_Suc\<close>)
  have hd: "get16 F a = i_type i" "get16 F (a + 2) = i_major i" "get16 F (a + 4) = i_minor i" "get16 F (a + 6) = i_nlink i"
    "get32 F (a + 8) = i_size i" by (simp_all add: h g H_def)
  show "get_dinode (put_dinode d a i) a i = i" unfolding get_dinode_def p hd ad by simp
  assume sep: "a + 64 \<le> b \<or> b + 64 \<le> a"
  have h': "get16 F (b + k) = get16 d (b + k)" if "k + 2 \<le> 64" for k
    using sep that by (subst h) (auto simp: H_def)
  have g': "get32 F (b + k) = get32 d (b + k)" if "k + 4 \<le> 64" for k
    using sep that by (subst g) (auto simp: H_def)
  have ad': "map (\<lambda>j. get32 F (b + 12 + 4 * j)) [0 ..< 12 + 1] = map (\<lambda>j. get32 d (b + 12 + 4 * j)) [0 ..< 12 + 1]"
  proof (rule map_cong [OF refl])
    fix j :: nat assume "j \<in> set [0 ..< 12 + 1]"
    then have "12 + 4 * j + 4 \<le> 64" by (simp del: upt_Suc)
    from g' [OF this] show "get32 F (b + 12 + 4 * j) = get32 d (b + 12 + 4 * j)" by (simp add: add.assoc)
  qed
  have hd': "get16 F b = get16 d b" using h' [of 0] by simp
  show "get_dinode (put_dinode d a i) b j = get_dinode d b j"
    unfolding get_dinode_def p ad' hd' by (simp add: h' g' del: upt_Suc upt_rec_numeral add_2_eq_Suc')
qed

lemma iblock:
  assumes "fs_ok s" and "unat inum < unat (sb_ninodes (fs_sb s))"
  shows "unat (IBLOCK inum (fs_sb s)) < unat (fmap s)" "IBLOCK inum (fs_sb s) < 1000"
    "IBLOCK inum (fs_sb s) \<notin> log_area (log_start (fs_log s))"
proof -
  have d: "unat (inum div 8) = unat inum div 8" by (simp add: unat_div_distrib)
  have le: "unat inum div 8 \<le> unat (sb_ninodes (fs_sb s)) div 8" using assms(2) by (simp add: div_le_mono)
  have lt: "unat inum div 8 + unat (sb_inodestart (fs_sb s)) < unat (fmap s)" "unat (fmap s) < 1000"
    "unat (log_start (fs_log s)) + LOGSIZE \<le> unat (sb_inodestart (fs_sb s))"
    using assms(1) le by (auto simp: fs_ok_def Let_def)
  then have u: "unat (IBLOCK inum (fs_sb s)) = unat inum div 8 + unat (sb_inodestart (fs_sb s))"
    by (simp add: IBLOCK_def unat_uint_add d)
  show "unat (IBLOCK inum (fs_sb s)) < unat (fmap s)" "IBLOCK inum (fs_sb s) < 1000"
    using lt unfolding word_less_nat_alt u by simp_all
  show "IBLOCK inum (fs_sb s) \<notin> log_area (log_start (fs_log s))" by (rule not_log_area) (use lt u in simp)
qed

abbreviation iblk :: "'d fssys \<Rightarrow> nat \<Rightarrow> uint" where "iblk s ip \<equiv> IBLOCK (i_inum (icache s ! ip)) (fs_sb s)"

lemma avail_above:
  assumes "fs_ok s" and "ino_ok s ip" and "b \<in> avail s ip"
  shows "unat (fmap s) < unat b"
  using assms(3) fs_okD(5) [OF assms(1)] ino_okD(4) [OF assms(2)] by (auto simp: avail_def owned_def)

text \<open>Writing a block of inodes does not affect any file.\<close>

lemma meta_write:
  assumes fs: "fs_ok s" and e: "evolves s s' ((fview s)(b := d)) D {}" and b: "unat b < unat (fmap s)"
  shows "fs_ok s'" "fs_free s' = fs_free s"
    "ino_ok s ip \<Longrightarrow> ino_ok s' ip \<and> sref s' ip k = sref s ip k \<and> avail s' ip = avail s ip \<and> fdata s' ip p = fdata s ip p"
proof -
  note E = evolvesD [OF e]
  have nb: "b \<noteq> fmap s" using b by auto
  show "fs_ok s'" by (rule fs_ok_evolves [OF fs e]) (use nb fs in \<open>auto simp: fs_ok_def Let_def\<close>)
  show free: "fs_free s' = fs_free s" using E(5,8) nb by (simp add: fs_free_def)
  assume ino: "ino_ok s ip"
  have no: "sref s ip k \<noteq> b" if "k \<le> 140" "sref s ip k \<noteq> 0" for k using ino_okD(4) [OF ino that] b by auto
  have ref: "sref s' ip k = sref s ip k" for k
    unfolding E(5) E(9) by (rule iref_view) (use no [of 140] in \<open>simp add: iref_140\<close>)
  have "ino_ok s' ip" using ino unfolding ino_ok_def free E(8) E(9) ref [unfolded E(9)] .
  moreover have "avail s' ip = avail s ip" unfolding avail_def owned_def free ref ..
  moreover have "fdata s' ip p = fdata s ip p" unfolding fdata_def ref using no [of "p div 512"] E(5) by auto
  ultimately show "ino_ok s' ip \<and> sref s' ip k = sref s ip k \<and> avail s' ip = avail s ip \<and> fdata s' ip p = fdata s ip p"
    using ref by simp
qed

definition synced :: "'d fssys \<Rightarrow> nat \<Rightarrow> bool" where
  "synced s ip \<longleftrightarrow> get_dinode (fview s (iblk s ip)) (dino_off (i_inum (icache s ! ip))) (icache s ! ip) = icache s ! ip"

lemma iupdate_ok:
  assumes fs: "fs_ok s" and ino: "ino_ok s ip" and lk: "flocked s = {}" and r: "room K k s"
  obtains s' where "iupdate pid s ip = Ok s'"
    "evolves s s' ((fview s)(iblk s ip := put_dinode (fview s (iblk s ip)) (dino_off (i_inum (icache s ! ip))) (icache s ! ip)))
       (insert (iblk s ip) (fdirty s)) {}" "synced s' ip"
proof -
  note ib = iblock [OF fs ino_okD(6) [OF ino]]
  have one: "card (flocked s) \<le> 1" "iblk s ip \<notin> flocked s" using lk by simp_all
  let ?d = "put_dinode (fview s (iblk s ip)) (dino_off (i_inum (icache s ! ip))) (icache s ! ip)"
  obtain bp s1 where m: "fs_bread pid s 1 (iblk s ip) = Ok (bp, s1)" "fs_data s1 bp = fview s (iblk s ip)" "fs_sb s1 = fs_sb s"
    "\<exists>s2. fs_brelse pid s1 bp = Ok s2 \<and> evolves s s2 (fview s) (fdirty s) (flocked s)"
    "\<forall>d. \<exists>s2 s3. fs_log_write (fs_set s1 bp d) bp = Ok s2 \<and> fs_brelse pid s2 bp = Ok s3 \<and>
       evolves s s3 ((fview s)(iblk s ip := d)) (insert (iblk s ip) (fdirty s)) (flocked s)"
    by (rule fs_modify [OF fs_okD(1) [OF fs] r one(1) ib(2) one(2) ib(3), of pid])
  obtain s2 s3 where w: "fs_log_write (fs_set s1 bp ?d) bp = Ok s2" "fs_brelse pid s2 bp = Ok s3"
    "evolves s s3 ((fview s)(iblk s ip := ?d)) (insert (iblk s ip) (fdirty s)) {}" using m(5) lk by metis
  note E = evolvesD [OF w(3)]
  have "synced s3 ip" unfolding synced_def E(5) E(8) E(9) by (simp add: get_put_dinode(1) ino_okD(3) [OF ino])
  then show ?thesis using that w m(1,2) ino_okD(2) [OF ino] by (simp add: iupdate_def Let_def)
qed

text \<open>A file without holes, and not larger than a file can be.\<close>

definition no_holes :: "'d fssys \<Rightarrow> nat \<Rightarrow> bool" where
  "no_holes s ip \<longleftrightarrow> unat (i_size (icache s ! ip)) \<le> 140 * 512 \<and>
     (\<forall>p < unat (i_size (icache s ! ip)). sref s ip (p div 512) \<noteq> 0)"

lemma sint_nat:
  assumes "unat (n :: uint) < 2 ^ 31"
  shows "sint n = int (unat n)"
proof -
  have "int (unat n) < int (2 ^ 31)" using assms by (simp only: of_nat_less_iff)
  then have "int (unat n) < 2 ^ 31" by (simp only: of_nat_power of_nat_numeral)
  with sint_small [OF of_nat_0_le_iff, of "unat n"] have "sint (of_int (int (unat n)) :: uint) = int (unat n)" by blast
  then show ?thesis by simp
qed

lemma readi_ok:
  assumes "fs_ok s" and "ino_ok s ip" and "flocked s = {}" and "no_holes s ip" and "i_type (icache s ! ip) \<noteq> T_DEV"
    and "unat off \<le> unat (i_size (icache s ! ip))" and "unat off + unat n < 2 ^ 32"
  shows "\<exists>s'. readi devs pid s ip off n =
      Ok (int (min (unat n) (unat (i_size (icache s ! ip)) - unat off)),
          map (fdata s ip) [unat off ..< min (unat off + unat n) (unat (i_size (icache s ! ip)))], s') \<and>
    evolves s s' (fview s) (fdirty s) {}"
proof -
  let ?z = "i_size (icache s ! ip)"
  define m where "m = (if off + n > ?z then ?z - off else n)"
  have u: "unat (off + n) = unat off + unat n" using assms(7) by (simp add: unat_uint_add)
  have m: "unat m = min (unat n) (unat ?z - unat off)"
    using assms(6) by (auto simp: m_def word_less_nat_alt u unat_uint_sub)
  have z: "unat ?z \<le> 140 * 512" "\<And>p. p < unat ?z \<Longrightarrow> sref s ip (p div 512) \<noteq> 0" using assms(4) by (auto simp: no_holes_def)
  have b: "unat off + (unat m - unat (0 :: uint)) \<le> 140 * 512" using z(1) m assms(6) by simp
  have nz: "sref s ip (p div 512) \<noteq> 0" if "unat off \<le> p" "p < unat off + (unat m - unat (0 :: uint))" for p
    using that m assms(6) by (intro z(2)) simp
  have "\<exists>s'. readi_loop pid s ip off m 0 = Ok (map (fdata s ip) [unat off ..< unat off + (unat m - unat (0 :: uint))], s') \<and>
    evolves s s' (fview s) (fdirty s) {}"
    by (rule readi_loop_ok [OF assms(1-3) b]) (rule nz)
  moreover have "sint m = int (unat m)" by (rule sint_nat) (use b in simp)
  moreover have "\<not> (off > ?z \<or> off + n < off)" using assms(6) by (simp add: word_less_nat_alt u)
  moreover have "unat off + unat m = min (unat off + unat n) (unat ?z)" using m assms(6) by simp
  ultimately show ?thesis using assms(5) by (auto simp: readi_def Let_def m simp flip: m_def)
qed

lemma iref_size [simp]: "iref v (i\<lparr>i_size := z\<rparr>) k = iref v i k"
  by (simp add: iref_def)

lemma set_size:
  assumes "ino_ok s ip"
  shows "ino_ok (set_i s ip ((icache s ! ip)\<lparr>i_size := z\<rparr>)) ip" "avail (set_i s ip ((icache s ! ip)\<lparr>i_size := z\<rparr>)) ip = avail s ip"
    "fdata (set_i s ip ((icache s ! ip)\<lparr>i_size := z\<rparr>)) ip = fdata s ip" "sref (set_i s ip ((icache s ! ip)\<lparr>i_size := z\<rparr>)) ip k = sref s ip k"
proof -
  let ?s = "set_i s ip ((icache s ! ip)\<lparr>i_size := z\<rparr>)"
  have i: "icache ?s ! ip = (icache s ! ip)\<lparr>i_size := z\<rparr>" "length (icache ?s) = length (icache s)"
    using ino_okD(1) [OF assms] by simp_all
  show "sref ?s ip k = sref s ip k" unfolding i by simp
  show "ino_ok ?s ip" using assms unfolding ino_ok_def i by (elim conjE, intro conjI) simp_all
  show "avail ?s ip = avail s ip" unfolding avail_def owned_def i by simp
  show "fdata ?s ip = fdata s ip" by (rule ext) (simp only: fdata_def i(1) iref_size set_i_simps(1))
qed

lemma writei_after_loop:
  assumes ty: "i_type (icache s ! ip) \<noteq> T_DEV" and off: "unat off \<le> unat (i_size (icache s ! ip))" and n: "unat off + unat n \<le> 140 * 512"
    and l: "writei_loop pid s ip src off n 0 = Ok (off + n, s1)" and z: "i_size (icache s1 ! ip) = i_size (icache s ! ip)"
  shows "writei devs pid s ip src off n =
      (if n > 0 \<and> off + n > i_size (icache s ! ip)
       then obind (iupdate pid (set_i s1 ip ((icache s1 ! ip)\<lparr>i_size := off + n\<rparr>)) ip) (\<lambda>s2. Ok (int (unat n), s2))
       else Ok (int (unat n), s1))"
proof -
  have u: "unat (off + n) = unat off + unat n" using n by (simp add: unat_uint_add)
  have "sint n = int (unat n)" by (rule sint_nat) (use n in simp)
  moreover have "\<not> off > i_size (icache s ! ip)" "\<not> off + n < off" "\<not> off + n > 140 * 512"
    using off n by (simp_all add: word_less_nat_alt u)
  ultimately show ?thesis using ty l z by (simp add: writei_def Let_def)
qed

text \<open>A file that has grown: its size is stored in the inode and on the disk.\<close>

lemma size_update:
  assumes fs: "fs_ok s" and ino: "ino_ok s ip" and lk: "flocked s = {}" and r: "room K 0 s" and K: "iblk s ip \<in> K"
  obtains s' where "iupdate pid (set_i s ip ((icache s ! ip)\<lparr>i_size := z\<rparr>)) ip = Ok s'" "fs_ok s'" "ino_ok s' ip" "flocked s' = {}"
    "synced s' ip" "room K 0 s'" "icache s' = (icache s)[ip := (icache s ! ip)\<lparr>i_size := z\<rparr>]" "\<forall>k \<le> 140. sref s' ip k = sref s ip k" "fdata s' ip = fdata s ip"
    "avail s' ip = avail s ip" "fs_sb s' = fs_sb s" "fs_devs s' = fs_devs s" "\<forall>b. b \<noteq> iblk s ip \<longrightarrow> fview s' b = fview s b"
proof -
  define s2 where "s2 = set_i s ip ((icache s ! ip)\<lparr>i_size := z\<rparr>)"
  note ss = set_size [OF ino, of z, folded s2_def]
  have f2: "fs_ok s2" "flocked s2 = {}" "room K 0 s2" "fs_sb s2 = fs_sb s" "fs_devs s2 = fs_devs s" "fview s2 = fview s"
    "icache s2 = (icache s)[ip := (icache s ! ip)\<lparr>i_size := z\<rparr>]" "iblk s2 ip = iblk s ip"
    using fs lk r ino_okD(1) [OF ino] by (simp_all add: s2_def)
  let ?d = "put_dinode (fview s2 (iblk s2 ip)) (dino_off (i_inum (icache s2 ! ip))) (icache s2 ! ip)"
  obtain s3 where s3: "iupdate pid s2 ip = Ok s3" "evolves s2 s3 ((fview s2)(iblk s2 ip := ?d)) (insert (iblk s2 ip) (fdirty s2)) {}"
    "synced s3 ip" by (rule iupdate_ok [OF f2(1) ss(1) f2(2,3), of pid])
  note E = evolvesD [OF s3(2)] and mw = meta_write [OF f2(1) s3(2) iblock(1) [OF f2(1) ino_okD(6) [OF ss(1)]]]
  have "room K 0 s3" by (rule room_insert [OF f2(3) s3(2)]) (use f2(8) K in auto)
  moreover have "fview s3 b = fview s b" if "b \<noteq> iblk s ip" for b using that E(5) f2(6,8) by simp
  ultimately show ?thesis
    using that [of s3] s3(1,3) mw(1) mw(3) [OF ss(1)] ss E(7-10) f2(4,5,7) unfolding s2_def by (simp add: fun_eq_iff)
qed

lemma writei_ok:
  assumes fs: "fs_ok s" and ino: "ino_ok s ip" and lk: "flocked s = {}" and nh: "no_holes s ip" and sy: "synced s ip"
    and ty: "i_type (icache s ! ip) \<noteq> T_DEV" and off: "unat off \<le> unat (i_size (icache s ! ip))"
    and n: "unat off + unat n \<le> 140 * 512" "length src = unat n"
    and K: "fmap s \<in> K" "iblk s ip \<in> K" and fu: "funds K (2 * nblk (unat off) (unat n)) s"
  obtains s' i' where "writei devs pid s ip src off n = Ok (int (unat n), s')" "fs_ok s'" "ino_ok s' ip" "flocked s' = {}"
    "no_holes s' ip" "synced s' ip" "room K 0 s'" "icache s' = (icache s)[ip := i']"
    "i_type i' = i_type (icache s ! ip)" "i_inum i' = i_inum (icache s ! ip)"
    "unat (i_size i') = max (unat (i_size (icache s ! ip))) (unat off + unat n)"
    "\<forall>p. fdata s' ip p = (if unat off \<le> p \<and> p < unat off + length src then src ! (p - unat off) else fdata s ip p)"
    "avail s' ip = avail s ip" "fs_sb s' = fs_sb s" "fs_devs s' = fs_devs s"
    "\<forall>b. b \<notin> avail s ip \<and> b \<noteq> fmap s \<and> b \<noteq> iblk s ip \<longrightarrow> fview s' b = fview s b"
proof -
  let ?i = "icache s ! ip"
  have u: "unat (off + n) = unat off + unat n" using n(1) by (simp add: unat_uint_add)
  have c: "unat off + (unat n - unat (0 :: uint)) \<le> 140 * 512" "length src = unat n - unat (0 :: uint)"
    "funds K (2 * nblk (unat off) (unat n - unat (0 :: uint))) s" using n fu by simp_all
  have e0: "off + (n - (if 0 < n then 0 else n)) = off + n" by (simp add: word_less_nat_alt) (metis unat_0 word_unat_eq_iff)
  obtain s1 where s1: "writei_loop pid s ip src off n 0 = Ok (off + n, s1)" "file_step s s1 ip" "room K 0 s1"
    "\<forall>j \<le> 140. sref s ip j \<noteq> 0 \<longrightarrow> sref s1 ip j \<noteq> 0"
    "\<forall>p. unat off \<le> p \<and> p < unat off + length src \<longrightarrow> sref s1 ip (p div 512) \<noteq> 0"
    "(\<forall>p. unat off \<le> p \<and> p < unat off + length src \<longrightarrow> sref s ip (p div 512) \<noteq> 0) \<longrightarrow> icache s1 = icache s"
    "\<forall>p. fdata s1 ip p = (if unat off \<le> p \<and> p < unat off + length src then src ! (p - unat off) else fdata s ip p)"
    using writei_loop_ok [OF fs ino lk K(1) c, of pid, unfolded e0] by blast
  note st = file_stepD [OF s1(2)] and fi = file_step_fields [OF s1(2) ino]
  note head = writei_after_loop [OF ty off n(1) s1(1) fi(1), of devs]
  have z: "unat (i_size ?i) \<le> 140 * 512" "\<And>p. p < unat (i_size ?i) \<Longrightarrow> sref s ip (p div 512) \<noteq> 0"
    using nh by (auto simp: no_holes_def)
  have kept: "sref s1 ip (p div 512) \<noteq> 0" if "p < unat (i_size ?i)" for p
    using s1(4) z(2) [OF that] that z(1) by (auto simp: less_mult_imp_div_less intro: less_imp_le)
  have ib: "iblk s ip \<notin> avail s ip" "iblk s ip \<noteq> fmap s"
    using avail_above [OF fs ino] iblock(1) [OF fs ino_okD(6) [OF ino]] by (auto dest: less_asym)
  show ?thesis
  proof (cases "n > 0 \<and> off + n > i_size ?i")
    case False
    have le: "unat off + unat n \<le> unat (i_size ?i)"
      using False u off by (cases "n > 0") (simp_all add: word_less_nat_alt)
    then have ic: "icache s1 = icache s" using s1(6) z(2) n(2) by auto
    have "synced s1 ip" using sy st(5) st(8) [OF ib] unfolding synced_def ic by simp
    moreover have "no_holes s1 ip" using kept z(1) unfolding no_holes_def ic by simp
    moreover have "icache s1 = (icache s)[ip := ?i]" using ic by simp
    moreover have "writei devs pid s ip src off n = Ok (int (unat n), s1)" using head False by simp
    ultimately show ?thesis using that [of s1 ?i] st s1(3,7) le by auto
  next
    case True
    have ibk: "iblk s1 ip = iblk s ip" using fi(3) st(5) by simp
    obtain s3 where s3: "iupdate pid (set_i s1 ip ((icache s1 ! ip)\<lparr>i_size := off + n\<rparr>)) ip = Ok s3" "fs_ok s3" "ino_ok s3 ip" "flocked s3 = {}"
      "synced s3 ip" "room K 0 s3" "icache s3 = (icache s1)[ip := (icache s1 ! ip)\<lparr>i_size := off + n\<rparr>]" "\<forall>k \<le> 140. sref s3 ip k = sref s1 ip k" "fdata s3 ip = fdata s1 ip"
      "avail s3 ip = avail s1 ip" "fs_sb s3 = fs_sb s1" "fs_devs s3 = fs_devs s1" "\<forall>b. b \<noteq> iblk s1 ip \<longrightarrow> fview s3 b = fview s1 b"
      by (rule size_update [OF st(1-3) s1(3)]) (use ibk K(2) in simp)
    obtain ad where ad: "icache s1 = (icache s)[ip := ?i\<lparr>i_addrs := ad\<rparr>]" using st(7) by blast
    define i' where "i' = ?i\<lparr>i_addrs := ad, i_size := off + n\<rparr>"
    have lt: "ip < length (icache s)" by (rule ino_okD(1) [OF ino])
    have ic: "icache s3 = (icache s)[ip := i']" using s3(7) ad lt by (simp add: i'_def)
    have "sref s3 ip (p div 512) \<noteq> 0" if p: "p < unat off + unat n" for p
      using s1(5) kept [of p] s3(8) p n off by (cases "unat off \<le> p") auto
    then have "no_holes s3 ip" using n(1) u ic lt by (simp add: no_holes_def i'_def)
    moreover have "unat (i_size i') = max (unat (i_size ?i)) (unat off + unat n)"
      using True u by (simp add: i'_def word_less_nat_alt)
    moreover have "writei devs pid s ip src off n = Ok (int (unat n), s3)" using head True s3(1) by simp
    ultimately show ?thesis using that [of s3 i'] s3 s1(7) st(4-6,8) ibk ic by (simp add: i'_def)
  qed
qed

text \<open>A file that shares no block with this one is not affected.\<close>

lemma other_file:
  assumes fs: "fs_ok s" and j: "ino_ok s jp" "jp \<noteq> ip" and i: "ino_ok s ip" and dis: "owned s jp \<inter> owned s ip = {}"
    and ic: "icache s' = (icache s)[ip := i']" and v: "\<forall>b. b \<notin> avail s ip \<and> b \<noteq> fmap s \<and> b \<noteq> iblk s ip \<longrightarrow> fview s' b = fview s b"
  shows "fdata s' jp = fdata s jp"
proof -
  have keep: "fview s' (sref s jp k) = fview s (sref s jp k)" if k: "k \<le> 140" "sref s jp k \<noteq> 0" for k
  proof -
    have "sref s jp k \<notin> avail s ip" using owned_ref [OF k] dis ino_okD(4) [OF j(1) k] by (auto simp: avail_def)
    moreover have "sref s jp k \<noteq> fmap s" "sref s jp k \<noteq> iblk s ip"
      using ino_okD(4) [OF j(1) k] iblock(1) [OF fs ino_okD(6) [OF i]] by auto
    ultimately show ?thesis using v by blast
  qed
  have e: "icache s' ! jp = icache s ! jp" using ic j(2) by simp
  have ref: "sref s' jp k = sref s jp k" for k
    unfolding e by (rule iref_view) (use keep [of 140] in \<open>simp add: iref_140\<close>)
  show ?thesis by (rule ext) (use keep in \<open>simp add: fdata_def ref\<close>)
qed

text \<open>
  C9: writing \<open>n\<close> bytes at an offset inside the file, in a transaction with room for the blocks
  that they touch, succeeds and the bytes can be read back.  The rest of the file and the files
  that share no block with it keep their contents, the size grows as far as needed, and the
  inode on the disk is kept up to date.
\<close>

theorem writei_then_readi:
  assumes fs: "fs_ok s" and ino: "ino_ok s ip" and lk: "flocked s = {}" and nh: "no_holes s ip" and sy: "synced s ip"
    and ty: "i_type (icache s ! ip) \<noteq> T_DEV" and off: "unat off \<le> unat (i_size (icache s ! ip))"
    and n: "unat off + unat n \<le> 140 * 512" "length src = unat n"
    and fu: "funds {fmap s, iblk s ip} (2 * nblk (unat off) (unat n)) s"
  shows "\<exists>s' s''. writei devs pid s ip src off n = Ok (int (unat n), s') \<and>
    readi devs pid s' ip off n = Ok (int (unat n), src, s'') \<and>
    unat (i_size (icache s' ! ip)) = max (unat (i_size (icache s ! ip))) (unat off + unat n) \<and>
    fs_ok s' \<and> ino_ok s' ip \<and> no_holes s' ip \<and> synced s' ip \<and>
    (\<forall>p. p < unat off \<or> unat off + unat n \<le> p \<longrightarrow> fdata s' ip p = fdata s ip p) \<and>
    (\<forall>jp. ino_ok s jp \<and> jp \<noteq> ip \<and> owned s jp \<inter> owned s ip = {} \<longrightarrow> fdata s' jp = fdata s jp)"
proof -
  have K: "fmap s \<in> {fmap s, iblk s ip}" "iblk s ip \<in> {fmap s, iblk s ip}" by simp_all
  obtain s' i' where w: "writei devs pid s ip src off n = Ok (int (unat n), s')" "fs_ok s'" "ino_ok s' ip" "flocked s' = {}"
    "no_holes s' ip" "synced s' ip" "room {fmap s, iblk s ip} 0 s'" "icache s' = (icache s)[ip := i']"
    "i_type i' = i_type (icache s ! ip)" "i_inum i' = i_inum (icache s ! ip)"
    "unat (i_size i') = max (unat (i_size (icache s ! ip))) (unat off + unat n)"
    "\<forall>p. fdata s' ip p = (if unat off \<le> p \<and> p < unat off + length src then src ! (p - unat off) else fdata s ip p)"
    "avail s' ip = avail s ip" "fs_sb s' = fs_sb s" "fs_devs s' = fs_devs s"
    "\<forall>b. b \<notin> avail s ip \<and> b \<noteq> fmap s \<and> b \<noteq> iblk s ip \<longrightarrow> fview s' b = fview s b"
    by (rule writei_ok [OF fs ino lk nh sy ty off n K fu, of devs pid])
  have i': "icache s' ! ip = i'" using w(8) ino_okD(1) [OF ino] by simp
  have c: "i_type (icache s' ! ip) \<noteq> T_DEV" "unat off \<le> unat (i_size (icache s' ! ip))" "unat off + unat n < 2 ^ 32"
    using ty off n(1) w(9,11) i' by simp_all
  have m: "min (unat n) (unat (i_size (icache s' ! ip)) - unat off) = unat n"
    "min (unat off + unat n) (unat (i_size (icache s' ! ip))) = unat off + unat n" using w(11) i' by simp_all
  obtain s'' where r: "readi devs pid s' ip off n = Ok (int (unat n), map (fdata s' ip) [unat off ..< unat off + unat n], s'')"
    using readi_ok [OF w(2-5) c, of devs pid] unfolding m by blast
  have "map (fdata s' ip) [unat off ..< unat off + unat n] = src"
    by (rule nth_equalityI) (use n(2) w(12) in simp_all)
  with r have r': "readi devs pid s' ip off n = Ok (int (unat n), src, s'')" by simp
  have rest: "\<forall>p. p < unat off \<or> unat off + unat n \<le> p \<longrightarrow> fdata s' ip p = fdata s ip p" using w(12) n(2) by auto
  have oth: "\<forall>jp. ino_ok s jp \<and> jp \<noteq> ip \<and> owned s jp \<inter> owned s ip = {} \<longrightarrow> fdata s' jp = fdata s jp"
    using other_file [OF fs _ _ ino _ w(8) w(16)] by blast
  from w(1,2,3,5,6,11) i' r' rest oth show ?thesis by blast
qed

text \<open>An empty file, inode 2 of the demonstration disk.\<close>

definition demo_ino :: inode where
  "demo_ino = \<lparr>i_dev = 1, i_inum = 2, i_ref = 1, i_lock = initsleeplock ''inode'', i_valid = True, i_type = T_FILE,
     i_major = 0, i_minor = 0, i_nlink = 1, i_size = 0, i_addrs = replicate 13 0\<rparr>"

definition demo_file :: "inode \<Rightarrow> unit fssys" where
  "demo_file i = demo_fs ((\<lambda>_ _. 0)(32 := put_dinode (\<lambda>_. 0) 128 i)) [i]"

lemma demo_file_facts:
  assumes i: "i_dev i = 1" "i_inum i = 2" "i_size i = 0" "i_addrs i = replicate 13 0"
  shows "fs_ok (demo_file i)" "ino_ok (demo_file i) 0" "flocked (demo_file i) = {}" "no_holes (demo_file i) 0" "synced (demo_file i) 0"
    "icache (demo_file i) = [i]" "k \<le> 20 \<Longrightarrow> funds {fmap (demo_file i), iblk (demo_file i) 0} k (demo_file i)"
    "fmap (demo_file i) = 34" "iblk (demo_file i) 0 = 32"
proof -
  let ?s = "demo_file i"
  note f = demo_fs_facts [where d = "(\<lambda>_ _. 0)(32 := put_dinode (\<lambda>_. 0) 128 i)" and ic = "[i]", folded demo_file_def]
  show "fs_ok ?s" "flocked ?s = {}" and ic: "icache ?s = [i]" by (fact f)+
  have ref: "sref ?s 0 k = 0" if "k \<le> 140" for k
    using that i by (simp add: iref_def ic nth_replicate)
  show m: "fmap ?s = 34" by (simp add: f demo_sb_def)
  show ib: "iblk ?s 0 = 32" by (simp add: f demo_sb_def ic i IBLOCK_def word_div_no)
  show "ino_ok ?s 0" unfolding ino_ok_def using i ref by (simp add: ic f demo_sb_def)
  show "no_holes ?s 0" by (simp add: no_holes_def ic i)
  have "dino_off 2 = 128" by (simp add: dino_off_def)
  moreover have "IBLOCK (2 :: uint) (fs_sb ?s) = 32" using ib i(2) by (simp add: ic)
  ultimately show "synced ?s 0" unfolding synced_def f(5) ic using i get_put_dinode(1) [of i] by simp
  show "funds {fmap ?s, iblk ?s 0} k ?s" if "k \<le> 20"
  proof -
    have "room {34, 32} k ?s" by (rule f(8)) (use that in simp_all)
    moreover have "k \<le> card (fs_free ?s)"
    proof -
      have "of_nat ` {35 ..< 55 :: nat} \<subseteq> fs_free ?s" by (auto simp: f unat_of_nat_uint)
      then have "card (of_nat ` {35 ..< 55 :: nat} :: uint set) \<le> card (fs_free ?s)" by (intro card_mono) simp_all
      moreover have "inj_on (of_nat :: nat \<Rightarrow> uint) {35 ..< 55}"
        by (rule inj_on_inverseI [of _ unat]) (simp add: unat_of_nat_uint)
      ultimately show ?thesis using that by (simp add: card_image)
    qed
    ultimately show ?thesis unfolding funds_def m ib by blast
  qed
qed

theorem writei_then_readi_witness:
  "\<exists>s' s''. writei [] 9 (demo_file demo_ino) 0 [104, 105] 0 2 = Ok (2, s') \<and> readi [] 9 s' 0 0 2 = Ok (2, [104, 105], s'') \<and>
     unat (i_size (icache s' ! 0)) = 2"
proof -
  have i: "i_dev demo_ino = 1" "i_inum demo_ino = 2" "i_size demo_ino = 0" "i_addrs demo_ino = replicate 13 0"
    by (simp_all add: demo_ino_def)
  note f = demo_file_facts [OF i]
  have c: "i_type (icache (demo_file demo_ino) ! 0) \<noteq> T_DEV" "unat (0 :: uint) \<le> unat (i_size (icache (demo_file demo_ino) ! 0))"
    "unat (0 :: uint) + unat (2 :: uint) \<le> 140 * 512" "length [104, 105 :: uchar] = unat (2 :: uint)"
    unfolding f(6) by (simp_all add: demo_ino_def)
  have "funds {fmap (demo_file demo_ino), iblk (demo_file demo_ino) 0} (2 * nblk (unat (0 :: uint)) (unat (2 :: uint))) (demo_file demo_ino)"
    by (rule f(7)) (simp add: nblk_def)
  from writei_then_readi [OF f(1-5) c this, of "[]" 9] show ?thesis using i(3) by (auto simp: f(6))
qed

section \<open>Truncation\<close>

lemma trunc_direct_ok:
  assumes fs: "fs_ok s" and ino: "ino_ok s ip" and lk: "flocked s = {}" and r: "room K 0 s" and K: "fmap s \<in> K" and k: "k < 12"
  obtains s' where "trunc_direct pid ip k s = Ok s'" "fs_ok s'" "ino_ok s' ip" "flocked s' = {}" "room K 0 s'"
    "avail s' ip = avail s ip" "fs_sb s' = fs_sb s" "fs_devs s' = fs_devs s" "\<forall>b. b \<noteq> fmap s \<longrightarrow> fview s' b = fview s b"
    "icache s' = (icache s)[ip := (icache s ! ip)\<lparr>i_addrs := (i_addrs (icache s ! ip))[k := 0]\<rparr>]"
proof -
  let ?i = "icache s ! ip"
  have ref: "sref s ip k = i_addrs ?i ! k" using k by (simp add: iref_def)
  show ?thesis
  proof (cases "i_addrs ?i ! k = 0")
    case True
    then have e: "(i_addrs ?i)[k := 0] = i_addrs ?i" by (simp add: list_update_same_conv list_update_beyond flip: True)
    have "trunc_direct pid ip k s = Ok s" using True by (simp add: trunc_direct_def Let_def)
    then show ?thesis using that [of s] fs ino lk r unfolding e by simp
  next
    case False
    note D = ino_okD [OF ino]
    let ?b = "sref s ip k"
    have b: "unat (fmap s) < unat ?b" "unat ?b < unat (sb_size (fs_sb s))" "?b \<notin> fs_free s" "?b \<noteq> 0" "?b \<noteq> fmap s"
      using D(4) [of k] k False ref by auto
    obtain s1 where s1: "bfree pid s 1 ?b = Ok s1"
      "evolves s s1 ((fview s)(fmap s := mark_free (fview s (fmap s)) (unat ?b))) (insert (fmap s) (fdirty s)) (flocked s)"
      "fs_ok s1" "room K 0 s1" "fs_free s1 = insert ?b (fs_free s)"
      by (rule bfree_ok [OF fs r K _ _ b(1-3), of pid]) (simp_all add: lk)
    note E = evolvesD [OF s1(2)]
    define i' where "i' = ?i\<lparr>i_addrs := (i_addrs ?i)[k := 0]\<rparr>"
    define s' where "s' = set_i s1 ip i'"
    have i': "icache s' ! ip = i'" "icache s' = (icache s)[ip := i']" using D(1) E(9) by (simp_all add: s'_def)
    have v: "fview s' b = fview s b" if "b \<noteq> fmap s" for b using that E(5) by (simp add: s'_def)
    have rf: "sref s' ip q = (if q = k then 0 else sref s ip q)" if q: "q \<le> 140" for q
    proof -
      have "iref (fview s') i' q = (if q = k then 0 else iref (fview s') ?i q)"
        unfolding i'_def by (rule iref_set(1) [OF D(3) q refl k])
      moreover have "iref (fview s') ?i q = sref s ip q"
        by (rule iref_view) (use v ref_block(3) [OF fs ino order_refl] in \<open>auto simp: iref_140\<close>)
      ultimately show ?thesis by (simp add: i'(1))
    qed
    have f': "fs_free s' = insert ?b (fs_free s)" "fs_sb s' = fs_sb s" using s1(5) E(8) by (simp_all add: s'_def)
    have "ino_ok s' ip"
      unfolding ino_ok_def
    proof (intro conjI allI impI)
      show "ip < length (icache s')" "i_dev (icache s' ! ip) = 1" "length (i_addrs (icache s' ! ip)) = 13"
        "unat (i_inum (icache s' ! ip)) < unat (sb_ninodes (fs_sb s'))"
        using D i' f'(2) by (simp_all add: i'_def)
      fix q assume q: "q \<le> 140" "sref s' ip q \<noteq> 0"
      then have q': "q \<noteq> k" "sref s' ip q = sref s ip q" "sref s ip q \<noteq> 0" using rf by (auto split: if_splits)
      have "sref s ip q \<noteq> ?b" using D(5) [OF q(1), of k] k q' by auto
      then show "unat (fmap s') < unat (sref s' ip q)" "unat (sref s' ip q) < unat (sb_size (fs_sb s'))" "sref s' ip q \<notin> fs_free s'"
        using D(4) [OF q(1) q'(3)] q'(2) f' by auto
    next
      fix p q assume pq: "p \<le> 140" "q \<le> 140" "sref s' ip p = sref s' ip q \<and> sref s' ip p \<noteq> 0"
      then show "p = q" using D(5) [OF pq(1,2)] rf [OF pq(1)] rf [OF pq(2)] by (auto split: if_splits)
    qed
    moreover have "avail s' ip = avail s ip"
    proof -
      have "c \<in> owned s ip - {?b}" if c: "c \<in> owned s' ip" for c
      proof -
        obtain q where q: "q \<le> 140" "sref s' ip q = c" "c \<noteq> 0" using c by (auto simp: owned_def)
        then have "q \<noteq> k" "sref s ip q = c" using rf [OF q(1)] by (auto split: if_splits)
        moreover from this have "c \<noteq> ?b" using D(5) [OF q(1), of k] k q(3) by auto
        ultimately show ?thesis using q owned_ref [OF q(1), of s ip] by auto
      qed
      moreover have "c \<in> owned s' ip" if c: "c \<in> owned s ip" "c \<noteq> ?b" for c
      proof -
        obtain q where q: "q \<le> 140" "sref s ip q = c" "c \<noteq> 0" using c(1) by (auto simp: owned_def)
        then have "sref s' ip q = c" using rf [OF q(1)] c(2) by auto
        then show ?thesis using q by (auto simp: owned_def)
      qed
      ultimately have "owned s' ip = owned s ip - {?b}" by blast
      moreover have "?b \<in> owned s ip" by (rule owned_ref) (use k b(4) in simp_all)
      ultimately show ?thesis using f'(1) by (auto simp: avail_def)
    qed
    moreover have "trunc_direct pid ip k s = Ok s'"
      using False s1(1) D(2) E(9) ref by (simp add: trunc_direct_def Let_def s'_def i'_def)
    ultimately show ?thesis
      using that [of s'] s1(3,4) E(7,8,10) lk v i'(2) by (simp add: s'_def i'_def)
  qed
qed

definition cleared :: "nat \<Rightarrow> uint list \<Rightarrow> uint list" where
  "cleared n ad = replicate n 0 @ drop n ad"

lemma cleared_step: "n < length ad \<Longrightarrow> (cleared n ad)[n := 0] = cleared (Suc n) ad"
proof -
  assume n: "n < length ad"
  have "drop n ad = ad ! n # drop (Suc n) ad" using n by (simp add: Cons_nth_drop_Suc)
  then show ?thesis by (simp add: cleared_def list_update_append replicate_append_same [symmetric])
qed

lemma trunc_loop:
  assumes fs: "fs_ok s" and ino: "ino_ok s ip" and lk: "flocked s = {}" and r: "room K 0 s" and K: "fmap s \<in> K"
  shows "n \<le> 12 \<Longrightarrow> \<exists>s'. ofold (trunc_direct pid ip) [0 ..< n] s = Ok s' \<and> fs_ok s' \<and> ino_ok s' ip \<and> flocked s' = {} \<and> room K 0 s' \<and>
    avail s' ip = avail s ip \<and> fs_sb s' = fs_sb s \<and> fs_devs s' = fs_devs s \<and> (\<forall>b. b \<noteq> fmap s \<longrightarrow> fview s' b = fview s b) \<and>
    icache s' = (icache s)[ip := (icache s ! ip)\<lparr>i_addrs := cleared n (i_addrs (icache s ! ip))\<rparr>]"
proof (induction n)
  case 0
  then show ?case using assms by (simp add: cleared_def)
next
  case (Suc n)
  then obtain s1 where s1: "ofold (trunc_direct pid ip) [0 ..< n] s = Ok s1" "fs_ok s1" "ino_ok s1 ip" "flocked s1 = {}" "room K 0 s1"
    "avail s1 ip = avail s ip" "fs_sb s1 = fs_sb s" "fs_devs s1 = fs_devs s" "\<forall>b. b \<noteq> fmap s \<longrightarrow> fview s1 b = fview s b"
    "icache s1 = (icache s)[ip := (icache s ! ip)\<lparr>i_addrs := cleared n (i_addrs (icache s ! ip))\<rparr>]" by auto
  have c: "fmap s1 \<in> K" "n < 12" using K s1(7) Suc.prems by simp_all
  obtain s2 where s2: "trunc_direct pid ip n s1 = Ok s2" "fs_ok s2" "ino_ok s2 ip" "flocked s2 = {}" "room K 0 s2"
    "avail s2 ip = avail s1 ip" "fs_sb s2 = fs_sb s1" "fs_devs s2 = fs_devs s1" "\<forall>b. b \<noteq> fmap s1 \<longrightarrow> fview s2 b = fview s1 b"
    "icache s2 = (icache s1)[ip := (icache s1 ! ip)\<lparr>i_addrs := (i_addrs (icache s1 ! ip))[n := 0]\<rparr>]"
    by (rule trunc_direct_ok [OF s1(2-5) c, of pid])
  have "icache s2 = (icache s)[ip := (icache s ! ip)\<lparr>i_addrs := cleared (Suc n) (i_addrs (icache s ! ip))\<rparr>]"
    using s2(10) s1(10) ino_okD(1,3) [OF ino] c(2) by (simp add: cleared_step)
  then show ?case using s1 s2 by (auto simp: ofold_append intro!: exI [of _ s2])
qed

text \<open>Freeing the entries of the indirect block, which is locked meanwhile.\<close>

definition entries :: "'d fssys \<Rightarrow> nat \<Rightarrow> nat \<Rightarrow> uint set" where
  "entries s ip n = {b. b \<noteq> 0 \<and> (\<exists>j < n. b = sref s ip (12 + j))}"

lemma trunc_entries:
  assumes fs: "fs_ok s0" and ino: "ino_ok s0 ip" and ind: "sref s0 ip 140 = ind" "ind \<noteq> 0" and K: "fmap s0 \<in> K"
    and g: "evolves s0 s (fview s0) (fdirty s0) {ind}" "fheld pid s bp ind" "room K 0 s"
  shows "n \<le> 128 \<Longrightarrow> \<exists>s'. ofold (trunc_entry pid 1 bp) [0 ..< n] s = Ok s' \<and> fs_ok s' \<and> flocked s' = {ind} \<and> fheld pid s' bp ind \<and>
    room K 0 s' \<and> fs_free s' = fs_free s0 \<union> entries s0 ip n \<and> fs_sb s' = fs_sb s0 \<and> fs_devs s' = fs_devs s0 \<and> icache s' = icache s0 \<and>
    (\<forall>b. b \<noteq> fmap s0 \<longrightarrow> fview s' b = fview s0 b) \<and> fdirty s0 \<subseteq> fdirty s' \<and> disk_block (bio (fs_log s')) = disk_block (bio (fs_log s))"
proof (induction n)
  case 0
  note E = evolvesD [OF g(1)]
  have "fs_free s = fs_free s0" by (rule same_view(1) [OF E(5,8,9)])
  then show ?case using E fs_ok_same [OF fs g(1)] g(2,3) by (simp add: entries_def)
next
  case (Suc n)
  then obtain s1 where s1: "ofold (trunc_entry pid 1 bp) [0 ..< n] s = Ok s1" "fs_ok s1" "flocked s1 = {ind}" "fheld pid s1 bp ind"
    "room K 0 s1" "fs_free s1 = fs_free s0 \<union> entries s0 ip n" "fs_sb s1 = fs_sb s0" "fs_devs s1 = fs_devs s0" "icache s1 = icache s0"
    "\<forall>b. b \<noteq> fmap s0 \<longrightarrow> fview s1 b = fview s0 b" "fdirty s0 \<subseteq> fdirty s1" "disk_block (bio (fs_log s1)) = disk_block (bio (fs_log s))"
    by auto
  note rb = ref_block [OF fs ino order_refl, unfolded ind(1), OF ind(2)] and D = ino_okD [OF ino]
  let ?a = "sref s0 ip (12 + n)"
  have n: "12 + n \<le> 140" "n < 128" using Suc.prems by simp_all
  have ad: "i_addrs (icache s0 ! ip) ! 12 = ind" using ind(1) by (simp add: iref_140)
  have "fs_data s1 bp = fview s0 ind"
    using bc.held_data [OF log_okD(1) [OF fs_okD(1) [OF s1(2)]] s1(4)] s1(10) rb(3) by (simp add: fs_data_def)
  then have a: "get32 (fs_data s1 bp) (4 * n) = ?a" using ad ind(2) n by (simp add: iref_def)
  have en: "entries s0 ip (Suc n) = (if ?a = 0 then entries s0 ip n else insert ?a (entries s0 ip n))"
    by (auto simp: entries_def less_Suc_eq)
  show ?case
  proof (cases "?a = 0")
    case True
    then have "trunc_entry pid 1 bp n s1 = Ok s1" using a by (simp add: trunc_entry_def Let_def)
    then show ?thesis using s1 en True by (auto simp: ofold_append)
  next
    case False
    note ra = D(4) [OF n(1) False]
    have "?a \<notin> entries s0 ip n"
    proof
      assume "?a \<in> entries s0 ip n"
      then obtain j where "j < n" "?a = sref s0 ip (12 + j)" by (auto simp: entries_def)
      then show False using D(5) [OF n(1), of "12 + j"] False n by auto
    qed
    then have c: "fmap s1 \<in> K" "card (flocked s1) \<le> 1" "fmap s1 \<notin> flocked s1" "unat (fmap s1) < unat ?a"
      "unat ?a < unat (sb_size (fs_sb s1))" "?a \<notin> fs_free s1"
      using K s1(3,6,7) rb(3) ra by auto
    obtain s2 where s2: "bfree pid s1 1 ?a = Ok s2"
      "evolves s1 s2 ((fview s1)(fmap s1 := mark_free (fview s1 (fmap s1)) (unat ?a))) (insert (fmap s1) (fdirty s1)) (flocked s1)"
      "fs_ok s2" "room K 0 s2" "fs_free s2 = insert ?a (fs_free s1)"
      by (rule bfree_ok [OF s1(2,5) c, of pid])
    note E = evolvesD [OF s2(2)]
    have "trunc_entry pid 1 bp n s1 = Ok s2" using a False s2(1) by (simp add: trunc_entry_def Let_def)
    moreover have "fheld pid s2 bp ind" using E(11) [OF s1(4)] s1(3) by simp
    ultimately show ?thesis using s1 s2(3-5) E en False by (auto simp: ofold_append)
  qed
qed

lemma iref_none: "k \<le> 140 \<Longrightarrow> iref v (i\<lparr>i_addrs := replicate 13 0\<rparr>) k = 0"
  by (simp add: iref_def nth_replicate)

text \<open>The second half of \<^verbatim>\<open>itrunc\<close>, up to the assignment to the size.\<close>

lemma trunc_indirect:
  assumes fs: "fs_ok s" and ino: "ino_ok s ip" and lk: "flocked s = {}" and r: "room K 0 s" and K: "fmap s \<in> K"
    and direct: "\<And>k. k < 12 \<Longrightarrow> i_addrs (icache s ! ip) ! k = 0" and ind: "i_addrs (icache s ! ip) ! 12 = ind" "ind \<noteq> 0"
  obtains bp s2 s3 s4 s5 where "fs_bread pid s 1 ind = Ok (bp, s2)" "ofold (trunc_entry pid 1 bp) [0 ..< 128] s2 = Ok s3"
    "fs_brelse pid s3 bp = Ok s4" "bfree pid s4 1 ind = Ok s5" "fs_ok s5" "flocked s5 = {}" "room K 0 s5"
    "fs_free s5 = avail s ip" "fs_sb s5 = fs_sb s" "fs_devs s5 = fs_devs s" "icache s5 = icache s"
    "\<forall>b. b \<noteq> fmap s \<longrightarrow> fview s5 b = fview s b"
proof -
  have ind': "sref s ip 140 = ind" using ind(1) by (simp add: iref_140)
  note rb = ref_block [OF fs ino order_refl, unfolded ind', OF ind(2)]
  note ri = ino_okD(4) [OF ino order_refl, unfolded ind', OF ind(2)]
  have few: "card (fdirty s \<union> flocked s) < 30" using log_okD(9) [OF fs_okD(1) [OF fs]] lk by simp
  obtain bp s2 where g: "fs_bread pid s 1 ind = Ok (bp, s2)" "fheld pid s2 bp ind"
    "evolves s s2 (fview s) (fdirty s) (insert ind (flocked s))"
    by (rule fs_get [OF fs_okD(1) [OF fs] rb(1) _ few, of pid]) (use lk in simp)
  have g3: "evolves s s2 (fview s) (fdirty s) {ind}" using g(3) lk by simp
  have r2: "room K 0 s2" by (rule room_same [OF r g3])
  obtain s3 where s3: "ofold (trunc_entry pid 1 bp) [0 ..< 128] s2 = Ok s3" "fs_ok s3" "flocked s3 = {ind}" "fheld pid s3 bp ind"
    "room K 0 s3" "fs_free s3 = fs_free s \<union> entries s ip 128" "fs_sb s3 = fs_sb s" "fs_devs s3 = fs_devs s" "icache s3 = icache s"
    "\<forall>b. b \<noteq> fmap s \<longrightarrow> fview s3 b = fview s b" "fdirty s \<subseteq> fdirty s3" "disk_block (bio (fs_log s3)) = disk_block (bio (fs_log s2))"
    using trunc_entries [OF fs ino ind' ind(2) K g3 g(2) r2 order_refl] by blast
  have clean: "ind \<in> fdirty s3 \<or> fview s3 ind = disk_block (bio (fs_log s3)) ind"
    using clean_or_dirty [OF log_okD(1) [OF fs_okD(1) [OF fs]] lk, of ind] s3(10-12) rb(3) evolvesD(12) [OF g3] by auto
  obtain s4 where s4: "fs_brelse pid s3 bp = Ok s4" "evolves s3 s4 (fview s3) (fdirty s3) (flocked s3 - {ind})"
    by (rule fs_drop [OF fs_okD(1) [OF s3(2)] s3(4) clean])
  note E4 = evolvesD [OF s4(2)]
  have fr4: "fs_free s4 = fs_free s \<union> entries s ip 128" using same_view(1) [OF E4(5,8,9)] s3(6) by simp
  have "ind \<notin> entries s ip 128"
  proof
    assume "ind \<in> entries s ip 128"
    then obtain j where "j < 128" "sref s ip (12 + j) = ind" by (auto simp: entries_def)
    then show False using ino_okD(5) [OF ino, of "12 + j" 140] ind' ind(2) by auto
  qed
  then have c: "fmap s4 \<in> K" "card (flocked s4) \<le> 1" "fmap s4 \<notin> flocked s4" "unat (fmap s4) < unat ind"
    "unat ind < unat (sb_size (fs_sb s4))" "ind \<notin> fs_free s4"
    using K s3(3,7) E4(7,8) ri fr4 by auto
  obtain s5 where s5: "bfree pid s4 1 ind = Ok s5"
    "evolves s4 s5 ((fview s4)(fmap s4 := mark_free (fview s4 (fmap s4)) (unat ind))) (insert (fmap s4) (fdirty s4)) (flocked s4)"
    "fs_ok s5" "room K 0 s5" "fs_free s5 = insert ind (fs_free s4)"
    by (rule bfree_ok [OF fs_ok_same [OF s3(2) s4(2)] room_same [OF s3(5) s4(2)] c, of pid])
  note E5 = evolvesD [OF s5(2)]
  have "owned s ip = insert ind (entries s ip 128)"
  proof (rule set_eqI, rule iffI)
    fix b assume "b \<in> owned s ip"
    then obtain k where k: "k \<le> 140" "sref s ip k = b" "b \<noteq> 0" by (auto simp: owned_def)
    then have "12 \<le> k" using direct [of k] by (auto simp: iref_def not_less [symmetric])
    then show "b \<in> insert ind (entries s ip 128)"
      using k ind' by (cases "k = 140") (auto simp: entries_def intro!: exI [of _ "k - 12"])
  next
    fix b assume "b \<in> insert ind (entries s ip 128)"
    then show "b \<in> owned s ip"
    proof
      assume "b = ind" then show ?thesis using owned_ref [OF order_refl, of s ip] ind' ind(2) by simp
    next
      assume "b \<in> entries s ip 128"
      then obtain j where "b \<noteq> 0" "j < 128" "b = sref s ip (12 + j)" by (auto simp: entries_def)
      then show ?thesis using owned_ref [of "12 + j" s ip] by simp
    qed
  qed
  then have "fs_free s5 = avail s ip" using s5(5) fr4 by (auto simp: avail_def)
  then show ?thesis
    using that [OF g(1) s3(1) s4(1) s5(1,3)] s5(4) E5 E4 s3(3,7-10) by simp
qed

lemma trunc_blocks:
  assumes fs: "fs_ok s" and ino: "ino_ok s ip" and lk: "flocked s = {}" and r: "room K 0 s" and K: "fmap s \<in> K"
  obtains s1 s' where "ofold (trunc_direct pid ip) [0 ..< 12] s = Ok s1"
    "(let i = icache s1 ! ip; ind = i_addrs i ! NDIRECT
      in if ind \<noteq> 0
         then obind (fs_bread pid s1 (i_dev i) ind) (\<lambda>(bp, s2).
              obind (ofold (trunc_entry pid (i_dev i) bp) [0 ..< NINDIRECT] s2) (\<lambda>s3.
              obind (fs_brelse pid s3 bp) (\<lambda>s4.
              obind (bfree pid s4 (i_dev i) ind) (\<lambda>s5.
              Ok (set_i s5 ip ((icache s5 ! ip)\<lparr>i_addrs := (i_addrs (icache s5 ! ip))[NDIRECT := 0]\<rparr>))))))
         else Ok s1) = Ok s'"
    "fs_ok s'" "flocked s' = {}" "room K 0 s'" "fs_free s' = avail s ip" "fs_sb s' = fs_sb s" "fs_devs s' = fs_devs s"
    "icache s' = (icache s)[ip := (icache s ! ip)\<lparr>i_addrs := replicate 13 0\<rparr>]"
    "\<forall>b. b \<noteq> fmap s \<longrightarrow> fview s' b = fview s b"
proof -
  note D = ino_okD [OF ino]
  let ?ad = "i_addrs (icache s ! ip)"
  obtain s1 where s1: "ofold (trunc_direct pid ip) [0 ..< 12] s = Ok s1" "fs_ok s1" "ino_ok s1 ip" "flocked s1 = {}" "room K 0 s1"
    "avail s1 ip = avail s ip" "fs_sb s1 = fs_sb s" "fs_devs s1 = fs_devs s" "\<forall>b. b \<noteq> fmap s \<longrightarrow> fview s1 b = fview s b"
    "icache s1 = (icache s)[ip := (icache s ! ip)\<lparr>i_addrs := cleared 12 ?ad\<rparr>]"
    using trunc_loop [OF fs ino lk r K order_refl, of pid] by blast
  have ad: "cleared 12 ?ad = replicate 12 0 @ [?ad ! 12]"
    using D(3) by (simp add: cleared_def Cons_nth_drop_Suc [symmetric])
  have i1: "i_addrs (icache s1 ! ip) = replicate 12 0 @ [?ad ! 12]" "i_dev (icache s1 ! ip) = 1"
    using s1(10) D(1,2) ad by simp_all
  have z: "(replicate 12 0 @ [x])[12 := 0] = replicate 13 (0 :: uint)" for x :: uint by (simp add: list_update_append replicate_append_same eval_nat_numeral)
  have i12: "i_addrs (icache s1 ! ip) ! 12 = ?ad ! 12" by (simp add: i1(1) nth_append)
  show ?thesis
  proof (cases "?ad ! 12 = 0")
    case True
    have a0: "cleared 12 ?ad = replicate 13 0" using ad True z [of 0] by (simp add: list_update_append)
    then have "owned s1 ip = {}" using s1(10) D(1) iref_none by (auto simp: owned_def)
    then have "fs_free s1 = avail s ip" using s1(6) by (simp add: avail_def)
    then show ?thesis using that [OF s1(1), of s1] s1 i12 True a0 by (simp add: Let_def)
  next
    case False
    have c: "fmap s1 \<in> K" "i_addrs (icache s1 ! ip) ! k = 0" if "k < 12" for k
      using K s1(7) that i1(1) by (simp_all add: nth_append)
    have K1: "fmap s1 \<in> K" using K s1(7) by simp
    obtain bp s2 s3 s4 s5 where t: "fs_bread pid s1 1 (?ad ! 12) = Ok (bp, s2)" "ofold (trunc_entry pid 1 bp) [0 ..< 128] s2 = Ok s3"
      "fs_brelse pid s3 bp = Ok s4" "bfree pid s4 1 (?ad ! 12) = Ok s5" "fs_ok s5" "flocked s5 = {}" "room K 0 s5"
      "fs_free s5 = avail s1 ip" "fs_sb s5 = fs_sb s1" "fs_devs s5 = fs_devs s1" "icache s5 = icache s1"
      "\<forall>b. b \<noteq> fmap s1 \<longrightarrow> fview s5 b = fview s1 b"
      by (rule trunc_indirect [OF s1(2-5) K1 c(2) i12 False, of pid])
    let ?s' = "set_i s5 ip ((icache s5 ! ip)\<lparr>i_addrs := (i_addrs (icache s5 ! ip))[12 := 0]\<rparr>)"
    have "icache ?s' = (icache s)[ip := (icache s ! ip)\<lparr>i_addrs := replicate 13 0\<rparr>]"
      using t(11) s1(10) D(1) ad z by simp
    then show ?thesis using that [OF s1(1), of ?s'] t s1(6-9) i12 i1(2) False by (simp add: Let_def)
  qed
qed

text \<open>Fields of the inode that do not say where its blocks are.\<close>

lemma set_meta:
  assumes "ino_ok s ip" and i: "i_addrs i = i_addrs (icache s ! ip)" "i_dev i = i_dev (icache s ! ip)" "i_inum i = i_inum (icache s ! ip)"
  shows "ino_ok (set_i s ip i) ip" "avail (set_i s ip i) ip = avail s ip" "owned (set_i s ip i) ip = owned s ip"
    "fdata (set_i s ip i) ip = fdata s ip" "sref (set_i s ip i) ip k = sref s ip k"
proof -
  let ?s = "set_i s ip i"
  have j: "icache ?s ! ip = i" "length (icache ?s) = length (icache s)" using ino_okD(1) [OF assms(1)] by simp_all
  have ref: "sref ?s ip k = sref s ip k" for k unfolding j using i(1) by (simp add: iref_def)
  show "sref ?s ip k = sref s ip k" by (rule ref)
  show "ino_ok ?s ip" using assms(1) i unfolding ino_ok_def ref unfolding j by (elim conjE, intro conjI) simp_all
  show ow: "owned ?s ip = owned s ip" unfolding owned_def ref ..
  then show "avail ?s ip = avail s ip" by (simp add: avail_def)
  show "fdata ?s ip = fdata s ip"
  proof (rule ext)
    fix p show "fdata ?s ip p = fdata s ip p" unfolding fdata_def ref by (simp only: set_i_simps(1))
  qed
qed

lemma itrunc_ok:
  assumes fs: "fs_ok s" and ino: "ino_ok s ip" and lk: "flocked s = {}" and r: "room K 0 s" and K: "fmap s \<in> K" "iblk s ip \<in> K"
  obtains s' where "itrunc pid s ip = Ok s'" "fs_ok s'" "flocked s' = {}" "room K 0 s'" "fs_free s' = avail s ip" "fs_sb s' = fs_sb s"
    "fs_devs s' = fs_devs s" "icache s' = (icache s)[ip := (icache s ! ip)\<lparr>i_addrs := replicate 13 0, i_size := 0\<rparr>]"
    "synced s' ip" "ino_ok s' ip" "\<forall>b. b \<noteq> fmap s \<and> b \<noteq> iblk s ip \<longrightarrow> fview s' b = fview s b"
proof -
  note D = ino_okD [OF ino]
  obtain s1 s2 where t: "ofold (trunc_direct pid ip) [0 ..< 12] s = Ok s1"
    "(let i = icache s1 ! ip; ind = i_addrs i ! NDIRECT
      in if ind \<noteq> 0
         then obind (fs_bread pid s1 (i_dev i) ind) (\<lambda>(bp, s2).
              obind (ofold (trunc_entry pid (i_dev i) bp) [0 ..< NINDIRECT] s2) (\<lambda>s3.
              obind (fs_brelse pid s3 bp) (\<lambda>s4.
              obind (bfree pid s4 (i_dev i) ind) (\<lambda>s5.
              Ok (set_i s5 ip ((icache s5 ! ip)\<lparr>i_addrs := (i_addrs (icache s5 ! ip))[NDIRECT := 0]\<rparr>))))))
         else Ok s1) = Ok s2"
    "fs_ok s2" "flocked s2 = {}" "room K 0 s2" "fs_free s2 = avail s ip" "fs_sb s2 = fs_sb s" "fs_devs s2 = fs_devs s"
    "icache s2 = (icache s)[ip := (icache s ! ip)\<lparr>i_addrs := replicate 13 0\<rparr>]"
    "\<forall>b. b \<noteq> fmap s \<longrightarrow> fview s2 b = fview s b"
    by (rule trunc_blocks [OF fs ino lk r K(1), of pid])
  define s3 where "s3 = set_i s2 ip ((icache s2 ! ip)\<lparr>i_size := 0\<rparr>)"
  have i2: "icache s2 ! ip = (icache s ! ip)\<lparr>i_addrs := replicate 13 0\<rparr>" using t(9) D(1) by simp
  have "sref s2 ip k = 0" if "k \<le> 140" for k unfolding i2 by (rule iref_none [OF that])
  then have "ino_ok s2 ip" unfolding ino_ok_def using D t(7,9) i2 by (simp add: nth_replicate)
  note ss = set_size [OF this, of 0, folded s3_def]
  have ic3: "icache s3 = (icache s)[ip := (icache s ! ip)\<lparr>i_addrs := replicate 13 0, i_size := 0\<rparr>]"
    using t(9) D(1) by (simp add: s3_def)
  have f3: "fs_ok s3" "flocked s3 = {}" "room K 0 s3" "fs_sb s3 = fs_sb s" "fs_devs s3 = fs_devs s" "fview s3 = fview s2" "fs_free s3 = avail s ip"
    using t(3-8) by (simp_all add: s3_def)
  have ib: "iblk s3 ip = iblk s ip" using ic3 f3(4) D(1) by simp
  let ?d = "put_dinode (fview s3 (iblk s3 ip)) (dino_off (i_inum (icache s3 ! ip))) (icache s3 ! ip)"
  obtain s4 where s4: "iupdate pid s3 ip = Ok s4" "evolves s3 s4 ((fview s3)(iblk s3 ip := ?d)) (insert (iblk s3 ip) (fdirty s3)) {}"
    "synced s4 ip" by (rule iupdate_ok [OF f3(1) ss(1) f3(2,3), of pid])
  note E = evolvesD [OF s4(2)]
  note mw = meta_write [OF f3(1) s4(2) iblock(1) [OF f3(1) ino_okD(6) [OF ss(1)]]]
  have "room K 0 s4" by (rule room_insert [OF f3(3) s4(2)]) (use ib K(2) in auto)
  moreover have "itrunc pid s ip = Ok s4" using t(1,2) s4(1) by (simp add: itrunc_def s3_def)
  moreover have "ino_ok s4 ip" using mw(3) [OF ss(1)] by blast
  moreover have "\<forall>b. b \<noteq> fmap s \<and> b \<noteq> iblk s ip \<longrightarrow> fview s4 b = fview s b" using E(5) f3(6) t(10) ib by simp
  ultimately show ?thesis using that mw(1,2) E(7-10) f3 ic3 s4(3) by simp
qed

text \<open>The body of \<^verbatim>\<open>iput\<close> for an unlinked inode: truncate it and clear its type on the disk.\<close>

lemma trunc_and_clear:
  assumes fs: "fs_ok s" and ino: "ino_ok s ip" and lk: "flocked s = {}" and r: "room {fmap s, iblk s ip} 0 s"
  obtains s2 s4 where "itrunc pid s ip = Ok s2" "iupdate pid (set_i s2 ip ((icache s2 ! ip)\<lparr>i_type := 0\<rparr>)) ip = Ok s4"
    "fs_ok s4" "fs_free s4 = avail s ip" "icache s4 = (icache s)[ip := (icache s ! ip)\<lparr>i_addrs := replicate 13 0, i_size := 0, i_type := 0\<rparr>]"
    "get16 (fview s4 (iblk s ip)) (dino_off (i_inum (icache s ! ip))) = 0"
proof -
  have K: "fmap s \<in> {fmap s, iblk s ip}" "iblk s ip \<in> {fmap s, iblk s ip}" by simp_all
  obtain s2 where t: "itrunc pid s ip = Ok s2" "fs_ok s2" "flocked s2 = {}" "room {fmap s, iblk s ip} 0 s2" "fs_free s2 = avail s ip"
    "fs_sb s2 = fs_sb s" "fs_devs s2 = fs_devs s" "icache s2 = (icache s)[ip := (icache s ! ip)\<lparr>i_addrs := replicate 13 0, i_size := 0\<rparr>]"
    "synced s2 ip" "ino_ok s2 ip" "\<forall>b. b \<noteq> fmap s \<and> b \<noteq> iblk s ip \<longrightarrow> fview s2 b = fview s b"
    by (rule itrunc_ok [OF fs ino lk r K, of pid])
  let ?j = "(icache s ! ip)\<lparr>i_addrs := replicate 13 0, i_size := 0, i_type := 0\<rparr>"
  define s3 where "s3 = set_i s2 ip ((icache s2 ! ip)\<lparr>i_type := 0\<rparr>)"
  have ic: "icache s3 = (icache s)[ip := ?j]" "icache s3 ! ip = ?j"
    using t(8) ino_okD(1) [OF ino] by (simp_all add: s3_def set_i_def)
  have s3: "fs_ok s3" "flocked s3 = {}" "room {fmap s, iblk s ip} 0 s3" "fs_free s3 = avail s ip" "iblk s3 ip = iblk s ip"
    using t ic(2) by (simp_all add: s3_def)
  have ino3: "ino_ok s3 ip" unfolding s3_def by (rule set_meta [OF t(10)]) simp_all
  let ?d = "put_dinode (fview s3 (iblk s3 ip)) (dino_off (i_inum (icache s3 ! ip))) (icache s3 ! ip)"
  obtain s4 where s4: "iupdate pid s3 ip = Ok s4" "evolves s3 s4 ((fview s3)(iblk s3 ip := ?d)) (insert (iblk s3 ip) (fdirty s3)) {}"
    "synced s4 ip" by (rule iupdate_ok [OF s3(1) ino3 s3(2,3), of pid]) (simp_all add: s3(5))
  note E = evolvesD [OF s4(2)] and mw = meta_write [OF s3(1) s4(2) iblock(1) [OF s3(1) ino_okD(6) [OF ino3]]]
  have ib: "iblk s4 ip = iblk s ip" using E(8,9) s3(5) by simp
  have "i_type (get_dinode (fview s4 (iblk s4 ip)) (dino_off (i_inum ?j)) ?j) = 0" using s4(3) E(9) ic(2) by (simp add: synced_def)
  then have "get16 (fview s4 (iblk s ip)) (dino_off (i_inum (icache s ! ip))) = 0" unfolding ib by (simp add: get_dinode_def)
  then show ?thesis using that [OF t(1) s4(1) [unfolded s3_def] mw(1)] mw(2) s3(4) E(9) ic(1) by simp
qed

text \<open>
  C22: \<^verbatim>\<open>iput\<close> of the last reference to an inode without links gives all of its blocks back to the
  free map, writes an inode of type 0 to the disk and leaves the cache entry free; in all other
  cases it only counts one reference less.  A single logged bitmap block and the inode block are
  enough for it, whatever the size of the file.
\<close>

theorem iput_last_frees:
  assumes fs: "fs_ok s" and ino: "ino_ok s ip" and lk: "flocked s = {}" and r: "room {fmap s, iblk s ip} 0 s"
    and ul: "\<not> sl_locked (i_lock (icache s ! ip))"
  shows "\<exists>s'. iput pid s ip = Ok s' \<and> i_ref (icache s' ! ip) = i_ref (icache s ! ip) - 1 \<and> \<not> sl_locked (i_lock (icache s' ! ip)) \<and>
    (if i_valid (icache s ! ip) \<and> i_nlink (icache s ! ip) = 0 \<and> i_ref (icache s ! ip) = 1
     then fs_free s' = fs_free s \<union> owned s ip \<and> get16 (fview s' (iblk s ip)) (dino_off (i_inum (icache s ! ip))) = 0 \<and>
       \<not> i_valid (icache s' ! ip) \<and> fs_ok s'
     else fs_log s' = fs_log s)"
proof -
  let ?i = "icache s ! ip"
  let ?lk = "(i_lock ?i)\<lparr>sl_locked := True, sl_pid := pid\<rparr>"
  define i1 where "i1 = ?i\<lparr>i_lock := ?lk\<rparr>"
  define s1 where "s1 = set_i s ip i1"
  have acq: "acquiresleep pid (i_lock ?i) = Ok ?lk" using ul by (simp add: acquiresleep_def)
  have lt: "ip < length (icache s)" by (rule ino_okD(1) [OF ino])
  have s1: "icache s1 ! ip = i1" "fs_ok s1" "flocked s1 = {}" "room {fmap s1, iblk s1 ip} 0 s1" "iblk s1 ip = iblk s ip"
    using fs lk r lt by (simp_all add: s1_def i1_def)
  have sm: "ino_ok s1 ip" "avail s1 ip = avail s ip" unfolding s1_def by (rule set_meta [OF ino], simp_all add: i1_def)+
  show ?thesis
  proof (cases "i_valid ?i \<and> i_nlink ?i = 0 \<and> i_ref ?i = 1")
    case False
    then have "iput pid s ip = Ok (set_i s1 ip (i1\<lparr>i_lock := releasesleep ?lk, i_ref := i_ref ?i - 1\<rparr>))"
      unfolding iput_def Let_def acq obind.simps if_not_P [OF False] using s1(1) by (simp add: s1_def i1_def)
    then show ?thesis unfolding if_not_P [OF False] using lt by (simp add: releasesleep_def s1_def)
  next
    case True
    obtain s2 s4 where t: "itrunc pid s1 ip = Ok s2" "iupdate pid (set_i s2 ip ((icache s2 ! ip)\<lparr>i_type := 0\<rparr>)) ip = Ok s4"
      "fs_ok s4" "fs_free s4 = avail s1 ip" "icache s4 = (icache s1)[ip := (icache s1 ! ip)\<lparr>i_addrs := replicate 13 0, i_size := 0, i_type := 0\<rparr>]"
      "get16 (fview s4 (iblk s1 ip)) (dino_off (i_inum (icache s1 ! ip))) = 0"
      by (rule trunc_and_clear [OF s1(2) sm(1) s1(3,4)])
    have i4: "icache s4 ! ip = i1\<lparr>i_addrs := replicate 13 0, i_size := 0, i_type := 0\<rparr>" "ip < length (icache s4)"
      using t(5) s1(1) lt by (simp_all add: s1_def)
    then have "iput pid s ip = Ok (set_i s4 ip ((icache s4 ! ip)\<lparr>i_valid := False, i_lock := releasesleep (i_lock i1), i_ref := i_ref ?i - 1\<rparr>))"
      using True acq t(1,2) by (simp add: iput_def Let_def s1_def i1_def)
    then show ?thesis
      using True i4 t(3,4,6) s1(1,5) sm(2) by (auto simp: i1_def releasesleep_def avail_def Un_commute)
  qed
qed

theorem iput_last_frees_witness:
  "\<exists>s s' :: unit fssys. owned s 0 \<noteq> {} \<and> iput 9 s 0 = Ok s' \<and> fs_free s' = fs_free s \<union> owned s 0 \<and> i_ref (icache s' ! 0) = 0"
proof -
  define i where "i = demo_ino\<lparr>i_nlink := 0\<rparr>"
  have i: "i_dev i = 1" "i_inum i = 2" "i_size i = 0" "i_addrs i = replicate 13 0" by (simp_all add: i_def demo_ino_def)
  note f = demo_file_facts [OF i]
  let ?s = "demo_file i"
  have c: "i_type (icache ?s ! 0) \<noteq> T_DEV" "unat (0 :: uint) \<le> unat (i_size (icache ?s ! 0))"
    "unat (0 :: uint) + unat (2 :: uint) \<le> 140 * 512" "length [104, 105 :: uchar] = unat (2 :: uint)"
    "fmap ?s \<in> {fmap ?s, iblk ?s 0}" "iblk ?s 0 \<in> {fmap ?s, iblk ?s 0}"
    unfolding f(6) by (simp_all add: i_def demo_ino_def)
  have fu: "funds {fmap ?s, iblk ?s 0} (2 * nblk (unat (0 :: uint)) (unat (2 :: uint))) ?s" by (rule f(7)) (simp add: nblk_def)
  have sz: "i_size (icache ?s ! 0) = 0" "i_nlink (icache ?s ! 0) = 0" "i_valid (icache ?s ! 0)" "i_ref (icache ?s ! 0) = 1"
    "\<not> sl_locked (i_lock (icache ?s ! 0))"
    unfolding f(6) by (simp_all add: i_def demo_ino_def initsleeplock_def)
  define n where "n = nblk (unat (0 :: uint)) (unat (2 :: uint))"
  have lp: "\<exists>s'. writei_loop 9 ?s 0 [104, 105] 0 2 0 = Ok (2, s') \<and> file_step ?s s' 0 \<and> room {fmap ?s, iblk ?s 0} 0 s' \<and> sref s' 0 0 \<noteq> 0"
    using writei_loop_ok [OF f(1-3) c(5), of 0 2 0 "[104, 105]" 9] fu by auto
  then obtain s' where s': "file_step ?s s' 0" "room {fmap ?s, iblk ?s 0} 0 s'" "sref s' 0 0 \<noteq> 0" by blast
  note st = file_stepD [OF s'(1)] and fi = file_step_fields [OF s'(1) f(2)]
  obtain ad where ad: "icache s' ! 0 = (icache ?s ! 0)\<lparr>i_addrs := ad\<rparr>" using st(7) f(6) by auto
  have e: "i_nlink (icache s' ! 0) = 0" "i_valid (icache s' ! 0)" "i_ref (icache s' ! 0) = 1" "\<not> sl_locked (i_lock (icache s' ! 0))"
    unfolding ad using sz by simp_all
  have "room {fmap s', iblk s' 0} 0 s'" using s'(2) st(5) fi(3) by simp
  from iput_last_frees [OF st(1-3) this e(4), of 9] e
  obtain s'' where "iput 9 s' 0 = Ok s''" "fs_free s'' = fs_free s' \<union> owned s' 0" "i_ref (icache s'' ! 0) = 0" by auto
  moreover have "owned s' 0 \<noteq> {}" using owned_ref [of 0 s' 0] s'(3) by auto
  ultimately show ?thesis by blast
qed

section \<open>The inode cache: lemmas\<close>

text \<open>No inode has two entries in use.\<close>

definition icache_ok :: "'d fssys \<Rightarrow> bool" where
  "icache_ok s \<longleftrightarrow> (\<forall>p < length (icache s). 0 \<le> i_ref (icache s ! p)) \<and>
     (\<forall>p < length (icache s). \<forall>q < length (icache s). 0 < i_ref (icache s ! p) \<and> 0 < i_ref (icache s ! q) \<and>
        i_dev (icache s ! p) = i_dev (icache s ! q) \<and> i_inum (icache s ! p) = i_inum (icache s ! q) \<longrightarrow> p = q)"

lemma icache_ok_set:
  assumes "icache_ok s" and "0 \<le> i_ref i"
    and "\<And>q. q < length (icache s) \<Longrightarrow> q \<noteq> p \<Longrightarrow> 0 < i_ref i \<Longrightarrow> 0 < i_ref (icache s ! q) \<Longrightarrow>
      \<not> (i_dev (icache s ! q) = i_dev i \<and> i_inum (icache s ! q) = i_inum i)"
  shows "icache_ok (set_i s p i)"
  unfolding icache_ok_def
proof (intro conjI allI impI)
  fix q assume "q < length (icache (set_i s p i))"
  then show "0 \<le> i_ref (icache (set_i s p i) ! q)" using assms(1,2) by (cases "q = p") (auto simp: icache_ok_def)
next
  fix q r assume *: "q < length (icache (set_i s p i))" "r < length (icache (set_i s p i))"
    "0 < i_ref (icache (set_i s p i) ! q) \<and> 0 < i_ref (icache (set_i s p i) ! r) \<and>
     i_dev (icache (set_i s p i) ! q) = i_dev (icache (set_i s p i) ! r) \<and> i_inum (icache (set_i s p i) ! q) = i_inum (icache (set_i s p i) ! r)"
  show "q = r"
    using * assms(1) assms(3) [of q] assms(3) [of r] unfolding icache_ok_def
    by (cases "q = p"; cases "r = p") auto
qed

text \<open>
  C28: the inode cache never holds two entries for one inode.  \<^verbatim>\<open>iget\<close> returns the entry that is
  in use for the inode, with one more reference, or else takes a free entry with one reference
  and nothing valid in it; it panics only if all entries are in use for other inodes.
\<close>

theorem iget_one_entry:
  assumes ok: "icache_ok s"
  shows "case iget s dev inum of
      Ok (ip, s') \<Rightarrow> icache_ok s' \<and> ip < length (icache s) \<and> i_dev (icache s' ! ip) = dev \<and> i_inum (icache s' ! ip) = inum \<and>
        (\<forall>q. q \<noteq> ip \<longrightarrow> icache s' ! q = icache s ! q) \<and>
        (if 0 < i_ref (icache s ! ip) then icache s' ! ip = (icache s ! ip)\<lparr>i_ref := i_ref (icache s ! ip) + 1\<rparr>
         else i_ref (icache s' ! ip) = 1 \<and> \<not> i_valid (icache s' ! ip))
    | Panic m \<Rightarrow> (\<forall>p < length (icache s). 0 < i_ref (icache s ! p) \<and> (i_dev (icache s ! p), i_inum (icache s ! p)) \<noteq> (dev, inum))
    | Blocked \<Rightarrow> False"
proof (cases "find_idx (\<lambda>i. i_ref i > 0 \<and> i_dev i = dev \<and> i_inum i = inum) (icache s)")
  case (Some ip)
  note f = find_idx_SomeD(1,2) [OF Some]
  have "icache_ok (set_i s ip ((icache s ! ip)\<lparr>i_ref := i_ref (icache s ! ip) + 1\<rparr>))"
    by (rule icache_ok_set [OF ok]) (use ok f in \<open>auto simp: icache_ok_def\<close>)
  then show ?thesis using Some f by (simp add: iget_def)
next
  case None
  then have no: "\<not> (0 < i_ref (icache s ! q) \<and> i_dev (icache s ! q) = dev \<and> i_inum (icache s ! q) = inum)" if "q < length (icache s)" for q
    using that by (auto simp: find_idx_None_iff)
  show ?thesis
  proof (cases "find_idx (\<lambda>i. i_ref i = 0) (icache s)")
    case e: (Some ip)
    note f = find_idx_SomeD(1,2) [OF e]
    have "icache_ok (set_i s ip ((icache s ! ip)\<lparr>i_dev := dev, i_inum := inum, i_ref := 1, i_valid := False\<rparr>))"
      by (rule icache_ok_set [OF ok]) (use no in auto)
    then show ?thesis using None e f by (simp add: iget_def)
  next
    case n: None
    have "0 < i_ref (icache s ! p)" if "p < length (icache s)" for p
      using n that ok by (auto simp: find_idx_None_iff icache_ok_def) (metis nth_mem order_less_le)
    then show ?thesis using None n no by (auto simp: iget_def)
  qed
qed

theorem iget_one_entry_witness:
  "\<exists>s'. iget (demo_file demo_ino) 1 2 = Ok (0, s') \<and> i_ref (icache s' ! 0) = 2 \<and> icache_ok s'"
proof -
  have d: "i_dev demo_ino = 1" "i_inum demo_ino = 2" "i_size demo_ino = 0" "i_addrs demo_ino = replicate 13 0" "i_ref demo_ino = 1"
    by (simp_all add: demo_ino_def)
  note f = demo_file_facts(6) [OF d(1-4)]
  have ok: "icache_ok (demo_file demo_ino)" by (simp add: icache_ok_def f d)
  have g: "iget (demo_file demo_ino) 1 2 = Ok (0, set_i (demo_file demo_ino) 0 (demo_ino\<lparr>i_ref := 2\<rparr>))"
    by (simp add: iget_def f find_idx_def d)
  from iget_one_entry [OF ok, of 1 2, unfolded g] show ?thesis by (simp add: g f)
qed

end
