(* ===== verification/Xv6_Dir.thy ===== *)
theory Xv6_Dir
  imports Xv6_Inode
begin

text \<open>
  Directories and path names, \<^verbatim>\<open>src/xv6/fs.c\<close>.  A directory is a file of 16-byte entries; a
  path is the list of its bytes before the terminating NUL.  \<^verbatim>\<open>dirlink\<close> followed by \<^verbatim>\<open>dirlookup\<close>
  finds the inode, and \<^verbatim>\<open>namex\<close> walks over the elements that splitting the path at the slashes
  gives.
\<close>

section \<open>Directories\<close>

abbreviation (input) DIRSIZ :: nat where "DIRSIZ \<equiv> 14"

text \<open>\<^verbatim>\<open>struct dirent\<close> as the 16 bytes that it occupies: the inode number and the name.\<close>

definition de_inum :: "uchar list \<Rightarrow> ushort" where
  "de_inum de = ucast (de ! 0) OR push_bit 8 (ucast (de ! 1))"

definition de_name :: "uchar list \<Rightarrow> carray" where
  "de_name de = (\<lambda>k. de ! (k + 2))"

definition de_make :: "ushort \<Rightarrow> carray \<Rightarrow> uchar list" where
  "de_make inum name = [ucast inum, ucast (drop_bit 8 inum)] @ map name [0 ..< DIRSIZ]"

definition namecmp :: "carray \<Rightarrow> carray \<Rightarrow> int" where
  "namecmp s t = strncmp s t DIRSIZ"

text \<open>\<^verbatim>\<open>for(off = 0; off < dp->size; off += sizeof(de))\<close>: the values that \<^verbatim>\<open>off\<close> takes.\<close>

definition de_offsets :: "uint \<Rightarrow> nat list" where
  "de_offsets sz = map (\<lambda>k. 16 * k) [0 ..< (unat sz + 15) div 16]"

text \<open>The loop of \<^verbatim>\<open>dirlookup\<close>, with the offset of the entry.\<close>

primrec dirlookup_in ::
  "'d devsw list \<Rightarrow> int \<Rightarrow> 'd fssys \<Rightarrow> nat \<Rightarrow> carray \<Rightarrow> nat list \<Rightarrow> ((nat \<times> uint) option \<times> 'd fssys) outcome" where
  "dirlookup_in devs pid s dp name [] = Ok (None, s)"
| "dirlookup_in devs pid s dp name (off # offs) =
     obind (readi devs pid s dp (of_nat off) 16) (\<lambda>(r, de, s1).
       if r \<noteq> 16 then Panic ''dirlookup read''
       else if de_inum de = 0 then dirlookup_in devs pid s1 dp name offs
       else if namecmp name (de_name de) = 0
       then obind (iget s1 (i_dev (icache s1 ! dp)) (ucast (de_inum de))) (\<lambda>(ip, s2). Ok (Some (ip, of_nat off), s2))
       else dirlookup_in devs pid s1 dp name offs)"

definition dirlookup :: "'d devsw list \<Rightarrow> int \<Rightarrow> 'd fssys \<Rightarrow> nat \<Rightarrow> carray \<Rightarrow> ((nat \<times> uint) option \<times> 'd fssys) outcome" where
  "dirlookup devs pid s dp name =
     (if i_type (icache s ! dp) \<noteq> T_DIR then Panic ''dirlookup not DIR''
      else dirlookup_in devs pid s dp name (de_offsets (i_size (icache s ! dp))))"

text \<open>The search of \<^verbatim>\<open>dirlink\<close> for an empty entry; it ends at the size of the directory.\<close>

primrec dirlink_in :: "'d devsw list \<Rightarrow> int \<Rightarrow> 'd fssys \<Rightarrow> nat \<Rightarrow> nat list \<Rightarrow> (nat option \<times> 'd fssys) outcome" where
  "dirlink_in devs pid s dp [] = Ok (None, s)"
| "dirlink_in devs pid s dp (off # offs) =
     obind (readi devs pid s dp (of_nat off) 16) (\<lambda>(r, de, s1).
       if r \<noteq> 16 then Panic ''dirlink read''
       else if de_inum de = 0 then Ok (Some off, s1)
       else dirlink_in devs pid s1 dp offs)"

definition dirlink :: "'d devsw list \<Rightarrow> int \<Rightarrow> 'd fssys \<Rightarrow> nat \<Rightarrow> carray \<Rightarrow> uint \<Rightarrow> (int \<times> 'd fssys) outcome" where
  "dirlink devs pid s dp name inum =
     obind (dirlookup devs pid s dp name) (\<lambda>(r, s1).
       case r of
         Some (ip, _) \<Rightarrow> obind (iput pid s1 ip) (\<lambda>s2. Ok (-1, s2))
       | None \<Rightarrow>
           let offs = de_offsets (i_size (icache s1 ! dp))
           in obind (dirlink_in devs pid s1 dp offs) (\<lambda>(slot, s2).
              let off = (case slot of Some off \<Rightarrow> off | None \<Rightarrow> 16 * length offs);
                  de = de_make (ucast inum) (strncpy (\<lambda>_. 0) name (int DIRSIZ))
              in obind (writei devs pid s2 dp de (of_nat off) 16) (\<lambda>(r, s3).
                 if r \<noteq> 16 then Panic ''dirlink'' else Ok (0, s3))))"

section \<open>Paths\<close>

abbreviation (input) SLASH :: uchar where "SLASH \<equiv> 47"

text \<open>
  \<^verbatim>\<open>skipelem\<close> returns the rest of the pth and the buffer \<^verbatim>\<open>name\<close>; an element of 14 bytes or more
  fills it without a terminating NUL.
\<close>

definition skipelem :: "uchar list \<Rightarrow> carray \<Rightarrow> (uchar list \<times> carray) option" where
  "skipelem pth name =
     (let p = dropWhile (\<lambda>c. c = SLASH) pth
      in if p = [] then None
         else let e = takeWhile (\<lambda>c. c \<noteq> SLASH) p;
                  rest = dropWhile (\<lambda>c. c \<noteq> SLASH) p;
                  len = length e;
                  name' = (if len \<ge> DIRSIZ then (\<lambda>k. if k < DIRSIZ then e ! k else name k)
                           else (\<lambda>k. if k < len then e ! k else if k = len then 0 else name k))
              in Some (dropWhile (\<lambda>c. c = SLASH) rest, name'))"

lemma skipelem_shorter: "skipelem pth name = Some (pth', name') \<Longrightarrow> length pth' < length pth"
proof -
  assume a: "skipelem pth name = Some (pth', name')"
  define p where "p = dropWhile (\<lambda>c. c = SLASH) pth"
  have p: "p \<noteq> []" "pth' = dropWhile (\<lambda>c. c = SLASH) (dropWhile (\<lambda>c. c \<noteq> SLASH) p)"
    using a by (auto simp: skipelem_def Let_def p_def split: if_splits)
  have "hd p \<noteq> SLASH" using p(1) unfolding p_def by (metis (mono_tags) hd_dropWhile)
  then obtain c cs where "p = c # cs" "c \<noteq> SLASH" using p(1) by (cases p) auto
  then have "length (dropWhile (\<lambda>c. c \<noteq> SLASH) p) \<le> length cs" by (simp add: length_dropWhile_le)
  moreover have "length pth' \<le> length (dropWhile (\<lambda>c. c \<noteq> SLASH) p)" using p(2) by (simp add: length_dropWhile_le)
  moreover have "length p \<le> length pth" by (simp add: p_def length_dropWhile_le)
  ultimately show ?thesis using \<open>p = c # cs\<close> by simp
qed

text \<open>The loop of \<^verbatim>\<open>namex\<close>.\<close>

function namex_loop ::
  "'d devsw list \<Rightarrow> int \<Rightarrow> 'd fssys \<Rightarrow> nat \<Rightarrow> uchar list \<Rightarrow> bool \<Rightarrow> carray \<Rightarrow> (nat option \<times> carray \<times> 'd fssys) outcome" where
  "namex_loop devs pid s ip pth parent name =
     (case skipelem pth name of
        Some (pth', name') \<Rightarrow>
          obind (ilock pid s (Some ip)) (\<lambda>s1.
            if i_type (icache s1 ! ip) \<noteq> T_DIR
            then obind (iunlockput pid s1 ip) (\<lambda>s2. Ok (None, name', s2))
            else if parent \<and> pth' = []
            then obind (iunlock pid s1 (Some ip)) (\<lambda>s2. Ok (Some ip, name', s2))
            else obind (dirlookup devs pid s1 ip name') (\<lambda>(r, s2).
                 case r of
                   None \<Rightarrow> obind (iunlockput pid s2 ip) (\<lambda>s3. Ok (None, name', s3))
                 | Some (nxt, _) \<Rightarrow> obind (iunlockput pid s2 ip) (\<lambda>s3. namex_loop devs pid s3 nxt pth' parent name')))
      | None \<Rightarrow>
          if parent then obind (iput pid s ip) (\<lambda>s1. Ok (None, name, s1))
          else Ok (Some ip, name, s))"
  by pat_completeness auto

termination namex_loop
  by (relation "measure (\<lambda>(devs, pid, s, ip, pth, parent, name). length pth)") (auto dest: skipelem_shorter)

declare namex_loop.simps [simp del]

text \<open>\<open>cwd\<close> is \<^verbatim>\<open>myproc()->cwd\<close>.\<close>

definition namex ::
  "'d devsw list \<Rightarrow> int \<Rightarrow> 'd fssys \<Rightarrow> nat option \<Rightarrow> uchar list \<Rightarrow> bool \<Rightarrow> carray \<Rightarrow> (nat option \<times> carray \<times> 'd fssys) outcome" where
  "namex devs pid s cwd pth parent name =
     obind (if pth \<noteq> [] \<and> hd pth = SLASH then iget s ROOTDEV ROOTINO
            else case cwd of None \<Rightarrow> Panic ''trap'' | Some ip \<Rightarrow> Ok (ip, idup s ip)) (\<lambda>(ip, s1).
     namex_loop devs pid s1 ip pth parent name)"

definition namei :: "'d devsw list \<Rightarrow> int \<Rightarrow> 'd fssys \<Rightarrow> nat option \<Rightarrow> uchar list \<Rightarrow> (nat option \<times> 'd fssys) outcome" where
  "namei devs pid s cwd pth = obind (namex devs pid s cwd pth False (\<lambda>_. 0)) (\<lambda>(r, _, s1). Ok (r, s1))"

definition nameiparent ::
  "'d devsw list \<Rightarrow> int \<Rightarrow> 'd fssys \<Rightarrow> nat option \<Rightarrow> uchar list \<Rightarrow> carray \<Rightarrow> (nat option \<times> carray \<times> 'd fssys) outcome" where
  "nameiparent devs pid s cwd pth name = namex devs pid s cwd pth True name"

section \<open>Path names\<close>

text \<open>The reference: split at the slashes and leave out what is empty.\<close>

primrec split_path :: "uchar list \<Rightarrow> uchar list list" where
  "split_path [] = [[]]"
| "split_path (c # cs) = (if c = SLASH then [] # split_path cs else (c # hd (split_path cs)) # tl (split_path cs))"

definition elements :: "uchar list \<Rightarrow> uchar list list" where
  "elements p = filter (\<lambda>e. e \<noteq> []) (split_path p)"

lemma split_path_ne [simp]: "split_path p \<noteq> []"
  by (cases p) auto

lemma elements_skip: "elements (dropWhile (\<lambda>c. c = SLASH) p) = elements p"
  by (induction p) (auto simp: elements_def)

lemma split_head: "split_path p = takeWhile (\<lambda>c. c \<noteq> SLASH) p #
    (case dropWhile (\<lambda>c. c \<noteq> SLASH) p of [] \<Rightarrow> [] | c # cs \<Rightarrow> split_path cs)"
  by (induction p) auto

lemma elements_head:
  assumes "p \<noteq> []" and "hd p \<noteq> SLASH"
  shows "elements p = takeWhile (\<lambda>c. c \<noteq> SLASH) p # elements (dropWhile (\<lambda>c. c = SLASH) (dropWhile (\<lambda>c. c \<noteq> SLASH) p))"
proof -
  let ?r = "dropWhile (\<lambda>c. c \<noteq> SLASH) p"
  have ne: "takeWhile (\<lambda>c. c \<noteq> SLASH) p \<noteq> []" using assms by (cases p) auto
  have "elements ?r = filter (\<lambda>e. e \<noteq> []) (case ?r of [] \<Rightarrow> [] | c # cs \<Rightarrow> split_path cs)"
  proof (cases ?r)
    case (Cons c cs)
    then have "c = SLASH" using hd_dropWhile [of "\<lambda>c. c \<noteq> SLASH" p] by simp
    with Cons show ?thesis by (simp add: elements_def)
  next
    case Nil
    show ?thesis unfolding Nil by (simp add: elements_def)
  qed
  then show ?thesis unfolding elements_skip using ne by (subst elements_def, subst split_head) simp
qed

text \<open>What is in the buffer \<^verbatim>\<open>name\<close> as a string of at most 14 bytes.\<close>

lemma cstr_list:
  assumes "0 \<notin> set e" and "\<And>k. k < length e \<Longrightarrow> k < n \<Longrightarrow> f k = e ! k" and "length e < n \<Longrightarrow> f (length e) = 0"
  shows "cstr f n = take n e"
proof (cases "length e < n")
  case True
  have "map f [0 ..< 0 + n] = e @ 0 # map f [Suc (length e) ..< n]"
  proof -
    have "[0 ..< n] = [0 ..< length e] @ length e # [Suc (length e) ..< n]"
      using True by (metis upt_add_eq_append upt_conv_Cons le_add_diff_inverse less_imp_le_nat zero_le)
    moreover have "map f [0 ..< length e] = e" by (rule nth_equalityI) (use True assms(2) in auto)
    ultimately show ?thesis using assms(3) True by simp
  qed
  moreover have "takeWhile (\<lambda>c. c \<noteq> 0) (e @ 0 # r) = e" for r
    using assms(1) by (subst takeWhile_append2) auto
  ultimately show ?thesis using True by (simp add: cstr_def cstr_from_def)
next
  case False
  have "map f [0 ..< 0 + n] = take n e" by (rule nth_equalityI) (use False assms(2) in auto)
  moreover have "takeWhile (\<lambda>c. c \<noteq> 0) (take n e) = take n e"
    using assms(1) by (auto simp: takeWhile_eq_all_conv dest: in_set_takeD)
  ultimately show ?thesis by (simp add: cstr_def cstr_from_def)
qed

definition cname :: "uchar list \<Rightarrow> carray" where
  "cname e = (\<lambda>k. if k < length e then e ! k else 0)"

lemma cstr_cname: "0 \<notin> set e \<Longrightarrow> cstr (cname e) n = take n e"
  by (rule cstr_list) (simp_all add: cname_def)

lemma skipelem_elements:
  assumes "0 \<notin> set p"
  shows "elements p = [] \<Longrightarrow> skipelem p name = None"
    and "elements p = e # es \<Longrightarrow> \<exists>p' name'. skipelem p name = Some (p', name') \<and> elements p' = es \<and> cstr name' DIRSIZ = take DIRSIZ e \<and>
      0 \<notin> set p' \<and> 0 \<notin> set e"
proof -
  define q where "q = dropWhile (\<lambda>c. c = SLASH) p"
  have el: "elements p = elements q" by (simp add: q_def elements_skip)
  have hd: "q \<noteq> [] \<Longrightarrow> hd q \<noteq> SLASH" unfolding q_def by (metis (mono_tags) hd_dropWhile)
  have nul: "0 \<notin> set q" using assms set_dropWhileD [of _ "\<lambda>c. c = SLASH" p] by (auto simp: q_def)
  show "skipelem p name = None" if "elements p = []"
    using that hd elements_head [of q] unfolding el by (auto simp: skipelem_def Let_def simp flip: q_def)
  show "\<exists>p' name'. skipelem p name = Some (p', name') \<and> elements p' = es \<and> cstr name' DIRSIZ = take DIRSIZ e \<and> 0 \<notin> set p' \<and> 0 \<notin> set e"
    if e: "elements p = e # es"
  proof -
    have ne: "q \<noteq> []" using e unfolding el by (auto simp: elements_def)
    note h = elements_head [OF ne hd [OF ne]]
    have e': "takeWhile (\<lambda>c. c \<noteq> SLASH) q = e" "elements (dropWhile (\<lambda>c. c = SLASH) (dropWhile (\<lambda>c. c \<noteq> SLASH) q)) = es"
      using h e unfolding el by simp_all
    have n: "0 \<notin> set e" "0 \<notin> set (dropWhile (\<lambda>c. c = SLASH) (dropWhile (\<lambda>c. c \<noteq> SLASH) q))"
      using nul e'(1) by (auto dest: set_takeWhileD set_dropWhileD)
    have "cstr (if DIRSIZ \<le> length e then (\<lambda>k. if k < DIRSIZ then e ! k else name k)
        else (\<lambda>k. if k < length e then e ! k else if k = length e then 0 else name k)) DIRSIZ = take DIRSIZ e"
      by (rule cstr_list [OF n(1)]) auto
    then show ?thesis using ne e' n by (simp add: skipelem_def Let_def flip: q_def)
  qed
qed

text \<open>The walk over a list of names, as \<^verbatim>\<open>namex\<close> does it.\<close>

primrec walk :: "'d devsw list \<Rightarrow> int \<Rightarrow> 'd fssys \<Rightarrow> nat \<Rightarrow> uchar list list \<Rightarrow> (nat option \<times> 'd fssys) outcome" where
  "walk devs pid s ip [] = Ok (Some ip, s)"
| "walk devs pid s ip (e # es) =
     obind (ilock pid s (Some ip)) (\<lambda>s1.
       if i_type (icache s1 ! ip) \<noteq> T_DIR then obind (iunlockput pid s1 ip) (\<lambda>s2. Ok (None, s2))
       else obind (dirlookup devs pid s1 ip (cname e)) (\<lambda>(r, s2).
         case r of
           None \<Rightarrow> obind (iunlockput pid s2 ip) (\<lambda>s3. Ok (None, s3))
         | Some (nxt, _) \<Rightarrow> obind (iunlockput pid s2 ip) (\<lambda>s3. walk devs pid s3 nxt es)))"

lemma dirlookup_cong: "cstr n DIRSIZ = cstr n' DIRSIZ \<Longrightarrow> dirlookup devs pid s dp n = dirlookup devs pid s dp n'"
proof -
  assume "cstr n DIRSIZ = cstr n' DIRSIZ"
  then have "dirlookup_in devs pid s dp n offs = dirlookup_in devs pid s dp n' offs" for offs
    by (induction offs arbitrary: s) (auto simp: namecmp_def strncmp_eq_0 intro!: obind_cong)
  then show ?thesis by (simp add: dirlookup_def)
qed

lemma namex_loop_walk:
  assumes "0 \<notin> set p"
  shows "obind (namex_loop devs pid s ip p False name) (\<lambda>(r, _, s1). Ok (r, s1)) =
    walk devs pid s ip (map (take DIRSIZ) (elements p))"
  using assms
proof (induction "elements p" arbitrary: p s ip name)
  case Nil
  then have "skipelem p name = None" using skipelem_elements(1) [OF Nil.prems] by simp
  then show ?case using Nil.hyps by (simp add: namex_loop.simps [of devs pid s])
next
  case (Cons e es)
  obtain p' name' where k: "skipelem p name = Some (p', name')" "elements p' = es" "cstr name' DIRSIZ = take DIRSIZ e"
    "0 \<notin> set p'" "0 \<notin> set e" using skipelem_elements(2) [OF Cons.prems Cons.hyps(2) [symmetric]] by blast
  have IH: "obind (namex_loop devs pid s ip p' False name') (\<lambda>(r, _, s1). Ok (r, s1)) = walk devs pid s ip (map (take DIRSIZ) es)" for s ip
    using Cons.hyps(1) [OF k(2) [symmetric] k(4)] k(2) by simp
  have "0 \<notin> set (take DIRSIZ e)" using k(5) by (auto dest: in_set_takeD)
  then have "cstr (cname (take DIRSIZ e)) DIRSIZ = cstr name' DIRSIZ" using cstr_cname [of "take DIRSIZ e" DIRSIZ] k(3) by simp
  then have dl: "dirlookup devs pid s1 ip (cname (take DIRSIZ e)) = dirlookup devs pid s1 ip name'" for s1 by (rule dirlookup_cong)
  show ?case
    unfolding namex_loop.simps [of devs pid s] k(1) Cons.hyps(2) [symmetric]
    by (auto simp: obind_assoc dl IH intro!: obind_cong split: option.split prod.split)
qed

text \<open>
  C17: for every path, however many slashes it has, \<^verbatim>\<open>namei\<close> starts at the root if the path begins
  with a slash and at the current directory otherwise, and looks up one after the other the
  non-empty elements between the slashes, each cut to 14 bytes.
\<close>

theorem namei_walks_elements:
  assumes "0 \<notin> set p"
  shows "namei devs pid s cwd p =
    obind (if p \<noteq> [] \<and> hd p = SLASH then iget s ROOTDEV ROOTINO
           else case cwd of None \<Rightarrow> Panic ''trap'' | Some ip \<Rightarrow> Ok (ip, idup s ip)) (\<lambda>(ip, s1).
    walk devs pid s1 ip (map (take DIRSIZ) (elements p)))"
  unfolding namei_def namex_def obind_assoc
  by (rule obind_cong [OF refl]) (auto simp: split_beta simp flip: namex_loop_walk [OF assms, of _ _ _ _ "\<lambda>_. 0"])

text \<open>The path \<open>a//\<close> from a current directory that is a file.\<close>

theorem namei_walks_elements_witness:
  "\<exists>s'. namei [] 9 (demo_file demo_ino) (Some 0) [97, 47, 47] = Ok (None, s') \<and> elements [97, 47, 47] = [[97]]"
proof -
  have d: "i_dev demo_ino = 1" "i_inum demo_ino = 2" "i_size demo_ino = 0" "i_addrs demo_ino = replicate 13 0" "i_ref demo_ino = 1"
    "i_valid demo_ino" "i_nlink demo_ino = 1" "i_type demo_ino = 2" "\<not> sl_locked (i_lock demo_ino)"
    by (simp_all add: demo_ino_def initsleeplock_def)
  note f = demo_file_facts(6) [OF d(1-4)]
  have e: "elements [97, 47, 47] = [[97]]" by (simp add: elements_def)
  have "(0 :: uchar) \<notin> set [97, 47, 47]" by simp
  from namei_walks_elements [OF this, of "[]" 9 "demo_file demo_ino" "Some 0"] show ?thesis
    by (simp add: e idup_def f d ilock_def acquiresleep_def iunlockput_def iunlock_def iput_def releasesleep_def holdingsleep_def Let_def)
qed

section \<open>Directory entries\<close>

definition dir_ok :: "'d fssys \<Rightarrow> nat \<Rightarrow> bool" where
  "dir_ok s dp \<longleftrightarrow> fs_ok s \<and> ino_ok s dp \<and> flocked s = {} \<and> no_holes s dp \<and> i_type (icache s ! dp) = T_DIR \<and>
     unat (i_size (icache s ! dp)) mod 16 = 0"

definition dent :: "'d fssys \<Rightarrow> nat \<Rightarrow> nat \<Rightarrow> uchar list" where
  "dent s dp k = map (fdata s dp) [16 * k ..< 16 * k + 16]"

definition ndents :: "'d fssys \<Rightarrow> nat \<Rightarrow> nat" where
  "ndents s dp = unat (i_size (icache s ! dp)) div 16"

definition dent_hit :: "'d fssys \<Rightarrow> nat \<Rightarrow> carray \<Rightarrow> nat \<Rightarrow> bool" where
  "dent_hit s dp name k \<longleftrightarrow> de_inum (dent s dp k) \<noteq> 0 \<and> cstr (de_name (dent s dp k)) DIRSIZ = cstr name DIRSIZ"

lemma dir_ok_same:
  assumes "dir_ok s dp" and e: "evolves s s' (fview s) d {}"
  shows "dir_ok s' dp" "dent s' dp = dent s dp" "icache s' = icache s" "dent_hit s' dp = dent_hit s dp" "ndents s' dp = ndents s dp"
proof -
  note E = evolvesD [OF e] and v = same_view [OF evolvesD(5,8,9) [OF e]]
  show "icache s' = icache s" by (rule E(9))
  have ok: "fs_ok s" "ino_ok s dp" "no_holes s dp" "i_type (icache s ! dp) = T_DIR" "unat (i_size (icache s ! dp)) mod 16 = 0"
    using assms(1) by (auto simp: dir_ok_def)
  have "no_holes s' dp" using ok(3) unfolding no_holes_def E(5) E(9) .
  then show "dir_ok s' dp" using ok fs_ok_same [OF ok(1) e] v(2) E(7,9) by (simp add: dir_ok_def)
  show d: "dent s' dp = dent s dp" by (simp add: dent_def [abs_def] v(4))
  show "dent_hit s' dp = dent_hit s dp" by (simp add: dent_hit_def [abs_def] d)
  show "ndents s' dp = ndents s dp" by (simp add: ndents_def E(9))
qed

lemma dir_read:
  assumes "dir_ok s dp" and "k < ndents s dp"
  shows "\<exists>s'. readi devs pid s dp (of_nat (16 * k)) 16 = Ok (16, dent s dp k, s') \<and> evolves s s' (fview s) (fdirty s) {}"
proof -
  let ?z = "unat (i_size (icache s ! dp))"
  have ok: "fs_ok s" "ino_ok s dp" "flocked s = {}" "no_holes s dp" "i_type (icache s ! dp) \<noteq> T_DEV"
    using assms(1) by (auto simp: dir_ok_def)
  have z: "?z \<le> 71680" "16 * k + 16 \<le> ?z" using ok(4) assms by (auto simp: no_holes_def dir_ok_def ndents_def)
  have u: "unat (of_nat (16 * k) :: uint) = 16 * k" by (rule unat_of_nat_uint) (use z in simp)
  have c: "unat (of_nat (16 * k) :: uint) \<le> ?z" "unat (of_nat (16 * k) :: uint) + unat (16 :: uint) < 2 ^ 32"
    unfolding u using z by simp_all
  have "min (unat (16 :: uint)) (?z - 16 * k) = 16" "min (16 * k + unat (16 :: uint)) ?z = 16 * k + 16" using z by simp_all
  then show ?thesis using readi_ok [OF ok c, of devs pid] unfolding u dent_def by simp
qed

lemma dirlookup_in_ok:
  assumes "dir_ok s dp" and "\<And>k. k \<in> set ks \<Longrightarrow> k < ndents s dp"
  shows "\<exists>s'. evolves s s' (fview s) (fdirty s) {} \<and> dirlookup_in devs pid s dp name (map (\<lambda>k. 16 * k) ks) =
    (case find (dent_hit s dp name) ks of
       None \<Rightarrow> Ok (None, s')
     | Some k \<Rightarrow> obind (iget s' 1 (ucast (de_inum (dent s dp k)))) (\<lambda>(ip, s2). Ok (Some (ip, of_nat (16 * k)), s2)))"
  using assms
proof (induction ks arbitrary: s)
  case Nil
  then show ?case using evolves_refl [of s] fs_okD(1) [of s] by (auto simp: dir_ok_def)
next
  case (Cons k ks)
  obtain s1 where r: "readi devs pid s dp (of_nat (16 * k)) 16 = Ok (16, dent s dp k, s1)" "evolves s s1 (fview s) (fdirty s) {}"
    using dir_read [OF Cons.prems(1), of k devs pid] Cons.prems(2) by auto
  note d = dir_ok_same [OF Cons.prems(1) r(2)] and E = evolvesD [OF r(2)]
  have dev: "i_dev (icache s1 ! dp) = 1" using d(1) by (auto simp: dir_ok_def dest: ino_okD)
  have l: "log_ok (fs_log s)" "flocked s = {}" using Cons.prems(1) by (auto simp: dir_ok_def dest: fs_okD)
  have hit: "dent_hit s dp name k \<longleftrightarrow> de_inum (dent s dp k) \<noteq> 0 \<and> namecmp name (de_name (dent s dp k)) = 0"
    by (auto simp: dent_hit_def namecmp_def strncmp_eq_0)
  show ?case
  proof (cases "dent_hit s dp name k")
    case True
    then show ?thesis using r dev hit by (intro exI [of _ s1]) simp
  next
    case False
    obtain s' where s': "evolves s1 s' (fview s1) (fdirty s1) {}" "dirlookup_in devs pid s1 dp name (map (\<lambda>k. 16 * k) ks) =
      (case find (dent_hit s1 dp name) ks of
         None \<Rightarrow> Ok (None, s')
       | Some k \<Rightarrow> obind (iget s' 1 (ucast (de_inum (dent s1 dp k)))) (\<lambda>(ip, s2). Ok (Some (ip, of_nat (16 * k)), s2)))"
      using Cons.IH [OF d(1)] Cons.prems(2) d(5) by auto
    have "evolves s s' (fview s) (fdirty s) {}" using evolves_trans [OF r(2) s'(1)] l E(5,6) by simp
    moreover have "dirlookup_in devs pid s dp name (map (\<lambda>k. 16 * k) (k # ks)) = dirlookup_in devs pid s1 dp name (map (\<lambda>k. 16 * k) ks)"
      using r(1) hit False by auto
    ultimately show ?thesis using s'(2) [unfolded d(2) d(4)] False by (intro exI [of _ s']) simp
  qed
qed

lemma de_offsets_dir: "dir_ok s dp \<Longrightarrow> de_offsets (i_size (icache s ! dp)) = map (\<lambda>k. 16 * k) [0 ..< ndents s dp]"
  by (auto simp: de_offsets_def ndents_def dir_ok_def elim!: dvdE simp flip: dvd_eq_mod_eq_0)

lemma dirlookup_ok:
  assumes "dir_ok s dp"
  shows "\<exists>s'. evolves s s' (fview s) (fdirty s) {} \<and> dirlookup devs pid s dp name =
    (case find (dent_hit s dp name) [0 ..< ndents s dp] of
       None \<Rightarrow> Ok (None, s')
     | Some k \<Rightarrow> obind (iget s' 1 (ucast (de_inum (dent s dp k)))) (\<lambda>(ip, s2). Ok (Some (ip, of_nat (16 * k)), s2)))"
  using dirlookup_in_ok [OF assms, of "[0 ..< ndents s dp]" devs pid name] assms
  by (simp add: dirlookup_def de_offsets_dir dir_ok_def)

lemma dirlink_in_ok:
  assumes "dir_ok s dp" and "\<And>k. k \<in> set ks \<Longrightarrow> k < ndents s dp"
  shows "\<exists>s'. evolves s s' (fview s) (fdirty s) {} \<and> dirlink_in devs pid s dp (map (\<lambda>k. 16 * k) ks) =
    Ok (map_option (\<lambda>k. 16 * k) (find (\<lambda>k. de_inum (dent s dp k) = 0) ks), s')"
  using assms
proof (induction ks arbitrary: s)
  case Nil
  then show ?case using evolves_refl [of s] fs_okD(1) [of s] by (auto simp: dir_ok_def)
next
  case (Cons k ks)
  obtain s1 where r: "readi devs pid s dp (of_nat (16 * k)) 16 = Ok (16, dent s dp k, s1)" "evolves s s1 (fview s) (fdirty s) {}"
    using dir_read [OF Cons.prems(1), of k devs pid] Cons.prems(2) by auto
  note d = dir_ok_same [OF Cons.prems(1) r(2)] and E = evolvesD [OF r(2)]
  have l: "log_ok (fs_log s)" "flocked s = {}" using Cons.prems(1) by (auto simp: dir_ok_def dest: fs_okD)
  show ?case
  proof (cases "de_inum (dent s dp k) = 0")
    case True
    then show ?thesis using r by (intro exI [of _ s1]) simp
  next
    case False
    obtain s' where s': "evolves s1 s' (fview s1) (fdirty s1) {}" "dirlink_in devs pid s1 dp (map (\<lambda>k. 16 * k) ks) =
      Ok (map_option (\<lambda>k. 16 * k) (find (\<lambda>k. de_inum (dent s dp k) = 0) ks), s')"
      using Cons.IH [OF d(1)] Cons.prems(2) d(5) d(2) by auto
    have "evolves s s' (fview s) (fdirty s) {}" using evolves_trans [OF r(2) s'(1)] l E(5,6) by simp
    then show ?thesis using s'(2) False r(1) by (intro exI [of _ s']) simp
  qed
qed

lemma nblk_16: "nblk (16 * k) 16 = 1"
proof -
  have "(16 * k + 15) div 512 = k div 32" "16 * k div 512 = k div 32"
    using div_mult2_eq [of "16 * k + 15" 16 32] div_mult2_eq [of "16 * k" 16 32] by simp_all
  then show ?thesis by (simp add: nblk_def)
qed

lemma length_de_make [simp]: "length (de_make i n) = 16"
  by (simp add: de_make_def)

lemma de_make_fields: "de_inum (de_make i n) = i" "cstr (de_name (de_make i n)) DIRSIZ = cstr n DIRSIZ"
proof -
  show "de_inum (de_make i n) = i" by (simp add: de_inum_def de_make_def bytes16)
  have "de_name (de_make i n) k = n k" if "k < 14" for k using that by (simp add: de_name_def de_make_def)
  then have "map (de_name (de_make i n)) [0 ..< 14] = map n [0 ..< 14]" by simp
  then show "cstr (de_name (de_make i n)) DIRSIZ = cstr n DIRSIZ" by (simp only: cstr_def cstr_from_def add_0)
qed

text \<open>The directory as a partial function from names to inode numbers.\<close>

definition dir_find :: "'d fssys \<Rightarrow> nat \<Rightarrow> carray \<Rightarrow> ushort option" where
  "dir_find s dp name = map_option (\<lambda>k. de_inum (dent s dp k)) (find (dent_hit s dp name) [0 ..< ndents s dp])"

lemma dir_find_None: "dir_find s dp name = None \<longleftrightarrow> (\<forall>k < ndents s dp. \<not> dent_hit s dp name k)"
  by (auto simp: dir_find_def find_None_iff)

lemma find_snoc: "\<not> P x \<Longrightarrow> find P (xs @ [x]) = find P xs"
  by (induction xs) auto

text \<open>A new entry in a place that was empty or just past the end.\<close>

lemma dir_find_new:
  assumes k: "k < ndents s dp \<and> de_inum (dent s dp k) = 0 \<and> ndents s' dp = ndents s dp \<or> k = ndents s dp \<and> ndents s' dp = Suc k"
    and other: "\<And>j. j \<noteq> k \<Longrightarrow> dent s' dp j = dent s dp j"
    and new: "de_inum (dent s' dp k) = inum" "inum \<noteq> 0" "cstr (de_name (dent s' dp k)) DIRSIZ = cstr name DIRSIZ"
    and none: "dir_find s dp name = None"
  shows "dir_find s' dp n = (if cstr n DIRSIZ = cstr name DIRSIZ then Some inum else dir_find s dp n)"
proof (cases "cstr n DIRSIZ = cstr name DIRSIZ")
  case True
  have "\<not> dent_hit s' dp n j" if "j < k" for j
  proof -
    have "j < ndents s dp" using k that by auto
    then have "\<not> dent_hit s dp name j" using none unfolding dir_find_None by blast
    then show ?thesis using other [of j] that True by (simp add: dent_hit_def)
  qed
  moreover have "dent_hit s' dp n k" using new True by (simp add: dent_hit_def)
  moreover have "k < ndents s' dp" using k by auto
  ultimately have "find (dent_hit s' dp n) [0 ..< ndents s' dp] = Some k" by (simp add: find_upt_Some)
  then show ?thesis using True new(1) by (simp add: dir_find_def)
next
  case False
  have h: "dent_hit s' dp n j = dent_hit s dp n j" if "j \<noteq> k" for j using other [OF that] by (simp add: dent_hit_def)
  have hk: "\<not> dent_hit s' dp n k" using new(3) False by (simp add: dent_hit_def)
  have eq: "find (dent_hit s' dp n) [0 ..< ndents s' dp] = find (dent_hit s dp n) [0 ..< ndents s dp]"
  proof (cases "ndents s' dp = ndents s dp")
    case True
    then have "\<not> dent_hit s dp n k \<or> k \<ge> ndents s dp" using k by (auto simp: dent_hit_def)
    then have "dent_hit s' dp n j = dent_hit s dp n j" if "j \<in> set [0 ..< ndents s dp]" for j using h hk that by (cases "j = k") auto
    then show ?thesis unfolding True by (rule find_cong [OF refl])
  next
    case f: False
    then have k': "k = ndents s dp" "ndents s' dp = Suc (ndents s dp)" using k by auto
    have "find (dent_hit s' dp n) [0 ..< ndents s dp] = find (dent_hit s dp n) [0 ..< ndents s dp]"
      by (rule find_cong [OF refl]) (use h k'(1) in auto)
    moreover have "find (dent_hit s' dp n) ([0 ..< ndents s dp] @ [k]) = find (dent_hit s' dp n) [0 ..< ndents s dp]"
      by (rule find_snoc) (rule hk)
    ultimately show ?thesis unfolding k'(2) using k'(1) by simp
  qed
  have "dent s' dp j = dent s dp j" if "find (dent_hit s dp n) [0 ..< ndents s dp] = Some j" for j
  proof (rule other)
    have "dent_hit s' dp n j" using that eq by (metis find_upt_Some)
    then show "j \<noteq> k" using hk by auto
  qed
  then show ?thesis using False unfolding dir_find_def eq by (cases "find (dent_hit s dp n) [0 ..< ndents s dp]") auto
qed

lemma dirlink_ok:
  assumes d: "dir_ok s dp" and sy: "synced s dp" and none: "dir_find s dp name = None"
    and room: "unat (i_size (icache s ! dp)) + 16 \<le> 140 * 512" and fu: "funds {fmap s, iblk s dp} 2 s"
    and inum: "ucast inum \<noteq> (0 :: ushort)"
  obtains s' where "dirlink devs pid s dp name inum = Ok (0, s')" "dir_ok s' dp" "synced s' dp"
    "\<forall>n. dir_find s' dp n = (if cstr n DIRSIZ = cstr name DIRSIZ then Some (ucast inum) else dir_find s dp n)"
proof -
  let ?nd = "ndents s dp"
  have ty: "i_type (icache s ! dp) = T_DIR" "unat (i_size (icache s ! dp)) = 16 * ?nd"
    using d by (auto simp: dir_ok_def ndents_def)
  obtain s1 where s1: "evolves s s1 (fview s) (fdirty s) {}" "dirlookup devs pid s dp name = Ok (None, s1)"
    using dirlookup_ok [OF d, of devs pid name] none by (auto simp: dir_find_def)
  note d1 = dir_ok_same [OF d s1(1)] and E1 = evolvesD [OF s1(1)]
  obtain s2 where s2: "evolves s1 s2 (fview s1) (fdirty s1) {}"
    "dirlink_in devs pid s1 dp (map (\<lambda>k. 16 * k) [0 ..< ndents s1 dp]) =
      Ok (map_option (\<lambda>k. 16 * k) (find (\<lambda>k. de_inum (dent s1 dp k) = 0) [0 ..< ndents s1 dp]), s2)"
    using dirlink_in_ok [OF d1(1), of "[0 ..< ndents s1 dp]" devs pid] by auto
  note d2 = dir_ok_same [OF d1(1) s2(1)]
  have e2: "evolves s s2 (fview s) (fdirty s) {}"
    using evolves_trans [OF s1(1) s2(1)] d E1(5,6) by (auto simp: dir_ok_def dest: fs_okD)
  note E2 = evolvesD [OF e2] and v2 = same_view [OF evolvesD(5,8,9) [OF e2]]
  define k where "k = (case find (\<lambda>k. de_inum (dent s dp k) = 0) [0 ..< ?nd] of Some k \<Rightarrow> k | None \<Rightarrow> ?nd)"
  have k: "k < ?nd \<and> de_inum (dent s dp k) = 0 \<or> k = ?nd"
    by (auto simp: k_def find_upt_Some split: option.split)
  have off: "(case map_option (\<lambda>k. 16 * k) (find (\<lambda>k. de_inum (dent s1 dp k) = 0) [0 ..< ndents s1 dp]) of Some off \<Rightarrow> off | None \<Rightarrow> 16 * ndents s1 dp) = 16 * k"
    by (simp add: k_def d1(2,5) split: option.split)
  define de where "de = de_make (ucast inum) (strncpy (\<lambda>_. 0) name (int DIRSIZ))"
  have u: "unat (of_nat (16 * k) :: uint) = 16 * k" by (rule unat_of_nat_uint) (use k room ty in auto)
  have c: "fs_ok s2" "ino_ok s2 dp" "flocked s2 = {}" "no_holes s2 dp" "synced s2 dp" "i_type (icache s2 ! dp) \<noteq> T_DEV"
    "unat (of_nat (16 * k) :: uint) \<le> unat (i_size (icache s2 ! dp))" "unat (of_nat (16 * k) :: uint) + unat (16 :: uint) \<le> 140 * 512"
    "length de = unat (16 :: uint)" "fmap s2 \<in> {fmap s, iblk s dp}" "iblk s2 dp \<in> {fmap s, iblk s dp}"
    "funds {fmap s, iblk s dp} (2 * nblk (unat (of_nat (16 * k) :: uint)) (unat (16 :: uint))) s2"
    unfolding u using d2(1) sy ty E2(5,8,9) k room funds_same [OF fu e2] nblk_16 by (auto simp: dir_ok_def synced_def de_def)
  obtain s3 i' where w: "writei devs pid s2 dp de (of_nat (16 * k)) 16 = Ok (int (unat (16 :: uint)), s3)" "fs_ok s3" "ino_ok s3 dp" "flocked s3 = {}"
    "no_holes s3 dp" "synced s3 dp" "room {fmap s, iblk s dp} 0 s3" "icache s3 = (icache s2)[dp := i']"
    "i_type i' = i_type (icache s2 ! dp)" "i_inum i' = i_inum (icache s2 ! dp)"
    "unat (i_size i') = max (unat (i_size (icache s2 ! dp))) (unat (of_nat (16 * k) :: uint) + unat (16 :: uint))"
    "\<forall>p. fdata s3 dp p = (if unat (of_nat (16 * k) :: uint) \<le> p \<and> p < unat (of_nat (16 * k) :: uint) + length de
       then de ! (p - unat (of_nat (16 * k) :: uint)) else fdata s2 dp p)"
    "avail s3 dp = avail s2 dp" "fs_sb s3 = fs_sb s2" "fs_devs s3 = fs_devs s2"
    "\<forall>b. b \<notin> avail s2 dp \<and> b \<noteq> fmap s2 \<and> b \<noteq> iblk s2 dp \<longrightarrow> fview s3 b = fview s2 b"
    by (rule writei_ok [OF c, of devs pid])
  have i3: "icache s3 ! dp = i'" using w(8) ino_okD(1) [OF c(2)] by simp
  have sz: "unat (i_size (icache s3 ! dp)) = (if k = ?nd then 16 * Suc ?nd else 16 * ?nd)"
    using w(11) k ty E2(9) unfolding u i3 by auto
  have d3: "dir_ok s3 dp" using w(2-5,9) i3 ty(1) sz E2(9) by (simp add: dir_ok_def)
  have f3: "fdata s3 dp p = (if 16 * k \<le> p \<and> p < 16 * k + 16 then de ! (p - 16 * k) else fdata s dp p)" for p
    using w(12) unfolding u v2(4) by (simp add: de_def)
  have new: "dent s3 dp k = de" by (rule nth_equalityI) (simp_all add: dent_def f3 de_def)
  have other: "dent s3 dp j = dent s dp j" if "j \<noteq> k" for j
    using that by (auto simp: dent_def f3)
  have nd3: "ndents s3 dp = (if k = ?nd then Suc ?nd else ?nd)" using sz by (simp add: ndents_def)
  have k3: "k < ?nd \<and> de_inum (dent s dp k) = 0 \<and> ndents s3 dp = ?nd \<or> k = ?nd \<and> ndents s3 dp = Suc k" using k nd3 by auto
  have fld: "de_inum (dent s3 dp k) = ucast inum" "cstr (de_name (dent s3 dp k)) DIRSIZ = cstr name DIRSIZ"
    unfolding new de_def de_make_fields by (simp_all add: cstr_def strncpy_def strncpy_from_cstr)
  note df = dir_find_new [OF k3 other fld(1) inum fld(2) none]
  have "dirlink devs pid s dp name inum = Ok (0, s3)"
  proof -
    obtain X where X: "X = map_option (\<lambda>k. 16 * k) (find (\<lambda>k. de_inum (dent s1 dp k) = 0) [0 ..< ndents s1 dp])" by blast
    have "dirlink_in devs pid s1 dp (de_offsets (i_size (icache s1 ! dp))) = Ok (X, s2)"
      unfolding de_offsets_dir [OF d1(1)] X by (rule s2(2))
    moreover have "(case X of Some off \<Rightarrow> off | None \<Rightarrow> 16 * length (de_offsets (i_size (icache s1 ! dp)))) = 16 * k"
      using off unfolding de_offsets_dir [OF d1(1)] X length_map length_upt diff_zero .
    ultimately show ?thesis using s1(2) w(1) unfolding dirlink_def by (simp add: Let_def de_def)
  qed
  then show ?thesis using that d3 w(6) df by blast
qed

text \<open>
  C10: a directory implements a partial function from names to inode numbers.  \<^verbatim>\<open>dirlink\<close> of a new
  name updates the function at this name only, whether it reuses an empty entry or extends the
  directory, and a following \<^verbatim>\<open>dirlookup\<close> of any name returns the inode that the function gives,
  or nothing if it gives none.
\<close>

theorem dirlink_then_dirlookup:
  assumes "dir_ok s dp" and "synced s dp" and "dir_find s dp name = None" and "unat (i_size (icache s ! dp)) + 16 \<le> 140 * 512"
    and "funds {fmap s, iblk s dp} 2 s" and "ucast inum \<noteq> (0 :: ushort)"
  shows "\<exists>s'. dirlink devs pid s dp name inum = Ok (0, s') \<and> dir_ok s' dp \<and> synced s' dp \<and>
    (\<forall>n. dir_find s' dp n = (if cstr n DIRSIZ = cstr name DIRSIZ then Some (ucast inum) else dir_find s dp n)) \<and>
    (\<forall>n. \<exists>s'' off. fview s'' = fview s' \<and> icache s'' = icache s' \<and> dirlookup devs pid s' dp n =
       (case dir_find s' dp n of
          None \<Rightarrow> Ok (None, s'')
        | Some i \<Rightarrow> obind (iget s'' 1 (ucast i)) (\<lambda>(ip, s2). Ok (Some (ip, off), s2))))"
proof -
  obtain s' where s': "dirlink devs pid s dp name inum = Ok (0, s')" "dir_ok s' dp" "synced s' dp"
    "\<forall>n. dir_find s' dp n = (if cstr n DIRSIZ = cstr name DIRSIZ then Some (ucast inum) else dir_find s dp n)"
    by (rule dirlink_ok [OF assms])
  have "\<exists>s'' off. fview s'' = fview s' \<and> icache s'' = icache s' \<and> dirlookup devs pid s' dp n =
       (case dir_find s' dp n of
          None \<Rightarrow> Ok (None, s'')
        | Some i \<Rightarrow> obind (iget s'' 1 (ucast i)) (\<lambda>(ip, s2). Ok (Some (ip, off), s2)))" for n
  proof -
    obtain s'' where "evolves s' s'' (fview s') (fdirty s') {}" "dirlookup devs pid s' dp n =
      (case find (dent_hit s' dp n) [0 ..< ndents s' dp] of
         None \<Rightarrow> Ok (None, s'')
       | Some k \<Rightarrow> obind (iget s'' 1 (ucast (de_inum (dent s' dp k)))) (\<lambda>(ip, s2). Ok (Some (ip, of_nat (16 * k)), s2)))"
      using dirlookup_ok [OF s'(2), of devs pid n] by blast
    then show ?thesis using evolvesD(5,9)
      by (cases "find (dent_hit s' dp n) [0 ..< ndents s' dp]") (fastforce simp: dir_find_def)+
  qed
  with s' show ?thesis by blast
qed

text \<open>An empty directory gets an entry with the name \<open>ab\<close> for inode 5.\<close>

theorem dirlink_then_dirlookup_witness:
  "\<exists>s'. dirlink [] 9 (demo_file (demo_ino\<lparr>i_type := T_DIR\<rparr>)) 0 (cname [97, 98]) 5 = Ok (0, s') \<and>
     dir_find s' 0 (cname [97, 98]) = Some 5 \<and> dir_find s' 0 (cname [97]) = None"
proof -
  define i where "i = demo_ino\<lparr>i_type := T_DIR\<rparr>"
  have i: "i_dev i = 1" "i_inum i = 2" "i_size i = 0" "i_addrs i = replicate 13 0" "i_type i = T_DIR" by (simp_all add: i_def demo_ino_def)
  note f = demo_file_facts [OF i(1-4)]
  let ?s = "demo_file i"
  have d: "dir_ok ?s 0" using f i by (simp add: dir_ok_def)
  have none: "dir_find ?s 0 n = None" for n by (simp add: dir_find_None ndents_def f(6) i(3))
  have c: "unat (i_size (icache ?s ! 0)) + 16 \<le> 140 * 512" "ucast (5 :: uint) \<noteq> (0 :: ushort)" by (simp_all add: f(6) i(3))
  have fu: "funds {fmap ?s, iblk ?s 0} 2 ?s" by (rule f(7)) simp
  have ne: "cstr (cname [97]) DIRSIZ \<noteq> cstr (cname [97, 98]) DIRSIZ" by (simp add: cstr_cname)
  from dirlink_then_dirlookup [OF d f(5) none c(1) fu c(2), of "[]" 9 "cname [97, 98]"]
  obtain s' where "dirlink [] 9 ?s 0 (cname [97, 98]) 5 = Ok (0, s')"
    "\<forall>n. dir_find s' 0 n = (if cstr n DIRSIZ = cstr (cname [97, 98]) DIRSIZ then Some (ucast (5 :: uint)) else dir_find ?s 0 n)" by blast
  then show ?thesis using ne none by (intro exI [of _ s']) (simp add: i_def)
qed

end
