(* ===== verification/Xv6_File.thy ===== *)
theory Xv6_File
  imports Xv6_Pipe Xv6_Dir
begin

text \<open>
  Open files, \<^verbatim>\<open>src/xv6/file.c\<close>, with the operations that tie the subsystems together: the whole
  of \<^verbatim>\<open>fork\<close> and \<^verbatim>\<open>exit\<close> (\<^verbatim>\<open>src/xv6/proc.c\<close>) and \<^verbatim>\<open>pipealloc\<close> (\<^verbatim>\<open>src/xv6/pipe.c\<close>).  The state of the
  kernel is the file table, the file system, the process table, the physical memory and the
  pipes, each pipe under the address of its page.
\<close>

section \<open>The state of the kernel\<close>

datatype ftype = FD_NONE | FD_PIPE | FD_INODE

text \<open>\<^verbatim>\<open>struct file\<close>; \<^verbatim>\<open>ip\<close> is an index of the inode cache and \<^verbatim>\<open>pipe\<close> the address of a page.\<close>

record struct_file =
  f_type :: ftype
  f_ref :: int
  f_readable :: bool
  f_writable :: bool
  f_pipe :: uint
  f_ip :: nat
  f_off :: uint

record 'd ksys =
  ftable :: "struct_file list"
  kfs :: "'d fssys"
  kps :: psys
  kkm :: kmem
  kpipes :: "uint \<Rightarrow> pipe option"
  ticks :: uint
  trace :: int

text \<open>
  What the linked kernel fixes: the end of its image, the start of its data, the addresses of
  \<^verbatim>\<open>forkret\<close> and \<^verbatim>\<open>trapret\<close>, and the device table.
\<close>

record 'd kenv =
  e_end :: uint
  e_data :: uint
  e_forkret :: uint
  e_trapret :: uint
  e_devs :: "'d devsw list"

definition set_f :: "'d ksys \<Rightarrow> nat \<Rightarrow> struct_file \<Rightarrow> 'd ksys" where
  "set_f k f x = k\<lparr>ftable := (ftable k)[f := x]\<rparr>"

definition cur_proc :: "'d ksys \<Rightarrow> nat \<Rightarrow> proc" where
  "cur_proc k cur = ptable (kps k) ! cur"

definition cur_pid :: "'d ksys \<Rightarrow> nat \<Rightarrow> int" where
  "cur_pid k cur = p_pid (cur_proc k cur)"

definition upd_proc :: "'d ksys \<Rightarrow> nat \<Rightarrow> proc \<Rightarrow> 'd ksys" where
  "upd_proc k cur p = k\<lparr>kps := set_proc (kps k) cur p\<rparr>"

text \<open>Transactions of the log, seen from the whole kernel.\<close>

definition k_begin :: "'d ksys \<Rightarrow> 'd ksys outcome" where
  "k_begin k = obind (begin_op (fs_log (kfs k))) (\<lambda>l. Ok (k\<lparr>kfs := (kfs k)\<lparr>fs_log := l\<rparr>\<rparr>))"

definition k_end :: "int \<Rightarrow> 'd ksys \<Rightarrow> 'd ksys outcome" where
  "k_end pid k = obind (end_op pid (fs_log (kfs k))) (\<lambda>l. Ok (k\<lparr>kfs := (kfs k)\<lparr>fs_log := l\<rparr>\<rparr>))"

text \<open>An operation of the file system inside the kernel.\<close>

definition k_fs :: "'d ksys \<Rightarrow> 'd fssys outcome \<Rightarrow> 'd ksys outcome" where
  "k_fs k m = obind m (\<lambda>s. Ok (k\<lparr>kfs := s\<rparr>))"

section \<open>The file table\<close>

definition filealloc :: "'d ksys \<Rightarrow> nat option \<times> 'd ksys" where
  "filealloc k =
     (case find_idx (\<lambda>x. f_ref x = 0) (ftable k) of
        Some f \<Rightarrow> (Some f, set_f k f ((ftable k ! f)\<lparr>f_ref := 1\<rparr>))
      | None \<Rightarrow> (None, k))"

definition filedup :: "'d ksys \<Rightarrow> nat \<Rightarrow> 'd ksys outcome" where
  "filedup k f =
     (let x = ftable k ! f
      in if f_ref x < 1 then Panic ''filedup'' else Ok (set_f k f (x\<lparr>f_ref := f_ref x + 1\<rparr>)))"

text \<open>The page of a pipe that is gone holds no pipe: using it is a stray access.\<close>

definition close_pipe :: "uint \<Rightarrow> 'd ksys \<Rightarrow> uint \<Rightarrow> bool \<Rightarrow> 'd ksys outcome" where
  "close_pipe kend k pa writable =
     (case kpipes k pa of
        None \<Rightarrow> Panic ''trap''
      | Some p \<Rightarrow> obind (pipeclose kend pa writable (kps k) (kkm k) p) (\<lambda>(s, km, q).
          Ok (k\<lparr>kps := s, kkm := km, kpipes := (kpipes k)(pa := q)\<rparr>)))"

definition fileclose :: "'d kenv \<Rightarrow> int \<Rightarrow> 'd ksys \<Rightarrow> nat \<Rightarrow> 'd ksys outcome" where
  "fileclose E pid k f =
     (let x = ftable k ! f
      in if f_ref x < 1 then Panic ''fileclose''
         else if f_ref x - 1 > 0 then Ok (set_f k f (x\<lparr>f_ref := f_ref x - 1\<rparr>))
         else let k1 = set_f k f (x\<lparr>f_ref := 0, f_type := FD_NONE\<rparr>)
              in case f_type x of
                   FD_PIPE \<Rightarrow> close_pipe (e_end E) k1 (f_pipe x) (f_writable x)
                 | FD_INODE \<Rightarrow>
                     obind (k_begin k1) (\<lambda>k2.
                     obind (k_fs k2 (iput pid (kfs k2) (f_ip x))) (\<lambda>k3. k_end pid k3))
                 | FD_NONE \<Rightarrow> Ok k1)"

definition filestat :: "int \<Rightarrow> 'd ksys \<Rightarrow> nat \<Rightarrow> (stat option \<times> 'd ksys) outcome" where
  "filestat pid k f =
     (let x = ftable k ! f
      in if f_type x = FD_INODE
         then obind (ilock pid (kfs k) (Some (f_ip x))) (\<lambda>s1.
              let sb = stati s1 (f_ip x)
              in obind (iunlock pid s1 (Some (f_ip x))) (\<lambda>s2. Ok (Some sb, k\<lparr>kfs := s2\<rparr>)))
         else Ok (None, k))"

text \<open>
  \<^verbatim>\<open>fileread\<close> and \<^verbatim>\<open>filewrite\<close> return a value, or leave the process asleep inside the pipe; the
  bytes read are to be stored from \<^verbatim>\<open>addr\<close> on.
\<close>

definition fileread ::
  "'d kenv \<Rightarrow> nat \<Rightarrow> nat \<Rightarrow> 'd ksys \<Rightarrow> nat \<Rightarrow> int \<Rightarrow> (pcall \<times> uchar list \<times> 'd ksys) outcome" where
  "fileread E c cur k f n =
     (let x = ftable k ! f; pid = cur_pid k cur
      in if \<not> f_readable x then Ok (Return (- 1), [], k)
         else case f_type x of
           FD_PIPE \<Rightarrow>
             (case kpipes k (f_pipe x) of
                None \<Rightarrow> Panic ''trap''
              | Some p \<Rightarrow>
                  case piperead (unat (f_pipe x)) c cur n (kps k) p of (r, bs, s, q) \<Rightarrow>
                    Ok (r, bs, k\<lparr>kps := s, kpipes := (kpipes k)(f_pipe x := Some q)\<rparr>))
         | FD_INODE \<Rightarrow>
             obind (ilock pid (kfs k) (Some (f_ip x))) (\<lambda>s1.
             obind (readi (e_devs E) pid s1 (f_ip x) (f_off x) (of_int n)) (\<lambda>(r, bs, s2).
             let k1 = (if r > 0 then set_f k f (x\<lparr>f_off := f_off x + of_int r\<rparr>) else k)
             in obind (iunlock pid s2 (Some (f_ip x))) (\<lambda>s3. Ok (Return r, bs, k1\<lparr>kfs := s3\<rparr>))))
         | FD_NONE \<Rightarrow> Panic ''fileread'')"

text \<open>
  \<^verbatim>\<open>max\<close>: inode, indirect block, allocation blocks and two blocks of slop for a write that is not
  aligned must fit in one transaction.
\<close>

definition write_max :: int where
  "write_max = (int MAXOPBLOCKS - 1 - 1 - 2) div 2 * int BSIZE"

text \<open>One transaction of \<^verbatim>\<open>filewrite\<close>.\<close>

definition write_chunk ::
  "'d kenv \<Rightarrow> int \<Rightarrow> 'd ksys \<Rightarrow> nat \<Rightarrow> uchar list \<Rightarrow> int \<Rightarrow> (int \<times> 'd ksys) outcome" where
  "write_chunk E pid k f bs n1 =
     (let ip = f_ip (ftable k ! f)
      in obind (k_begin k) (\<lambda>k1.
         obind (k_fs k1 (ilock pid (kfs k1) (Some ip))) (\<lambda>k2.
         obind (writei (e_devs E) pid (kfs k2) ip bs (f_off (ftable k2 ! f)) (of_int n1)) (\<lambda>(r, s3).
         let x = ftable k2 ! f;
             k3 = (if r > 0 then set_f k2 f (x\<lparr>f_off := f_off x + of_int r\<rparr>) else k2)\<lparr>kfs := s3\<rparr>
         in obind (k_fs k3 (iunlock pid (kfs k3) (Some ip))) (\<lambda>k4.
            obind (k_end pid k4) (\<lambda>k5. Ok (r, k5)))))))"

function write_loop ::
  "'d kenv \<Rightarrow> int \<Rightarrow> 'd ksys \<Rightarrow> nat \<Rightarrow> uchar list \<Rightarrow> int \<Rightarrow> int \<Rightarrow> (int \<times> 'd ksys) outcome" where
  "write_loop E pid k f src n i =
     (if i < n
      then let n1 = (if n - i > write_max then write_max else n - i)
           in obind (write_chunk E pid k f (take (nat n1) (drop (nat i) src)) n1) (\<lambda>(r, k1).
                if r < 0 then Ok (i, k1)
                else if r \<noteq> n1 then Panic ''short filewrite''
                else write_loop E pid k1 f src n (i + r))
      else Ok (i, k))"
  by pat_completeness auto
termination
  by (relation "measure (\<lambda>(E, pid, k, f, src, n, i). nat (n - i))") (auto simp: write_max_def split: if_splits)

declare write_loop.simps [simp del]

definition filewrite ::
  "'d kenv \<Rightarrow> nat \<Rightarrow> nat \<Rightarrow> 'd ksys \<Rightarrow> nat \<Rightarrow> uchar list \<Rightarrow> int \<Rightarrow> (pcall \<times> 'd ksys) outcome" where
  "filewrite E c cur k f src n =
     (let x = ftable k ! f
      in if \<not> f_writable x then Ok (Return (- 1), k)
         else case f_type x of
           FD_PIPE \<Rightarrow>
             (case kpipes k (f_pipe x) of
                None \<Rightarrow> Panic ''trap''
              | Some p \<Rightarrow>
                  case pipewrite (unat (f_pipe x)) c cur (\<lambda>j. src ! nat j) n (kps k) 0 p of (r, _, s, q) \<Rightarrow>
                    Ok (r, k\<lparr>kps := s, kpipes := (kpipes k)(f_pipe x := Some q)\<rparr>))
         | FD_INODE \<Rightarrow>
             obind (write_loop E (cur_pid k cur) k f src n 0) (\<lambda>(i, k1).
               Ok (Return (if i = n then n else - 1), k1))
         | FD_NONE \<Rightarrow> Panic ''filewrite'')"

section \<open>Pipes as pairs of files\<close>

text \<open>The ring of a pipe starts after its lock, 52 bytes into the page.\<close>

definition PIPE_DATA :: uint where "PIPE_DATA = 52"

definition close_opt :: "'d kenv \<Rightarrow> int \<Rightarrow> 'd ksys \<Rightarrow> nat option \<Rightarrow> 'd ksys outcome" where
  "close_opt E pid k f = (case f of None \<Rightarrow> Ok k | Some f \<Rightarrow> fileclose E pid k f)"

definition pipealloc :: "'d kenv \<Rightarrow> int \<Rightarrow> 'd ksys \<Rightarrow> ((nat \<times> nat) option \<times> 'd ksys) outcome" where
  "pipealloc E pid k =
     (let bad = (\<lambda>k f0 f1. obind (close_opt E pid k f0) (\<lambda>k1.
                 obind (close_opt E pid k1 f1) (\<lambda>k2. Ok (None, k2))))
      in case filealloc k of
           (None, k1) \<Rightarrow> bad k1 None None
         | (Some f0, k1) \<Rightarrow>
             (case filealloc k1 of
                (None, k2) \<Rightarrow> bad k2 (Some f0) None
              | (Some f1, k2) \<Rightarrow>
                  (case kalloc (kkm k2) of
                     (pa, km) \<Rightarrow>
                       let k3 = k2\<lparr>kkm := km\<rparr>
                       in if pa = 0 then bad k3 (Some f0) (Some f1)
                          else let p = pipe_new (\<lambda>i. kmemory km (pa + PIPE_DATA + of_nat i));
                                   k4 = k3\<lparr>kpipes := (kpipes k3)(pa := Some p)\<rparr>;
                                   k5 = set_f k4 f0 ((ftable k4 ! f0)\<lparr>f_type := FD_PIPE, f_readable := True,
                                          f_writable := False, f_pipe := pa\<rparr>);
                                   k6 = set_f k5 f1 ((ftable k5 ! f1)\<lparr>f_type := FD_PIPE, f_readable := False,
                                          f_writable := True, f_pipe := pa\<rparr>)
                               in Ok (Some (f0, f1), k6))))"

section \<open>fork and exit\<close>

text \<open>The loop of \<^verbatim>\<open>fork\<close> over the descriptors.\<close>

primrec dup_files :: "nat option list \<Rightarrow> 'd ksys \<Rightarrow> 'd ksys outcome" where
  "dup_files [] k = Ok k"
| "dup_files (x # xs) k =
     (case x of None \<Rightarrow> dup_files xs k | Some f \<Rightarrow> obind (filedup k f) (dup_files xs))"

definition fork :: "'d kenv \<Rightarrow> 'd ksys \<Rightarrow> nat \<Rightarrow> (int \<times> 'd ksys) outcome" where
  "fork E k cur =
     (case allocproc (e_forkret E) (e_trapret E) (kps k) (kkm k) of
        (None, s1, km1) \<Rightarrow> Ok (- 1, k\<lparr>kps := s1, kkm := km1\<rparr>)
      | (Some np, s1, km1) \<Rightarrow>
          obind (copyuvm (e_end E) (e_data E) km1 (p_pgdir (ptable s1 ! cur)) (p_sz (ptable s1 ! cur))) (\<lambda>(pd, km2).
            if pd = 0
            then obind (fork_undo (e_end E) s1 km2 np) (\<lambda>(s2, km3). Ok (- 1, k\<lparr>kps := s2, kkm := km3\<rparr>))
            else let s2 = fork_copy s1 cur np pd;
                     k1 = k\<lparr>kps := s2, kkm := fork_tf s2 km2 cur np\<rparr>
                 in obind (dup_files (p_ofile (ptable s1 ! cur)) k1) (\<lambda>k2.
                    case p_cwd (ptable s1 ! cur) of
                      None \<Rightarrow> Panic ''trap''
                    | Some ip \<Rightarrow> Ok (p_pid (ptable s2 ! np),
                        k2\<lparr>kfs := idup (kfs k2) ip, kps := fork_publish (kps k2) np\<rparr>))))"

text \<open>The loop of \<^verbatim>\<open>exit\<close> over the descriptors.\<close>

primrec close_files :: "'d kenv \<Rightarrow> nat \<Rightarrow> nat list \<Rightarrow> 'd ksys \<Rightarrow> 'd ksys outcome" where
  "close_files E cur [] k = Ok k"
| "close_files E cur (fd # fds) k =
     (case p_ofile (cur_proc k cur) ! fd of
        None \<Rightarrow> close_files E cur fds k
      | Some f \<Rightarrow> obind (fileclose E (cur_pid k cur) k f) (\<lambda>k1.
          let p = cur_proc k1 cur
          in close_files E cur fds (upd_proc k1 cur (p\<lparr>p_ofile := (p_ofile p)[fd := None]\<rparr>))))"

definition exit :: "'d kenv \<Rightarrow> nat \<Rightarrow> nat \<Rightarrow> 'd ksys \<Rightarrow> 'd ksys outcome" where
  "exit E c cur k =
     (if Some cur = initproc (kps k) then Panic ''init exiting''
      else obind (close_files E cur [0 ..< NOFILE] k) (\<lambda>k1.
           obind (k_begin k1) (\<lambda>k2.
           obind (case p_cwd (cur_proc k2 cur) of
                    None \<Rightarrow> Panic ''trap''
                  | Some ip \<Rightarrow> k_fs k2 (iput (cur_pid k2 cur) (kfs k2) ip)) (\<lambda>k3.
           obind (k_end (cur_pid k3 cur) k3) (\<lambda>k4.
           let k5 = upd_proc k4 cur ((cur_proc k4 cur)\<lparr>p_cwd := None\<rparr>)
           in obind (exit_table (kps k5) c cur) (\<lambda>s. Ok (k5\<lparr>kps := s\<rparr>)))))))"

section \<open>Reference counts\<close>

text \<open>
  A file's count is the number of descriptors that refer to it, over all processes, plus the
  references that a running operation holds, \<open>d\<close>.  Dead processes have no open files.  The
  invariant also bounds the size of a process, which is what makes its pointers safe to use.
\<close>

definition dead :: "proc \<Rightarrow> bool" where
  "dead p \<longleftrightarrow> p_state p = UNUSED \<or> p_state p = ZOMBIE"

definition refs :: "psys \<Rightarrow> nat \<Rightarrow> nat" where
  "refs s f = sum_list (map (\<lambda>p. count_list (p_ofile p) (Some f)) (ptable s))"

definition files_ok :: "nat \<Rightarrow> proc \<Rightarrow> bool" where
  "files_ok n p \<longleftrightarrow> length (p_ofile p) = NOFILE \<and> (dead p \<longrightarrow> set (p_ofile p) \<subseteq> {None}) \<and>
     (\<forall>f. Some f \<in> set (p_ofile p) \<longrightarrow> f < n) \<and> p_sz p \<le> KERNBASE"

definition fd_inv :: "(nat \<Rightarrow> int) \<Rightarrow> 'd ksys \<Rightarrow> bool" where
  "fd_inv d k \<longleftrightarrow> length (ptable (kps k)) = NPROC \<and> (\<forall>p \<in> set (ptable (kps k)). files_ok (length (ftable k)) p) \<and>
     (\<forall>f < length (ftable k). f_ref (ftable k ! f) = int (refs (kps k) f) + d f)"

definition keeps_ofile :: "psys \<Rightarrow> psys \<Rightarrow> bool" where
  "keeps_ofile s s' \<longleftrightarrow> map p_ofile (ptable s') = map p_ofile (ptable s) \<and>
     (\<forall>i < length (ptable s). (dead (ptable s' ! i) \<longrightarrow>
        dead (ptable s ! i) \<or> set (p_ofile (ptable s ! i)) \<subseteq> {None}) \<and>
        (p_sz (ptable s ! i) \<le> KERNBASE \<longrightarrow> p_sz (ptable s' ! i) \<le> KERNBASE))"

definition keeps_files :: "'d ksys \<Rightarrow> 'd ksys \<Rightarrow> bool" where
  "keeps_files k k' \<longleftrightarrow> map f_ref (ftable k') = map f_ref (ftable k) \<and> keeps_ofile (kps k) (kps k')"

lemma keeps_length: "keeps_ofile s s' \<Longrightarrow> length (ptable s') = length (ptable s)"
  unfolding keeps_ofile_def by (metis length_map)

lemma keeps_nth: "keeps_ofile s s' \<Longrightarrow> i < length (ptable s) \<Longrightarrow> p_ofile (ptable s' ! i) = p_ofile (ptable s ! i)"
  using keeps_length [of s s'] unfolding keeps_ofile_def by (metis nth_map)

lemma keeps_ofile_refl [simp]: "keeps_ofile s s"
  by (simp add: keeps_ofile_def)

lemma keeps_ofile_trans: "keeps_ofile s s1 \<Longrightarrow> keeps_ofile s1 s2 \<Longrightarrow> keeps_ofile s s2"
  using keeps_length [of s s1] keeps_nth [of s s1] unfolding keeps_ofile_def by metis

lemma keeps_files_refl [simp]: "keeps_files k k"
  by (simp add: keeps_files_def)

lemma keeps_files_trans: "keeps_files k k1 \<Longrightarrow> keeps_files k1 k2 \<Longrightarrow> keeps_files k k2"
  unfolding keeps_files_def using keeps_ofile_trans by metis

lemma refs_map: "refs s f = sum_list (map (\<lambda>xs. count_list xs (Some f)) (map p_ofile (ptable s)))"
  by (simp add: refs_def comp_def)

lemma keeps_refs: "keeps_ofile s s' \<Longrightarrow> refs s' f = refs s f"
  by (simp only: refs_map keeps_ofile_def)

lemma keeps_files_inv:
  assumes k: "keeps_files k k'" and inv: "fd_inv d k"
  shows "fd_inv d k'"
proof -
  have l: "length (ftable k') = length (ftable k)"
    using k unfolding keeps_files_def by (metis length_map)
  have r: "f_ref (ftable k' ! f) = f_ref (ftable k ! f)" if "f < length (ftable k)" for f
    using k that l unfolding keeps_files_def by (metis nth_map)
  have o: "keeps_ofile (kps k) (kps k')" using k by (simp add: keeps_files_def)
  note pl = keeps_length [OF o] and pn = keeps_nth [OF o]
  have "files_ok (length (ftable k')) (ptable (kps k') ! i)" if "i < length (ptable (kps k'))" for i
  proof -
    have i: "i < length (ptable (kps k))" "ptable (kps k) ! i \<in> set (ptable (kps k))" using that pl by simp_all
    have "dead (ptable (kps k') ! i) \<Longrightarrow> dead (ptable (kps k) ! i) \<or> set (p_ofile (ptable (kps k) ! i)) \<subseteq> {None}"
        "p_sz (ptable (kps k) ! i) \<le> KERNBASE \<Longrightarrow> p_sz (ptable (kps k') ! i) \<le> KERNBASE"
      using o i(1) unfolding keeps_ofile_def by blast+
    then show ?thesis
      using inv i(2) pn [OF i(1)] l unfolding fd_inv_def files_ok_def by metis
  qed
  then show ?thesis
    using inv l r pl keeps_refs [OF o] unfolding fd_inv_def by (simp add: all_set_conv_all_nth)
qed

text \<open>Counting after an update of one descriptor.\<close>

lemma count_list_update:
  "i < length xs \<Longrightarrow>
   count_list (xs[i := y]) x + (if xs ! i = x then 1 else 0) = count_list xs x + (if y = x then 1 else 0)"
proof (induction xs arbitrary: i)
  case (Cons z zs)
  show ?case
  proof (cases i)
    case (Suc j)
    with Cons.prems have "j < length zs" by simp
    from Cons.IH [OF this] Suc show ?thesis by (auto split: if_splits)
  qed simp
qed simp

lemma refs_set_proc:
  assumes "i < length (ptable s)"
  shows "refs (set_proc s i p) f + count_list (p_ofile (ptable s ! i)) (Some f) =
    refs s f + count_list (p_ofile p) (Some f)"
proof -
  have "count_list (p_ofile (ptable s ! i)) (Some f) \<le> refs s f"
    unfolding refs_def using assms by (intro elem_le_sum_list [THEN order_trans [rotated]]) auto
  then show ?thesis
    using assms by (simp add: refs_def set_proc_def map_update sum_list_update)
qed

lemma set_fd_inv:
  assumes inv: "fd_inv d k" and cur: "cur < length (ptable (kps k))" "\<not> dead (ptable (kps k) ! cur)"
    and fd: "fd < NOFILE" and v: "\<forall>f. v = Some f \<longrightarrow> f < length (ftable k)"
    and d': "\<And>f. d' f = d f + (if p_ofile (cur_proc k cur) ! fd = Some f then 1 else 0) - (if v = Some f then 1 else 0)"
  shows "fd_inv d' (upd_proc k cur ((cur_proc k cur)\<lparr>p_ofile := (p_ofile (cur_proc k cur))[fd := v]\<rparr>))"
proof -
  define old where "old = p_ofile (cur_proc k cur) ! fd"
  let ?p = "cur_proc k cur"
  let ?k = "upd_proc k cur (?p\<lparr>p_ofile := (p_ofile ?p)[fd := v]\<rparr>)"
  have p: "?p \<in> set (ptable (kps k))" "?p = ptable (kps k) ! cur" using cur by (simp_all add: cur_proc_def)
  then have ok: "files_ok (length (ftable k)) ?p" using inv by (simp add: fd_inv_def)
  then have len: "length (p_ofile ?p) = NOFILE" by (simp add: files_ok_def)
  have "int (refs (kps ?k) f) = int (refs (kps k) f) - (if old = Some f then 1 else 0) + (if v = Some f then 1 else 0)" for f
    using refs_set_proc [OF cur(1), of "?p\<lparr>p_ofile := (p_ofile ?p)[fd := v]\<rparr>" f]
      count_list_update [of fd "p_ofile ?p" v "Some f"] fd len
    by (simp add: upd_proc_def old_def p(2) [symmetric] split: if_splits)
  moreover have "set (ptable (kps ?k)) \<subseteq> insert (?p\<lparr>p_ofile := (p_ofile ?p)[fd := v]\<rparr>) (set (ptable (kps k)))"
    by (simp add: upd_proc_def set_proc_def set_update_subset_insert)
  moreover have "ftable ?k = ftable k" by (simp add: upd_proc_def)
  moreover have "Some f \<in> set ((p_ofile ?p)[fd := v]) \<Longrightarrow> f < length (ftable k)" for f
    using ok v set_update_subset_insert [of "p_ofile ?p" fd v] unfolding files_ok_def by blast
  then have "files_ok (length (ftable k)) (?p\<lparr>p_ofile := (p_ofile ?p)[fd := v]\<rparr>)"
    using ok len cur(2) p(2) by (simp add: files_ok_def dead_def)
  moreover have "length (ptable (kps ?k)) = length (ptable (kps k))" by (simp add: upd_proc_def set_proc_def)
  ultimately show ?thesis
    using inv d' unfolding fd_inv_def old_def by auto
qed

text \<open>The operations on the process table keep the descriptors.\<close>

lemma keeps_set_proc:
  assumes "p_ofile p = p_ofile (ptable s ! i)"
    and "i < length (ptable s) \<Longrightarrow> dead p \<Longrightarrow> dead (ptable s ! i) \<or> set (p_ofile p) \<subseteq> {None}"
    and "i < length (ptable s) \<Longrightarrow> p_sz (ptable s ! i) \<le> KERNBASE \<Longrightarrow> p_sz p \<le> KERNBASE"
  shows "keeps_ofile s (set_proc s i p)"
  using assms by (cases "i < length (ptable s)") (auto simp: keeps_ofile_def set_proc_def map_update nth_list_update map_nth
      intro!: nth_equalityI)

lemma keeps_ptable: "ptable s' = ptable s \<Longrightarrow> keeps_ofile s s'"
  by (simp add: keeps_ofile_def)

lemma keeps_wakeup1: "keeps_ofile s (wakeup1 s ch)"
  by (auto simp: keeps_ofile_def wakeup1_def dead_def comp_def)

lemma keeps_wakeup: "keeps_ofile s (wakeup s ch)"
  by (simp add: wakeup_def keeps_wakeup1)

lemma keeps_to_scheduler: "keeps_ofile s (to_scheduler s c)"
  by (simp add: to_scheduler_def keeps_ofile_def)

lemma keeps_sleep_enter: "keeps_ofile s (sleep_enter s c i ch)"
  unfolding sleep_enter_def
  by (rule keeps_ofile_trans [OF keeps_set_proc keeps_to_scheduler]) (simp_all add: dead_def)

lemma keeps_pipewrite: "pipewrite pid c cur addr n s i p = (r, i', s', p') \<Longrightarrow> keeps_ofile s s'"
proof (induction pid c cur addr n s i p rule: pipewrite.induct)
  case (1 pid c cur addr n s i p)
  from "1.prems" "1.IH" show ?case
    by (subst (asm) pipewrite.simps)
      (auto split: if_splits intro: keeps_wakeup keeps_ofile_trans [OF keeps_wakeup keeps_sleep_enter])
qed

lemma keeps_piperead: "piperead pid c cur n s p = (r, bs, s', p') \<Longrightarrow> keeps_ofile s s'"
  by (auto simp: piperead_def split: if_splits prod.splits intro: keeps_sleep_enter keeps_wakeup)

lemma keeps_pipeclose: "pipeclose kend pa w s km p = Ok (s', km', q) \<Longrightarrow> keeps_ofile s s'"
  by (auto simp: pipeclose_def pipe_shut_def obind_eq_Ok Let_def split: if_splits intro: keeps_wakeup)

text \<open>So do transactions and everything that only works on the file system.\<close>

lemma keeps_k_begin: "k_begin k = Ok k' \<Longrightarrow> keeps_files k k'"
  by (auto simp: k_begin_def obind_eq_Ok keeps_files_def)

lemma keeps_k_end: "k_end pid k = Ok k' \<Longrightarrow> keeps_files k k'"
  by (auto simp: k_end_def obind_eq_Ok keeps_files_def)

lemma keeps_k_fs: "k_fs k m = Ok k' \<Longrightarrow> keeps_files k k'"
  by (auto simp: k_fs_def obind_eq_Ok keeps_files_def)

lemmas keeps_intros = keeps_k_begin keeps_k_end keeps_k_fs

lemma keeps_set_f: "f_ref x = f_ref (ftable k ! f) \<Longrightarrow> keeps_files k (set_f k f x)"
  by (cases "f < length (ftable k)")
    (auto simp: keeps_files_def set_f_def map_update intro!: nth_equalityI simp: nth_list_update)

lemma set_f_inv:
  assumes "fd_inv d k" and "f < length (ftable k)"
    and "\<And>g. d' g = d g + (if g = f then f_ref x - f_ref (ftable k ! f) else 0)"
  shows "fd_inv d' (set_f k f x)"
  using assms by (auto simp: fd_inv_def set_f_def nth_list_update)

lemma filealloc_inv:
  assumes inv: "fd_inv d k" and a: "filealloc k = (Some f, k')"
  shows "f < length (ftable k')" and "fd_inv (\<lambda>g. d g + (if g = f then 1 else 0)) k'" and "kps k' = kps k"
    and "f_ref (ftable k' ! f) = 1" and "kfs k' = kfs k"
proof -
  have f: "f < length (ftable k)" "f_ref (ftable k ! f) = 0" and k': "k' = set_f k f ((ftable k ! f)\<lparr>f_ref := 1\<rparr>)"
    using a by (auto simp: filealloc_def find_idx_Some_iff split: option.splits)
  then show "f < length (ftable k')" "kps k' = kps k" "f_ref (ftable k' ! f) = 1" "kfs k' = kfs k"
    by (simp_all add: set_f_def)
  show "fd_inv (\<lambda>g. d g + (if g = f then 1 else 0)) k'"
    unfolding k' by (rule set_f_inv [OF inv f(1)]) (simp add: f(2))
qed

lemma filealloc_None: "filealloc k = (None, k') \<Longrightarrow> k' = k"
  by (auto simp: filealloc_def split: option.splits)

lemma filedup_inv:
  assumes "fd_inv d k" and "f < length (ftable k)" and "filedup k f = Ok k'"
  shows "fd_inv (\<lambda>g. d g + (if g = f then 1 else 0)) k'" and "kps k' = kps k" and "length (ftable k') = length (ftable k)"
    and "kfs k' = kfs k"
proof -
  have k': "k' = set_f k f ((ftable k ! f)\<lparr>f_ref := f_ref (ftable k ! f) + 1\<rparr>)"
    using assms(3) by (auto simp: filedup_def Let_def split: if_splits)
  show "fd_inv (\<lambda>g. d g + (if g = f then 1 else 0)) k'"
    unfolding k' by (rule set_f_inv [OF assms(1,2)]) simp
qed (use assms(3) in \<open>auto simp: filedup_def Let_def set_f_def split: if_splits\<close>)

lemma keeps_close_pipe: "close_pipe kend k pa w = Ok k' \<Longrightarrow> keeps_files k k'"
  by (auto simp: close_pipe_def obind_eq_Ok keeps_files_def split: option.splits intro: keeps_pipeclose)

lemma fileclose_inv:
  assumes inv: "fd_inv d k" and f: "f < length (ftable k)" and c: "fileclose E pid k f = Ok k'"
  shows "fd_inv (\<lambda>g. d g - (if g = f then 1 else 0)) k'" and "keeps_ofile (kps k) (kps k')"
    and "length (ftable k') = length (ftable k)"
proof -
  define x where "x = ftable k ! f"
  define k1 where "k1 = set_f k f (if f_ref x - 1 > 0 then x\<lparr>f_ref := f_ref x - 1\<rparr> else x\<lparr>f_ref := 0, f_type := FD_NONE\<rparr>)"
  have pos: "f_ref x \<ge> 1" using c by (auto simp: fileclose_def Let_def x_def split: if_splits)
  then have inv1: "fd_inv (\<lambda>g. d g - (if g = f then 1 else 0)) k1"
    unfolding k1_def by (intro set_f_inv [OF inv f]) (auto simp: x_def)
  have k: "keeps_files k1 k'"
    using c pos unfolding fileclose_def k1_def x_def
    by (auto simp: Let_def obind_eq_Ok split: if_splits ftype.splits
        dest!: keeps_intros intro: keeps_close_pipe keeps_files_trans)
  show "fd_inv (\<lambda>g. d g - (if g = f then 1 else 0)) k'" by (rule keeps_files_inv [OF k inv1])
  show "keeps_ofile (kps k) (kps k')" using k by (simp add: keeps_files_def k1_def set_f_def)
  show "length (ftable k') = length (ftable k)"
    using k map_eq_imp_length_eq [of f_ref "ftable k'" f_ref "ftable k1"]
    by (simp add: keeps_files_def k1_def set_f_def)
qed

text \<open>\<^verbatim>\<open>fork\<close> gives every open file one more reference, \<^verbatim>\<open>exit\<close> takes those of the process away.\<close>

lemma dup_files_inv:
  assumes "fd_inv d k" and "\<forall>f. Some f \<in> set xs \<longrightarrow> f < length (ftable k)" and "dup_files xs k = Ok k'"
  shows "fd_inv (\<lambda>f. d f + int (count_list xs (Some f))) k' \<and> kps k' = kps k \<and> kfs k' = kfs k"
  using assms
proof (induction xs arbitrary: d k)
  case (Cons x xs)
  show ?case
  proof (cases x)
    case None
    with Cons.prems Cons.IH [of d k] show ?thesis by simp
  next
    case (Some f)
    with Cons.prems(3) obtain k1 where k1: "filedup k f = Ok k1" "dup_files xs k1 = Ok k'"
      by (auto simp: obind_eq_Ok)
    have "f < length (ftable k)" using Cons.prems(2) Some by simp
    note d = filedup_inv [OF Cons.prems(1) this k1(1)]
    have "fd_inv (\<lambda>g. d g + (if g = f then 1 else 0) + int (count_list xs (Some g))) k' \<and> kps k' = kps k1 \<and> kfs k' = kfs k1"
      using Cons.prems(2) d(3) by (intro Cons.IH [OF d(1) _ k1(2)]) simp
    moreover have "(\<lambda>g. d g + (if g = f then 1 else 0) + int (count_list xs (Some g))) =
        (\<lambda>g. d g + int (count_list (x # xs) (Some g)))"
      using Some by auto
    ultimately show ?thesis using d(2,4) by simp
  qed
qed simp

lemma fd_inv_add_child:
  assumes inv: "fd_inv d k" and np: "np < length (ptable (kps k))" "dead (ptable (kps k) ! np)"
    and p: "files_ok (length (ftable k)) p"
    and d': "\<And>f. d' f = d f - int (count_list (p_ofile p) (Some f))"
  shows "fd_inv d' (k\<lparr>kps := set_proc (kps k) np p\<rparr>)"
proof -
  have "set (p_ofile (ptable (kps k) ! np)) \<subseteq> {None}" using inv np by (auto simp: fd_inv_def files_ok_def)
  then have "count_list (p_ofile (ptable (kps k) ! np)) (Some f) = 0" for f
    by (metis count_list_0_iff insert_iff option.distinct(1) singletonD subsetD)
  then have "refs (set_proc (kps k) np p) f = refs (kps k) f + count_list (p_ofile p) (Some f)" for f
    using refs_set_proc [OF np(1), of p f] by simp
  moreover have "set (ptable (set_proc (kps k) np p)) \<subseteq> insert p (set (ptable (kps k)))"
    by (simp add: set_proc_def set_update_subset_insert)
  moreover have "length (ptable (set_proc (kps k) np p)) = length (ptable (kps k))" by (simp add: set_proc_def)
  ultimately show ?thesis using inv p d' by (auto simp: fd_inv_def)
qed

lemma copy_ofile_fresh:
  assumes "set new \<subseteq> {None}" and "length old = length new"
  shows "copy_ofile old new = old"
  using assms(2,1) unfolding copy_ofile_def
  by (induction old new rule: list_induct2) auto

lemma keeps_slot:
  assumes "ptable s' = (ptable s)[i := p]" and "dead (ptable s ! i)"
    and "p_ofile p = p_ofile (ptable s ! i)" "p_sz p = p_sz (ptable s ! i)"
  shows "keeps_ofile s s'"
  using keeps_ofile_trans [OF keeps_set_proc [of p s i] keeps_ptable [of s' "set_proc s i p"]] assms
  by (simp add: set_proc_def)

lemma allocproc_files:
  assumes "allocproc fr tr s km = (r, s', km')"
  shows "keeps_ofile s s' \<and> (\<forall>i. r = Some i \<longrightarrow> i < length (ptable s) \<and> dead (ptable s ! i) \<and>
      (\<exists>p. ptable s' = (ptable s)[i := p] \<and> p_ofile p = p_ofile (ptable s ! i) \<and> p_sz p = p_sz (ptable s ! i) \<and> \<not> dead p))"
proof (cases "find_idx (\<lambda>p. p_state p = UNUSED) (ptable s)")
  case None
  then show ?thesis using assms by (auto simp: allocproc_def alloc_slot_def)
next
  case (Some j)
  then have j: "j < length (ptable s)" "dead (ptable s ! j)" by (simp_all add: find_idx_Some_iff dead_def)
  obtain p where p: "ptable s' = (ptable s)[j := p]" "p_ofile p = p_ofile (ptable s ! j)" "p_sz p = p_sz (ptable s ! j)"
      "\<forall>i. r = Some i \<longrightarrow> i = j \<and> \<not> dead p"
    using assms Some j(1)
    by (auto simp: allocproc_def alloc_slot_def alloc_stack_def set_proc_def Let_def dead_def
        split: prod.splits if_splits)
  with j keeps_slot [OF p(1) j(2) p(2,3)] show ?thesis by auto
qed

lemma fork_child_inv:
  assumes inv: "fd_inv d k" and cur: "cur < length (ptable (kps k))" "\<not> dead (ptable (kps k) ! cur)"
    and np: "np < length (ptable (kps k))" "dead (ptable (kps k) ! np)" "ptable s1 = (ptable (kps k))[np := q]"
      "p_ofile q = p_ofile (ptable (kps k) ! np)" "\<not> dead q"
    and k2: "dup_files (p_ofile (ptable s1 ! cur)) (k\<lparr>kps := fork_copy s1 cur np pd, kkm := km\<rparr>) = Ok k2"
  shows "fd_inv d (k2\<lparr>kfs := fs, kps := fork_publish (kps k2) np\<rparr>)"
proof -
  define p where "p = ptable (fork_copy s1 cur np pd) ! np"
  have c1: "ptable s1 ! cur = ptable (kps k) ! cur" using np cur by (metis nth_list_update_neq)
  have ok: "files_ok (length (ftable k)) (ptable (kps k) ! i)" if "i < length (ptable (kps k))" for i
    using inv that by (simp add: fd_inv_def)
  note okc = ok [OF cur(1)] and okn = ok [OF np(1)]
  have po: "p_ofile p = p_ofile (ptable (kps k) ! cur)" "\<not> dead p" "p_sz p = p_sz (ptable (kps k) ! cur)"
    using np copy_ofile_fresh okc okn c1 by (auto simp: p_def fork_copy_def set_proc_def Let_def files_ok_def dead_def)
  have "fd_inv (\<lambda>g. d g - int (count_list (p_ofile p) (Some g))) (k\<lparr>kps := set_proc (kps k) np p\<rparr>)"
    using okc po by (intro fd_inv_add_child [OF inv np(1,2)]) (auto simp: files_ok_def)
  moreover have "keeps_files (k\<lparr>kps := set_proc (kps k) np p\<rparr>) (k\<lparr>kps := fork_copy s1 cur np pd, kkm := km\<rparr>)"
    using np(1,3) by (simp add: keeps_files_def keeps_ptable p_def fork_copy_def set_proc_def Let_def)
  ultimately have "fd_inv (\<lambda>g. d g - int (count_list (p_ofile p) (Some g))) (k\<lparr>kps := fork_copy s1 cur np pd, kkm := km\<rparr>)"
    by (rule keeps_files_inv [rotated])
  note dup_files_inv [OF this _ k2]
  then have "fd_inv d k2" using okc po(1) c1 by (simp add: files_ok_def)
  moreover have "keeps_files k2 (k2\<lparr>kfs := fs, kps := fork_publish (kps k2) np\<rparr>)"
    by (auto simp: keeps_files_def fork_publish_def set_state_def dead_def intro!: keeps_set_proc)
  ultimately show ?thesis by (rule keeps_files_inv [rotated])
qed

lemma fork_inv:
  assumes inv: "fd_inv d k" and cur: "cur < length (ptable (kps k))" "\<not> dead (ptable (kps k) ! cur)"
    and f: "fork E k cur = Ok (r, k')"
  shows "fd_inv d k'"
proof -
  obtain r1 s1 km1 where a: "allocproc (e_forkret E) (e_trapret E) (kps k) (kkm k) = (r1, s1, km1)"
    by (metis prod_cases3)
  note af = allocproc_files [OF a]
  show ?thesis
  proof (cases r1)
    case None
    then show ?thesis using f a af keeps_files_inv [OF _ inv] by (auto simp: fork_def keeps_files_def)
  next
    case (Some np)
    with af obtain q where np: "np < length (ptable (kps k))" "dead (ptable (kps k) ! np)"
        "ptable s1 = (ptable (kps k))[np := q]" "p_ofile q = p_ofile (ptable (kps k) ! np)" "\<not> dead q" and
        sz: "p_sz q = p_sz (ptable (kps k) ! np)"
      by auto
    obtain pd km2 where cp: "copyuvm (e_end E) (e_data E) km1 (p_pgdir (ptable s1 ! cur)) (p_sz (ptable s1 ! cur)) = Ok (pd, km2)"
      using f a Some by (auto simp: fork_def obind_eq_Ok)
    show ?thesis
    proof (cases "pd = 0")
      case True
      then obtain s2 km3 where u: "fork_undo (e_end E) s1 km2 np = Ok (s2, km3)" "k' = k\<lparr>kps := s2, kkm := km3\<rparr>"
        using f a Some cp by (auto simp: fork_def obind_eq_Ok)
      then have "\<exists>p. ptable s2 = (ptable (kps k))[np := p] \<and> p_ofile p = p_ofile (ptable (kps k) ! np) \<and>
          p_sz p = p_sz (ptable (kps k) ! np)"
        using np sz by (auto simp: fork_undo_def obind_eq_Ok Let_def set_proc_def)
      with u(2) np(2) keeps_slot have "keeps_files k k'" by (auto simp: keeps_files_def)
      then show ?thesis by (rule keeps_files_inv [OF _ inv])
    next
      case False
      with f a Some cp show ?thesis
        by (auto simp: fork_def obind_eq_Ok Let_def split: option.splits intro: fork_child_inv [OF inv cur np])
    qed
  qed
qed

lemma close_files_inv:
  assumes "fd_inv d k" and "cur < length (ptable (kps k))"
    and "\<forall>fd \<in> set fds. fd < NOFILE" and "close_files E cur fds k = Ok k'"
  shows "fd_inv d k' \<and> length (ptable (kps k')) = length (ptable (kps k)) \<and>
    (\<forall>fd < NOFILE. p_ofile (cur_proc k' cur) ! fd = (if fd \<in> set fds then None else p_ofile (cur_proc k cur) ! fd))"
  using assms
proof (induction fds arbitrary: k)
  case Nil
  then show ?case by (simp add: cur_proc_def)
next
  case (Cons fd fds)
  have fd: "fd < NOFILE" using Cons.prems by simp
  show ?case
  proof (cases "p_ofile (cur_proc k cur) ! fd")
    case None
    with Cons.prems Cons.IH [of k] show ?thesis by auto
  next
    case (Some f)
    then obtain k1 where k1: "fileclose E (cur_pid k cur) k f = Ok k1"
      using Cons.prems(4) by (auto simp: obind_eq_Ok)
    define k2 where "k2 = upd_proc k1 cur ((cur_proc k1 cur)\<lparr>p_ofile := (p_ofile (cur_proc k1 cur))[fd := None]\<rparr>)"
    have ok: "files_ok (length (ftable k)) (cur_proc k cur)" using Cons.prems by (simp add: fd_inv_def cur_proc_def)
    then have f: "f < length (ftable k)" and alive: "\<not> dead (ptable (kps k) ! cur)" using Some fd nth_mem [of fd "p_ofile (cur_proc k cur)"] by (auto simp: files_ok_def cur_proc_def)
    note c = fileclose_inv [OF Cons.prems(1) f k1]
    note l1 = keeps_length [OF c(2)] and o1 = keeps_nth [OF c(2) Cons.prems(2)]
    have alive1: "\<not> dead (ptable (kps k1) ! cur)"
      using c(2) Cons.prems(2) alive Some fd ok nth_mem [of fd "p_ofile (cur_proc k cur)"]
      unfolding keeps_ofile_def files_ok_def cur_proc_def by (metis empty_iff insert_iff option.distinct(1) subset_iff)
    have inv2: "fd_inv d k2"
      unfolding k2_def using l1 Cons.prems(2) alive1 fd o1 Some by (intro set_fd_inv [OF c(1)]) (auto simp: cur_proc_def)
    have k2: "length (ptable (kps k2)) = length (ptable (kps k))" "\<not> dead (ptable (kps k2) ! cur)"
        "p_ofile (cur_proc k2 cur) = (p_ofile (cur_proc k cur))[fd := None]"
      using l1 o1 alive1 Cons.prems(2) by (simp_all add: k2_def upd_proc_def set_proc_def cur_proc_def dead_def)
    have "close_files E cur fds k2 = Ok k'" using Cons.prems(4) Some k1 by (simp add: k2_def Let_def)
    from Cons.IH [OF inv2 _ _ this] k2 Cons.prems(2,3) ok show ?thesis
      by (auto simp: files_ok_def nth_list_update)
  qed
qed

lemma keeps_reparent: "keeps_ofile s (reparent cur i s)"
proof -
  have "keeps_ofile s (set_proc s i ((ptable s ! i)\<lparr>p_parent := q\<rparr>))" for q
    by (rule keeps_set_proc) (simp_all add: dead_def)
  then show ?thesis
    by (auto simp: reparent_def Let_def intro: keeps_ofile_trans keeps_wakeup1)
qed

lemma keeps_fold: "(\<And>x s. keeps_ofile s (g x s)) \<Longrightarrow> keeps_ofile s (fold g xs s)"
  by (induction xs arbitrary: s) (auto intro: keeps_ofile_trans)

lemma keeps_exit_table:
  assumes "set (p_ofile (ptable s ! cur)) \<subseteq> {None}" and "exit_table s c cur = Ok s'"
  shows "keeps_ofile s s'"
proof -
  define s2 where "s2 = fold (reparent cur) [0 ..< NPROC] (wakeup1 s (map_option ChProc (p_parent (ptable s ! cur))))"
  have k: "keeps_ofile s s2"
    unfolding s2_def by (rule keeps_ofile_trans [OF keeps_wakeup1 keeps_fold [OF keeps_reparent]])
  have s': "s' = to_scheduler (set_state s2 cur ZOMBIE) c"
    using assms(2) by (auto simp: exit_table_def s2_def Let_def split: if_splits)
  have "keeps_ofile s2 (set_state s2 cur ZOMBIE)"
    using assms(1) keeps_nth [OF k, of cur] keeps_length [OF k]
    unfolding set_state_def by (intro keeps_set_proc) simp_all
  with k s' show ?thesis using keeps_to_scheduler keeps_ofile_trans by metis
qed

lemma exit_inv:
  assumes inv: "fd_inv d k" and cur: "cur < length (ptable (kps k))"
    and e: "exit E c cur k = Ok k'"
  shows "fd_inv d k'"
proof -
  from e obtain k1 k2 ip k3 k4 s where ks: "close_files E cur [0 ..< NOFILE] k = Ok k1" "k_begin k1 = Ok k2"
      "k_fs k2 (iput (cur_pid k2 cur) (kfs k2) ip) = Ok k3" "k_end (cur_pid k3 cur) k3 = Ok k4"
      "exit_table (kps (upd_proc k4 cur ((cur_proc k4 cur)\<lparr>p_cwd := None\<rparr>))) c cur = Ok s"
      "k' = (upd_proc k4 cur ((cur_proc k4 cur)\<lparr>p_cwd := None\<rparr>))\<lparr>kps := s\<rparr>"
    by (auto simp: exit_def obind_eq_Ok Let_def split: if_splits option.splits)
  have c: "fd_inv d k1" "length (ptable (kps k1)) = length (ptable (kps k))"
      "\<forall>fd < NOFILE. p_ofile (cur_proc k1 cur) ! fd = None"
    using close_files_inv [OF inv cur _ ks(1)] by auto
  have cl: "cur < length (ptable (kps k1))" using c(2) cur by simp
  have "length (p_ofile (cur_proc k1 cur)) = NOFILE" using c(1) cl by (simp add: fd_inv_def files_ok_def cur_proc_def)
  then have none: "set (p_ofile (cur_proc k1 cur)) \<subseteq> {None}"
    using c(3) by (auto simp: in_set_conv_nth)
  have k4: "keeps_files k1 k4" using ks(2-4) keeps_intros keeps_files_trans by metis
  then have n4: "set (p_ofile (cur_proc k4 cur)) \<subseteq> {None}" "cur < length (ptable (kps k4))"
    using none cl keeps_nth [of "kps k1" "kps k4" cur] keeps_length [of "kps k1" "kps k4"]
    by (simp_all add: keeps_files_def cur_proc_def)
  have k5: "keeps_files k4 (upd_proc k4 cur ((cur_proc k4 cur)\<lparr>p_cwd := None\<rparr>))"
    by (auto simp: keeps_files_def upd_proc_def cur_proc_def dead_def intro!: keeps_set_proc)
  have "keeps_ofile (kps (upd_proc k4 cur ((cur_proc k4 cur)\<lparr>p_cwd := None\<rparr>))) s"
    using n4 by (intro keeps_exit_table [OF _ ks(5)]) (simp add: upd_proc_def cur_proc_def set_proc_def)
  then have "keeps_files (upd_proc k4 cur ((cur_proc k4 cur)\<lparr>p_cwd := None\<rparr>)) k'"
    unfolding ks(6) by (simp add: keeps_files_def)
  then have "keeps_files k1 k'" using k4 k5 keeps_files_trans by metis
  then show ?thesis using c(1) by (rule keeps_files_inv)
qed

text \<open>Reading, writing and making a pipe.\<close>

lemma keeps_fileread: "fileread E c cur k f n = Ok (r, bs, k') \<Longrightarrow> keeps_files k k'"
proof -
  assume a: "fileread E c cur k f n = Ok (r, bs, k')"
  have s: "keeps_files k (set_f k f ((ftable k ! f)\<lparr>f_off := v\<rparr>))" for v by (rule keeps_set_f) simp
  show ?thesis
    using a s unfolding fileread_def
    by (auto simp: Let_def obind_eq_Ok keeps_files_def set_f_def split: if_splits ftype.splits option.splits prod.splits
        intro: keeps_piperead)
qed

lemma keeps_write_chunk: "write_chunk E pid k f bs n = Ok (r, k') \<Longrightarrow> keeps_files k k'"
proof -
  assume "write_chunk E pid k f bs n = Ok (r, k')"
  then obtain k1 k2 s3 k4 where a: "k_begin k = Ok k1" "k_fs k1 (ilock pid (kfs k1) (Some (f_ip (ftable k ! f)))) = Ok k2"
      "k_fs ((if r > 0 then set_f k2 f ((ftable k2 ! f)\<lparr>f_off := f_off (ftable k2 ! f) + of_int r\<rparr>) else k2)\<lparr>kfs := s3\<rparr>)
         (iunlock pid s3 (Some (f_ip (ftable k ! f)))) = Ok k4" "k_end pid k4 = Ok k'"
    by (auto simp: write_chunk_def obind_eq_Ok Let_def split: prod.splits)
  define k3 where "k3 = (if r > 0 then set_f k2 f ((ftable k2 ! f)\<lparr>f_off := f_off (ftable k2 ! f) + of_int r\<rparr>) else k2)"
  have "keeps_files k2 k3" by (simp add: k3_def keeps_set_f)
  then have "keeps_files k2 (k3\<lparr>kfs := s3\<rparr>)" by (simp add: keeps_files_def)
  note keeps_files_trans [OF this keeps_k_fs [OF a(3)[folded k3_def]]]
  note keeps_files_trans [OF keeps_k_fs [OF a(2)] keeps_files_trans [OF this keeps_k_end [OF a(4)]]]
  then show ?thesis by (rule keeps_files_trans [OF keeps_k_begin [OF a(1)]])
qed

lemma keeps_write_loop: "write_loop E pid k f src n i = Ok (r, k') \<Longrightarrow> keeps_files k k'"
proof (induction E pid k f src n i rule: write_loop.induct)
  case (1 E pid k f src n i)
  show ?case
  proof (cases "i < n")
    case True
    define n1 where "n1 = (if n - i > write_max then write_max else n - i)"
    from "1.prems" True obtain w k1 where w: "write_chunk E pid k f (take (nat n1) (drop (nat i) src)) n1 = Ok (w, k1)"
        "(if w < 0 then Ok (i, k1) else if w \<noteq> n1 then Panic ''short filewrite'' else write_loop E pid k1 f src n (i + w)) = Ok (r, k')"
      unfolding write_loop.simps [of E pid k f src n i] Let_def n1_def [symmetric] by (auto simp: obind_eq_Ok)
    have "keeps_files k1 k'"
      using w(2) "1.IH" [OF True n1_def w(1) refl] by (auto split: if_splits)
    then show ?thesis by (rule keeps_files_trans [OF keeps_write_chunk [OF w(1)]])
  next
    case False
    with "1.prems" show ?thesis by (subst (asm) write_loop.simps) simp
  qed
qed

lemma keeps_filewrite: "filewrite E c cur k f src n = Ok (r, k') \<Longrightarrow> keeps_files k k'"
  unfolding filewrite_def
  by (auto simp: Let_def obind_eq_Ok keeps_files_def split: if_splits ftype.splits option.splits prod.splits
      intro: keeps_pipewrite dest: keeps_write_loop [unfolded keeps_files_def])

lemma filealloc_length: "filealloc k = (r, k') \<Longrightarrow> length (ftable k') = length (ftable k)"
  by (auto simp: filealloc_def set_f_def split: option.splits)

lemma keeps_files_length: "keeps_files k k' \<Longrightarrow> length (ftable k') = length (ftable k)"
  unfolding keeps_files_def by (metis length_map)

text \<open>The two files of a pipe, once they are allocated.\<close>

lemma pipealloc_pair:
  assumes a: "pipealloc E pid k = Ok (r, k')" and p1: "filealloc k = (Some f0, k1)" and p2: "filealloc k1 = (Some f1, k2)"
    and inv: "fd_inv (\<lambda>g. d g + (if g = f0 then 1 else 0) + (if g = f1 then 1 else 0)) k2"
    and f: "f0 < length (ftable k2)" "f1 < length (ftable k2)"
  shows "keeps_ofile (kps k2) (kps k') \<and>
    (case r of None \<Rightarrow> fd_inv d k'
     | Some (f0, f1) \<Rightarrow> kps k' = kps k2 \<and> f0 < length (ftable k') \<and> f1 < length (ftable k') \<and>
         fd_inv (\<lambda>g. d g + (if g = f0 then 1 else 0) + (if g = f1 then 1 else 0)) k')"
proof -
  obtain pa km where ka: "kalloc (kkm k2) = (pa, km)" by force
  have k3: "keeps_files k2 (k2\<lparr>kkm := km\<rparr>)" by (simp add: keeps_files_def)
  note i3 = keeps_files_inv [OF k3 inv]
  show ?thesis
  proof (cases "pa = 0")
    case True
    then obtain k4 where c: "fileclose E pid (k2\<lparr>kkm := km\<rparr>) f0 = Ok k4" "fileclose E pid k4 f1 = Ok k'" "r = None"
      using a p1 p2 ka by (auto simp: pipealloc_def Let_def close_opt_def obind_eq_Ok)
    note c1 = fileclose_inv [OF i3 _ c(1)]
    note c2 = fileclose_inv [OF c1(1) _ c(2)]
    have "(\<lambda>g. d g + (if g = f0 then 1 else 0) + (if g = f1 then 1 else 0) - (if g = f0 then 1 else 0) -
        (if g = f1 then 1 else 0)) = d" by auto
    then show ?thesis using c1(2,3) c2 f c(3) by (auto intro: keeps_ofile_trans)
  next
    case False
    then have r: "r = Some (f0, f1)" and "kps k' = kps k2" "map f_ref (ftable k') = map f_ref (ftable k2)"
      using a p1 p2 ka f
      by (auto simp: pipealloc_def Let_def set_f_def map_update nth_list_update intro!: nth_equalityI)
    moreover from this have "keeps_files k2 k'" by (simp add: keeps_files_def)
    ultimately show ?thesis using keeps_files_inv [OF _ inv] keeps_files_length [of k2 k'] r f
      by (simp add: keeps_files_def)
  qed
qed

lemma pipealloc_inv:
  assumes inv: "fd_inv d k" and a: "pipealloc E pid k = Ok (r, k')"
  shows "keeps_ofile (kps k) (kps k') \<and>
    (case r of None \<Rightarrow> fd_inv d k'
     | Some (f0, f1) \<Rightarrow> kps k' = kps k \<and> f0 < length (ftable k') \<and> f1 < length (ftable k') \<and>
         fd_inv (\<lambda>g. d g + (if g = f0 then 1 else 0) + (if g = f1 then 1 else 0)) k')"
proof -
  obtain r1 k1 r2 k2 where p: "filealloc k = (r1, k1)" "filealloc k1 = (r2, k2)" by force
  show ?thesis
  proof (cases r1)
    case None
    then show ?thesis using a inv p(1) filealloc_None [of k k1] by (auto simp: pipealloc_def Let_def close_opt_def)
  next
    case (Some f0)
    note p1 = p(1)[unfolded Some] and p2 = p(2)
    note i1 = filealloc_inv [OF inv p1]
    show ?thesis
    proof (cases r2)
      case None
      with p2 have "k2 = k1" using filealloc_None by blast
      then have "fileclose E pid k1 f0 = Ok k'" "r = None"
        using a p1 p2 None by (auto simp: pipealloc_def Let_def close_opt_def obind_eq_Ok)
      with fileclose_inv [OF i1(2,1), of E pid k'] i1(3) show ?thesis by simp
    next
      case (Some f1)
      note i2 = filealloc_inv [OF i1(2) p2[unfolded Some]]
      show ?thesis
        using pipealloc_pair [OF a p1 p2[unfolded Some] i2(2)] i1(1,3) i2(1,3) filealloc_length [OF p2] by (auto split: option.split_asm)
    qed
  qed
qed

end
