(* ===== verification/Xv6_Syscall.thy ===== *)
theory Xv6_Syscall
  imports Xv6_File
begin

text \<open>
  System call arguments, \<^verbatim>\<open>src/xv6/syscall.c\<close>, and the system calls on processes,
  \<^verbatim>\<open>src/xv6/sysproc.c\<close>.  The kernel reads and writes the memory of the current process through
  its page table; an access that has no present mapping faults in the kernel.
\<close>

section \<open>The memory of a process\<close>

text \<open>
  The processor's address translation in kernel mode: \<^verbatim>\<open>CR0.WP\<close> is set, so the kernel too
  needs \<^verbatim>\<open>PTE_W\<close> to write, while \<^verbatim>\<open>PTE_U\<close> does not matter.
\<close>

definition upage :: "uint \<Rightarrow> uint \<Rightarrow> uint" where
  "upage e a = P2V (PTE_ADDR e) + (a AND 0xFFF)"

definition umem_get :: "kmem \<Rightarrow> uint \<Rightarrow> uint \<Rightarrow> uchar outcome" where
  "umem_get km pgdir a =
     (case vm_pte (kmemory km) pgdir a of
        None \<Rightarrow> Panic ''trap''
      | Some e \<Rightarrow> Ok (kmemory km (upage e a)))"

definition umem_put :: "kmem \<Rightarrow> uint \<Rightarrow> uint \<Rightarrow> uchar \<Rightarrow> kmem outcome" where
  "umem_put km pgdir a b =
     (case vm_pte (kmemory km) pgdir a of
        None \<Rightarrow> Panic ''trap''
      | Some e \<Rightarrow> if e AND PTE_W = 0 then Panic ''trap''
                  else Ok (km\<lparr>kmemory := (kmemory km)(upage e a := b)\<rparr>))"

primrec umem_read :: "kmem \<Rightarrow> uint \<Rightarrow> uint \<Rightarrow> nat \<Rightarrow> uchar list outcome" where
  "umem_read km pgdir a 0 = Ok []"
| "umem_read km pgdir a (Suc n) =
     obind (umem_get km pgdir a) (\<lambda>b. obind (umem_read km pgdir (a + 1) n) (\<lambda>bs. Ok (b # bs)))"

primrec umem_write :: "uint \<Rightarrow> uint \<Rightarrow> uchar list \<Rightarrow> kmem \<Rightarrow> kmem outcome" where
  "umem_write pgdir a [] km = Ok km"
| "umem_write pgdir a (b # bs) km = obind (umem_put km pgdir a b) (umem_write pgdir (a + 1) bs)"

definition le_bytes :: "uint \<Rightarrow> uchar list" where
  "le_bytes v = [byte_of 0 v, byte_of 1 v, byte_of 2 v, byte_of 3 v]"

definition of_le :: "uchar list \<Rightarrow> uint" where
  "of_le bs = le32 (bs ! 0) (bs ! 1) (bs ! 2) (bs ! 3)"

section \<open>Fetching arguments\<close>

text \<open>\<^verbatim>\<open>None\<close> stands for the result -1.\<close>

definition fetchint :: "'d ksys \<Rightarrow> nat \<Rightarrow> uint \<Rightarrow> uint option outcome" where
  "fetchint k cur addr =
     (let p = cur_proc k cur
      in if addr \<ge> p_sz p \<or> addr + 4 > p_sz p then Ok None
         else obind (umem_read (kkm k) (p_pgdir p) addr 4) (\<lambda>bs. Ok (Some (of_le bs))))"

text \<open>The loop of \<^verbatim>\<open>fetchstr\<close> from \<open>s\<close> to \<open>ep\<close>: the bytes before the NUL.\<close>

function fetchstr_loop :: "kmem \<Rightarrow> uint \<Rightarrow> uint \<Rightarrow> uint \<Rightarrow> uchar list option outcome" where
  "fetchstr_loop km pgdir s ep =
     (if s < ep
      then obind (umem_get km pgdir s) (\<lambda>b.
             if b = 0 then Ok (Some [])
             else obind (fetchstr_loop km pgdir (s + 1) ep) (\<lambda>r. Ok (map_option ((#) b) r)))
      else Ok None)"
  by pat_completeness auto
termination
proof (relation "measure (\<lambda>(km, pgdir, s, ep). unat (ep - s))")
  fix km pgdir s ep b
  assume "s < (ep :: uint)"
  then show "((km, pgdir, s + 1, ep), km, pgdir, s, ep) \<in> measure (\<lambda>(km, pgdir, s, ep). unat (ep - s))"
    using unat_uint_less [of ep] by (auto simp: word_less_nat_alt unat_uint_sub unat_uint_add)
qed simp

declare fetchstr_loop.simps [simp del]

definition fetchstr :: "'d ksys \<Rightarrow> nat \<Rightarrow> uint \<Rightarrow> uchar list option outcome" where
  "fetchstr k cur addr =
     (let p = cur_proc k cur
      in if addr \<ge> p_sz p then Ok None
         else fetchstr_loop (kkm k) (p_pgdir p) addr (p_sz p))"

text \<open>The offsets of \<^verbatim>\<open>eip\<close> and \<^verbatim>\<open>esp\<close> in \<^verbatim>\<open>struct trapframe\<close>.\<close>

definition TF_EIP :: uint where "TF_EIP = 56"
definition TF_ESP :: uint where "TF_ESP = 68"

definition argint :: "'d ksys \<Rightarrow> nat \<Rightarrow> nat \<Rightarrow> uint option outcome" where
  "argint k cur n =
     fetchint k cur (load32 (kmemory (kkm k)) (p_tf (cur_proc k cur) + TF_ESP) + 4 + 4 * of_nat n)"

definition argptr :: "'d ksys \<Rightarrow> nat \<Rightarrow> nat \<Rightarrow> int \<Rightarrow> uint option outcome" where
  "argptr k cur n len =
     obind (argint k cur n) (\<lambda>r.
       case r of
         None \<Rightarrow> Ok None
       | Some i \<Rightarrow>
           let sz = p_sz (cur_proc k cur)
           in if len < 0 \<or> i \<ge> sz \<or> i + of_int len > sz then Ok None else Ok (Some i))"

definition argstr :: "'d ksys \<Rightarrow> nat \<Rightarrow> nat \<Rightarrow> uchar list option outcome" where
  "argstr k cur n =
     obind (argint k cur n) (\<lambda>r. case r of None \<Rightarrow> Ok None | Some addr \<Rightarrow> fetchstr k cur addr)"

text \<open>
  Fetch an argument, and go on with it; \<open>failed k\<close> is what the call does without it, mostly
  returning -1.
\<close>

definition with_arg :: "'a option outcome \<Rightarrow> 'b outcome \<Rightarrow> ('a \<Rightarrow> 'b outcome) \<Rightarrow> 'b outcome" where
  "with_arg m failed f = obind m (\<lambda>r. case r of None \<Rightarrow> failed | Some x \<Rightarrow> f x)"

definition ret :: "int \<Rightarrow> 'd ksys \<Rightarrow> (pcall \<times> 'd ksys) outcome" where
  "ret r k = Ok (Return r, k)"

section \<open>System calls on processes\<close>

definition sys_fork :: "'d kenv \<Rightarrow> nat \<Rightarrow> nat \<Rightarrow> 'd ksys \<Rightarrow> (pcall \<times> 'd ksys) outcome" where
  "sys_fork E c cur k = obind (fork E k cur) (\<lambda>(r, k1). ret r k1)"

text \<open>\<^verbatim>\<open>exit\<close> does not return: the process is never scheduled again.\<close>

definition sys_exit :: "'d kenv \<Rightarrow> nat \<Rightarrow> nat \<Rightarrow> 'd ksys \<Rightarrow> (pcall \<times> 'd ksys) outcome" where
  "sys_exit E c cur k = obind (exit E c cur k) (\<lambda>k1. Ok (Asleep, k1))"

definition sys_wait :: "'d kenv \<Rightarrow> nat \<Rightarrow> nat \<Rightarrow> 'd ksys \<Rightarrow> (pcall \<times> 'd ksys) outcome" where
  "sys_wait E c cur k =
     obind (wait1 (e_end E) (kps k) (kkm k) c cur) (\<lambda>(r, s, km).
       Ok (case r of Returns v \<Rightarrow> Return v | Sleeps \<Rightarrow> Asleep, k\<lparr>kps := s, kkm := km\<rparr>))"

definition sys_kill :: "'d kenv \<Rightarrow> nat \<Rightarrow> nat \<Rightarrow> 'd ksys \<Rightarrow> (pcall \<times> 'd ksys) outcome" where
  "sys_kill E c cur k =
     with_arg (argint k cur 0) (ret (- 1) k) (\<lambda>pid.
       case kill (kps k) (sint pid) of (r, s) \<Rightarrow> ret r (k\<lparr>kps := s\<rparr>))"

definition sys_getpid :: "'d kenv \<Rightarrow> nat \<Rightarrow> nat \<Rightarrow> 'd ksys \<Rightarrow> (pcall \<times> 'd ksys) outcome" where
  "sys_getpid E c cur k = ret (p_pid (cur_proc k cur)) k"

definition sys_sbrk :: "'d kenv \<Rightarrow> nat \<Rightarrow> nat \<Rightarrow> 'd ksys \<Rightarrow> (pcall \<times> 'd ksys) outcome" where
  "sys_sbrk E c cur k =
     with_arg (argint k cur 0) (ret (- 1) k) (\<lambda>n.
       let addr = p_sz (cur_proc k cur)
       in obind (growproc (e_end E) (kps k) (kkm k) cur (sint n)) (\<lambda>(r, s, km).
            let k1 = k\<lparr>kps := s, kkm := km\<rparr>
            in if r < 0 then ret (- 1) k1 else ret (sint addr) k1))"

text \<open>
  The loop of \<^verbatim>\<open>sys_sleep\<close>, from its test to the next \<^verbatim>\<open>sleep\<close>; \<^verbatim>\<open>ticks - ticks0 < n\<close> compares
  unsigned numbers.
\<close>

definition sleep_check :: "nat \<Rightarrow> nat \<Rightarrow> uint \<Rightarrow> uint \<Rightarrow> 'd ksys \<Rightarrow> pcall \<times> 'd ksys" where
  "sleep_check c cur ticks0 n k =
     (if ticks k - ticks0 < n
      then if p_killed (cur_proc k cur) then (Return (- 1), k)
           else (Asleep, k\<lparr>kps := sleep_enter (kps k) c cur ChTicks\<rparr>)
      else (Return 0, k))"

definition sys_sleep :: "'d kenv \<Rightarrow> nat \<Rightarrow> nat \<Rightarrow> 'd ksys \<Rightarrow> (pcall \<times> 'd ksys) outcome" where
  "sys_sleep E c cur k =
     with_arg (argint k cur 0) (ret (- 1) k) (\<lambda>n. Ok (sleep_check c cur (ticks k) n k))"

definition sys_uptime :: "'d kenv \<Rightarrow> nat \<Rightarrow> nat \<Rightarrow> 'd ksys \<Rightarrow> (pcall \<times> 'd ksys) outcome" where
  "sys_uptime E c cur k = ret (sint (ticks k)) k"

definition sys_trace :: "'d kenv \<Rightarrow> nat \<Rightarrow> nat \<Rightarrow> 'd ksys \<Rightarrow> (pcall \<times> 'd ksys) outcome" where
  "sys_trace E c cur k =
     with_arg (argint k cur 0) (ret (- 1) k) (\<lambda>v. ret 0 (k\<lparr>trace := sint v\<rparr>))"

definition sys_answer :: "'d kenv \<Rightarrow> nat \<Rightarrow> nat \<Rightarrow> 'd ksys \<Rightarrow> (pcall \<times> 'd ksys) outcome" where
  "sys_answer E c cur k = ret 42 k"

definition sys_getppid :: "'d kenv \<Rightarrow> nat \<Rightarrow> nat \<Rightarrow> 'd ksys \<Rightarrow> (pcall \<times> 'd ksys) outcome" where
  "sys_getppid E c cur k =
     (case p_parent (cur_proc k cur) of
        None \<Rightarrow> Panic ''trap''
      | Some q \<Rightarrow> ret (p_pid (cur_proc k q)) k)"

section \<open>Arguments lie in the process\<close>

lemma fetchstr_loop_Some:
  assumes "fetchstr_loop km pgdir s ep = Ok (Some bs)"
  shows "unat s + length bs < unat ep \<and> 0 \<notin> set bs \<and> umem_read km pgdir s (length bs + 1) = Ok (bs @ [0])"
  using assms
proof (induction km pgdir s ep arbitrary: bs rule: fetchstr_loop.induct)
  case (1 km pgdir s ep)
  from "1.prems" obtain b where s: "s < ep" and b: "umem_get km pgdir s = Ok b"
      "(if b = 0 then Ok (Some []) else obind (fetchstr_loop km pgdir (s + 1) ep) (\<lambda>r. Ok (map_option ((#) b) r))) = Ok (Some bs)"
    by (subst (asm) fetchstr_loop.simps) (auto simp: obind_eq_Ok split: if_splits)
  show ?case
  proof (cases "b = 0")
    case True
    with b s show ?thesis by (simp add: word_less_nat_alt)
  next
    case False
    with b(2) obtain cs where cs: "fetchstr_loop km pgdir (s + 1) ep = Ok (Some cs)" "bs = b # cs"
      by (auto simp: obind_eq_Ok)
    have "unat (s + 1) = unat s + 1"
      using s unat_uint_less [of ep] by (simp add: unat_uint_add word_less_nat_alt)
    with "1.IH" [OF s b(1) False cs(1)] cs(2) False b(1) show ?thesis by simp
  qed
qed

lemma argptr_iff:
  assumes "p_sz (cur_proc k cur) \<le> KERNBASE" and "len < 2 ^ 31"
  shows "argptr k cur n len = Ok (Some p) \<longleftrightarrow>
    argint k cur n = Ok (Some p) \<and> 0 \<le> len \<and> unat p < unat (p_sz (cur_proc k cur)) \<and>
    unat p + nat len \<le> unat (p_sz (cur_proc k cur))"
proof -
  let ?sz = "p_sz (cur_proc k cur)"
  have sz: "unat ?sz \<le> 2 ^ 31" using assms(1) by (simp add: word_le_nat_alt KERNBASE_def)
  have sum: "unat (i + of_int len) = unat i + nat len" if "0 \<le> len" "unat i < unat ?sz" for i :: uint
  proof -
    have len: "nat len < 2 ^ 31" using assms(2) by simp
    have e: "of_int len = (of_nat (nat len) :: uint)" using that(1) by simp
    have u: "unat (of_nat (nat len) :: uint) = nat len" using len by (intro unat_of_nat_uint) simp
    have "unat i + nat len < 2 ^ 32" using that(2) sz len by simp
    then show ?thesis unfolding e by (simp only: unat_uint_add u if_True)
  qed
  have "argptr k cur n len = Ok (Some p) \<longleftrightarrow>
      argint k cur n = Ok (Some p) \<and> \<not> (len < 0 \<or> p \<ge> ?sz \<or> p + of_int len > ?sz)"
    by (auto simp: argptr_def obind_eq_Ok Let_def split: option.splits if_split_asm)
  also have "\<dots> \<longleftrightarrow> argint k cur n = Ok (Some p) \<and> 0 \<le> len \<and> unat p < unat ?sz \<and> unat p + nat len \<le> unat ?sz"
    using sum [of p] by (auto simp: not_le not_less word_le_nat_alt word_less_nat_alt)
  finally show ?thesis .
qed

lemma fetchstr_loop_read:
  assumes "umem_read km pgdir s (length bs + 1) = Ok (bs @ [0])" and "0 \<notin> set bs" and "unat s + length bs < unat ep"
  shows "fetchstr_loop km pgdir s ep = Ok (Some bs)"
  using assms
proof (induction bs arbitrary: s)
  case Nil
  then show ?case by (subst fetchstr_loop.simps) (auto simp: obind_eq_Ok word_less_nat_alt)
next
  case (Cons b bs)
  then have b: "umem_get km pgdir s = Ok b" "umem_read km pgdir (s + 1) (length bs + 1) = Ok (bs @ [0])"
    by (auto simp: obind_eq_Ok)
  have "unat (s + 1) = unat s + 1"
    using Cons.prems(3) unat_uint_less [of ep] by (simp add: unat_uint_add)
  with Cons.IH [OF b(2)] Cons.prems b(1) show ?case
    by (subst fetchstr_loop.simps) (simp add: word_less_nat_alt)
qed

text \<open>
  C21: \<^verbatim>\<open>argptr\<close> accepts a pointer exactly when the block of the given length that begins there
  lies in the memory of the process, with no sum that wraps around.  Separately, \<^verbatim>\<open>fetchstr\<close>
  accepts a string exactly when it lies in the memory of the process together with the NUL
  that ends it, and gives the bytes that the process has there up to its first NUL.
\<close>

theorem arguments_in_process:
  assumes "p_sz (cur_proc k cur) \<le> KERNBASE" and "len < 2 ^ 31"
  shows "(argptr k cur n len = Ok (Some p) \<longleftrightarrow>
      argint k cur n = Ok (Some p) \<and> 0 \<le> len \<and> unat p < unat (p_sz (cur_proc k cur)) \<and>
      unat p + nat len \<le> unat (p_sz (cur_proc k cur))) \<and>
    (fetchstr k cur addr = Ok (Some bs) \<longleftrightarrow>
      unat addr + length bs < unat (p_sz (cur_proc k cur)) \<and> 0 \<notin> set bs \<and>
      umem_read (kkm k) (p_pgdir (cur_proc k cur)) addr (length bs + 1) = Ok (bs @ [0]))"
proof -
  let ?sz = "p_sz (cur_proc k cur)"
  have "fetchstr k cur addr = Ok (Some bs) \<longleftrightarrow>
      addr < ?sz \<and> fetchstr_loop (kkm k) (p_pgdir (cur_proc k cur)) addr ?sz = Ok (Some bs)"
    by (auto simp: fetchstr_def Let_def not_le)
  then have "fetchstr k cur addr = Ok (Some bs) \<longleftrightarrow> unat addr + length bs < unat ?sz \<and> 0 \<notin> set bs \<and>
      umem_read (kkm k) (p_pgdir (cur_proc k cur)) addr (length bs + 1) = Ok (bs @ [0])"
    using fetchstr_loop_Some fetchstr_loop_read by (metis add_lessD1 word_less_nat_alt)
  with argptr_iff [OF assms] show ?thesis by blast
qed

text \<open>
  A process with one page of memory at virtual address 0, where it has the string \<open>ab\<close> at 16
  and its stack at 256: the arguments 16, 32 and 3.
\<close>

definition demo_kmem :: kmem where
  "demo_kmem = \<lparr>klock = \<lparr>lk_locked = 0, lk_name = ''kmem'', lk_cpu = None, lk_pcs = []\<rparr>, use_lock = True, freelist = 0,
     kmemory = foldl (\<lambda>m (a, v). store32 m a v) (\<lambda>_. 0)
       [(0x80001000, 0x2007), (0x80002000, 0x3007), (0x80004044, 0x100), (0x80003104, 16),
        (0x80003108, 32), (0x8000310C, 3), (0x80003010, 0x6261)]\<rparr>"

definition demo_proc :: proc where
  "demo_proc = zero_proc\<lparr>p_sz := 4096, p_pgdir := 0x80001000, p_kstack := 0x80004000, p_state := RUNNING,
     p_pid := 9, p_tf := 0x80004000, p_cwd := Some 0\<rparr>"

definition demo_k :: "struct_file list \<Rightarrow> nat option list \<Rightarrow> 'd fssys \<Rightarrow> 'd ksys" where
  "demo_k fs ofile s = \<lparr>ftable = fs, kfs = s,
     kps = \<lparr>ptable = demo_proc\<lparr>p_ofile := ofile\<rparr> # replicate 63 zero_proc, nextpid = 10, initproc = None, cpu_proc = [Some 0], cpu_scan = [1]\<rparr>,
     kkm = demo_kmem, kpipes = (\<lambda>_. None), ticks = 0, trace = 0\<rparr>"

lemma demo_words:
  "load32 (kmemory demo_kmem) 0x80001000 = 0x2007" "load32 (kmemory demo_kmem) 0x80002000 = 0x3007"
  "load32 (kmemory demo_kmem) 0x80004044 = 0x100" "load32 (kmemory demo_kmem) 0x80003104 = 16"
  "load32 (kmemory demo_kmem) 0x80003108 = 32" "load32 (kmemory demo_kmem) 0x8000310C = 3"
  by (simp_all add: demo_kmem_def store32_def load32_def le32_def byte_of_def)

lemma demo_get: "umem_get demo_kmem 0x80001000 a = Ok (kmemory demo_kmem (0x80003000 + (a AND 0xFFF)))" if "a < 4096"
proof -
  have "unat a < 4096" using that by (simp add: word_less_nat_alt)
  then have "PDX a = 0" "PTX a = 0"
    using PDX_nat [of a] PTX_nat [of a] by (simp_all add: word_unat_eq_iff)
  then show ?thesis
    by (simp add: umem_get_def vm_pte_def present_def ent_def tab_def entry_def demo_words upage_def PTE_P_def PTE_ADDR_def
        P2V_def KERNBASE_def)
qed

lemma umem_read_4:
  "umem_read km pgdir a 4 =
     obind (umem_get km pgdir a) (\<lambda>b0. obind (umem_get km pgdir (a + 1)) (\<lambda>b1.
     obind (umem_get km pgdir (a + 2)) (\<lambda>b2. obind (umem_get km pgdir (a + 3)) (\<lambda>b3. Ok [b0, b1, b2, b3]))))"
proof -
  have n: "(4 :: nat) = Suc (Suc (Suc (Suc 0)))" by simp
  show ?thesis unfolding n by (simp add: obind_assoc add.assoc)
qed

lemma demo_cur: "cur_proc (demo_k fs ofl s) 0 = demo_proc\<lparr>p_ofile := ofl\<rparr>" "kkm (demo_k fs ofl s) = demo_kmem"
    "p_sz (demo_proc\<lparr>p_ofile := ofl\<rparr>) = 4096" "p_pgdir (demo_proc\<lparr>p_ofile := ofl\<rparr>) = 0x80001000"
    "p_tf (demo_proc\<lparr>p_ofile := ofl\<rparr>) = 0x80004000"
  by (simp_all add: cur_proc_def demo_k_def demo_proc_def)

lemma demo_argint:
  "argint (demo_k fs ofl s) 0 0 = Ok (Some 16)" "argint (demo_k fs ofl s) 0 1 = Ok (Some 32)"
  "argint (demo_k fs ofl s) 0 2 = Ok (Some 3)"
proof -
  have "of_le [kmemory demo_kmem 0x80003104, kmemory demo_kmem 0x80003105, kmemory demo_kmem 0x80003106, kmemory demo_kmem 0x80003107] = 16"
    "of_le [kmemory demo_kmem 0x80003108, kmemory demo_kmem 0x80003109, kmemory demo_kmem 0x8000310A, kmemory demo_kmem 0x8000310B] = 32"
    "of_le [kmemory demo_kmem 0x8000310C, kmemory demo_kmem 0x8000310D, kmemory demo_kmem 0x8000310E, kmemory demo_kmem 0x8000310F] = 3"
    using demo_words(4-6) by (simp_all add: load32_def of_le_def)
  then show "argint (demo_k fs ofl s) 0 0 = Ok (Some 16)" "argint (demo_k fs ofl s) 0 1 = Ok (Some 32)"
      "argint (demo_k fs ofl s) 0 2 = Ok (Some 3)"
    by (simp_all add: argint_def fetchint_def demo_cur TF_ESP_def demo_words umem_read_4 demo_get)
qed

lemma demo_fetchstr: "fetchstr (demo_k fs ofl s) 0 16 = Ok (Some [0x61, 0x62])"
proof -
  have "kmemory demo_kmem 0x80003010 = 0x61" "kmemory demo_kmem 0x80003011 = 0x62" "kmemory demo_kmem 0x80003012 = 0"
    by (simp_all add: demo_kmem_def store32_def byte_of_def)
  then have "fetchstr_loop demo_kmem 0x80001000 16 4096 = Ok (Some [0x61, 0x62])"
    by (simp add: fetchstr_loop.simps [of _ _ "16"] fetchstr_loop.simps [of _ _ "17"] fetchstr_loop.simps [of _ _ "18"] demo_get)
  then show ?thesis by (simp add: fetchstr_def demo_cur)
qed

theorem arguments_in_process_witness:
  "let k = demo_k [] [] (demo_fs (\<lambda>_ _. 0) []) in
     p_sz (cur_proc k 0) = 4096 \<and> argint k 0 0 = Ok (Some 16) \<and>
     argptr k 0 0 8 = Ok (Some 16) \<and> argptr k 0 0 4080 = Ok (Some 16) \<and> argptr k 0 0 4081 \<noteq> Ok (Some 16) \<and>
     fetchstr k 0 16 = Ok (Some [0x61, 0x62]) \<and>
     umem_read (kkm k) (p_pgdir (cur_proc k 0)) 16 3 = Ok [0x61, 0x62, 0]"
proof -
  let ?k = "demo_k [] [] (demo_fs (\<lambda>_ _. 0) [])"
  have sz: "p_sz (cur_proc ?k 0) \<le> KERNBASE" by (simp add: demo_cur KERNBASE_def)
  note P = arguments_in_process [OF sz]
  have "argptr ?k 0 0 8 = Ok (Some 16)" "argptr ?k 0 0 4080 = Ok (Some 16)" "argptr ?k 0 0 4081 \<noteq> Ok (Some 16)"
    using P [of 8 0 16] P [of 4080 0 16] P [of 4081 0 16] by (simp_all add: demo_argint demo_cur)
  moreover have "umem_read (kkm ?k) (p_pgdir (cur_proc ?k 0)) 16 3 = Ok [0x61, 0x62, 0]"
    using P [of 0 0 0 16 "[0x61, 0x62]"] demo_fetchstr [of "[]" "[]" "demo_fs (\<lambda>_ _. 0) []"] by (simp add: numeral_3_eq_3)
  ultimately show ?thesis by (simp add: Let_def demo_fetchstr demo_argint) (simp add: demo_cur)
qed

end
