(* ===== verification/Xv6_Sysfile.thy ===== *)
theory Xv6_Sysfile
  imports Xv6_Syscall
begin

text \<open>
  System calls on files, \<^verbatim>\<open>src/xv6/sysfile.c\<close>.  A call on path names is one transaction: what it
  does between \<^verbatim>\<open>begin_op\<close> and \<^verbatim>\<open>end_op\<close> works on the file system alone and is a definition of its
  own.
\<close>

section \<open>File descriptors\<close>

definition argfd :: "'d ksys \<Rightarrow> nat \<Rightarrow> nat \<Rightarrow> (nat \<times> nat) option outcome" where
  "argfd k cur n =
     obind (argint k cur n) (\<lambda>r.
       case r of
         None \<Rightarrow> Ok None
       | Some v \<Rightarrow>
           let fd = sint v
           in if fd < 0 \<or> fd \<ge> int NOFILE then Ok None
              else Ok (map_option (Pair (nat fd)) (p_ofile (cur_proc k cur) ! nat fd)))"

definition set_fd :: "'d ksys \<Rightarrow> nat \<Rightarrow> nat \<Rightarrow> nat option \<Rightarrow> 'd ksys" where
  "set_fd k cur fd v = (let p = cur_proc k cur in upd_proc k cur (p\<lparr>p_ofile := (p_ofile p)[fd := v]\<rparr>))"

definition fdalloc :: "'d ksys \<Rightarrow> nat \<Rightarrow> nat \<Rightarrow> nat option \<times> 'd ksys" where
  "fdalloc k cur f =
     (case find_idx (\<lambda>x. x = None) (p_ofile (cur_proc k cur)) of
        Some fd \<Rightarrow> (Some fd, set_fd k cur fd (Some f))
      | None \<Rightarrow> (None, k))"

definition sys_dup :: "'d kenv \<Rightarrow> nat \<Rightarrow> nat \<Rightarrow> 'd ksys \<Rightarrow> (pcall \<times> 'd ksys) outcome" where
  "sys_dup E c cur k =
     with_arg (argfd k cur 0) (ret (- 1) k) (\<lambda>(_, f).
       case fdalloc k cur f of
         (None, k1) \<Rightarrow> ret (- 1) k1
       | (Some fd, k1) \<Rightarrow> obind (filedup k1 f) (\<lambda>k2. ret (int fd) k2))"

text \<open>The bytes are stored through the page table of the process.\<close>

definition put_user :: "'d ksys \<Rightarrow> nat \<Rightarrow> uint \<Rightarrow> uchar list \<Rightarrow> 'd ksys outcome" where
  "put_user k cur a bs =
     obind (umem_write (p_pgdir (cur_proc k cur)) a bs (kkm k)) (\<lambda>km. Ok (k\<lparr>kkm := km\<rparr>))"

definition sys_read :: "'d kenv \<Rightarrow> nat \<Rightarrow> nat \<Rightarrow> 'd ksys \<Rightarrow> (pcall \<times> 'd ksys) outcome" where
  "sys_read E c cur k =
     with_arg (argfd k cur 0) (ret (- 1) k) (\<lambda>(_, f).
     with_arg (argint k cur 2) (ret (- 1) k) (\<lambda>n.
     with_arg (argptr k cur 1 (sint n)) (ret (- 1) k) (\<lambda>p.
       obind (fileread E c cur k f (sint n)) (\<lambda>(r, bs, k1).
       obind (put_user k1 cur p bs) (\<lambda>k2. Ok (r, k2))))))"

text \<open>
  The bytes to write are fetched first; every page below \<^verbatim>\<open>sz\<close> is mapped, so that cannot fault
  where the source would not.
\<close>

definition sys_write :: "'d kenv \<Rightarrow> nat \<Rightarrow> nat \<Rightarrow> 'd ksys \<Rightarrow> (pcall \<times> 'd ksys) outcome" where
  "sys_write E c cur k =
     with_arg (argfd k cur 0) (ret (- 1) k) (\<lambda>(_, f).
     with_arg (argint k cur 2) (ret (- 1) k) (\<lambda>n.
     with_arg (argptr k cur 1 (sint n)) (ret (- 1) k) (\<lambda>p.
       obind (umem_read (kkm k) (p_pgdir (cur_proc k cur)) p (nat (sint n))) (\<lambda>bs.
       filewrite E c cur k f bs (sint n)))))"

definition sys_close :: "'d kenv \<Rightarrow> nat \<Rightarrow> nat \<Rightarrow> 'd ksys \<Rightarrow> (pcall \<times> 'd ksys) outcome" where
  "sys_close E c cur k =
     with_arg (argfd k cur 0) (ret (- 1) k) (\<lambda>(fd, f).
       obind (fileclose E (cur_pid k cur) (set_fd k cur fd None) f) (\<lambda>k1. ret 0 k1))"

text \<open>\<^verbatim>\<open>struct stat\<close>: two shorts in four bytes each, of which the second half is not written.\<close>

definition put_stat :: "'d ksys \<Rightarrow> nat \<Rightarrow> uint \<Rightarrow> stat \<Rightarrow> 'd ksys outcome" where
  "put_stat k cur a sb =
     obind (put_user k cur a (take 2 (le_bytes (ucast (st_type sb))))) (\<lambda>k1.
     obind (put_user k1 cur (a + 4) (le_bytes (st_dev sb) @ le_bytes (st_ino sb) @
              take 2 (le_bytes (ucast (st_nlink sb))))) (\<lambda>k2.
     put_user k2 cur (a + 16) (le_bytes (st_size sb))))"

definition sys_fstat :: "'d kenv \<Rightarrow> nat \<Rightarrow> nat \<Rightarrow> 'd ksys \<Rightarrow> (pcall \<times> 'd ksys) outcome" where
  "sys_fstat E c cur k =
     with_arg (argfd k cur 0) (ret (- 1) k) (\<lambda>(_, f).
     with_arg (argptr k cur 1 20) (ret (- 1) k) (\<lambda>p.
       obind (filestat (cur_pid k cur) k f) (\<lambda>(r, k1).
         case r of
           None \<Rightarrow> ret (- 1) k1
         | Some sb \<Rightarrow> obind (put_stat k1 cur p sb) (\<lambda>k2. ret 0 k2))))"

definition pipe_bad :: "'d kenv \<Rightarrow> nat \<Rightarrow> nat \<Rightarrow> nat \<Rightarrow> 'd ksys \<Rightarrow> (pcall \<times> 'd ksys) outcome" where
  "pipe_bad E cur f0 f1 k =
     obind (fileclose E (cur_pid k cur) k f0) (\<lambda>k1.
     obind (fileclose E (cur_pid k1 cur) k1 f1) (\<lambda>k2. ret (- 1) k2))"

definition pipe_fds :: "'d kenv \<Rightarrow> nat \<Rightarrow> uint \<Rightarrow> nat \<Rightarrow> nat \<Rightarrow> 'd ksys \<Rightarrow> (pcall \<times> 'd ksys) outcome" where
  "pipe_fds E cur fdp f0 f1 k =
     (case fdalloc k cur f0 of
        (None, k1) \<Rightarrow> pipe_bad E cur f0 f1 k1
      | (Some fd0, k1) \<Rightarrow>
          (case fdalloc k1 cur f1 of
             (None, k2) \<Rightarrow> pipe_bad E cur f0 f1 (set_fd k2 cur fd0 None)
           | (Some fd1, k2) \<Rightarrow>
               obind (put_user k2 cur fdp (le_bytes (of_nat fd0))) (\<lambda>k3.
               obind (put_user k3 cur (fdp + 4) (le_bytes (of_nat fd1))) (\<lambda>k4. ret 0 k4))))"

definition sys_pipe :: "'d kenv \<Rightarrow> nat \<Rightarrow> nat \<Rightarrow> 'd ksys \<Rightarrow> (pcall \<times> 'd ksys) outcome" where
  "sys_pipe E c cur k =
     with_arg (argptr k cur 0 8) (ret (- 1) k) (\<lambda>fdp.
     obind (pipealloc E (cur_pid k cur) k) (\<lambda>(r, k1).
       case r of
         None \<Rightarrow> ret (- 1) k1
       | Some (f0, f1) \<Rightarrow> pipe_fds E cur fdp f0 f1 k1))"

section \<open>Paths\<close>

text \<open>The names \<^verbatim>\<open>"."\<close> and \<^verbatim>\<open>".."\<close>.\<close>

definition DOT :: carray where "DOT = (\<lambda>_. 0)(0 := 46)"
definition DOTDOT :: carray where "DOTDOT = (\<lambda>_. 0)(0 := 46, 1 := 46)"

definition upd_i :: "'d fssys \<Rightarrow> nat \<Rightarrow> (inode \<Rightarrow> inode) \<Rightarrow> 'd fssys" where
  "upd_i s ip g = set_i s ip (g (icache s ! ip))"

definition link_bad :: "int \<Rightarrow> 'd fssys \<Rightarrow> nat \<Rightarrow> (int \<times> 'd fssys) outcome" where
  "link_bad pid s ip =
     obind (ilock pid s (Some ip)) (\<lambda>s1.
     obind (iupdate pid (upd_i s1 ip (\<lambda>i. i\<lparr>i_nlink := i_nlink i - 1\<rparr>)) ip) (\<lambda>s2.
     obind (iunlockput pid s2 ip) (\<lambda>s3. Ok (- 1, s3))))"

definition link_in ::
  "'d devsw list \<Rightarrow> int \<Rightarrow> nat option \<Rightarrow> uchar list \<Rightarrow> uchar list \<Rightarrow> 'd fssys \<Rightarrow> (int \<times> 'd fssys) outcome" where
  "link_in devs pid cwd old new s =
     obind (namei devs pid s cwd old) (\<lambda>(r, s1).
       case r of
         None \<Rightarrow> Ok (- 1, s1)
       | Some ip \<Rightarrow>
           obind (ilock pid s1 (Some ip)) (\<lambda>s2.
           if i_type (icache s2 ! ip) = T_DIR
           then obind (iunlockput pid s2 ip) (\<lambda>s3. Ok (- 1, s3))
           else obind (iupdate pid (upd_i s2 ip (\<lambda>i. i\<lparr>i_nlink := i_nlink i + 1\<rparr>)) ip) (\<lambda>s3.
                obind (iunlock pid s3 (Some ip)) (\<lambda>s4.
                obind (nameiparent devs pid s4 cwd new (\<lambda>_. 0)) (\<lambda>(r, name, s5).
                  case r of
                    None \<Rightarrow> link_bad pid s5 ip
                  | Some dp \<Rightarrow>
                      obind (ilock pid s5 (Some dp)) (\<lambda>s6.
                      obind (if i_dev (icache s6 ! dp) \<noteq> i_dev (icache s6 ! ip) then Ok (- 1, s6)
                             else dirlink devs pid s6 dp name (i_inum (icache s6 ! ip))) (\<lambda>(r, s7).
                      obind (iunlockput pid s7 dp) (\<lambda>s8.
                      if r < 0 then link_bad pid s8 ip
                      else obind (iput pid s8 ip) (\<lambda>s9. Ok (0, s9))))))))))"

text \<open>\<^verbatim>\<open>isdirempty\<close> skips the first two entries.\<close>

primrec isdirempty_in :: "'d devsw list \<Rightarrow> int \<Rightarrow> 'd fssys \<Rightarrow> nat \<Rightarrow> nat list \<Rightarrow> (bool \<times> 'd fssys) outcome" where
  "isdirempty_in devs pid s dp [] = Ok (True, s)"
| "isdirempty_in devs pid s dp (off # offs) =
     obind (readi devs pid s dp (of_nat off) 16) (\<lambda>(r, de, s1).
       if r \<noteq> 16 then Panic ''isdirempty: readi''
       else if de_inum de \<noteq> 0 then Ok (False, s1)
       else isdirempty_in devs pid s1 dp offs)"

definition isdirempty :: "'d devsw list \<Rightarrow> int \<Rightarrow> 'd fssys \<Rightarrow> nat \<Rightarrow> (bool \<times> 'd fssys) outcome" where
  "isdirempty devs pid s dp = isdirempty_in devs pid s dp (drop 2 (de_offsets (i_size (icache s ! dp))))"

definition unlink_in ::
  "'d devsw list \<Rightarrow> int \<Rightarrow> nat option \<Rightarrow> uchar list \<Rightarrow> 'd fssys \<Rightarrow> (int \<times> 'd fssys) outcome" where
  "unlink_in devs pid cwd pth s =
     obind (nameiparent devs pid s cwd pth (\<lambda>_. 0)) (\<lambda>(r, name, s1).
       case r of
         None \<Rightarrow> Ok (- 1, s1)
       | Some dp \<Rightarrow>
           let bad = (\<lambda>s. obind (iunlockput pid s dp) (\<lambda>s'. Ok (- 1, s')))
           in obind (ilock pid s1 (Some dp)) (\<lambda>s2.
              if namecmp name DOT = 0 \<or> namecmp name DOTDOT = 0 then bad s2
              else obind (dirlookup devs pid s2 dp name) (\<lambda>(r, s3).
                case r of
                  None \<Rightarrow> bad s3
                | Some (ip, off) \<Rightarrow>
                    obind (ilock pid s3 (Some ip)) (\<lambda>s4.
                    if sint (i_nlink (icache s4 ! ip)) < 1 then Panic ''unlink: nlink < 1''
                    else obind (if i_type (icache s4 ! ip) = T_DIR then isdirempty devs pid s4 ip else Ok (True, s4))
                      (\<lambda>(empty, s5).
                      if \<not> empty then obind (iunlockput pid s5 ip) bad
                      else obind (writei devs pid s5 dp (replicate 16 0) off 16) (\<lambda>(w, s6).
                        if w \<noteq> 16 then Panic ''unlink: writei''
                        else obind (if i_type (icache s6 ! ip) = T_DIR
                                    then iupdate pid (upd_i s6 dp (\<lambda>i. i\<lparr>i_nlink := i_nlink i - 1\<rparr>)) dp
                                    else Ok s6) (\<lambda>s7.
                             obind (iunlockput pid s7 dp) (\<lambda>s8.
                             obind (iupdate pid (upd_i s8 ip (\<lambda>i. i\<lparr>i_nlink := i_nlink i - 1\<rparr>)) ip) (\<lambda>s9.
                             obind (iunlockput pid s9 ip) (\<lambda>s10. Ok (0, s10)))))))))))"

text \<open>\<^verbatim>\<open>create\<close> once the name is known to be new; \<open>dp\<close> is locked.\<close>

definition create_new ::
  "'d devsw list \<Rightarrow> int \<Rightarrow> 'd fssys \<Rightarrow> nat \<Rightarrow> carray \<Rightarrow> ushort \<Rightarrow> ushort \<Rightarrow> ushort \<Rightarrow> (nat option \<times> 'd fssys) outcome" where
  "create_new devs pid s dp name ty major minor =
     obind (ialloc pid s (i_dev (icache s ! dp)) ty) (\<lambda>(ip, s1).
     obind (ilock pid s1 (Some ip)) (\<lambda>s2.
     obind (iupdate pid (upd_i s2 ip (\<lambda>i. i\<lparr>i_major := major, i_minor := minor, i_nlink := 1\<rparr>)) ip) (\<lambda>s3.
     obind (if ty = T_DIR
            then obind (iupdate pid (upd_i s3 dp (\<lambda>i. i\<lparr>i_nlink := i_nlink i + 1\<rparr>)) dp) (\<lambda>s4.
                 obind (dirlink devs pid s4 ip DOT (i_inum (icache s4 ! ip))) (\<lambda>(r1, s5).
                 if r1 < 0 then Panic ''create dots''
                 else obind (dirlink devs pid s5 ip DOTDOT (i_inum (icache s5 ! dp))) (\<lambda>(r2, s6).
                      if r2 < 0 then Panic ''create dots'' else Ok s6)))
            else Ok s3) (\<lambda>s7.
     obind (dirlink devs pid s7 dp name (i_inum (icache s7 ! ip))) (\<lambda>(r, s8).
     if r < 0 then Panic ''create: dirlink''
     else obind (iunlockput pid s8 dp) (\<lambda>s9. Ok (Some ip, s9)))))))"

definition create ::
  "'d devsw list \<Rightarrow> int \<Rightarrow> nat option \<Rightarrow> uchar list \<Rightarrow> ushort \<Rightarrow> ushort \<Rightarrow> ushort \<Rightarrow> 'd fssys \<Rightarrow> (nat option \<times> 'd fssys) outcome" where
  "create devs pid cwd pth ty major minor s =
     obind (nameiparent devs pid s cwd pth (\<lambda>_. 0)) (\<lambda>(r, name, s1).
       case r of
         None \<Rightarrow> Ok (None, s1)
       | Some dp \<Rightarrow>
           obind (ilock pid s1 (Some dp)) (\<lambda>s2.
           obind (dirlookup devs pid s2 dp name) (\<lambda>(r, s3).
             case r of
               Some (ip, _) \<Rightarrow>
                 obind (iunlockput pid s3 dp) (\<lambda>s4.
                 obind (ilock pid s4 (Some ip)) (\<lambda>s5.
                 if ty = T_FILE \<and> i_type (icache s5 ! ip) = T_FILE then Ok (Some ip, s5)
                 else obind (iunlockput pid s5 ip) (\<lambda>s6. Ok (None, s6))))
             | None \<Rightarrow> create_new devs pid s3 dp name ty major minor)))"

section \<open>System calls on paths\<close>

text \<open>A transaction around an operation of the file system.\<close>

definition k_op :: "int \<Rightarrow> 'd ksys \<Rightarrow> ('d fssys \<Rightarrow> ('a \<times> 'd fssys) outcome) \<Rightarrow> ('a \<times> 'd ksys) outcome" where
  "k_op pid k body =
     obind (k_begin k) (\<lambda>k1.
     obind (body (kfs k1)) (\<lambda>(r, s).
     obind (k_end pid (k1\<lparr>kfs := s\<rparr>)) (\<lambda>k2. Ok (r, k2))))"

definition sys_link :: "'d kenv \<Rightarrow> nat \<Rightarrow> nat \<Rightarrow> 'd ksys \<Rightarrow> (pcall \<times> 'd ksys) outcome" where
  "sys_link E c cur k =
     with_arg (argstr k cur 0) (ret (- 1) k) (\<lambda>old.
     with_arg (argstr k cur 1) (ret (- 1) k) (\<lambda>new.
       obind (k_op (cur_pid k cur) k (link_in (e_devs E) (cur_pid k cur) (p_cwd (cur_proc k cur)) old new))
         (\<lambda>(r, k1). ret r k1)))"

definition sys_unlink :: "'d kenv \<Rightarrow> nat \<Rightarrow> nat \<Rightarrow> 'd ksys \<Rightarrow> (pcall \<times> 'd ksys) outcome" where
  "sys_unlink E c cur k =
     with_arg (argstr k cur 0) (ret (- 1) k) (\<lambda>pth.
       obind (k_op (cur_pid k cur) k (unlink_in (e_devs E) (cur_pid k cur) (p_cwd (cur_proc k cur)) pth))
         (\<lambda>(r, k1). ret r k1))"

definition O_RDONLY :: uint where "O_RDONLY = 0"
definition O_WRONLY :: uint where "O_WRONLY = 1"
definition O_RDWR :: uint where "O_RDWR = 2"
definition O_CREATE :: uint where "O_CREATE = 0x200"

text \<open>What \<^verbatim>\<open>sys_open\<close> does to find or make the inode, which it leaves locked.\<close>

definition open_ino ::
  "'d devsw list \<Rightarrow> int \<Rightarrow> nat option \<Rightarrow> uchar list \<Rightarrow> uint \<Rightarrow> 'd fssys \<Rightarrow> (nat option \<times> 'd fssys) outcome" where
  "open_ino devs pid cwd pth omode s =
     (if omode AND O_CREATE \<noteq> 0 then create devs pid cwd pth T_FILE 0 0 s
      else obind (namei devs pid s cwd pth) (\<lambda>(r, s1).
             case r of
               None \<Rightarrow> Ok (None, s1)
             | Some ip \<Rightarrow>
                 obind (ilock pid s1 (Some ip)) (\<lambda>s2.
                 if i_type (icache s2 ! ip) = T_DIR \<and> omode \<noteq> O_RDONLY
                 then obind (iunlockput pid s2 ip) (\<lambda>s3. Ok (None, s3))
                 else Ok (Some ip, s2))))"

definition open_file :: "uint \<Rightarrow> nat \<Rightarrow> struct_file \<Rightarrow> struct_file" where
  "open_file omode ip x =
     x\<lparr>f_type := FD_INODE, f_ip := ip, f_off := 0, f_readable := (omode AND O_WRONLY = 0),
       f_writable := (omode AND O_WRONLY \<noteq> 0 \<or> omode AND O_RDWR \<noteq> 0)\<rparr>"

text \<open>Its end: a file and a descriptor for the locked inode, and the two ways out.\<close>

definition open_bad :: "int \<Rightarrow> nat \<Rightarrow> 'd ksys \<Rightarrow> (pcall \<times> 'd ksys) outcome" where
  "open_bad pid ip k =
     obind (k_fs k (iunlockput pid (kfs k) ip)) (\<lambda>k1. obind (k_end pid k1) (\<lambda>k2. ret (- 1) k2))"

definition open_fd :: "'d kenv \<Rightarrow> int \<Rightarrow> nat \<Rightarrow> uint \<Rightarrow> nat \<Rightarrow> 'd ksys \<Rightarrow> (pcall \<times> 'd ksys) outcome" where
  "open_fd E pid cur omode ip k =
     (case filealloc k of
        (None, k1) \<Rightarrow> open_bad pid ip k1
      | (Some f, k1) \<Rightarrow>
          (case fdalloc k1 cur f of
             (None, k2) \<Rightarrow> obind (fileclose E pid k2 f) (open_bad pid ip)
           | (Some fd, k2) \<Rightarrow>
               obind (k_fs k2 (iunlock pid (kfs k2) (Some ip))) (\<lambda>k3.
               obind (k_end pid k3) (\<lambda>k4.
               ret (int fd) (set_f k4 f (open_file omode ip (ftable k4 ! f)))))))"

definition sys_open :: "'d kenv \<Rightarrow> nat \<Rightarrow> nat \<Rightarrow> 'd ksys \<Rightarrow> (pcall \<times> 'd ksys) outcome" where
  "sys_open E c cur k =
     with_arg (argstr k cur 0) (ret (- 1) k) (\<lambda>pth.
     with_arg (argint k cur 1) (ret (- 1) k) (\<lambda>omode.
       let pid = cur_pid k cur
       in obind (k_begin k) (\<lambda>k1.
          obind (open_ino (e_devs E) pid (p_cwd (cur_proc k cur)) pth omode (kfs k1)) (\<lambda>(r, s2).
          let k2 = k1\<lparr>kfs := s2\<rparr>
          in case r of
               None \<Rightarrow> obind (k_end pid k2) (\<lambda>k3. ret (- 1) k3)
             | Some ip \<Rightarrow> open_fd E pid cur omode ip k2))))"

text \<open>\<^verbatim>\<open>create\<close>, then \<^verbatim>\<open>iunlockput\<close>: what \<^verbatim>\<open>sys_mkdir\<close> and \<^verbatim>\<open>sys_mknod\<close> share.\<close>

definition create_put ::
  "'d devsw list \<Rightarrow> int \<Rightarrow> nat option \<Rightarrow> uchar list \<Rightarrow> ushort \<Rightarrow> ushort \<Rightarrow> ushort \<Rightarrow> 'd fssys \<Rightarrow> (int \<times> 'd fssys) outcome" where
  "create_put devs pid cwd pth ty major minor s =
     obind (create devs pid cwd pth ty major minor s) (\<lambda>(r, s1).
       case r of
         None \<Rightarrow> Ok (- 1, s1)
       | Some ip \<Rightarrow> obind (iunlockput pid s1 ip) (\<lambda>s2. Ok (0, s2)))"

text \<open>
  These calls begin the transaction before they look at their arguments, which \<^verbatim>\<open>begin_op\<close> does
  not change.
\<close>

definition sys_mkdir :: "'d kenv \<Rightarrow> nat \<Rightarrow> nat \<Rightarrow> 'd ksys \<Rightarrow> (pcall \<times> 'd ksys) outcome" where
  "sys_mkdir E c cur k =
     obind (k_op (cur_pid k cur) k (\<lambda>s.
       with_arg (argstr k cur 0) (Ok (- 1, s)) (\<lambda>pth.
         create_put (e_devs E) (cur_pid k cur) (p_cwd (cur_proc k cur)) pth T_DIR 0 0 s))) (\<lambda>(r, k1). ret r k1)"

definition sys_mknod :: "'d kenv \<Rightarrow> nat \<Rightarrow> nat \<Rightarrow> 'd ksys \<Rightarrow> (pcall \<times> 'd ksys) outcome" where
  "sys_mknod E c cur k =
     obind (k_op (cur_pid k cur) k (\<lambda>s.
       with_arg (argstr k cur 0) (Ok (- 1, s)) (\<lambda>pth.
       with_arg (argint k cur 1) (Ok (- 1, s)) (\<lambda>major.
       with_arg (argint k cur 2) (Ok (- 1, s)) (\<lambda>minor.
         create_put (e_devs E) (cur_pid k cur) (p_cwd (cur_proc k cur)) pth T_DEV (ucast major) (ucast minor) s)))))
     (\<lambda>(r, k1). ret r k1)"

definition chdir_in ::
  "'d devsw list \<Rightarrow> int \<Rightarrow> nat option \<Rightarrow> uchar list \<Rightarrow> 'd fssys \<Rightarrow> (nat option \<times> 'd fssys) outcome" where
  "chdir_in devs pid cwd pth s =
     obind (namei devs pid s cwd pth) (\<lambda>(r, s1).
       case r of
         None \<Rightarrow> Ok (None, s1)
       | Some ip \<Rightarrow>
           obind (ilock pid s1 (Some ip)) (\<lambda>s2.
           if i_type (icache s2 ! ip) \<noteq> T_DIR
           then obind (iunlockput pid s2 ip) (\<lambda>s3. Ok (None, s3))
           else obind (iunlock pid s2 (Some ip)) (\<lambda>s3.
                case cwd of
                  None \<Rightarrow> Panic ''trap''
                | Some old \<Rightarrow> obind (iput pid s3 old) (\<lambda>s4. Ok (Some ip, s4)))))"

definition sys_chdir :: "'d kenv \<Rightarrow> nat \<Rightarrow> nat \<Rightarrow> 'd ksys \<Rightarrow> (pcall \<times> 'd ksys) outcome" where
  "sys_chdir E c cur k =
     obind (k_op (cur_pid k cur) k (\<lambda>s.
       with_arg (argstr k cur 0) (Ok (None, s)) (\<lambda>pth.
         chdir_in (e_devs E) (cur_pid k cur) (p_cwd (cur_proc k cur)) pth s))) (\<lambda>(r, k1).
     case r of
       None \<Rightarrow> ret (- 1) k1
     | Some ip \<Rightarrow> ret 0 (upd_proc k1 cur ((cur_proc k1 cur)\<lparr>p_cwd := Some ip\<rparr>)))"

section \<open>Descriptors and reference counts\<close>

definition running :: "'d ksys \<Rightarrow> nat \<Rightarrow> bool" where
  "running k cur \<longleftrightarrow> cur < length (ptable (kps k)) \<and> \<not> dead (ptable (kps k) ! cur)"

lemma with_arg_Ok:
  "with_arg m failed f = Ok y \<longleftrightarrow> (m = Ok None \<and> failed = Ok y) \<or> (\<exists>x. m = Ok (Some x) \<and> f x = Ok y)"
  by (auto simp: with_arg_def obind_eq_Ok split: option.splits)

lemma running_ok:
  "fd_inv d k \<Longrightarrow> running k cur \<Longrightarrow> files_ok (length (ftable k)) (cur_proc k cur)"
  by (simp add: fd_inv_def running_def cur_proc_def)

lemma argfd_Some:
  assumes "fd_inv d k" and "running k cur" and "argfd k cur n = Ok (Some (fd, f))"
  shows "fd < NOFILE" and "p_ofile (cur_proc k cur) ! fd = Some f" and "f < length (ftable k)"
proof -
  show fd: "fd < NOFILE" "p_ofile (cur_proc k cur) ! fd = Some f"
    using assms(3) by (auto simp: argfd_def obind_eq_Ok Let_def split: option.splits if_splits)
  with running_ok [OF assms(1,2)] show "f < length (ftable k)"
    using nth_mem [of fd "p_ofile (cur_proc k cur)"] by (auto simp: files_ok_def)
qed

lemma set_fd_simps [simp]: "ftable (set_fd k cur fd v) = ftable k" "kfs (set_fd k cur fd v) = kfs k"
  by (simp_all add: set_fd_def upd_proc_def Let_def)

lemma set_fd_running: "running k cur \<Longrightarrow> running (set_fd k cur fd v) cur"
  by (simp add: running_def set_fd_def upd_proc_def set_proc_def cur_proc_def dead_def Let_def)

lemma set_fd_proc: "running k cur \<Longrightarrow> p_ofile (cur_proc (set_fd k cur fd v) cur) = (p_ofile (cur_proc k cur))[fd := v]"
  by (simp add: running_def set_fd_def upd_proc_def set_proc_def cur_proc_def Let_def)

lemma fdalloc_inv:
  assumes inv: "fd_inv d k" and run: "running k cur" and f: "f < length (ftable k)"
    and a: "fdalloc k cur f = (Some fd, k')"
  shows "fd_inv (\<lambda>g. d g - (if g = f then 1 else 0)) k'" and "running k' cur" and "ftable k' = ftable k"
    and "fd < NOFILE" and "p_ofile (cur_proc k' cur) ! fd = Some f" and "kfs k' = kfs k"
proof -
  have fd: "fd < length (p_ofile (cur_proc k cur))" "p_ofile (cur_proc k cur) ! fd = None" "k' = set_fd k cur fd (Some f)"
    using a by (auto simp: fdalloc_def find_idx_Some_iff split: option.splits)
  have len: "length (p_ofile (cur_proc k cur)) = NOFILE" using running_ok [OF inv run] by (simp add: files_ok_def)
  show "fd_inv (\<lambda>g. d g - (if g = f then 1 else 0)) k'"
    unfolding fd(3) set_fd_def Let_def
    using run f fd(1,2) len by (intro set_fd_inv [OF inv]) (auto simp: running_def)
  show "running k' cur" "ftable k' = ftable k" "fd < NOFILE" "kfs k' = kfs k"
      "p_ofile (cur_proc k' cur) ! fd = Some f"
    using set_fd_running [OF run] set_fd_proc [OF run] fd len by simp_all
qed

lemma fdalloc_None: "fdalloc k cur f = (None, k') \<Longrightarrow> k' = k"
  by (auto simp: fdalloc_def split: option.splits)

lemma set_fd_None_inv:
  assumes "fd_inv d k" and "running k cur" and "fd < NOFILE" and "p_ofile (cur_proc k cur) ! fd = Some f"
  shows "fd_inv (\<lambda>g. d g + (if g = f then 1 else 0)) (set_fd k cur fd None)"
  unfolding set_fd_def Let_def using assms by (intro set_fd_inv [OF assms(1)]) (auto simp: running_def)

lemma sys_dup_inv:
  assumes inv: "fd_inv d k" and run: "running k cur" and s: "sys_dup E c cur k = Ok (r, k')"
  shows "fd_inv d k'"
proof -
  consider "k' = k" | fd0 f where "argfd k cur 0 = Ok (Some (fd0, f))"
      "(case fdalloc k cur f of (None, k1) \<Rightarrow> ret (- 1) k1
        | (Some fd, k1) \<Rightarrow> obind (filedup k1 f) (\<lambda>k2. ret (int fd) k2)) = Ok (r, k')"
    using s by (auto simp: sys_dup_def with_arg_Ok ret_def)
  then consider "k' = k" | fd0 f fd k1 where "argfd k cur 0 = Ok (Some (fd0, f))" "fdalloc k cur f = (Some fd, k1)" "filedup k1 f = Ok k'"
    by cases (auto simp: ret_def obind_eq_Ok split: prod.split_asm option.split_asm dest: fdalloc_None)
  then show ?thesis
  proof cases
    case 2
    note a = argfd_Some [OF inv run 2(1)]
    note b = fdalloc_inv [OF inv run a(3) 2(2)]
    have "fd_inv (\<lambda>g. d g - (if g = f then 1 else 0) + (if g = f then 1 else 0)) k'"
      using filedup_inv [OF b(1) _ 2(3)] a(3) b(3) by simp
    then show ?thesis by simp
  qed (use inv in simp)
qed

lemma sys_close_inv:
  assumes inv: "fd_inv d k" and run: "running k cur" and s: "sys_close E c cur k = Ok (r, k')"
  shows "fd_inv d k'"
proof -
  consider "k' = k" | fd f where "argfd k cur 0 = Ok (Some (fd, f))" "fileclose E (cur_pid k cur) (set_fd k cur fd None) f = Ok k'"
    using s by (auto simp: sys_close_def with_arg_Ok ret_def obind_eq_Ok)
  then show ?thesis
  proof cases
    case 2
    note a = argfd_Some [OF inv run 2(1)]
    have "fd_inv (\<lambda>g. d g + (if g = f then 1 else 0) - (if g = f then 1 else 0)) k'"
      using fileclose_inv [OF set_fd_None_inv [OF inv run a(1,2)] _ 2(2)] a(3) by simp
    then show ?thesis by simp
  qed (use inv in simp)
qed

lemma keeps_put_user: "put_user k cur a bs = Ok k' \<Longrightarrow> keeps_files k k'"
  by (auto simp: put_user_def obind_eq_Ok keeps_files_def)

lemma keeps_k_op: "k_op pid k body = Ok (r, k') \<Longrightarrow> keeps_files k k'"
proof -
  assume "k_op pid k body = Ok (r, k')"
  then obtain k1 s where "k_begin k = Ok k1" "k_end pid (k1\<lparr>kfs := s\<rparr>) = Ok k'"
    by (auto simp: k_op_def obind_eq_Ok)
  moreover have "keeps_files k1 (k1\<lparr>kfs := s\<rparr>)" by (simp add: keeps_files_def)
  ultimately show ?thesis using keeps_intros keeps_files_trans by metis
qed

text \<open>The calls that leave the descriptors and counts alone.\<close>

lemma keeps_sysfile:
  "sys_read E c cur k = Ok (r, k') \<Longrightarrow> keeps_files k k'"
  "sys_write E c cur k = Ok (r, k') \<Longrightarrow> keeps_files k k'"
  "sys_fstat E c cur k = Ok (r, k') \<Longrightarrow> keeps_files k k'"
  "sys_link E c cur k = Ok (r, k') \<Longrightarrow> keeps_files k k'"
  "sys_unlink E c cur k = Ok (r, k') \<Longrightarrow> keeps_files k k'"
  "sys_mkdir E c cur k = Ok (r, k') \<Longrightarrow> keeps_files k k'"
  "sys_mknod E c cur k = Ok (r, k') \<Longrightarrow> keeps_files k k'"
  "sys_chdir E c cur k = Ok (r, k') \<Longrightarrow> keeps_files k k'"
proof -
  show "keeps_files k k'" if "sys_read E c cur k = Ok (r, k')"
    using that by (auto simp: sys_read_def with_arg_Ok ret_def obind_eq_Ok
        dest!: keeps_fileread keeps_put_user intro: keeps_files_trans)
  show "keeps_files k k'" if "sys_write E c cur k = Ok (r, k')"
    using that by (auto simp: sys_write_def with_arg_Ok ret_def obind_eq_Ok dest!: keeps_filewrite)
  have fs: "keeps_files k k1" if "filestat pid k f = Ok (x, k1)" for pid f x k1
    using that by (auto simp: filestat_def obind_eq_Ok Let_def keeps_files_def split: if_splits)
  have ps: "keeps_files k1 k2" if "put_stat k1 cur p sb = Ok k2" for k1 k2 p sb
    using that by (auto simp: put_stat_def obind_eq_Ok dest!: keeps_put_user intro: keeps_files_trans)
  show "keeps_files k k'" if "sys_fstat E c cur k = Ok (r, k')"
    using that by (auto simp: sys_fstat_def with_arg_Ok ret_def obind_eq_Ok split: option.splits
        dest!: fs ps intro: keeps_files_trans)
  show "keeps_files k k'" if "sys_chdir E c cur k = Ok (r, k')"
  proof -
    have cwd: "keeps_files k1 (upd_proc k1 cur ((cur_proc k1 cur)\<lparr>p_cwd := v\<rparr>))" for k1 v
      by (auto simp: keeps_files_def upd_proc_def cur_proc_def dead_def intro!: keeps_set_proc)
    from that show ?thesis
      by (auto simp: sys_chdir_def ret_def obind_eq_Ok split: option.splits dest!: keeps_k_op intro: keeps_files_trans [OF _ cwd])
  qed
qed (auto simp: sys_link_def sys_unlink_def sys_mkdir_def sys_mknod_def with_arg_Ok ret_def obind_eq_Ok dest: keeps_k_op)

lemma running_keeps:
  assumes "fd_inv d k" and "keeps_ofile (kps k) (kps k')" and "running k cur" and "Some f \<in> set (p_ofile (cur_proc k cur))"
  shows "running k' cur"
  using assms keeps_length [OF assms(2)] unfolding running_def keeps_ofile_def cur_proc_def by fastforce

text \<open>
  The end of \<^verbatim>\<open>sys_open\<close>: on failure the file is closed again, on success the descriptor takes
  over its reference.
\<close>

lemma keeps_open_bad: "open_bad pid ip k = Ok (r, k') \<Longrightarrow> keeps_files k k'"
  by (auto simp: open_bad_def obind_eq_Ok ret_def dest!: keeps_intros intro: keeps_files_trans)

lemma open_fd_inv:
  assumes inv: "fd_inv d k" and run: "running k cur" and s: "open_fd E pid cur omode ip k = Ok (r, k')"
  shows "fd_inv d k'"
proof -
  obtain ro k1 where fa: "filealloc k = (ro, k1)" by force
  show ?thesis
  proof (cases ro)
    case None
    with fa filealloc_None have "k1 = k" by blast
    with s None fa show ?thesis
      using inv by (auto simp: open_fd_def dest!: keeps_open_bad intro: keeps_files_inv)
  next
    case (Some f)
    note fa = fa[unfolded Some]
    note i1 = filealloc_inv [OF inv fa]
    have run1: "running k1 cur" using run i1(3) by (simp add: running_def)
    obtain fdo k2 where fd: "fdalloc k1 cur f = (fdo, k2)" by force
    show ?thesis
    proof (cases fdo)
      case None
      then have "k2 = k1" using fd fdalloc_None by blast
      with s fa fd None obtain k3 where c: "fileclose E pid k1 f = Ok k3" "open_bad pid ip k3 = Ok (r, k')"
        by (auto simp: open_fd_def obind_eq_Ok)
      have "fd_inv d k3" using fileclose_inv(1) [OF i1(2,1) c(1)] by simp
      then show ?thesis by (rule keeps_files_inv [OF keeps_open_bad [OF c(2)]])
    next
      case (Some n)
      note i2 = fdalloc_inv [OF i1(2) run1 i1(1) fd[unfolded Some]]
      obtain k3 k4 where c: "k_fs k2 (iunlock pid (kfs k2) (Some ip)) = Ok k3" "k_end pid k3 = Ok k4"
          "k' = set_f k4 f (open_file omode ip (ftable k4 ! f))"
        using s fa fd Some by (auto simp: open_fd_def obind_eq_Ok ret_def)
      have "keeps_files k4 k'" unfolding c(3) by (rule keeps_set_f) (simp add: open_file_def)
      then have "keeps_files k2 k'"
        by (rule keeps_files_trans [OF keeps_files_trans [OF keeps_k_fs [OF c(1)] keeps_k_end [OF c(2)]]])
      moreover have "fd_inv d k2" using i2(1) by simp
      ultimately show ?thesis by (rule keeps_files_inv)
    qed
  qed
qed

lemma sys_open_inv:
  assumes inv: "fd_inv d k" and run: "running k cur" and s: "sys_open E c cur k = Ok (r, k')"
  shows "fd_inv d k'"
proof -
  consider "k' = k" | omode k1 x s2 where "k_begin k = Ok k1"
      "(case x of None \<Rightarrow> obind (k_end (cur_pid k cur) (k1\<lparr>kfs := s2\<rparr>)) (\<lambda>k3. ret (- 1) k3)
        | Some ip \<Rightarrow> open_fd E (cur_pid k cur) cur omode ip (k1\<lparr>kfs := s2\<rparr>)) = Ok (r, k')"
    using s by (auto simp: sys_open_def with_arg_Ok ret_def obind_eq_Ok Let_def)
  then show ?thesis
  proof cases
    case 2
    then have "fd_inv d (k1\<lparr>kfs := s2\<rparr>)" "running (k1\<lparr>kfs := s2\<rparr>) cur"
      using run keeps_files_inv [OF keeps_k_begin [OF 2(1)] inv]
      by (auto simp: k_begin_def obind_eq_Ok running_def fd_inv_def)
    with 2(2) show ?thesis
      by (cases x) (auto simp: obind_eq_Ok ret_def dest!: keeps_k_end intro: open_fd_inv keeps_files_inv)
  qed (use inv in simp)
qed

lemma pipe_bad_inv:
  assumes inv: "fd_inv (\<lambda>g. d g + (if g = f0 then 1 else 0) + (if g = f1 then 1 else 0)) k"
    and f: "f0 < length (ftable k)" "f1 < length (ftable k)" and s: "pipe_bad E cur f0 f1 k = Ok (r, k')"
  shows "fd_inv d k'"
proof -
  obtain k1 where c: "fileclose E (cur_pid k cur) k f0 = Ok k1" "fileclose E (cur_pid k1 cur) k1 f1 = Ok k'"
    using s by (auto simp: pipe_bad_def obind_eq_Ok ret_def)
  note c1 = fileclose_inv [OF inv f(1) c(1)]
  have "(\<lambda>g. d g + (if g = f0 then 1 else 0) + (if g = f1 then 1 else 0) - (if g = f0 then 1 else 0) -
      (if g = f1 then 1 else 0)) = d" by auto
  with fileclose_inv(1) [OF c1(1) _ c(2)] f(2) c1(3) show ?thesis by simp
qed

lemma pipe_fds_inv:
  assumes inv: "fd_inv (\<lambda>g. d g + (if g = f0 then 1 else 0) + (if g = f1 then 1 else 0)) k" and run: "running k cur"
    and f: "f0 < length (ftable k)" "f1 < length (ftable k)" and s: "pipe_fds E cur fdp f0 f1 k = Ok (r, k')"
  shows "fd_inv d k'"
proof -
  obtain fdo k1 where fd0: "fdalloc k cur f0 = (fdo, k1)" by force
  show ?thesis
  proof (cases fdo)
    case None
    then have "k1 = k" using fd0 fdalloc_None by blast
    with s fd0 None inv f show ?thesis by (auto simp: pipe_fds_def intro: pipe_bad_inv)
  next
    case (Some n0)
    note i1 = fdalloc_inv [OF inv run f(1) fd0[unfolded Some]]
    obtain fdo1 k2 where fd1: "fdalloc k1 cur f1 = (fdo1, k2)" by force
    have f1: "f1 < length (ftable k1)" using f(2) i1(3) by simp
    show ?thesis
    proof (cases fdo1)
      case None
      then have "k2 = k1" using fd1 fdalloc_None by blast
      then have bad: "pipe_bad E cur f0 f1 (set_fd k1 cur n0 None) = Ok (r, k')"
        using s fd0 fd1 Some None by (simp add: pipe_fds_def)
      have "fd_inv (\<lambda>g. d g + (if g = f0 then 1 else 0) + (if g = f1 then 1 else 0)) (set_fd k1 cur n0 None)"
        using set_fd_None_inv [OF i1(1,2,4,5)] by (simp add: algebra_simps)
      then show ?thesis using f i1(3) by (intro pipe_bad_inv [OF _ _ _ bad]) simp_all
    next
      case (Some n1)
      note i2 = fdalloc_inv [OF i1(1,2) f1 fd1[unfolded Some]]
      have "keeps_files k2 k'"
        using s fd0 fd1 Some \<open>fdo = Some n0\<close>
        by (auto simp: pipe_fds_def obind_eq_Ok ret_def dest!: keeps_put_user intro: keeps_files_trans)
      moreover have "(\<lambda>g. d g + (if g = f0 then 1 else 0) + (if g = f1 then 1 else 0) - (if g = f0 then 1 else 0) -
          (if g = f1 then 1 else 0)) = d" by auto
      ultimately show ?thesis using keeps_files_inv [OF _ i2(1)] by simp
    qed
  qed
qed

lemma sys_pipe_inv:
  assumes inv: "fd_inv d k" and run: "running k cur" and s: "sys_pipe E c cur k = Ok (r, k')"
  shows "fd_inv d k'"
proof -
  consider "k' = k" | fdp x k1 where "pipealloc E (cur_pid k cur) k = Ok (x, k1)"
      "(case x of None \<Rightarrow> ret (- 1) k1 | Some (f0, f1) \<Rightarrow> pipe_fds E cur fdp f0 f1 k1) = Ok (r, k')"
    using s by (auto simp: sys_pipe_def with_arg_Ok ret_def obind_eq_Ok)
  then show ?thesis
  proof cases
    case 2
    with pipealloc_inv [OF inv 2(1)] run show ?thesis
      by (cases x) (auto simp: ret_def running_def intro: pipe_fds_inv)
  qed (use inv in simp)
qed

end
