(* ===== verification/Xv6_Exec.thy ===== *)
theory Xv6_Exec
  imports Xv6_Sysfile
begin

text \<open>
  \<^verbatim>\<open>exec\<close>, \<^verbatim>\<open>src/xv6/exec.c\<close>, with \<^verbatim>\<open>loaduvm\<close> (\<^verbatim>\<open>src/xv6/vm.c\<close>) and \<^verbatim>\<open>sys_exec\<close>
  (\<^verbatim>\<open>src/xv6/sysfile.c\<close>).  A \<^verbatim>\<open>goto bad\<close> is the result \<open>None\<close> of the definition that models the
  part of the function in which it stands.
\<close>

section \<open>Loading a segment\<close>

definition put_bytes :: "kmem \<Rightarrow> uint \<Rightarrow> uchar list \<Rightarrow> kmem" where
  "put_bytes km a bs =
     km\<lparr>kmemory := (\<lambda>x. if unat (x - a) < length bs then bs ! unat (x - a) else kmemory km x)\<rparr>"

text \<open>The loop of \<^verbatim>\<open>loaduvm\<close>; it never ends when \<open>sz\<close> is above the last page boundary.\<close>

definition loadpage ::
  "'d devsw list \<Rightarrow> int \<Rightarrow> kmem \<Rightarrow> uint \<Rightarrow> uint \<Rightarrow> 'd fssys \<Rightarrow> nat \<Rightarrow> uint \<Rightarrow> uint \<Rightarrow> uint \<Rightarrow> (bool \<times> 'd fssys \<times> kmem) outcome" where
  "loadpage devs pid km pgdir addr s ip offset sz i =
     (case walkpgdir km pgdir (addr + i) False of (pte, km1) \<Rightarrow>
        if pte = 0 then Panic ''loaduvm: address should exist''
        else let pa = PTE_ADDR (load32 (kmemory km1) pte);
                 n = (if sz - i < PGSIZE then sz - i else PGSIZE)
             in obind (readi devs pid s ip (offset + i) n) (\<lambda>(r, bs, s1).
                  Ok (r = sint n, s1, put_bytes km1 (P2V pa) bs)))"

partial_function (option) loaduvm_loop ::
  "'d devsw list \<Rightarrow> int \<Rightarrow> kmem \<Rightarrow> uint \<Rightarrow> uint \<Rightarrow> 'd fssys \<Rightarrow> nat \<Rightarrow> uint \<Rightarrow> uint \<Rightarrow> uint \<Rightarrow> (int \<times> 'd fssys \<times> kmem) outcome option" where
  "loaduvm_loop devs pid km pgdir addr s ip offset sz i =
     (if i < sz
      then case loadpage devs pid km pgdir addr s ip offset sz i of
             Ok (ok, s1, km1) \<Rightarrow>
               (if ok then loaduvm_loop devs pid km1 pgdir addr s1 ip offset sz (i + PGSIZE)
                else Some (Ok (- 1, s1, km1)))
           | Panic e \<Rightarrow> Some (Panic e)
           | Blocked \<Rightarrow> Some Blocked
      else Some (Ok (0, s, km)))"

definition loaduvm ::
  "'d devsw list \<Rightarrow> int \<Rightarrow> kmem \<Rightarrow> uint \<Rightarrow> uint \<Rightarrow> 'd fssys \<Rightarrow> nat \<Rightarrow> uint \<Rightarrow> uint \<Rightarrow> (int \<times> 'd fssys \<times> kmem) outcome" where
  "loaduvm devs pid km pgdir addr s ip offset sz =
     (if addr mod PGSIZE \<noteq> 0 then Panic ''loaduvm: addr must be page aligned''
      else returned (loaduvm_loop devs pid km pgdir addr s ip offset sz 0))"

section \<open>The executable\<close>

definition ELF_MAGIC :: uint where "ELF_MAGIC = 0x464C457F"
definition ELF_PROG_LOAD :: uint where "ELF_PROG_LOAD = 1"

text \<open>The fields of \<^verbatim>\<open>struct elfhdr\<close> and \<^verbatim>\<open>struct proghdr\<close> that the kernel looks at.\<close>

record elfhdr =
  elf_magic :: uint
  elf_entry :: uint
  elf_phoff :: uint
  elf_phnum :: ushort

record proghdr =
  ph_type :: uint
  ph_off :: uint
  ph_vaddr :: uint
  ph_filesz :: uint
  ph_memsz :: uint

definition word_at :: "uchar list \<Rightarrow> nat \<Rightarrow> uint" where
  "word_at bs i = of_le (drop i bs)"

definition elf_of :: "uchar list \<Rightarrow> elfhdr" where
  "elf_of bs = \<lparr>elf_magic = word_at bs 0, elf_entry = word_at bs 24, elf_phoff = word_at bs 28,
     elf_phnum = ucast (word_at bs 44)\<rparr>"

definition ph_of :: "uchar list \<Rightarrow> proghdr" where
  "ph_of bs = \<lparr>ph_type = word_at bs 0, ph_off = word_at bs 4, ph_vaddr = word_at bs 8,
     ph_filesz = word_at bs 16, ph_memsz = word_at bs 20\<rparr>"

text \<open>
  One program header.  The result is the new size, 0 for \<^verbatim>\<open>goto bad\<close>; the size is 0 before the
  first segment, so \<open>Some\<close> keeps the two apart.
\<close>

definition load_segment ::
  "'d kenv \<Rightarrow> int \<Rightarrow> kmem \<Rightarrow> uint \<Rightarrow> 'd fssys \<Rightarrow> nat \<Rightarrow> uint \<Rightarrow> proghdr \<Rightarrow> (uint option \<times> 'd fssys \<times> kmem) outcome" where
  "load_segment E pid km pgdir s ip sz ph =
     (if ph_type ph \<noteq> ELF_PROG_LOAD then Ok (Some sz, s, km)
      else if ph_memsz ph < ph_filesz ph then Ok (None, s, km)
      else if ph_vaddr ph + ph_memsz ph < ph_vaddr ph then Ok (None, s, km)
      else obind (allocuvm (e_end E) km pgdir sz (ph_vaddr ph + ph_memsz ph)) (\<lambda>(sz1, km1).
        if sz1 = 0 then Ok (None, s, km1)
        else if ph_vaddr ph mod PGSIZE \<noteq> 0 then Ok (None, s, km1)
        else obind (loaduvm (e_devs E) pid km1 pgdir (ph_vaddr ph) s ip (ph_off ph) (ph_filesz ph)) (\<lambda>(r, s1, km2).
          Ok (if r < 0 then None else Some sz1, s1, km2))))"

primrec load_segments ::
  "nat \<Rightarrow> 'd kenv \<Rightarrow> int \<Rightarrow> kmem \<Rightarrow> uint \<Rightarrow> 'd fssys \<Rightarrow> nat \<Rightarrow> uint \<Rightarrow> uint \<Rightarrow> (uint option \<times> 'd fssys \<times> kmem) outcome" where
  "load_segments 0 E pid km pgdir s ip sz off = Ok (Some sz, s, km)"
| "load_segments (Suc n) E pid km pgdir s ip sz off =
     obind (readi (e_devs E) pid s ip off 32) (\<lambda>(r, bs, s1).
       if r \<noteq> 32 then Ok (None, s1, km)
       else obind (load_segment E pid km pgdir s1 ip sz (ph_of bs)) (\<lambda>(res, s2, km1).
         case res of
           None \<Rightarrow> Ok (None, s2, km1)
         | Some sz1 \<Rightarrow> load_segments n E pid km1 pgdir s2 ip sz1 (off + 32)))"

text \<open>
  From \<^verbatim>\<open>ilock(ip)\<close> to the end of the loading loop.  The page directory is 0 until \<^verbatim>\<open>setupkvm\<close>
  returns; the result is the header and the size.
\<close>

definition exec_load ::
  "'d kenv \<Rightarrow> int \<Rightarrow> kmem \<Rightarrow> 'd fssys \<Rightarrow> nat \<Rightarrow> (uint \<times> (elfhdr \<times> uint) option \<times> 'd fssys \<times> kmem) outcome" where
  "exec_load E pid km s ip =
     obind (readi (e_devs E) pid s ip 0 52) (\<lambda>(r, bs, s1).
       let elf = elf_of bs
       in if r \<noteq> 52 \<or> elf_magic elf \<noteq> ELF_MAGIC then Ok (0, None, s1, km)
          else obind (setupkvm (e_end E) (e_data E) km) (\<lambda>(pd, km1).
            if pd = 0 then Ok (0, None, s1, km1)
            else obind (load_segments (unat (elf_phnum elf)) E pid km1 pd s1 ip 0 (elf_phoff elf)) (\<lambda>(res, s2, km2).
              Ok (pd, map_option (Pair elf) res, s2, km2))))"

section \<open>The user stack\<close>

text \<open>
  \<^verbatim>\<open>copyout\<close> from bytes that are not in the kernel's own mapping: the argument strings in the old
  address space, and \<^verbatim>\<open>ustack\<close>.
\<close>

lemma page_rest: "0 < unat (PGSIZE - (va - PGROUNDDOWN va))"
proof -
  have "unat (PGROUNDDOWN va) \<le> unat va" "unat va - unat (PGROUNDDOWN va) < 4096"
    by (simp_all add: PGROUNDDOWN_nat)
  then have "unat (va - PGROUNDDOWN va) < 4096" by (simp add: unat_uint_sub)
  then show ?thesis by (simp add: unat_uint_sub)
qed

function copyout_bytes :: "kmem \<Rightarrow> uint \<Rightarrow> uint \<Rightarrow> uchar list \<Rightarrow> (int \<times> kmem) outcome" where
  "copyout_bytes km pgdir va bs =
     (if bs \<noteq> []
      then let va0 = PGROUNDDOWN va
           in obind (uva2ka km pgdir va0) (\<lambda>pa0.
             if pa0 = 0 then Ok (- 1, km)
             else let n = min (unat (PGSIZE - (va - va0))) (length bs)
                  in copyout_bytes (put_bytes km (pa0 + (va - va0)) (take n bs)) pgdir (va0 + PGSIZE) (drop n bs))
      else Ok (0, km))"
  by pat_completeness auto
termination
proof (relation "measure (\<lambda>(km, pgdir, va, bs). length bs)", goal_cases)
  case (2 km pgdir va bs va0 pa0 n)
  then show ?case using page_rest [of va] by simp
qed simp

declare copyout_bytes.simps [simp del]

abbreviation (input) MAXARG :: nat where "MAXARG \<equiv> 32"

text \<open>The loop that pushes the argument strings; \<open>us\<close> are the pointers stored so far.\<close>

primrec push_args :: "kmem \<Rightarrow> uint \<Rightarrow> uchar list list \<Rightarrow> uint \<Rightarrow> uint list \<Rightarrow> ((uint \<times> uint list) option \<times> kmem) outcome" where
  "push_args km pgdir [] sp us = Ok (Some (sp, us), km)"
| "push_args km pgdir (a # as) sp us =
     (if length us \<ge> MAXARG then Ok (None, km)
      else let sp1 = (sp - (of_nat (length a) + 1)) AND NOT 3
           in obind (copyout_bytes km pgdir sp1 (a @ [0])) (\<lambda>(r, km1).
                if r < 0 then Ok (None, km1) else push_args km1 pgdir as sp1 (us @ [sp1])))"

definition ustack_of :: "uint \<Rightarrow> uint list \<Rightarrow> uint list" where
  "ustack_of sp us = [0xFFFFFFFF, of_nat (length us), sp - (of_nat (length us) + 1) * 4] @ us @ [0]"

text \<open>From the allocation of the two stack pages on; the result is the size and \<^verbatim>\<open>sp\<close>.\<close>

definition exec_stack ::
  "'d kenv \<Rightarrow> kmem \<Rightarrow> uint \<Rightarrow> uint \<Rightarrow> uchar list list \<Rightarrow> ((uint \<times> uint) option \<times> kmem) outcome" where
  "exec_stack E km pgdir sz0 argv =
     (let sz = PGROUNDUP sz0
      in obind (allocuvm (e_end E) km pgdir sz (sz + 2 * PGSIZE)) (\<lambda>(sz1, km1).
           if sz1 = 0 then Ok (None, km1)
           else obind (clearpteu km1 pgdir (sz1 - 2 * PGSIZE)) (\<lambda>km2.
                obind (push_args km2 pgdir argv sz1 []) (\<lambda>(r, km3).
                  case r of
                    None \<Rightarrow> Ok (None, km3)
                  | Some (sp, us) \<Rightarrow>
                      let sp1 = sp - (3 + of_nat (length us) + 1) * 4
                      in obind (copyout_bytes km3 pgdir sp1 (concat (map le_bytes (ustack_of sp us)))) (\<lambda>(r, km4).
                           Ok (if r < 0 then None else Some (sz1, sp1), km4))))))"

section \<open>exec\<close>

text \<open>The name that \<^verbatim>\<open>procdump\<close> shows: what follows the last slash, at most 15 bytes.\<close>

definition last_elem :: "uchar list \<Rightarrow> uchar list" where
  "last_elem pth = rev (takeWhile (\<lambda>c. c \<noteq> SLASH) (rev pth))"

definition exec_name :: "uchar list \<Rightarrow> string" where
  "exec_name pth = map (\<lambda>c. char_of (unat c)) (take 15 (last_elem pth))"

definition bad_vm :: "'d kenv \<Rightarrow> 'd ksys \<Rightarrow> uint \<Rightarrow> 'd ksys outcome" where
  "bad_vm E k pd = (if pd = 0 then Ok k else obind (freevm (e_end E) (kkm k) pd) (\<lambda>km. Ok (k\<lparr>kkm := km\<rparr>)))"

text \<open>The commit to the new image.\<close>

definition exec_commit ::
  "'d kenv \<Rightarrow> 'd ksys \<Rightarrow> nat \<Rightarrow> uchar list \<Rightarrow> uint \<Rightarrow> elfhdr \<Rightarrow> uint \<Rightarrow> uint \<Rightarrow> (int \<times> 'd ksys) outcome" where
  "exec_commit E k cur pth pd elf sz sp =
     (let p = cur_proc k cur;
          km1 = poke (poke (kkm k) (p_tf p + TF_EIP) (elf_entry elf)) (p_tf p + TF_ESP) sp;
          p1 = p\<lparr>p_name := exec_name pth, p_pgdir := pd, p_sz := sz\<rparr>
      in obind (switchuvm p1) (\<lambda>_.
         obind (freevm (e_end E) km1 (p_pgdir p)) (\<lambda>km2. Ok (0, (upd_proc k cur p1)\<lparr>kkm := km2\<rparr>))))"

text \<open>\<^verbatim>\<open>bad:\<close> while the inode is locked, and the rest of \<^verbatim>\<open>exec\<close> once the segments are loaded.\<close>

definition exec_bad :: "'d kenv \<Rightarrow> int \<Rightarrow> nat \<Rightarrow> uint \<Rightarrow> 'd ksys \<Rightarrow> (int \<times> 'd ksys) outcome" where
  "exec_bad E pid ip pd k =
     obind (bad_vm E k pd) (\<lambda>k1.
     obind (k_fs k1 (iunlockput pid (kfs k1) ip)) (\<lambda>k2.
     obind (k_end pid k2) (\<lambda>k3. Ok (- 1, k3))))"

definition exec_rest ::
  "'d kenv \<Rightarrow> int \<Rightarrow> nat \<Rightarrow> nat \<Rightarrow> uchar list \<Rightarrow> uchar list list \<Rightarrow> uint \<Rightarrow> elfhdr \<Rightarrow> uint \<Rightarrow> 'd ksys \<Rightarrow> (int \<times> 'd ksys) outcome" where
  "exec_rest E pid cur ip pth argv pd elf sz k =
     obind (k_fs k (iunlockput pid (kfs k) ip)) (\<lambda>k1.
     obind (k_end pid k1) (\<lambda>k2.
     obind (exec_stack E (kkm k2) pd sz argv) (\<lambda>(stk, km2).
       let k3 = k2\<lparr>kkm := km2\<rparr>
       in case stk of
            None \<Rightarrow> obind (bad_vm E k3 pd) (\<lambda>k4. Ok (- 1, k4))
          | Some (sz1, sp) \<Rightarrow> exec_commit E k3 cur pth pd elf sz1 sp)))"

definition exec :: "'d kenv \<Rightarrow> 'd ksys \<Rightarrow> nat \<Rightarrow> uchar list \<Rightarrow> uchar list list \<Rightarrow> (int \<times> 'd ksys) outcome" where
  "exec E k cur pth argv =
     (let pid = cur_pid k cur
      in obind (k_begin k) (\<lambda>k1.
         obind (namei (e_devs E) pid (kfs k1) (p_cwd (cur_proc k cur)) pth) (\<lambda>(r, s2).
           case r of
             None \<Rightarrow> obind (k_end pid (k1\<lparr>kfs := s2\<rparr>)) (\<lambda>k3. Ok (- 1, k3))
           | Some ip \<Rightarrow>
               obind (ilock pid s2 (Some ip)) (\<lambda>s3.
               obind (exec_load E pid (kkm k1) s3 ip) (\<lambda>(pd, res, s4, km1).
               let k4 = k1\<lparr>kfs := s4, kkm := km1\<rparr>
               in case res of
                    None \<Rightarrow> exec_bad E pid ip pd k4
                  | Some (elf, sz) \<Rightarrow> exec_rest E pid cur ip pth argv pd elf sz k4)))))"

text \<open>\<^verbatim>\<open>sys_exec\<close>: the loop over the 32 places of \<^verbatim>\<open>argv\<close>; \<open>n\<close> of them are left.\<close>

primrec fetch_argv :: "nat \<Rightarrow> 'd ksys \<Rightarrow> nat \<Rightarrow> uint \<Rightarrow> uchar list list option outcome" where
  "fetch_argv 0 k cur a = Ok None"
| "fetch_argv (Suc n) k cur a =
     with_arg (fetchint k cur a) (Ok None) (\<lambda>uarg.
       if uarg = 0 then Ok (Some [])
       else with_arg (fetchstr k cur uarg) (Ok None) (\<lambda>str.
            obind (fetch_argv n k cur (a + 4)) (\<lambda>r. Ok (map_option ((#) str) r))))"

definition sys_exec :: "'d kenv \<Rightarrow> nat \<Rightarrow> nat \<Rightarrow> 'd ksys \<Rightarrow> (pcall \<times> 'd ksys) outcome" where
  "sys_exec E c cur k =
     with_arg (argstr k cur 0) (ret (- 1) k) (\<lambda>pth.
     with_arg (argint k cur 1) (ret (- 1) k) (\<lambda>uargv.
     with_arg (fetch_argv MAXARG k cur uargv) (ret (- 1) k) (\<lambda>argv.
       obind (exec E k cur pth argv) (\<lambda>(r, k1). ret r k1))))"

section \<open>exec succeeds or leaves the process alone\<close>

lemma allocuvm_loop_result:
  "allocuvm_loop kend s pgdir a oldsz newsz = Ok (r, s') \<Longrightarrow> newsz < KERNBASE \<Longrightarrow> r = 0 \<or> r = newsz"
proof (induction kend s pgdir a oldsz newsz rule: allocuvm_loop.induct)
  case (1 kend s pgdir a oldsz newsz)
  show ?case
  proof (cases "a < newsz")
    case True
    obtain mem s1 where k: "kalloc s = (mem, s1)" by force
    show ?thesis
    proof (cases "mem = 0")
      case True
      with "1.prems" \<open>a < newsz\<close> k show ?thesis by (subst (asm) allocuvm_loop.simps) (auto simp: obind_eq_Ok)
    next
      case False
      with "1.prems" \<open>a < newsz\<close> k obtain m s2 where m: "mappages (kmemset s1 mem 0 PGSIZE) pgdir a PGSIZE (V2P mem) (PTE_W OR PTE_U) = Ok (m, s2)"
          and rest: "m < 0 \<Longrightarrow> r = 0" "\<not> m < 0 \<Longrightarrow> allocuvm_loop kend s2 pgdir (a + PGSIZE) oldsz newsz = Ok (r, s')"
        by (subst (asm) allocuvm_loop.simps) (auto simp: obind_eq_Ok split: if_splits)
      show ?thesis
      proof (cases "m < 0")
        case neg: False
        have "a < newsz \<and> newsz < KERNBASE" using \<open>a < newsz\<close> "1.prems"(2) by simp
        from "1.IH" [OF this k [symmetric] False m refl neg rest(2) [OF neg] "1.prems"(2)] show ?thesis .
      qed (use rest(1) in simp)
    qed
  next
    case False
    with "1.prems" show ?thesis by (subst (asm) allocuvm_loop.simps) simp
  qed
qed

lemma allocuvm_result:
  assumes "allocuvm kend s pgdir oldsz newsz = Ok (r, s')" and "r \<noteq> 0"
  shows "r = newsz \<and> newsz < KERNBASE \<or> r = oldsz \<and> newsz < oldsz"
  using assms allocuvm_loop_result [of kend s pgdir "PGROUNDUP oldsz" oldsz newsz r s']
  by (auto simp: allocuvm_def not_le split: if_splits)

lemma load_segment_sz:
  assumes "load_segment E pid km pgdir s ip sz ph = Ok (Some sz1, s', km')" and "sz < KERNBASE"
  shows "sz1 < KERNBASE"
  using assms by (auto simp: load_segment_def obind_eq_Ok split: if_splits dest: allocuvm_result)

lemma load_segments_sz:
  "load_segments n E pid km pgdir s ip sz off = Ok (Some sz1, s', km') \<Longrightarrow> sz < KERNBASE \<Longrightarrow> sz1 < KERNBASE"
proof (induction n arbitrary: km s sz off)
  case (Suc n)
  from Suc.prems obtain bs s1 y s2 km1 where
      l: "load_segment E pid km pgdir s1 ip sz (ph_of bs) = Ok (Some y, s2, km1)"
      "load_segments n E pid km1 pgdir s2 ip y (off + 32) = Ok (Some sz1, s', km')"
    by (auto simp: obind_eq_Ok split: if_splits option.split_asm)
  show ?case by (rule Suc.IH [OF l(2) load_segment_sz [OF l(1) Suc.prems(2)]])
qed simp

lemma exec_load_result:
  assumes "exec_load E pid km s ip = Ok (pd, Some (elf, sz), s', km')"
  shows "pd \<noteq> 0 \<and> sz < KERNBASE"
  using assms by (auto simp: exec_load_def obind_eq_Ok Let_def KERNBASE_def split: if_splits
      dest!: load_segments_sz)

lemma exec_stack_result:
  assumes s: "exec_stack E km pgdir sz0 argv = Ok (Some (sz, sp), km')" and sz0: "sz0 < KERNBASE"
  shows "sz < KERNBASE \<and> sz mod PGSIZE = 0"
proof -
  let ?a = "PGROUNDUP sz0"
  have "\<exists>km1. allocuvm (e_end E) km pgdir ?a (?a + 2 * PGSIZE) = Ok (sz, km1) \<and> sz \<noteq> 0"
    using s by (auto simp: exec_stack_def obind_eq_Ok Let_def split: if_splits option.split_asm)
  then have r: "sz = ?a + 2 * PGSIZE \<and> ?a + 2 * PGSIZE < KERNBASE \<or> sz = ?a \<and> ?a + 2 * PGSIZE < ?a"
    using allocuvm_result by blast
  have n: "unat sz0 < 2147483648" using sz0 by (simp add: word_less_nat_alt KERNBASE_def)
  then have e: "unat ?a = 4096 * ((unat sz0 + 4095) div 4096)" by (intro PGROUNDUP_nat) simp
  have "(unat sz0 + 4095) div 4096 \<le> 524288" using n by simp
  with e have a: "unat ?a \<le> 2 ^ 31" "unat ?a mod 4096 = 0" by simp_all
  then have "\<not> ?a + 2 * PGSIZE < ?a" "unat (?a + 2 * PGSIZE) = unat ?a + 8192"
    by (simp_all add: word_less_nat_alt unat_uint_add)
  with r have sz: "sz = ?a + 2 * PGSIZE" "sz < KERNBASE" "unat sz = unat ?a + 8192" by metis+
  define q where "q = (unat sz0 + 4095) div 4096"
  have "unat sz = 4096 * (q + 2)" using sz(3) e by (simp add: q_def)
  then have "unat sz mod 4096 = 0" by (simp only: mod_mult_self1_is_0)
  with sz(2) show ?thesis by (simp add: word_unat_eq_iff unat_mod)
qed

lemma k_begin_keeps: "k_begin k = Ok k1 \<Longrightarrow> kps k1 = kps k \<and> ftable k1 = ftable k \<and> kkm k1 = kkm k \<and> kpipes k1 = kpipes k"
  by (auto simp: k_begin_def obind_eq_Ok)

lemma k_end_keeps: "k_end pid k = Ok k1 \<Longrightarrow> kps k1 = kps k \<and> ftable k1 = ftable k \<and> kkm k1 = kkm k \<and> kpipes k1 = kpipes k"
  by (auto simp: k_end_def obind_eq_Ok)

lemma k_fs_keeps: "k_fs k m = Ok k1 \<Longrightarrow> kps k1 = kps k \<and> ftable k1 = ftable k \<and> kkm k1 = kkm k \<and> kpipes k1 = kpipes k"
  by (auto simp: k_fs_def obind_eq_Ok)

lemma bad_vm_keeps: "bad_vm E k pd = Ok k1 \<Longrightarrow> kps k1 = kps k \<and> ftable k1 = ftable k \<and> kpipes k1 = kpipes k"
  by (auto simp: bad_vm_def obind_eq_Ok split: if_splits)

definition same_env :: "'d ksys \<Rightarrow> 'd ksys \<Rightarrow> bool" where
  "same_env k k' \<longleftrightarrow> ftable k' = ftable k \<and> kpipes k' = kpipes k"

definition new_image :: "'d ksys \<Rightarrow> nat \<Rightarrow> uchar list \<Rightarrow> 'd ksys \<Rightarrow> bool" where
  "new_image k cur pth k' \<longleftrightarrow> (\<exists>pd sz. pd \<noteq> 0 \<and> sz < KERNBASE \<and> sz mod PGSIZE = 0 \<and>
     kps k' = set_proc (kps k) cur ((cur_proc k cur)\<lparr>p_name := exec_name pth, p_pgdir := pd, p_sz := sz\<rparr>))"

lemma exec_bad_result:
  "exec_bad E pid ip pd k = Ok (r, k') \<Longrightarrow> r = - 1 \<and> kps k' = kps k \<and> same_env k k'"
  by (auto simp: exec_bad_def obind_eq_Ok same_env_def dest!: bad_vm_keeps k_fs_keeps k_end_keeps)

lemma exec_rest_result:
  assumes r: "exec_rest E pid cur ip pth argv pd elf sz k = Ok (r, k')" and pd: "pd \<noteq> 0" and sz: "sz < KERNBASE"
  shows "same_env k k' \<and> (r = - 1 \<and> kps k' = kps k \<or> r = 0 \<and> new_image k cur pth k')"
proof -
  obtain k2 stk km2 where k2: "kps k2 = kps k" "same_env k k2" "exec_stack E (kkm k2) pd sz argv = Ok (stk, km2)"
      "(case stk of None \<Rightarrow> obind (bad_vm E (k2\<lparr>kkm := km2\<rparr>) pd) (\<lambda>k4. Ok (- 1, k4))
          | Some (sz1, sp) \<Rightarrow> exec_commit E (k2\<lparr>kkm := km2\<rparr>) cur pth pd elf sz1 sp) = Ok (r, k')"
    using r by (auto simp: exec_rest_def obind_eq_Ok Let_def same_env_def dest!: k_fs_keeps k_end_keeps)
  show ?thesis
  proof (cases stk)
    case None
    then show ?thesis using k2 by (auto simp: obind_eq_Ok same_env_def dest!: bad_vm_keeps)
  next
    case (Some q)
    obtain sz1 sp where q: "q = (sz1, sp)" by force
    have "exec_commit E (k2\<lparr>kkm := km2\<rparr>) cur pth pd elf sz1 sp = Ok (r, k')" using k2(4) Some q by simp
    then have c: "r = 0" "same_env k k'"
        "kps k' = set_proc (kps k) cur ((cur_proc k cur)\<lparr>p_name := exec_name pth, p_pgdir := pd, p_sz := sz1\<rparr>)"
      using k2(1,2)
      by (auto simp: exec_commit_def obind_eq_Ok Let_def upd_proc_def cur_proc_def same_env_def split: if_splits)
    have "new_image k cur pth k'"
      unfolding new_image_def
      by (rule exI [of _ pd], rule exI [of _ sz1]) (intro conjI pd c(3) exec_stack_result [OF k2(3)[unfolded Some q] sz, THEN conjunct1]
        exec_stack_result [OF k2(3)[unfolded Some q] sz, THEN conjunct2])
    with c(1,2) show ?thesis by simp
  qed
qed

lemma exec_result:
  assumes "exec E k cur pth argv = Ok (r, k')"
  shows "same_env k k' \<and> (r = - 1 \<and> kps k' = kps k \<or> r = 0 \<and> new_image k cur pth k')"
proof -
  let ?pid = "cur_pid k cur"
  obtain k1 x s2 where k1: "k_begin k = Ok k1"
      and n: "namei (e_devs E) ?pid (kfs k1) (p_cwd (cur_proc k cur)) pth = Ok (x, s2)"
    using assms by (auto simp: exec_def Let_def obind_eq_Ok)
  note e1 = k_begin_keeps [OF k1]
  show ?thesis
  proof (cases x)
    case None
    then show ?thesis using assms k1 n e1 by (auto simp: exec_def Let_def obind_eq_Ok same_env_def dest!: k_end_keeps)
  next
    case (Some ip)
    then obtain s3 pd res s4 km1 where l: "exec_load E ?pid (kkm k1) s3 ip = Ok (pd, res, s4, km1)"
        and c: "(case res of None \<Rightarrow> exec_bad E ?pid ip pd (k1\<lparr>kfs := s4, kkm := km1\<rparr>)
          | Some (elf, sz) \<Rightarrow> exec_rest E ?pid cur ip pth argv pd elf sz (k1\<lparr>kfs := s4, kkm := km1\<rparr>)) = Ok (r, k')"
      using assms k1 n by (auto simp: exec_def Let_def obind_eq_Ok)
    show ?thesis
    proof (cases res)
      case None
      then show ?thesis using c e1 by (auto simp: same_env_def dest!: exec_bad_result)
    next
      case (Some es)
      obtain elf sz where es: "es = (elf, sz)" by force
      note lr = exec_load_result [OF l[unfolded Some es]]
      have "exec_rest E ?pid cur ip pth argv pd elf sz (k1\<lparr>kfs := s4, kkm := km1\<rparr>) = Ok (r, k')"
        using c Some es by simp
      from exec_rest_result [OF this] lr e1 show ?thesis
        by (simp add: same_env_def new_image_def cur_proc_def)
    qed
  qed
qed

text \<open>
  C11: \<^verbatim>\<open>exec\<close> either fails with -1 and leaves every process and every open file as it was, or it
  returns 0 and the current process has a new page directory, a size that is a whole number of
  pages below \<^verbatim>\<open>KERNBASE\<close> and the name of the program, and keeps everything else.
\<close>

theorem exec_all_or_nothing:
  assumes "exec E k cur pth argv = Ok (r, k')"
  shows "ftable k' = ftable k \<and> kpipes k' = kpipes k \<and>
    (r = - 1 \<and> kps k' = kps k \<or>
     r = 0 \<and> (\<exists>pd sz. pd \<noteq> 0 \<and> sz < KERNBASE \<and> sz mod PGSIZE = 0 \<and>
       kps k' = set_proc (kps k) cur ((cur_proc k cur)\<lparr>p_name := exec_name pth, p_pgdir := pd, p_sz := sz\<rparr>)))"
  using exec_result [OF assms] by (simp add: same_env_def new_image_def)

text \<open>An \<^verbatim>\<open>exec\<close> of the current directory fails, since it is empty.\<close>

definition demo_env :: "'d kenv" where
  "demo_env = \<lparr>e_end = 0x80100000, e_data = 0x80108000, e_forkret = 0x80103000, e_trapret = 0x80105000, e_devs = []\<rparr>"

definition demo_dir :: "unit fssys" where
  "demo_dir = demo_fs (\<lambda>_ _. 0) [demo_ino\<lparr>i_type := T_DIR\<rparr>]"

lemma demo_exec: "\<exists>k'. exec demo_env (demo_k [] [] demo_dir) 0 [] [] = Ok (- 1, k')"
proof -
  have lk: "sl_locked (initsleeplock ''inode'') = False" by (simp add: initsleeplock_def)
  have l: "outstanding (fs_log demo_dir) = 1" "lh_n (fs_log demo_dir) = 0" "committing (fs_log demo_dir) = False"
      "icache demo_dir = [demo_ino\<lparr>i_type := T_DIR\<rparr>]"
    by (simp_all add: demo_dir_def demo_fs_def log_boot_def)
  show ?thesis
    by (simp add: exec_def k_begin_def begin_op_def demo_k_def cur_proc_def cur_pid_def demo_proc_def zero_proc_def l
        namei_def namex_def idup_def set_i_def namex_loop.simps skipelem_def ilock_def acquiresleep_def lk demo_ino_def
        exec_load_def readi_def readi_loop.simps exec_bad_def bad_vm_def k_fs_def iunlockput_def iunlock_def
        holdingsleep_def releasesleep_def iput_def k_end_def end_op_def)
qed

theorem exec_all_or_nothing_witness:
  "\<exists>k'. exec demo_env (demo_k [] [] demo_dir) 0 [] [] = Ok (- 1, k') \<and> kps k' = kps (demo_k [] [] demo_dir)"
  using demo_exec exec_all_or_nothing by fastforce

text \<open>The descriptors survive.\<close>

lemma keeps_exec: "exec E k cur pth argv = Ok (r, k') \<Longrightarrow> keeps_files k k'"
proof -
  assume "exec E k cur pth argv = Ok (r, k')"
  from exec_result [OF this] have e: "ftable k' = ftable k" "kps k' = kps k \<or> new_image k cur pth k'"
    by (auto simp: same_env_def)
  have "keeps_ofile (kps k) (kps k')" if n: "new_image k cur pth k'"
  proof -
    from n obtain pd sz where p: "sz < KERNBASE"
        "kps k' = set_proc (kps k) cur ((cur_proc k cur)\<lparr>p_name := exec_name pth, p_pgdir := pd, p_sz := sz\<rparr>)"
      unfolding new_image_def by blast
    show ?thesis
      unfolding p(2) by (rule keeps_set_proc) (use p(1) in \<open>simp_all add: cur_proc_def dead_def\<close>)
  qed
  with e show ?thesis by (auto simp: keeps_files_def)
qed

lemma keeps_sys_exec: "sys_exec E c cur k = Ok (r, k') \<Longrightarrow> keeps_files k k'"
  by (auto simp: sys_exec_def with_arg_Ok ret_def obind_eq_Ok dest: keeps_exec)

section \<open>The loops over user memory end\<close>

lemma next_page:
  assumes "a < sz" and "sz \<le> KERNBASE"
  shows "a < a + PGSIZE" "unat sz - unat (a + PGSIZE) < unat sz - unat a"
proof -
  have "unat a < unat sz" "unat sz \<le> 2147483648" using assms by (simp_all add: word_less_nat_alt word_le_nat_alt KERNBASE_def)
  moreover from this have "unat (a + PGSIZE) = unat a + 4096" using unat_uint_add [of a PGSIZE] by simp
  ultimately show "a < a + PGSIZE" "unat sz - unat (a + PGSIZE) < unat sz - unat a" by (simp_all add: word_less_nat_alt)
qed

lemma dealloc1_forward:
  assumes "dealloc1 kend s pgdir a = Ok (b, s1)" and "a < sz" "sz \<le> KERNBASE"
  shows "unat sz - unat (b + PGSIZE) < unat sz - unat a"
proof -
  have "a < KERNBASE" using assms(2,3) by simp
  note n = next_table [OF this] next_page [OF assms(2,3)]
  have "b = a \<or> b = PGADDR (PDX a + 1) 0 0 - PGSIZE"
    using assms(1) by (auto simp: dealloc1_def obind_eq_Ok Let_def split: prod.splits if_splits)
  then show ?thesis
  proof
    assume "b = a"
    with n(4) show ?thesis by simp
  next
    assume "b = PGADDR (PDX a + 1) 0 0 - PGSIZE"
    then have "unat a < unat (b + PGSIZE)" "unat a < unat sz" using n(1) assms(2) by (simp_all add: word_less_nat_alt)
    then show ?thesis by linarith
  qed
qed

lemma dealloc_loop_returns: "sz \<le> KERNBASE \<Longrightarrow> \<exists>r. dealloc_loop kend s pgdir a sz = Some r"
proof (induction "unat sz - unat a" arbitrary: s a rule: less_induct)
  case less
  show ?case
  proof (cases "dealloc1 kend s pgdir a")
    case (Ok x)
    obtain b s1 where x: "x = (b, s1)" by force
    show ?thesis
    proof (cases "a < sz")
      case True
      from less.hyps [OF dealloc1_forward [OF Ok [unfolded x] True less.prems] less.prems] True Ok x
      show ?thesis by (subst dealloc_loop.simps) simp
    next
      case False
      then show ?thesis by (subst dealloc_loop.simps) simp
    qed
  qed (subst dealloc_loop.simps, simp)+
qed

lemma copyuvm_loop_returns: "sz \<le> KERNBASE \<Longrightarrow> \<exists>r. copyuvm_loop kend s pgdir d i sz = Some r"
proof (induction "unat sz - unat i" arbitrary: s i rule: less_induct)
  case less
  show ?case
  proof (cases "i < sz")
    case True
    note IH = less.hyps [OF next_page(2) [OF True less.prems] less.prems]
    show ?thesis using True IH by (cases "copypage kend s pgdir d i") (subst copyuvm_loop.simps, auto split: prod.splits)+
  next
    case False
    then show ?thesis by (subst copyuvm_loop.simps) simp
  qed
qed

lemma loaduvm_loop_returns: "sz \<le> KERNBASE \<Longrightarrow> \<exists>r. loaduvm_loop devs pid km pgdir addr s ip offset sz i = Some r"
proof (induction "unat sz - unat i" arbitrary: km s i rule: less_induct)
  case less
  show ?case
  proof (cases "i < sz")
    case True
    note IH = less.hyps [OF next_page(2) [OF True less.prems] less.prems]
    show ?thesis using True IH
      by (cases "loadpage devs pid km pgdir addr s ip offset sz i") (subst loaduvm_loop.simps, auto split: prod.splits)+
  next
    case False
    then show ?thesis by (subst loaduvm_loop.simps) simp
  qed
qed

text \<open>
  C39: the loops of \<^verbatim>\<open>deallocuvm\<close>, \<^verbatim>\<open>copyuvm\<close> and \<^verbatim>\<open>loaduvm\<close> come to an end, whatever the page tables, the memory and
  the file hold, when the size they are given is at most \<^verbatim>\<open>KERNBASE\<close>, the bound that the size of every process obeys.
\<close>

theorem user_memory_loops_return:
  assumes "sz \<le> KERNBASE"
  shows "(\<exists>r. dealloc_loop kend km pgdir a sz = Some r) \<and> (\<exists>r. copyuvm_loop kend km pgdir d a sz = Some r) \<and>
    (\<exists>r. loaduvm_loop devs pid km pgdir addr s ip offset sz a = Some r)"
  using dealloc_loop_returns [OF assms] copyuvm_loop_returns [OF assms] loaduvm_loop_returns [OF assms] by blast

theorem user_memory_loops_return_witness:
  "(0x2000 :: uint) \<le> KERNBASE \<and> (\<exists>r. dealloc_loop 0x80100000 demo_kmem 0x80001000 0 0x2000 = Some r) \<and>
     (\<exists>r. copyuvm_loop 0x80100000 demo_kmem 0x80001000 0x80005000 0 0x2000 = Some r) \<and>
     (\<exists>r. loaduvm_loop [] 9 demo_kmem 0x80001000 0 demo_dir 0 0 0x2000 0 = Some r)"
proof -
  have "(0x2000 :: uint) \<le> KERNBASE" by (simp add: KERNBASE_def)
  with user_memory_loops_return [of "0x2000" "0x80100000" demo_kmem "0x80001000" 0 "0x80005000" "[]" 9 0 demo_dir 0 0] show ?thesis by blast
qed

end
