(* ===== verification/Xv6_Console.thy ===== *)
theory Xv6_Console
  imports Xv6_Pipe Xv6_Inode
begin

text \<open>
  The console, \<^verbatim>\<open>src/xv6/console.c\<close>, with the keyboard and the serial line that feed it,
  \<^verbatim>\<open>src/xv6/kbd.c\<close>, \<^verbatim>\<open>src/xv6/kbd.h\<close> and \<^verbatim>\<open>src/xv6/uart.c\<close>.  Input is a ring of 128 bytes with three
  wrapping indices; the interrupt handler implements line editing, which a specification on
  lists describes.
\<close>

section \<open>The screen\<close>

text \<open>The CGA memory as cells, and the cursor that the CRT controller keeps.\<close>

record cga =
  crt :: "nat \<Rightarrow> ushort"
  cursor :: nat

definition BACKSPACE :: int where "BACKSPACE = 0x100"

definition cga_move :: "int \<Rightarrow> cga \<Rightarrow> cga" where
  "cga_move c g =
     (let pos = cursor g
      in if c = 10 then g\<lparr>cursor := pos + (80 - pos mod 80)\<rparr>
         else if c = BACKSPACE then g\<lparr>cursor := pos - 1\<rparr>
         else g\<lparr>crt := (crt g)(pos := of_int c AND 0xFF OR 0x700), cursor := pos + 1\<rparr>)"

definition cga_scroll :: "cga \<Rightarrow> cga" where
  "cga_scroll g =
     (if cursor g div 80 \<ge> 24
      then let pos = cursor g - 80;
               up = (\<lambda>i. if i < 23 * 80 then crt g (i + 80) else crt g i)
           in g\<lparr>crt := (\<lambda>i. if pos \<le> i \<and> i < pos + (24 * 80 - pos) then 0 else up i), cursor := pos\<rparr>
      else g)"

definition cgaputc :: "int \<Rightarrow> cga \<Rightarrow> cga outcome" where
  "cgaputc c g =
     (let g1 = cga_move c g
      in if cursor g1 > 25 * 80 then Panic ''pos under/overflow''
         else let g2 = cga_scroll g1
              in Ok (g2\<lparr>crt := (crt g2)(cursor g2 := 0x720)\<rparr>))"

section \<open>The console\<close>

text \<open>\<^verbatim>\<open>input\<close>; \<open>serial\<close> are the bytes sent to the serial port, if there is one.\<close>

record cinput =
  in_buf :: "nat \<Rightarrow> uchar"
  in_r :: uint
  in_w :: uint
  in_e :: uint

record console =
  cin :: cinput
  screen :: cga
  uart :: bool
  serial :: "uchar list"

abbreviation (input) INPUT_BUF :: nat where "INPUT_BUF \<equiv> 128"

text \<open>\<^verbatim>\<open>uartputc\<close> waits a bounded time for the port and then writes.\<close>

definition uartputc :: "int \<Rightarrow> console \<Rightarrow> console" where
  "uartputc c k = (if uart k then k\<lparr>serial := serial k @ [of_int c]\<rparr> else k)"

text \<open>A machine that has panicked runs no further, so \<^verbatim>\<open>panicked\<close> is not part of the state.\<close>

definition consputc :: "int \<Rightarrow> console \<Rightarrow> console outcome" where
  "consputc c k =
     (let k1 = (if c = BACKSPACE then uartputc 8 (uartputc 32 (uartputc 8 k)) else uartputc c k)
      in obind (cgaputc c (screen k1)) (\<lambda>g. Ok (k1\<lparr>screen := g\<rparr>)))"

primrec consputs :: "int list \<Rightarrow> console \<Rightarrow> console outcome" where
  "consputs [] k = Ok k"
| "consputs (c # cs) k = obind (consputc c k) (consputs cs)"

section \<open>Interrupts\<close>

lemma consputc_cin: "consputc c k = Ok k' \<Longrightarrow> cin k' = cin k"
  by (auto simp: consputc_def uartputc_def Let_def obind_eq_Ok)

text \<open>\<^verbatim>\<open>C('U')\<close>: the loop that erases the line being typed.\<close>

function kill_line :: "console \<Rightarrow> console outcome" where
  "kill_line k =
     (let i = cin k
      in if in_e i \<noteq> in_w i \<and> in_buf i (slot INPUT_BUF (in_e i - 1)) \<noteq> 10
         then obind (consputc BACKSPACE (k\<lparr>cin := i\<lparr>in_e := in_e i - 1\<rparr>\<rparr>)) kill_line
         else Ok k)"
  by pat_completeness auto
termination
proof (relation "measure (\<lambda>k. unat (in_e (cin k) - in_w (cin k)))")
  fix k i k1
  assume i: "i = cin k" "in_e i \<noteq> in_w i \<and> in_buf i (slot INPUT_BUF (in_e i - 1)) \<noteq> 10"
    and "consputc BACKSPACE (k\<lparr>cin := i\<lparr>in_e := in_e i - 1\<rparr>\<rparr>) = Ok k1"
  then have "cin k1 = i\<lparr>in_e := in_e i - 1\<rparr>" using consputc_cin by fastforce
  moreover have "in_e i - in_w i \<noteq> 0" using i(2) by simp
  then have "unat (in_e i - 1 - in_w i) < unat (in_e i - in_w i)"
    using unat_minus_one [of "in_e i - in_w i"] unat_gt_0 [of "in_e i - in_w i"] by (simp add: algebra_simps)
  ultimately show "(k1, k) \<in> measure (\<lambda>k. unat (in_e (cin k) - in_w (cin k)))" using i(1) by simp
qed simp

declare kill_line.simps [simp del]

text \<open>
  One character of the loop of \<^verbatim>\<open>consoleintr\<close>.  The process table is there for \<^verbatim>\<open>wakeup\<close>; the
  flag is \<^verbatim>\<open>doprocdump\<close>.
\<close>

definition intr_key :: "int \<Rightarrow> console \<times> psys \<times> bool \<Rightarrow> (console \<times> psys \<times> bool) outcome" where
  "intr_key c0 = (\<lambda>(k, ps, dump).
     let i = cin k
     in if c0 = 16 then Ok (k, ps, True)
        else if c0 = 21 then obind (kill_line k) (\<lambda>k1. Ok (k1, ps, dump))
        else if c0 = 8 \<or> c0 = 0x7F
        then if in_e i \<noteq> in_w i
             then obind (consputc BACKSPACE (k\<lparr>cin := i\<lparr>in_e := in_e i - 1\<rparr>\<rparr>)) (\<lambda>k1. Ok (k1, ps, dump))
             else Ok (k, ps, dump)
        else if c0 \<noteq> 0 \<and> in_e i - in_r i < of_nat INPUT_BUF
        then let c = (if c0 = 13 then 10 else c0);
                 i1 = i\<lparr>in_buf := (in_buf i)(slot INPUT_BUF (in_e i) := of_int c), in_e := in_e i + 1\<rparr>
             in obind (consputc c (k\<lparr>cin := i1\<rparr>)) (\<lambda>k1.
                if c = 10 \<or> c = 4 \<or> in_e i1 = in_r i1 + of_nat INPUT_BUF
                then Ok (k1\<lparr>cin := i1\<lparr>in_w := in_e i1\<rparr>\<rparr>, wakeup ps ChInput, dump)
                else Ok (k1, ps, dump))
        else Ok (k, ps, dump))"

text \<open>
  \<^verbatim>\<open>consoleintr\<close> on the characters that \<^verbatim>\<open>getc\<close> returns before the first negative one.  The flag
  in the result says whether \<^verbatim>\<open>procdump\<close> is called, which only prints.
\<close>

primrec consoleintr :: "int list \<Rightarrow> console \<times> psys \<times> bool \<Rightarrow> (console \<times> psys \<times> bool) outcome" where
  "consoleintr [] x = Ok x"
| "consoleintr (c # cs) x = obind (intr_key c x) (consoleintr cs)"

section \<open>Keyboard and serial line\<close>

definition keymap :: "uchar list \<Rightarrow> uchar \<Rightarrow> uchar \<Rightarrow> uchar \<Rightarrow> uchar" where
  "keymap ks enter kpdiv d =
     (if unat d < length ks then ks ! unat d
      else if d = 0x9C then enter else if d = 0xB5 then kpdiv
      else if d = 0xC8 then 0xE2 else if d = 0xD0 then 0xE3
      else if d = 0xC9 then 0xE6 else if d = 0xD1 then 0xE7
      else if d = 0xCB then 0xE4 else if d = 0xCD then 0xE5
      else if d = 0x97 then 0xE0 else if d = 0xCF then 0xE1
      else if d = 0xD2 then 0xE8 else if d = 0xD3 then 0xE9
      else 0)"

definition normalmap :: "uchar \<Rightarrow> uchar" where
  "normalmap = keymap
     [0, 27, 49, 50, 51, 52, 53, 54, 55, 56, 57, 48, 45, 61, 8, 9,
      113, 119, 101, 114, 116, 121, 117, 105, 111, 112, 91, 93, 10, 0, 97, 115,
      100, 102, 103, 104, 106, 107, 108, 59, 39, 96, 0, 92, 122, 120, 99, 118,
      98, 110, 109, 44, 46, 47, 0, 42, 0, 32, 0, 0, 0, 0, 0, 0,
      0, 0, 0, 0, 0, 0, 0, 55, 56, 57, 45, 52, 53, 54, 43, 49,
      50, 51, 48, 46, 0, 0, 0, 0] 10 47"

definition shiftmap :: "uchar \<Rightarrow> uchar" where
  "shiftmap = keymap
     [0, 27, 33, 64, 35, 36, 37, 94, 38, 42, 40, 41, 95, 43, 8, 9,
      81, 87, 69, 82, 84, 89, 85, 73, 79, 80, 123, 125, 10, 0, 65, 83,
      68, 70, 71, 72, 74, 75, 76, 58, 34, 126, 0, 124, 90, 88, 67, 86,
      66, 78, 77, 60, 62, 63, 0, 42, 0, 32, 0, 0, 0, 0, 0, 0,
      0, 0, 0, 0, 0, 0, 0, 55, 56, 57, 45, 52, 53, 54, 43, 49,
      50, 51, 48, 46, 0, 0, 0, 0] 10 47"

text \<open>\<^verbatim>\<open>C('/')\<close> is negative and becomes 239 as an \<^verbatim>\<open>uchar\<close>.\<close>

definition ctlmap :: "uchar \<Rightarrow> uchar" where
  "ctlmap = keymap
     [0, 0, 0, 0, 0, 0, 0, 0, 0, 0, 0, 0, 0, 0, 0, 0,
      17, 23, 5, 18, 20, 25, 21, 9, 15, 16, 0, 0, 13, 0, 1, 19,
      4, 6, 7, 8, 10, 11, 12, 0, 0, 0, 0, 28, 26, 24, 3, 22,
      2, 14, 13, 0, 0, 239, 0, 0] 13 239"

definition SHIFT :: uint where "SHIFT = 1"
definition CTL :: uint where "CTL = 2"
definition ALT :: uint where "ALT = 4"
definition CAPSLOCK :: uint where "CAPSLOCK = 8"
definition NUMLOCK :: uint where "NUMLOCK = 16"
definition SCROLLLOCK :: uint where "SCROLLLOCK = 32"
definition E0ESC :: uint where "E0ESC = 64"

definition shiftcode :: "uchar \<Rightarrow> uint" where
  "shiftcode d = (if d = 0x1D \<or> d = 0x9D then CTL else if d = 0x2A \<or> d = 0x36 then SHIFT
     else if d = 0x38 \<or> d = 0xB8 then ALT else 0)"

definition togglecode :: "uchar \<Rightarrow> uint" where
  "togglecode d = (if d = 0x3A then CAPSLOCK else if d = 0x45 then NUMLOCK else if d = 0x46 then SCROLLLOCK else 0)"

definition charcode :: "uint \<Rightarrow> uchar \<Rightarrow> uchar" where
  "charcode sh = (if sh = 0 then normalmap else if sh = 1 then shiftmap else ctlmap)"

definition caps :: "uchar \<Rightarrow> uchar" where
  "caps c = (if 97 \<le> c \<and> c \<le> 122 then c - 32 else if 65 \<le> c \<and> c \<le> 90 then c + 32 else c)"

text \<open>\<^verbatim>\<open>kbdgetc\<close> when the controller holds \<open>data\<close>, with the static \<^verbatim>\<open>shift\<close>.\<close>

definition kbdgetc :: "uint \<Rightarrow> uchar \<Rightarrow> uchar \<times> uint" where
  "kbdgetc shift data =
     (if data = 0xE0 then (0, shift OR E0ESC)
      else if data AND 0x80 \<noteq> 0
      then let d = (if shift AND E0ESC \<noteq> 0 then data else data AND 0x7F)
           in (0, shift AND NOT (shiftcode d OR E0ESC))
      else let esc = (shift AND E0ESC \<noteq> 0);
               d = (if esc then data OR 0x80 else data);
               sh0 = (if esc then shift AND NOT E0ESC else shift);
               sh = (sh0 OR shiftcode d) XOR togglecode d;
               c = charcode (sh AND (CTL OR SHIFT)) d
           in (if sh AND CAPSLOCK \<noteq> 0 then caps c else c, sh))"

primrec kbd_chars :: "uchar list \<Rightarrow> uint \<Rightarrow> int list \<times> uint" where
  "kbd_chars [] shift = ([], shift)"
| "kbd_chars (d # ds) shift =
     (case kbdgetc shift d of (c, sh) \<Rightarrow> case kbd_chars ds sh of (cs, sh') \<Rightarrow> (uint c # cs, sh'))"

text \<open>The handlers, on the bytes that the keyboard controller or the serial port holds.\<close>

definition kbdintr :: "uchar list \<Rightarrow> uint \<Rightarrow> console \<Rightarrow> psys \<Rightarrow> (uint \<times> console \<times> psys \<times> bool) outcome" where
  "kbdintr ds shift k ps =
     (case kbd_chars ds shift of (cs, sh) \<Rightarrow> obind (consoleintr cs (k, ps, False)) (\<lambda>x. Ok (sh, x)))"

definition uartintr :: "uchar list \<Rightarrow> console \<Rightarrow> psys \<Rightarrow> (console \<times> psys \<times> bool) outcome" where
  "uartintr ds k ps = consoleintr (if uart k then map uint ds else []) (k, ps, False)"

section \<open>Reading and writing\<close>

text \<open>
  The loop of \<^verbatim>\<open>consoleread\<close>, to its next \<^verbatim>\<open>sleep\<close>: the result, the bytes stored, what is left of
  \<^verbatim>\<open>n\<close>, and the input.
\<close>

function consoleread_loop :: "bool \<Rightarrow> int \<Rightarrow> int \<Rightarrow> cinput \<Rightarrow> pcall \<times> uchar list \<times> int \<times> cinput" where
  "consoleread_loop killed target n i =
     (if n > 0
      then if in_r i = in_w i
           then (if killed then Return (- 1) else Asleep, [], n, i)
           else let c = in_buf i (slot INPUT_BUF (in_r i)); i1 = i\<lparr>in_r := in_r i + 1\<rparr>
                in if c = 4 then (Return (target - n), [], n, if n < target then i else i1)
                   else if c = 10 then (Return (target - (n - 1)), [c], n - 1, i1)
                   else case consoleread_loop killed target (n - 1) i1 of (r, cs, m, i2) \<Rightarrow> (r, c # cs, m, i2)
      else (Return (target - n), [], n, i))"
  by pat_completeness auto
termination by (relation "measure (\<lambda>(killed, target, n, i). nat n)") auto

declare consoleread_loop.simps [simp del]

text \<open>The device's part of an inode is unlocked while the console is used.\<close>

definition consoleread ::
  "bool \<Rightarrow> int \<Rightarrow> console fssys \<Rightarrow> nat \<Rightarrow> int \<Rightarrow> (pcall \<times> uchar list \<times> int \<times> console fssys) outcome" where
  "consoleread killed pid s ip n =
     obind (iunlock pid s (Some ip)) (\<lambda>s1.
     case consoleread_loop killed n n (cin (fs_devs s1)) of (r, cs, m, i) \<Rightarrow>
       let s2 = s1\<lparr>fs_devs := (fs_devs s1)\<lparr>cin := i\<rparr>\<rparr>
       in if r = Asleep then Ok (r, cs, m, s2)
          else obind (ilock pid s2 (Some ip)) (\<lambda>s3. Ok (r, cs, m, s3)))"

definition consolewrite ::
  "int \<Rightarrow> console fssys \<Rightarrow> nat \<Rightarrow> uchar list \<Rightarrow> int \<Rightarrow> (int \<times> console fssys) outcome" where
  "consolewrite pid s ip buf n =
     obind (iunlock pid s (Some ip)) (\<lambda>s1.
     obind (consputs (map uint (take (nat n) buf)) (fs_devs s1)) (\<lambda>k.
     obind (ilock pid (s1\<lparr>fs_devs := k\<rparr>) (Some ip)) (\<lambda>s2. Ok (n, s2))))"

section \<open>The screen never overflows\<close>

definition screen_ok :: "cga \<Rightarrow> bool" where
  "screen_ok g \<longleftrightarrow> cursor g < 24 * 80"

lemma cgaputc_ok:
  assumes "screen_ok g"
  shows "\<exists>g'. cgaputc c g = Ok g' \<and> screen_ok g'"
proof -
  define g1 where "g1 = cga_move c g"
  have "cursor g div 80 < 24" using assms by (auto simp: screen_ok_def)
  then have "cursor g + (80 - cursor g mod 80) \<le> 24 * 80"
    using div_mult_mod_eq [of "cursor g" 80] mod_less_divisor [of 80 "cursor g"] by linarith
  then have "cursor g1 \<le> 24 * 80"
    using assms by (auto simp: g1_def cga_move_def Let_def screen_ok_def)
  moreover from this have "screen_ok (cga_scroll g1)"
    by (cases "cursor g1 div 80 \<ge> 24") (auto simp: cga_scroll_def screen_ok_def Let_def)
  ultimately show ?thesis
    by (simp add: cgaputc_def Let_def g1_def [symmetric] screen_ok_def)
qed

lemma consputc_ok:
  assumes "screen_ok (screen k)"
  obtains k' where "consputc c k = Ok k'" and "screen_ok (screen k')" and "cin k' = cin k"
proof -
  define k1 where "k1 = (if c = BACKSPACE then uartputc 8 (uartputc 32 (uartputc 8 k)) else uartputc c k)"
  have "screen k1 = screen k" "cin k1 = cin k" by (simp_all add: k1_def uartputc_def)
  moreover obtain g' where "cgaputc c (screen k) = Ok g'" "screen_ok g'" using cgaputc_ok [OF assms] by blast
  ultimately show ?thesis using that [of "k1\<lparr>screen := g'\<rparr>"] by (simp add: consputc_def k1_def [symmetric])
qed

section \<open>Line editing\<close>

text \<open>
  What the user and the readers see: the bytes of finished lines that nobody has read, and the
  line that is being typed.
\<close>

type_synonym editor = "uchar list \<times> uchar list"

definition edit_key :: "int \<Rightarrow> editor \<Rightarrow> editor" where
  "edit_key c0 = (\<lambda>(done, line).
     if c0 = 16 \<or> c0 = 0 then (done, line)
     else if c0 = 21 then (done, [])
     else if c0 = 8 \<or> c0 = 0x7F then (done, butlast line)
     else if length (done @ line) = 128 then (done, line)
     else let c = (if c0 = 13 then 10 else of_int c0); line' = line @ [c]
          in if c = 10 \<or> c = 4 \<or> length (done @ line') = 128 then (done @ line', []) else (done, line'))"

text \<open>The ring holds both lists; a line that is being typed has no newline and no control-D.\<close>

definition shows_input :: "cinput \<Rightarrow> editor \<Rightarrow> bool" where
  "shows_input i = (\<lambda>(done, line).
     unat (in_w i - in_r i) = length done \<and> unat (in_e i - in_r i) = length (done @ line) \<and>
     length (done @ line) \<le> INPUT_BUF \<and> ring (in_buf i) INPUT_BUF (in_r i) (length (done @ line)) = done @ line \<and>
     10 \<notin> set line \<and> 4 \<notin> set line)"

lemma shows_inputD:
  assumes "shows_input i (done, line)"
  shows "in_w i = in_r i + of_nat (length done)" and "in_e i = in_r i + of_nat (length (done @ line))"
    and "in_e i = in_w i \<longleftrightarrow> line = []" and "in_r i = in_w i \<longleftrightarrow> done = []"
proof -
  have u: "unat (in_w i - in_r i) = length done" "unat (in_e i - in_r i) = length (done @ line)" "length (done @ line) \<le> 128"
    using assms by (simp_all add: shows_input_def)
  have w: "in_w i - in_r i = of_nat (length done)" "in_e i - in_r i = of_nat (length (done @ line))"
    using u unat_of_nat_uint [of "length done"] unat_of_nat_uint [of "length (done @ line)"]
    unfolding word_unat_eq_iff by simp_all
  then show a: "in_w i = in_r i + of_nat (length done)" "in_e i = in_r i + of_nat (length (done @ line))"
    by (metis add.commute diff_add_cancel)+
  show "in_e i = in_w i \<longleftrightarrow> line = []" using u a by auto
  show "in_r i = in_w i \<longleftrightarrow> done = []"
    using u(1) by (metis diff_self eq_iff_diff_eq_0 length_0_conv unat_0 word_unat_eq_iff)
qed

lemma ring_take: "m \<le> n \<Longrightarrow> ring f N r m = take m (ring f N r n)"
  by (simp add: ring_def take_map)

lemma ring_last: "0 < n \<Longrightarrow> last (ring f N r n) = f ((unat r + (n - 1)) mod N)"
  by (simp add: ring_def last_conv_nth)

text \<open>Taking back the last byte.\<close>

lemma shows_input_back:
  assumes s: "shows_input i (done, line)" and l: "line \<noteq> []"
  shows "shows_input (i\<lparr>in_e := in_e i - 1\<rparr>) (done, butlast line)"
proof -
  note d = shows_inputD [OF s]
  define m where "m = length (done @ butlast line)"
  have n: "length (done @ line) = Suc m" using l by (cases line rule: rev_cases) (simp_all add: m_def)
  have "in_e i - 1 - in_r i = of_nat m" using d(2) unfolding n by simp
  then have "unat (in_e i - 1 - in_r i) = m"
    using s n unat_of_nat_uint [of m] by (simp add: shows_input_def)
  moreover have "ring (in_buf i) 128 (in_r i) m = butlast (done @ line)"
    using s n ring_take [of m "Suc m" "in_buf i" 128 "in_r i"] by (simp add: shows_input_def butlast_conv_take)
  moreover have "10 \<notin> set (butlast line)" "4 \<notin> set (butlast line)"
    using s by (auto simp: shows_input_def dest: in_set_butlastD)
  moreover have "m \<le> 128" "unat (in_w i - in_r i) = length done" using s n by (simp_all add: shows_input_def)
  ultimately show ?thesis using l by (simp add: shows_input_def m_def butlast_append)
qed

text \<open>Adding a byte, and finishing the line.\<close>

lemma shows_input_add:
  fixes c :: uchar
  assumes s: "shows_input i (done, line)" and n: "length (done @ line) < INPUT_BUF"
  defines "i1 \<equiv> i\<lparr>in_buf := (in_buf i)(slot INPUT_BUF (in_e i) := c), in_e := in_e i + 1\<rparr>"
  shows "unat (in_w i1 - in_r i1) = length done" and "unat (in_e i1 - in_r i1) = Suc (length (done @ line))"
    and "ring (in_buf i1) INPUT_BUF (in_r i1) (Suc (length (done @ line))) = done @ line @ [c]"
    and "in_e i1 = in_r i1 + of_nat (Suc (length (done @ line)))"
proof -
  note d = shows_inputD [OF s]
  define m where "m = length (done @ line)"
  have m: "unat (in_e i - in_r i) = m" "ring (in_buf i) 128 (in_r i) m = done @ line" "in_e i = in_r i + of_nat m" "m < 128"
    using s n d(2) by (simp_all add: shows_input_def m_def)
  show "unat (in_w i1 - in_r i1) = length done" using s by (simp add: shows_input_def i1_def)
  show e: "in_e i1 = in_r i1 + of_nat (Suc (length (done @ line)))"
    unfolding m_def [symmetric] using m(3) by (simp add: i1_def)
  show "unat (in_e i1 - in_r i1) = Suc (length (done @ line))"
    unfolding e using m(4) unat_of_nat_uint [of "Suc m"] by (simp add: m_def del: of_nat_Suc)
  show "ring (in_buf i1) INPUT_BUF (in_r i1) (Suc (length (done @ line))) = done @ line @ [c]"
    unfolding m_def [symmetric] using ring_put [of 128 m "in_e i" "in_r i" "in_buf i" c] m by (simp add: i1_def)
qed

lemma kill_line_ok:
  "screen_ok (screen k) \<Longrightarrow> shows_input (cin k) (done, line) \<Longrightarrow>
   \<exists>k'. kill_line k = Ok k' \<and> screen_ok (screen k') \<and> shows_input (cin k') (done, [])"
proof (induction "length line" arbitrary: k line)
  case 0
  then have "in_e (cin k) = in_w (cin k)" "line = []" using shows_inputD(3) by auto
  with 0 show ?case by (simp add: kill_line.simps [of k])
next
  case (Suc m)
  then have l: "line \<noteq> []" by auto
  let ?i = "cin k"
  note d = shows_inputD [OF Suc.prems(2)]
  have "in_buf ?i (slot 128 (in_e ?i - 1)) = last (done @ line)"
  proof -
    obtain n where n: "length (done @ line) = Suc n" using l by (cases "done @ line") auto
    have "unat (of_nat n :: uint) = n" using Suc.prems(2) n by (intro unat_of_nat_uint) (simp add: shows_input_def)
    moreover have "in_e ?i - 1 = in_r ?i + of_nat n" using d(2) unfolding n by simp
    ultimately have "slot 128 (in_e ?i - 1) = (unat (in_r ?i) + n) mod 128" using slot_add [of 128 "in_r ?i" "of_nat n"] by simp
    moreover have "ring (in_buf ?i) 128 (in_r ?i) (Suc n) = done @ line" using Suc.prems(2) n by (simp add: shows_input_def)
    ultimately show ?thesis using ring_last [of "Suc n" "in_buf ?i" 128 "in_r ?i"] by simp
  qed
  moreover have "10 \<notin> set line" using Suc.prems(2) by (simp add: shows_input_def)
  then have "last (done @ line) \<noteq> 10" using last_in_set [OF l] last_appendR [OF l] by metis
  ultimately have cond: "in_e ?i \<noteq> in_w ?i" "in_buf ?i (slot 128 (in_e ?i - 1)) \<noteq> 10"
    using d(3) l by simp_all
  obtain k1 where k1: "consputc BACKSPACE (k\<lparr>cin := ?i\<lparr>in_e := in_e ?i - 1\<rparr>\<rparr>) = Ok k1" "screen_ok (screen k1)"
      "cin k1 = ?i\<lparr>in_e := in_e ?i - 1\<rparr>"
    by (rule consputc_ok [of "k\<lparr>cin := ?i\<lparr>in_e := in_e ?i - 1\<rparr>\<rparr>" BACKSPACE]) (use Suc.prems(1) in simp_all)
  have "shows_input (cin k1) (done, butlast line)" unfolding k1(3) by (rule shows_input_back [OF Suc.prems(2) l])
  moreover have "m = length (butlast line)" using Suc.hyps(2) by simp
  ultimately obtain k' where "kill_line k1 = Ok k' \<and> screen_ok (screen k') \<and> shows_input (cin k') (done, [])"
    using Suc.hyps(1) [of "butlast line" k1] k1(2) by blast
  then show ?case using cond k1(1) by (simp add: kill_line.simps [of k] Let_def)
qed

lemma byte_eq: "0 \<le> c \<Longrightarrow> c < 256 \<Longrightarrow> (of_int c :: uchar) = of_int b \<longleftrightarrow> c = b" if "0 \<le> b" "b < 256"
  using that by (auto simp: word_uint_eq_iff uint_word_of_int take_bit_eq_mod)

text \<open>A character that is put into the buffer.\<close>

lemma intr_plain_ok:
  assumes scr: "screen_ok (screen k)" and s: "shows_input (cin k) (dn, line)" and n: "length (dn @ line) < 128"
    and ne: "c0 \<noteq> 16" "c0 \<noteq> 0" "c0 \<noteq> 21" "\<not> (c0 = 8 \<or> c0 = 0x7F)" and c0: "0 \<le> c0" "c0 < 256"
  shows "\<exists>k' ps' b'. intr_key c0 (k, ps, b) = Ok (k', ps', b') \<and> screen_ok (screen k') \<and>
    shows_input (cin k') (edit_key c0 (dn, line))"
proof -
  define c where "c = (if c0 = 13 then 10 else c0)"
  let ?i = "cin k"
  define i1 where "i1 = ?i\<lparr>in_buf := (in_buf ?i)(slot INPUT_BUF (in_e ?i) := of_int c), in_e := in_e ?i + 1\<rparr>"
  note a = shows_input_add [OF s n, of "of_int c", folded i1_def]
  have full: "in_e ?i - in_r ?i < of_nat 128"
    using s n by (simp add: shows_input_def word_less_nat_alt)
  obtain k1 where k1: "consputc c (k\<lparr>cin := i1\<rparr>) = Ok k1" "screen_ok (screen k1)" "cin k1 = i1"
    by (rule consputc_ok [of "k\<lparr>cin := i1\<rparr>" c]) (use scr in simp_all)
  have run: "intr_key c0 (k, ps, b) =
      (if c = 10 \<or> c = 4 \<or> in_e i1 = in_r i1 + of_nat INPUT_BUF
       then Ok (k1\<lparr>cin := i1\<lparr>in_w := in_e i1\<rparr>\<rparr>, wakeup ps ChInput, b) else Ok (k1, ps, b))"
    using ne full k1(1) unfolding intr_key_def c_def i1_def by (simp add: Let_def)
  have "in_e i1 = in_r i1 + of_nat INPUT_BUF \<longleftrightarrow> Suc (length (dn @ line)) = 128"
    using a(2,4) by (auto simp del: of_nat_Suc)
  moreover have cb: "(of_int c :: uchar) = 10 \<longleftrightarrow> c = 10" "(of_int c :: uchar) = 4 \<longleftrightarrow> c = 4"
    using byte_eq [of 10 c] byte_eq [of 4 c] c0 by (simp_all add: c_def)
  moreover have ed: "edit_key c0 (dn, line) =
      (if (of_int c :: uchar) = 10 \<or> (of_int c :: uchar) = 4 \<or> Suc (length (dn @ line)) = 128
       then (dn @ line @ [of_int c], []) else (dn, line @ [of_int c]))"
    using ne n by (auto simp: edit_key_def c_def Let_def)
  ultimately show ?thesis
  proof (cases "c = 10 \<or> c = 4 \<or> Suc (length (dn @ line)) = 128")
    case True
    then have "shows_input (i1\<lparr>in_w := in_e i1\<rparr>) (dn @ line @ [of_int c], [])"
      using a n by (simp add: shows_input_def)
    then show ?thesis using True run ed cb \<open>in_e i1 = _ \<longleftrightarrow> _\<close> k1 by auto
  next
    case False
    then have "shows_input i1 (dn, line @ [of_int c])"
      using a n s cb by (auto simp: shows_input_def)
    then show ?thesis using False run ed cb \<open>in_e i1 = _ \<longleftrightarrow> _\<close> k1 by auto
  qed
qed

lemma intr_key_ok:
  assumes scr: "screen_ok (screen k)" and s: "shows_input (cin k) x" and c: "0 \<le> c" "c < 256"
  shows "\<exists>k' ps' b'. intr_key c (k, ps, b) = Ok (k', ps', b') \<and> screen_ok (screen k') \<and> shows_input (cin k') (edit_key c x)"
proof -
  obtain dn line where x: "x = (dn, line)" by force
  note s = s[unfolded x]
  note d = shows_inputD [OF s]
  let ?i = "cin k"
  have full: "in_e ?i - in_r ?i < of_nat 128 \<longleftrightarrow> length (dn @ line) < 128"
    using s by (simp add: shows_input_def word_less_nat_alt)
  consider "c = 16 \<or> c = 0" | "c = 21" | "c = 8 \<or> c = 0x7F" | (plain) "c \<notin> {16, 0, 21, 8, 0x7F}" by auto
  then show ?thesis
  proof cases
    case 1
    then show ?thesis using scr s by (auto simp: intr_key_def edit_key_def x Let_def)
  next
    case 2
    then show ?thesis using kill_line_ok [OF scr s] by (auto simp: intr_key_def edit_key_def x Let_def)
  next
    case 3
    show ?thesis
    proof (cases "line = []")
      case True
      then show ?thesis using 3 scr s d(3) by (auto simp: intr_key_def edit_key_def x Let_def)
    next
      case False
      obtain k1 where "consputc BACKSPACE (k\<lparr>cin := ?i\<lparr>in_e := in_e ?i - 1\<rparr>\<rparr>) = Ok k1" "screen_ok (screen k1)"
          "cin k1 = ?i\<lparr>in_e := in_e ?i - 1\<rparr>"
        by (rule consputc_ok [of "k\<lparr>cin := ?i\<lparr>in_e := in_e ?i - 1\<rparr>\<rparr>" BACKSPACE]) (use scr in simp_all)
      then show ?thesis using 3 False d(3) shows_input_back [OF s False] by (auto simp: intr_key_def edit_key_def x Let_def)
    qed
  next
    case plain
    then have ne: "c \<noteq> 16" "c \<noteq> 0" "c \<noteq> 21" "\<not> (c = 8 \<or> c = 0x7F)" by auto
    show ?thesis
    proof (cases "length (dn @ line) < 128")
      case False
      then have "length (dn @ line) = 128" using s by (simp add: shows_input_def)
      then show ?thesis using ne full False scr s by (auto simp: intr_key_def edit_key_def x Let_def)
    next
      case True
      then show ?thesis using intr_plain_ok [OF scr s True ne c] full by (simp add: x)
    qed
  qed
qed

lemma consoleintr_ok:
  assumes "screen_ok (screen k)" and "shows_input (cin k) x" and "\<forall>c \<in> set cs. 0 \<le> c \<and> c < 256"
  shows "\<exists>k' ps' b'. consoleintr cs (k, ps, b) = Ok (k', ps', b') \<and> screen_ok (screen k') \<and>
    shows_input (cin k') (fold edit_key cs x)"
  using assms
proof (induction cs arbitrary: k ps b x)
  case (Cons c cs)
  have c: "0 \<le> c" "c < 256" using Cons.prems(3) by simp_all
  obtain k1 ps1 b1 where "intr_key c (k, ps, b) = Ok (k1, ps1, b1)" "screen_ok (screen k1)"
      "shows_input (cin k1) (edit_key c x)"
    using intr_key_ok [OF Cons.prems(1,2) c] by blast
  with Cons.IH [of k1 "edit_key c x" ps1 b1] Cons.prems(3) show ?case by auto
qed auto

text \<open>
  C19: Whatever is typed, the console's interrupt handler never stops the machine: it behaves like
  the line editor on two lists, finished lines and the line being typed, whose buffer of 128
  bytes it keeps in a ring with wrapping indices, and the cursor stays on the screen.
\<close>

theorem console_edits_lines:
  assumes "screen_ok (screen k)" and "shows_input (cin k) x" and "\<forall>c \<in> set cs. 0 \<le> c \<and> c < 256"
  shows "\<exists>k' ps' b'. consoleintr cs (k, ps, b) = Ok (k', ps', b') \<and> screen_ok (screen k') \<and>
    shows_input (cin k') (fold edit_key cs x)"
  using consoleintr_ok [OF assms] .

text \<open>Reading removes bytes of finished lines.\<close>

lemma shows_input_get:
  assumes s: "shows_input i (c # done, line)"
  shows "in_buf i (slot INPUT_BUF (in_r i)) = c" and "shows_input (i\<lparr>in_r := in_r i + 1\<rparr>) (done, line)"
    and "in_r i \<noteq> in_w i"
proof -
  define m where "m = length (done @ line)"
  have r: "ring (in_buf i) 128 (in_r i) (Suc m) = c # done @ line" using s by (simp add: shows_input_def m_def)
  then have "c # done @ line = in_buf i (slot 128 (in_r i)) # ring (in_buf i) 128 (in_r i + 1) m"
    using ring_Suc_left [of 128 "in_buf i" "in_r i" m] by simp
  then show c: "in_buf i (slot INPUT_BUF (in_r i)) = c" and rm: "in_r i \<noteq> in_w i"
    using shows_inputD(4) [OF s] by simp_all
  note d = shows_inputD(1,2) [OF s]
  have "in_w i - (in_r i + 1) = of_nat (length done)" "in_e i - (in_r i + 1) = of_nat m"
    using d by (simp_all add: m_def)
  moreover have "m \<le> 128" "length done \<le> m" using s by (simp_all add: shows_input_def m_def)
  ultimately have "unat (in_w i - (in_r i + 1)) = length done" "unat (in_e i - (in_r i + 1)) = m"
    using unat_of_nat_uint [of "length done"] unat_of_nat_uint [of m] by simp_all
  with \<open>c # done @ line = _\<close> s show "shows_input (i\<lparr>in_r := in_r i + 1\<rparr>) (done, line)"
    by (simp add: shows_input_def m_def)
qed

lemma consoleread_line:
  assumes "shows_input i (l @ 10 # rest, line)" and "10 \<notin> set l" and "4 \<notin> set l" and "int (length l) < n"
  shows "\<exists>i'. consoleread_loop killed target n i =
      (Return (target - (n - int (length l) - 1)), l @ [10], n - int (length l) - 1, i') \<and> shows_input i' (rest, line)"
  using assms
proof (induction l arbitrary: i n)
  case Nil
  note g = shows_input_get [OF Nil.prems(1) [unfolded append_Nil]]
  show ?case using g Nil.prems(4) by (simp add: consoleread_loop.simps [of killed target n i] Let_def)
next
  case (Cons c l)
  note g = shows_input_get [OF Cons.prems(1) [unfolded append_Cons]]
  from Cons.IH [OF g(2), of "n - 1"] Cons.prems(2-4) g show ?case
    by (auto simp: consoleread_loop.simps [of killed target n i] Let_def algebra_simps)
qed

lemma fold_edit_plain:
  "\<forall>c \<in> set l. 32 \<le> c \<and> c < 127 \<Longrightarrow> length l < 128 \<Longrightarrow> fold edit_key (map uint l) ([], []) = ([], l)"
proof (induction l rule: rev_induct)
  case (snoc c l)
  then have "32 \<le> uint c" "uint c < 127" by (auto simp: word_le_def word_less_def)
  moreover have "c \<noteq> 10" "c \<noteq> 4" using calculation by auto
  ultimately show ?case using snoc by (auto simp: edit_key_def Let_def)
qed simp

text \<open>
  C18: A line of printable characters that is typed on an idle console and ended with Enter is
  what the next \<^verbatim>\<open>consoleread\<close> with a long enough buffer returns, a newline at its end, and the
  console is idle again.
\<close>

theorem typed_line_is_read:
  assumes "screen_ok (screen k)" and "shows_input (cin k) ([], [])"
    and "\<forall>c \<in> set l. 32 \<le> c \<and> c < 127" and "length l < 127" and "int (length l) < n"
  shows "\<exists>k' ps' b' i'. consoleintr (map uint l @ [13]) (k, ps, b) = Ok (k', ps', b') \<and>
    consoleread_loop killed n n (cin k') = (Return (int (length l) + 1), l @ [10], n - int (length l) - 1, i') \<and>
    shows_input i' ([], [])"
proof -
  have cs: "\<forall>c \<in> set (map uint l @ [13]). 0 \<le> c \<and> c < 256"
    using assms(3) by (auto simp: word_less_def)
  have e: "fold edit_key (map uint l @ [13]) ([], []) = (l @ [10], [])"
    using fold_edit_plain [OF assms(3)] assms(4) by (simp add: edit_key_def Let_def)
  obtain k' ps' b' where k': "consoleintr (map uint l @ [13]) (k, ps, b) = Ok (k', ps', b')"
      "shows_input (cin k') (l @ [10], [])"
    using consoleintr_ok [OF assms(1,2) cs, of ps b] e by auto
  have "10 \<notin> set l" "4 \<notin> set l" using assms(3) by (auto simp: word_le_def)
  from consoleread_line [OF k'(2) [unfolded append_Cons] this assms(5), of killed n] k'(1) show ?thesis by auto
qed

definition demo_con :: console where
  "demo_con = \<lparr>cin = \<lparr>in_buf = (\<lambda>_. 0), in_r = 0xFFFFFFFF, in_w = 0xFFFFFFFF, in_e = 0xFFFFFFFF\<rparr>,
     screen = \<lparr>crt = (\<lambda>_. 0), cursor = 1919\<rparr>, uart = True, serial = []\<rparr>"

lemma demo_con_ok: "screen_ok (screen demo_con)" "shows_input (cin demo_con) ([], [])"
  by (simp_all add: demo_con_def screen_ok_def shows_input_def)

theorem console_edits_lines_witness:
  "\<exists>k' ps' b'. consoleintr [104, 120, 8, 105, 13] (demo_con, zero_psys 1, False) = Ok (k', ps', b') \<and>
     screen_ok (screen k') \<and> shows_input (cin k') ([104, 105, 10], [])"
  using console_edits_lines [OF demo_con_ok, of "[104, 120, 8, 105, 13]" "zero_psys 1" False]
  by (simp add: edit_key_def Let_def)

theorem typed_line_is_read_witness:
  "\<exists>k' ps' b' i'. consoleintr [104, 105, 13] (demo_con, zero_psys 1, False) = Ok (k', ps', b') \<and>
    consoleread_loop False 10 10 (cin k') = (Return 3, [104, 105, 10], 7, i') \<and> shows_input i' ([], [])"
  using typed_line_is_read [OF demo_con_ok, of "[104, 105]" 10 "zero_psys 1" False False] by simp

end
