(* ===== verification/Xv6_Trap.thy ===== *)
theory Xv6_Trap
  imports Xv6_Exec Xv6_Console
begin

text \<open>
  The dispatch of system calls, \<^verbatim>\<open>src/xv6/syscall.c\<close>, and of traps and interrupts,
  \<^verbatim>\<open>src/xv6/trap.c\<close>, on the state of the whole kernel with the console as its device.  The main
  result is an invariant of every trap: the file table counts the descriptors of all processes.
\<close>

section \<open>System calls\<close>

type_synonym 'd sysfun = "'d kenv \<Rightarrow> nat \<Rightarrow> nat \<Rightarrow> 'd ksys \<Rightarrow> (pcall \<times> 'd ksys) outcome"

definition sys_pscnt_call :: "'d sysfun" where
  "sys_pscnt_call E c cur k = ret (sys_pscnt (kps k)) k"

text \<open>\<^verbatim>\<open>syscalls\<close>, from \<^verbatim>\<open>SYS_fork\<close>, 1, to \<^verbatim>\<open>SYS_pscnt\<close>, 25.\<close>

definition syscalls :: "'d sysfun list" where
  "syscalls = [sys_fork, sys_exit, sys_wait, sys_pipe, sys_read, sys_kill, sys_exec, sys_fstat, sys_chdir, sys_dup,
     sys_getpid, sys_sbrk, sys_sleep, sys_uptime, sys_open, sys_write, sys_mknod, sys_unlink, sys_link, sys_mkdir,
     sys_close, sys_trace, sys_answer, sys_getppid, sys_pscnt_call]"

definition set_eax :: "'d ksys \<Rightarrow> nat \<Rightarrow> int \<Rightarrow> 'd ksys" where
  "set_eax k cur v = k\<lparr>kkm := poke (kkm k) (p_tf (cur_proc k cur) + TF_EAX) (of_int v)\<rparr>"

text \<open>
  The result says whether the call returned; otherwise the process sleeps inside it, or is
  gone.  The line that \<^verbatim>\<open>trace\<close> asks for is only printed.
\<close>

definition syscall :: "'d kenv \<Rightarrow> nat \<Rightarrow> nat \<Rightarrow> 'd ksys \<Rightarrow> (bool \<times> 'd ksys) outcome" where
  "syscall E c cur k =
     (let num = sint (load32 (kmemory (kkm k)) (p_tf (cur_proc k cur) + TF_EAX))
      in if num > 0 \<and> num < 26
         then obind ((syscalls ! nat (num - 1)) E c cur k) (\<lambda>(r, k1).
                case r of
                  Asleep \<Rightarrow> Ok (False, k1)
                | Return v \<Rightarrow> Ok (True, set_eax k1 cur v))
         else Ok (True, set_eax k cur (- 1)))"

section \<open>Traps\<close>

text \<open>
  What the devices hold when they interrupt: the queue of the disk driver and its status port,
  the scan codes with the keyboard's \<^verbatim>\<open>shift\<close>, and the bytes at the serial port.
\<close>

record irqs =
  ir_ide :: idesys
  ir_ports :: "uchar list"
  ir_kbd :: "uchar list"
  ir_shift :: uint
  ir_com :: "uchar list"

definition TF_TRAPNO :: uint where "TF_TRAPNO = 48"
definition TF_CS :: uint where "TF_CS = 60"

definition T_SYSCALL :: uint where "T_SYSCALL = 64"
definition T_IRQ0 :: uint where "T_IRQ0 = 32"
definition IRQ_TIMER :: uint where "IRQ_TIMER = 0"
definition IRQ_KBD :: uint where "IRQ_KBD = 1"
definition IRQ_COM1 :: uint where "IRQ_COM1 = 4"
definition IRQ_IDE :: uint where "IRQ_IDE = 14"
definition IRQ_SPURIOUS :: uint where "IRQ_SPURIOUS = 31"

definition set_console :: "console ksys \<Rightarrow> console \<Rightarrow> psys \<Rightarrow> console ksys" where
  "set_console k con ps = k\<lparr>kfs := (kfs k)\<lparr>fs_devs := con\<rparr>, kps := ps\<rparr>"

definition killed :: "'d ksys \<Rightarrow> nat \<Rightarrow> bool" where
  "killed k cur \<longleftrightarrow> p_killed (cur_proc k cur)"

text \<open>The switch of \<^verbatim>\<open>trap\<close>; \<^verbatim>\<open>lapiceoi\<close> only acknowledges.\<close>

definition trap_switch ::
  "nat \<Rightarrow> uint \<Rightarrow> uint \<Rightarrow> nat option \<Rightarrow> irqs \<Rightarrow> console ksys \<Rightarrow> (irqs \<times> console ksys) outcome" where
  "trap_switch c trapno cs cur q k =
     (if trapno = T_IRQ0 + IRQ_TIMER
      then Ok (q, if c = 0 then k\<lparr>ticks := ticks k + 1, kps := wakeup (kps k) ChTicks\<rparr> else k)
      else if trapno = T_IRQ0 + IRQ_IDE
      then obind (ideintr (ir_ports q) (ir_ide q)) (\<lambda>s. Ok (q\<lparr>ir_ide := s\<rparr>, k))
      else if trapno = T_IRQ0 + IRQ_IDE + 1 then Ok (q, k)
      else if trapno = T_IRQ0 + IRQ_KBD
      then obind (kbdintr (ir_kbd q) (ir_shift q) (fs_devs (kfs k)) (kps k)) (\<lambda>(sh, con, ps, _).
             Ok (q\<lparr>ir_kbd := [], ir_shift := sh\<rparr>, set_console k con ps))
      else if trapno = T_IRQ0 + IRQ_COM1
      then obind (uartintr (ir_com q) (fs_devs (kfs k)) (kps k)) (\<lambda>(con, ps, _).
             Ok (q\<lparr>ir_com := []\<rparr>, set_console k con ps))
      else if trapno = T_IRQ0 + 7 \<or> trapno = T_IRQ0 + IRQ_SPURIOUS then Ok (q, k)
      else case cur of
             None \<Rightarrow> Panic ''trap''
           | Some i \<Rightarrow> if cs AND 3 = 0 then Panic ''trap''
                       else Ok (q, upd_proc k i ((cur_proc k i)\<lparr>p_killed := True\<rparr>)))"

text \<open>The last check, which a process that yielded makes when it runs again.\<close>

definition trap_last :: "console kenv \<Rightarrow> nat \<Rightarrow> uint \<Rightarrow> nat option \<Rightarrow> console ksys \<Rightarrow> console ksys outcome" where
  "trap_last E c cs cur k =
     (case cur of
        None \<Rightarrow> Ok k
      | Some i \<Rightarrow> if killed k i \<and> cs AND 3 = 3 then exit E c i k else Ok k)"

definition trap_tail ::
  "console kenv \<Rightarrow> nat \<Rightarrow> uint \<Rightarrow> uint \<Rightarrow> nat option \<Rightarrow> console ksys \<Rightarrow> console ksys outcome" where
  "trap_tail E c trapno cs cur k =
     (case cur of
        None \<Rightarrow> Ok k
      | Some i \<Rightarrow>
          if killed k i \<and> cs AND 3 = 3 then exit E c i k
          else if p_state (cur_proc k i) = RUNNING \<and> trapno = T_IRQ0 + IRQ_TIMER
          then Ok (k\<lparr>kps := yield (kps k) c i\<rparr>)
          else trap_last E c cs cur k)"

definition trap_syscall :: "console kenv \<Rightarrow> nat \<Rightarrow> uint \<Rightarrow> nat \<Rightarrow> console ksys \<Rightarrow> console ksys outcome" where
  "trap_syscall E c tf i k =
     (if killed k i then exit E c i k
      else obind (syscall E c i (upd_proc k i ((cur_proc k i)\<lparr>p_tf := tf\<rparr>))) (\<lambda>(back, k1).
             if back \<and> killed k1 i then exit E c i k1 else Ok k1))"

definition trap :: "console kenv \<Rightarrow> nat \<Rightarrow> uint \<Rightarrow> irqs \<Rightarrow> console ksys \<Rightarrow> (irqs \<times> console ksys) outcome" where
  "trap E c tf q k =
     (let cur = cpu_proc (kps k) ! c;
          trapno = load32 (kmemory (kkm k)) (tf + TF_TRAPNO);
          cs = load32 (kmemory (kkm k)) (tf + TF_CS)
      in if trapno = T_SYSCALL
         then case cur of
                None \<Rightarrow> Panic ''trap''
              | Some i \<Rightarrow> obind (trap_syscall E c tf i k) (\<lambda>k1. Ok (q, k1))
         else obind (trap_switch c trapno cs cur q k) (\<lambda>(q1, k1).
              obind (trap_tail E c trapno cs cur k1) (\<lambda>k2. Ok (q1, k2))))"

section \<open>The invariant\<close>

lemma keeps_set_eax: "keeps_files k (set_eax k cur v)"
  by (simp add: set_eax_def keeps_files_def)

lemma keeps_kill: "kill s pid = (r, s') \<Longrightarrow> keeps_ofile s s'"
proof -
  assume k: "kill s pid = (r, s')"
  have "keeps_ofile s (set_proc s i (if p_state (ptable s ! i) = SLEEPING then (ptable s ! i)\<lparr>p_killed := True, p_state := RUNNABLE\<rparr>
      else (ptable s ! i)\<lparr>p_killed := True\<rparr>))" for i
    by (rule keeps_set_proc) (auto simp: dead_def)
  with k show ?thesis by (auto simp: kill_def Let_def split: option.splits)
qed

lemma keeps_wait1: "wait1 kend s km c cur = Ok (r, s', km') \<Longrightarrow> keeps_ofile s s'"
proof -
  assume w: "wait1 kend s km c cur = Ok (r, s', km')"
  have "keeps_ofile s (reap s i)" if "p_state (ptable s ! i) = ZOMBIE" for i
    unfolding reap_def by (rule keeps_set_proc) (use that in \<open>auto simp: dead_def\<close>)
  with w show ?thesis
    by (auto simp: wait1_def obind_eq_Ok find_idx_Some_iff split: option.splits if_splits intro: keeps_sleep_enter)
qed

lemma deallocuvm_result: "deallocuvm kend s pgdir oldsz newsz = Ok (r, s') \<Longrightarrow> r \<le> oldsz"
  by (auto simp: deallocuvm_def obind_eq_Ok split: if_splits)

lemma keeps_growproc: "growproc kend s km cur n = Ok (r, s', km') \<Longrightarrow> keeps_ofile s s'"
proof -
  assume g: "growproc kend s km cur n = Ok (r, s', km')"
  have set: "keeps_ofile s (set_proc s cur ((ptable s ! cur)\<lparr>p_sz := v\<rparr>))"
    if "p_sz (ptable s ! cur) \<le> KERNBASE \<Longrightarrow> v \<le> KERNBASE" for v
    by (rule keeps_set_proc) (use that in \<open>auto simp: dead_def\<close>)
  have "v \<le> KERNBASE" if "allocuvm kend km pgdir old new = Ok (v, km1)" "old \<le> KERNBASE" for pgdir old new v km1
    using allocuvm_result [OF that(1)] that(2) by (cases "v = 0") auto
  moreover have "v \<le> KERNBASE" if "deallocuvm kend km pgdir old new = Ok (v, km1)" "old \<le> KERNBASE" for pgdir old new v km1
    using deallocuvm_result [OF that(1)] that(2) by (rule order_trans)
  moreover have "keeps_ofile s (set_proc s cur (ptable s ! cur))" by (rule keeps_set_proc) simp_all
  ultimately show ?thesis
    using g unfolding growproc_def Let_def
    by (auto simp: obind_eq_Ok split: if_splits intro!: set)
qed

lemma keeps_sysproc:
  "sys_wait E c cur k = Ok (r, k') \<Longrightarrow> keeps_files k k'"
  "sys_kill E c cur k = Ok (r, k') \<Longrightarrow> keeps_files k k'"
  "sys_getpid E c cur k = Ok (r, k') \<Longrightarrow> keeps_files k k'"
  "sys_sbrk E c cur k = Ok (r, k') \<Longrightarrow> keeps_files k k'"
  "sys_sleep E c cur k = Ok (r, k') \<Longrightarrow> keeps_files k k'"
  "sys_uptime E c cur k = Ok (r, k') \<Longrightarrow> keeps_files k k'"
  "sys_trace E c cur k = Ok (r, k') \<Longrightarrow> keeps_files k k'"
  "sys_answer E c cur k = Ok (r, k') \<Longrightarrow> keeps_files k k'"
  "sys_getppid E c cur k = Ok (r, k') \<Longrightarrow> keeps_files k k'"
  "sys_pscnt_call E c cur k = Ok (r, k') \<Longrightarrow> keeps_files k k'"
proof -
  show "sys_wait E c cur k = Ok (r, k') \<Longrightarrow> keeps_files k k'"
    by (auto simp: sys_wait_def obind_eq_Ok keeps_files_def dest: keeps_wait1)
  show "sys_kill E c cur k = Ok (r, k') \<Longrightarrow> keeps_files k k'"
    by (auto simp: sys_kill_def with_arg_Ok ret_def keeps_files_def case_prod_beta keeps_kill [OF surjective_pairing])
  show "sys_sbrk E c cur k = Ok (r, k') \<Longrightarrow> keeps_files k k'"
    by (auto simp: sys_sbrk_def with_arg_Ok ret_def obind_eq_Ok Let_def keeps_files_def split: if_splits dest: keeps_growproc)
  show "sys_sleep E c cur k = Ok (r, k') \<Longrightarrow> keeps_files k k'"
    by (auto simp: sys_sleep_def with_arg_Ok ret_def sleep_check_def keeps_files_def keeps_sleep_enter split: if_splits)
qed (auto simp: sys_getpid_def sys_uptime_def sys_trace_def sys_answer_def sys_getppid_def sys_pscnt_call_def with_arg_Ok
    ret_def keeps_files_def split: option.splits)

text \<open>Every entry of the table keeps the invariant.\<close>

lemma syscalls_inv:
  assumes f: "f \<in> set syscalls" and inv: "fd_inv d k" and run: "running k cur" and r: "f E c cur k = Ok (r, k')"
  shows "fd_inv d k'"
proof -
  have "keeps_files k k'" if "f \<in> {sys_wait, sys_read, sys_kill, sys_exec, sys_fstat, sys_chdir, sys_getpid, sys_sbrk, sys_sleep,
      sys_uptime, sys_write, sys_mknod, sys_unlink, sys_link, sys_mkdir, sys_trace, sys_answer, sys_getppid, sys_pscnt_call}"
    using that r keeps_sysproc keeps_sysfile keeps_sys_exec by auto
  moreover have "fd_inv d k'" if "f \<in> {sys_fork, sys_exit, sys_pipe, sys_dup, sys_open, sys_close}"
    using that r inv run sys_dup_inv [OF inv run] sys_close_inv [OF inv run] sys_open_inv [OF inv run] sys_pipe_inv [OF inv run]
    by (auto simp: sys_fork_def sys_exit_def obind_eq_Ok ret_def running_def intro: fork_inv exit_inv)
  ultimately show ?thesis using f keeps_files_inv [OF _ inv] unfolding syscalls_def by fastforce
qed

lemma syscall_inv:
  assumes inv: "fd_inv d k" and run: "running k cur" and s: "syscall E c cur k = Ok (b, k')"
  shows "fd_inv d k'"
proof -
  define num where "num = sint (load32 (kmemory (kkm k)) (p_tf (cur_proc k cur) + TF_EAX))"
  show ?thesis
  proof (cases "num > 0 \<and> num < 26")
    case True
    then have "nat (num - 1) < 25" by arith
    moreover have "length (syscalls :: 'a sysfun list) = 25" by (simp add: syscalls_def)
    ultimately have f: "(syscalls ! nat (num - 1) :: 'a sysfun) \<in> set syscalls" by (intro nth_mem) (simp only:)
    from s True obtain r k1 where r: "(syscalls ! nat (num - 1)) E c cur k = Ok (r, k1)"
        "(case r of Asleep \<Rightarrow> Ok (False, k1) | Return v \<Rightarrow> Ok (True, set_eax k1 cur v)) = Ok (b, k')"
      unfolding syscall_def num_def [symmetric] Let_def by (auto simp: obind_eq_Ok)
    with syscalls_inv [OF f inv run r(1)] show ?thesis
      by (cases r) (auto intro: keeps_files_inv [OF keeps_set_eax])
  next
    case False
    then show ?thesis using s keeps_files_inv [OF keeps_set_eax inv] unfolding syscall_def num_def [symmetric] Let_def by auto
  qed
qed

lemma keeps_upd_proc:
  assumes "p_ofile p = p_ofile (cur_proc k i)" and "p_state p = p_state (cur_proc k i)" and "p_sz p = p_sz (cur_proc k i)"
  shows "keeps_files k (upd_proc k i p)"
  using assms by (auto simp: keeps_files_def upd_proc_def cur_proc_def dead_def intro!: keeps_set_proc)

lemma trap_syscall_inv:
  assumes inv: "fd_inv d k" and run: "running k i" and s: "trap_syscall E c tf i k = Ok k'"
  shows "fd_inv d k'"
proof (cases "killed k i")
  case True
  then show ?thesis using s inv run by (auto simp: trap_syscall_def running_def intro: exit_inv)
next
  case False
  let ?k = "upd_proc k i ((cur_proc k i)\<lparr>p_tf := tf\<rparr>)"
  have inv1: "fd_inv d ?k" by (rule keeps_files_inv [OF keeps_upd_proc inv]) simp_all
  have run1: "running ?k i" using run by (simp add: running_def upd_proc_def set_proc_def cur_proc_def dead_def)
  obtain b k1 where k1: "syscall E c i ?k = Ok (b, k1)" "(if b \<and> killed k1 i then exit E c i k1 else Ok k1) = Ok k'"
    using s False by (auto simp: trap_syscall_def obind_eq_Ok)
  have inv2: "fd_inv d k1" by (rule syscall_inv [OF inv1 run1 k1(1)])
  moreover have "i < length (ptable (kps k1))" using inv2 inv run by (simp add: fd_inv_def running_def)
  ultimately show ?thesis using k1(2) by (auto split: if_splits intro: exit_inv)
qed

lemma keeps_intr_key: "intr_key c (k, ps, b) = Ok (k', ps', b') \<Longrightarrow> keeps_ofile ps ps'"
  by (auto simp: intr_key_def Let_def obind_eq_Ok keeps_wakeup split: if_splits)

lemma keeps_consoleintr: "consoleintr cs (k, ps, b) = Ok (k', ps', b') \<Longrightarrow> keeps_ofile ps ps'"
proof (induction cs arbitrary: k ps b)
  case (Cons c cs)
  then show ?case by (auto simp: obind_eq_Ok dest!: keeps_intr_key intro: keeps_ofile_trans)
qed simp

lemma keeps_trap_switch: "trap_switch c trapno cs cur q k = Ok (q', k') \<Longrightarrow> keeps_files k k'"
proof -
  assume t: "trap_switch c trapno cs cur q k = Ok (q', k')"
  have kbd: "keeps_ofile ps ps'" if "kbdintr ds sh con ps = Ok (sh', con', ps', b)" for ds sh con ps sh' con' ps' b
    using that by (auto simp: kbdintr_def obind_eq_Ok case_prod_beta dest: keeps_consoleintr)
  have com: "keeps_ofile ps ps'" if "uartintr ds con ps = Ok (con', ps', b)" for ds con ps con' ps' b
    using that by (auto simp: uartintr_def dest: keeps_consoleintr)
  have kill: "keeps_files k (upd_proc k i ((cur_proc k i)\<lparr>p_killed := True\<rparr>))" for i by (rule keeps_upd_proc) simp_all
  from t show ?thesis
    unfolding trap_switch_def
    by (auto simp: obind_eq_Ok keeps_wakeup set_console_def kill split: if_split_asm option.split_asm dest!: kbd com)
      (auto simp: keeps_files_def keeps_wakeup)
qed

text \<open>
  C3: The file table is exact: at every trap or interrupt - any system call with any arguments,
  exit by a kill, a preemption, a key - the reference count of each open file stays the number
  of descriptors, over all processes, that refer to it, every descriptor refers to an entry of
  the table, dead processes have none, and no process grows beyond \<^verbatim>\<open>KERNBASE\<close>.
\<close>

theorem trap_keeps_reference_counts:
  assumes "fd_inv (\<lambda>_. 0) k" and "\<forall>i. cpu_proc (kps k) ! c = Some i \<longrightarrow> running k i"
    and "trap E c tf q k = Ok (q', k')"
  shows "fd_inv (\<lambda>_. 0) k'"
proof -
  let ?cur = "cpu_proc (kps k) ! c"
  define trapno cs where "trapno = load32 (kmemory (kkm k)) (tf + TF_TRAPNO)" and "cs = load32 (kmemory (kkm k)) (tf + TF_CS)"
  note t = assms(3)[unfolded trap_def Let_def, folded trapno_def cs_def]
  show ?thesis
  proof (cases "trapno = T_SYSCALL")
    case True
    then show ?thesis
      using t assms(1,2) by (cases ?cur) (auto simp: obind_eq_Ok intro: trap_syscall_inv)
  next
    case False
    then obtain k1 where k1: "trap_switch c trapno cs ?cur q k = Ok (q', k1)" "trap_tail E c trapno cs ?cur k1 = Ok k'"
      using t by (auto simp: obind_eq_Ok)
    have inv1: "fd_inv (\<lambda>_. 0) k1" by (rule keeps_files_inv [OF keeps_trap_switch [OF k1(1)] assms(1)])
    have len: "i < length (ptable (kps k1))" if "?cur = Some i" for i
      using assms(1,2) inv1 that by (simp add: fd_inv_def running_def)
    have "keeps_ofile s (yield s c i)" for s i
      unfolding yield_def set_state_def
      by (rule keeps_ofile_trans [OF keeps_set_proc keeps_to_scheduler]) (simp_all add: dead_def)
    then have "keeps_files k1 (k1\<lparr>kps := yield (kps k1) c i\<rparr>)" for i by (simp add: keeps_files_def)
    then show ?thesis
      using k1(2) inv1 len by (cases ?cur)
        (auto simp: trap_tail_def trap_last_def split: if_splits intro: exit_inv keeps_files_inv)
  qed
qed

text \<open>A clock tick while the process runs, which has one open file.\<close>

definition demo_irq :: irqs where
  "demo_irq = \<lparr>ir_ide = \<lparr>idequeue = None, id_bufs = [], id_disks = (\<lambda>_ _. 0), id_regs = None\<rparr>, ir_ports = [], ir_kbd = [],
     ir_shift = 0, ir_com = []\<rparr>"

definition demo_running :: "console ksys" where
  "demo_running = demo_k [\<lparr>f_type = FD_INODE, f_ref = 1, f_readable = True, f_writable = False, f_pipe = 0, f_ip = 0, f_off = 0\<rparr>]
     (Some 0 # replicate 15 None) \<lparr>fs_log = log_boot (\<lambda>_ _. 0) 2, fs_sb = demo_sb, icache = [], fs_devs = demo_con\<rparr>"

lemma demo_running_inv: "fd_inv (\<lambda>_. 0) demo_running" "running demo_running 0" "cpu_proc (kps demo_running) ! 0 = Some 0"
proof -
  have "count_list (replicate 16 None) (Some (0 :: nat)) = 0" "count_list (replicate 15 None) (Some (0 :: nat)) = 0"
    by (simp_all add: count_list_0_iff)
  then show "fd_inv (\<lambda>_. 0) demo_running"
    by (auto simp: fd_inv_def demo_running_def demo_k_def refs_def files_ok_def demo_proc_def zero_proc_def dead_def KERNBASE_def
        sum_list_replicate)
qed (simp_all add: demo_running_def demo_k_def running_def demo_proc_def dead_def)

theorem trap_keeps_reference_counts_witness:
  "\<exists>k'. trap demo_env 0 0x800030D8 demo_irq demo_running = Ok (demo_irq, k') \<and> fd_inv (\<lambda>_. 0) k'"
proof -
  have w: "load32 (kmemory (kkm demo_running)) (0x800030D8 + TF_TRAPNO) = 32"
    using demo_words(5) by (simp add: demo_running_def demo_k_def TF_TRAPNO_def)
  have s: "p_state (cur_proc (demo_running\<lparr>ticks := t, kps := wakeup (kps demo_running) ChTicks\<rparr>) 0) = RUNNING"
    "\<not> killed (demo_running\<lparr>ticks := t, kps := wakeup (kps demo_running) ChTicks\<rparr>) 0" for t
    by (simp_all add: demo_running_def demo_k_def wakeup_def wakeup1_def cur_proc_def demo_proc_def killed_def zero_proc_def)
  have "\<exists>k'. trap demo_env 0 0x800030D8 demo_irq demo_running = Ok (demo_irq, k')"
    unfolding trap_def w Let_def demo_running_inv(3)
    by (simp add: T_SYSCALL_def trap_switch_def T_IRQ0_def IRQ_TIMER_def trap_tail_def s)
  then show ?thesis
    using trap_keeps_reference_counts [OF demo_running_inv(1), of 0 demo_env "0x800030D8" demo_irq demo_irq] demo_running_inv(2,3)
    by auto
qed

end
