(* ===== verification/Xv6_Filewrite.thy ===== *)
theory Xv6_Filewrite
  imports Xv6_Exec
begin

text \<open>
  \<^verbatim>\<open>filewrite\<close> (\<^verbatim>\<open>src/xv6/file.c\<close>) across its transactions: each chunk is a transaction of its own
  that fits in the log and is on the disk when it ends, and together they write all the bytes.
\<close>

section \<open>What writing leaves alone\<close>

text \<open>
  The counters of the log, and everything of an inode but its addresses and its size.
\<close>

definition meta :: "inode \<Rightarrow> inode" where
  "meta i = i\<lparr>i_addrs := [], i_size := 0\<rparr>"

definition fs_frame :: "'d fssys \<Rightarrow> 'd fssys \<Rightarrow> bool" where
  "fs_frame s s' \<longleftrightarrow> outstanding (fs_log s') = outstanding (fs_log s) \<and> committing (fs_log s') = committing (fs_log s) \<and>
     log_size (fs_log s') = log_size (fs_log s) \<and> map meta (icache s') = map meta (icache s)"

lemma fs_frame_refl [simp]: "fs_frame s s"
  by (simp add: fs_frame_def)

lemma fs_frame_trans: "fs_frame s s1 \<Longrightarrow> fs_frame s1 s2 \<Longrightarrow> fs_frame s s2"
  by (simp add: fs_frame_def)

lemma fs_frame_set [simp]: "fs_frame s (fs_set s1 bp d) \<longleftrightarrow> fs_frame s s1"
  by (simp add: fs_frame_def fs_set_def)

lemma frame_bread: "fs_bread pid s dev bn = Ok (bp, s') \<Longrightarrow> fs_frame s s'"
  by (auto simp: fs_bread_def obind_eq_Ok fs_frame_def)

lemma frame_brelse: "fs_brelse pid s bp = Ok s' \<Longrightarrow> fs_frame s s'"
  by (auto simp: fs_brelse_def obind_eq_Ok fs_frame_def)

lemma frame_log_write: "fs_log_write s bp = Ok s' \<Longrightarrow> fs_frame s s'"
  by (auto simp: fs_log_write_def log_write_def obind_eq_Ok fs_frame_def Let_def split: if_splits)

lemma frame_log_write_set: "fs_log_write (fs_set s bp d) bq = Ok s' \<Longrightarrow> fs_frame s s'"
  using frame_log_write [of "fs_set s bp d" bq s'] by (auto simp: fs_frame_def fs_set_def)

lemmas frame_block = frame_bread frame_brelse frame_log_write_set

lemma frame_bzero: "bzero pid s dev bno = Ok s' \<Longrightarrow> fs_frame s s'"
  by (auto simp: bzero_def obind_eq_Ok dest!: frame_block intro: fs_frame_trans)

lemma frame_balloc_from: "balloc_from pid s dev b = Ok (a, s') \<Longrightarrow> fs_frame s s'"
proof (induction pid s dev b rule: balloc_from.induct)
  case (1 pid s dev b)
  show ?case
  proof (cases "b < unat (sb_size (fs_sb s))")
    case True
    obtain bp s1 where r: "fs_bread pid s dev (BBLOCK b (fs_sb s)) = Ok (bp, s1)"
      using "1.prems" True by (subst (asm) balloc_from.simps) (auto simp: obind_eq_Ok)
    show ?thesis
    proof (cases "find (\<lambda>bi. b + bi < unat (sb_size (fs_sb s)) \<and> \<not> bit_used (fs_data s1 bp) bi) [0 ..< BPB]")
      case None
      then obtain s2 where s2: "fs_brelse pid s1 bp = Ok s2" "balloc_from pid s2 dev (b + BPB) = Ok (a, s')"
        using "1.prems" True r by (subst (asm) balloc_from.simps) (auto simp: obind_eq_Ok)
      have "fs_frame s2 s'" by (rule "1.IH" [OF True r refl None s2])
      then show ?thesis using r s2(1) by (blast dest: frame_block intro: fs_frame_trans)
    next
      case (Some bi)
      with "1.prems" True r show ?thesis
        by (subst (asm) balloc_from.simps)
          (auto simp: obind_eq_Ok dest!: frame_block frame_bzero intro: fs_frame_trans)
    qed
  next
    case False
    with "1.prems" show ?thesis by (subst (asm) balloc_from.simps) simp
  qed
qed

lemma frame_balloc: "balloc pid s dev = Ok (a, s') \<Longrightarrow> fs_frame s s'"
  by (simp add: balloc_def frame_balloc_from)

lemma frame_set_addrs: "fs_frame s (set_i s ip ((icache s ! ip)\<lparr>i_addrs := ad\<rparr>))"
  by (cases "ip < length (icache s)") (auto simp: fs_frame_def set_i_def map_update meta_def intro!: nth_equalityI simp: nth_list_update)

lemma frame_set_size: "fs_frame s (set_i s ip ((icache s ! ip)\<lparr>i_size := n\<rparr>))"
  by (cases "ip < length (icache s)") (auto simp: fs_frame_def set_i_def map_update meta_def intro!: nth_equalityI simp: nth_list_update)

lemma frame_addr_alloc: "addr_alloc pid s ip n = Ok (a, s') \<Longrightarrow> fs_frame s s'"
  by (auto simp: addr_alloc_def obind_eq_Ok Let_def split: if_splits dest!: frame_balloc
      intro: fs_frame_trans [OF _ frame_set_addrs])

lemma frame_bmap: "bmap pid s ip bn = Ok (a, s') \<Longrightarrow> fs_frame s s'"
  by (auto simp: bmap_def obind_eq_Ok Let_def split: if_splits dest!: frame_addr_alloc frame_balloc frame_block)
    (meson fs_frame_trans)+

lemma frame_writei_loop: "writei_loop pid s ip src off n tot = Ok (off', s') \<Longrightarrow> fs_frame s s'"
proof (induction pid s ip src off n tot rule: writei_loop.induct)
  case (1 pid s ip src off n tot)
  show ?case
  proof (cases "tot < n")
    case True
    define m where "m = chunk n tot off"
    from "1.prems" True obtain a s1 bp s2 s3 s4 where
        c: "bmap pid s ip (off div 512) = Ok (a, s1)" "fs_bread pid s1 (i_dev (icache s1 ! ip)) a = Ok (bp, s2)"
          "fs_log_write (fs_set s2 bp (store_bytes (fs_data s2 bp) (unat (off mod 512)) (take (unat m) src))) bp = Ok s3"
          "fs_brelse pid s3 bp = Ok s4" "writei_loop pid s4 ip (drop (unat m) src) (off + m) n (tot + m) = Ok (off', s')"
      unfolding writei_loop.simps [of pid s] Let_def m_def [symmetric] by (auto simp: obind_eq_Ok)
    have "fs_frame s4 s'" by (rule "1.IH" [OF True c(1) refl c(2) refl m_def c(3,4,5)])
    then show ?thesis using c(1-4) by (blast dest: frame_bmap frame_block intro: fs_frame_trans)
  next
    case False
    with "1.prems" show ?thesis by (subst (asm) writei_loop.simps) simp
  qed
qed

lemma frame_iupdate: "iupdate pid s ip = Ok s' \<Longrightarrow> fs_frame s s'"
  by (auto simp: iupdate_def obind_eq_Ok Let_def dest!: frame_block intro: fs_frame_trans)

lemma frame_writei:
  assumes "writei devs pid s ip src off n = Ok (r, s')" and "i_type (icache s ! ip) \<noteq> T_DEV"
  shows "fs_frame s s'"
proof -
  have up: "fs_frame s1 s2" if "iupdate pid (set_i s1 ip ((icache s1 ! ip)\<lparr>i_size := n\<rparr>)) ip = Ok s2" for s1 s2 n
    using frame_iupdate [OF that] frame_set_size fs_frame_trans by blast
  from assms show ?thesis
    by (auto simp: writei_def obind_eq_Ok Let_def split: if_splits dest!: frame_writei_loop up intro: fs_frame_trans)
qed

section \<open>States that hold the same files\<close>

text \<open>Equal but for the locks of the inodes and the blocks of the log.\<close>

definition nolock :: "inode \<Rightarrow> inode" where
  "nolock i = i\<lparr>i_lock := initsleeplock ''inode''\<rparr>"

definition fs_same :: "'d fssys \<Rightarrow> 'd fssys \<Rightarrow> bool" where
  "fs_same s s' \<longleftrightarrow> fs_sb s' = fs_sb s \<and> fs_devs s' = fs_devs s \<and> log_start (fs_log s') = log_start (fs_log s) \<and>
     map nolock (icache s') = map nolock (icache s) \<and> (\<forall>b. b \<notin> log_area (log_start (fs_log s)) \<longrightarrow> fview s' b = fview s b)"

lemma nolock_eq: "nolock j = nolock i \<Longrightarrow> j = i\<lparr>i_lock := i_lock j\<rparr>"
  by (cases i; cases j) (simp add: nolock_def)

lemma fs_same_refl [simp]: "fs_same s s"
  by (simp add: fs_same_def)

lemma fs_same_trans: "fs_same s s1 \<Longrightarrow> fs_same s1 s2 \<Longrightarrow> fs_same s s2"
  by (simp add: fs_same_def)

lemma fs_same_inode:
  assumes "fs_same s s'" and "ip < length (icache s)"
  shows "icache s' ! ip = (icache s ! ip)\<lparr>i_lock := i_lock (icache s' ! ip)\<rparr>" "length (icache s') = length (icache s)"
proof -
  have m: "map nolock (icache s') = map nolock (icache s)" using assms(1) by (simp add: fs_same_def)
  show l: "length (icache s') = length (icache s)" using map_eq_imp_length_eq [OF m] .
  have "nolock (icache s' ! ip) = nolock (icache s ! ip)" using arg_cong [OF m, of "\<lambda>l. l ! ip"] assms(2) l by simp
  then show "icache s' ! ip = (icache s ! ip)\<lparr>i_lock := i_lock (icache s' ! ip)\<rparr>" by (rule nolock_eq)
qed

lemma iref_lock [simp]: "iref v (i\<lparr>i_lock := l\<rparr>) = iref v i"
  by (rule ext) (simp add: iref_def)

lemma get_dinode_lock [simp]: "get_dinode b n (i\<lparr>i_lock := l\<rparr>) = (get_dinode b n i)\<lparr>i_lock := l\<rparr>"
  by (simp add: get_dinode_def)

lemma get_dinode_keeps_lock [simp]: "i_lock (get_dinode b n i) = i_lock i"
  by (simp add: get_dinode_def)

lemma fs_same_file:
  assumes fs: "fs_ok s" and ino: "ino_ok s ip" and sm: "fs_same s s'" and lg: "log_ok (fs_log s')"
  shows "fs_ok s'" "ino_ok s' ip" "avail s' ip = avail s ip" "fs_free s' = fs_free s" "fdata s' ip = fdata s ip"
    "no_holes s' ip \<longleftrightarrow> no_holes s ip" "synced s' ip \<longleftrightarrow> synced s ip" "iblk s' ip = iblk s ip"
proof -
  have S: "fs_sb s' = fs_sb s" "log_start (fs_log s') = log_start (fs_log s)"
    "\<And>b. b \<notin> log_area (log_start (fs_log s)) \<Longrightarrow> fview s' b = fview s b"
    using sm by (auto simp: fs_same_def)
  obtain lk where i: "icache s' ! ip = (icache s ! ip)\<lparr>i_lock := lk\<rparr>" and len: "length (icache s') = length (icache s)"
    using fs_same_inode [OF sm ino_okD(1) [OF ino]] by blast
  have m: "fview s' (fmap s) = fview s (fmap s)" by (rule S(3) [OF fs_okD(3) [OF fs]])
  show fr: "fs_free s' = fs_free s" by (simp add: fs_free_def S m)
  have v: "fview s' (sref s ip k) = fview s (sref s ip k)" if "k \<le> 140" "sref s ip k \<noteq> 0" for k
    by (rule S(3) [OF ref_block(2) [OF fs ino that]])
  have ref: "sref s' ip k = sref s ip k" if "k \<le> 140" for k
    using v [of 140] that unfolding i iref_lock by (auto simp: iref_def)
  show "fs_ok s'" using fs lg by (simp add: fs_ok_def Let_def S m)
  show "ino_ok s' ip" using ino ref by (simp add: ino_ok_def len S fr i) blast
  have o: "owned s' ip = owned s ip" by (auto simp: owned_def ref)
  show "avail s' ip = avail s ip" by (simp add: avail_def o fr)
  show "fdata s' ip = fdata s ip"
  proof
    fix p
    show "fdata s' ip p = fdata s ip p" using ref [of "p div 512"] v [of "p div 512"] by (cases "p div 512 < 140") (simp_all add: fdata_def)
  qed
  show "no_holes s' ip \<longleftrightarrow> no_holes s ip"
  proof -
    have "sref s' ip (p div 512) = sref s ip (p div 512)" if "p < unat (i_size (icache s ! ip))" "unat (i_size (icache s ! ip)) \<le> 140 * 512" for p
      by (rule ref) (use that in simp)
    then show ?thesis by (auto simp: no_holes_def i simp del: iref_lock)
  qed
  show ib: "iblk s' ip = iblk s ip" by (simp add: i S)
  have "fview s' (iblk s ip) = fview s (iblk s ip)" by (rule S(3) [OF iblock(3) [OF fs ino_okD(6) [OF ino]]])
  moreover have "j\<lparr>i_lock := lk\<rparr> = k\<lparr>i_lock := lk\<rparr> \<longleftrightarrow> j = k" if "i_lock j = i_lock k" for j k :: inode
    using that by (cases j; cases k) simp
  ultimately show "synced s' ip \<longleftrightarrow> synced s ip" unfolding synced_def ib unfolding i by simp
qed

section \<open>A transaction of one process\<close>

definition idle_log :: "logsys \<Rightarrow> bool" where
  "idle_log l \<longleftrightarrow> log_ok l \<and> locked_blocks (bio l) = {} \<and> outstanding l = 0 \<and> \<not> committing l \<and> lh_n l = 0 \<and> log_size l = int LOGSIZE"

lemma idle_log_clean: "idle_log l \<Longrightarrow> dirty_blocks (bio l) = {} \<and> disk_block (bio l) = bview (bio l)"
proof -
  assume a: "idle_log l"
  then have d: "dirty_blocks (bio l) = {}" using log_okD(8) [of l] by (simp add: idle_log_def)
  moreover have "bio_ok (bio l)" "locked_blocks (bio l) = {}" using a log_okD(1) [of l] by (simp_all add: idle_log_def)
  ultimately show ?thesis using clean_or_dirty [of "bio l"] by auto
qed

lemma end_op_ok:
  assumes ok: "log_ok l" and lk: "locked_blocks (bio l) = {}" and o: "outstanding l = 1" "\<not> committing l" "log_size l = int LOGSIZE"
  obtains l' where "end_op pid l = Ok l'" "idle_log l'" "log_start l' = log_start l"
    "\<forall>b. b \<notin> log_area (log_start l) \<longrightarrow> bview (bio l') b = bview (bio l) b"
proof -
  define m where "m = l\<lparr>outstanding := 0, committing := True\<rparr>"
  have m: "log_ok m" "locked_blocks (bio m) = {}" using ok lk by (simp_all add: m_def log_ok_def)
  have e: "end_op pid l = obind (commit pid m) (\<lambda>s2. Ok (s2\<lparr>committing := False\<rparr>))"
    using o by (simp add: end_op_def Let_def m_def)
  show ?thesis
  proof (cases "lh_n l > 0")
    case False
    then have z: "lh_n l = 0" using log_okD(3) [OF ok] by simp
    then have "end_op pid l = Ok (m\<lparr>committing := False\<rparr>)" by (simp add: e commit_def m_def)
    then show ?thesis
      by (rule that) (use ok lk o z in \<open>simp_all add: m_def idle_log_def log_ok_def\<close>)
  next
    case True
    then obtain b where b: "commit pid m = Ok (m\<lparr>bio := b, lh_n := 0\<rparr>)" "wrote_out (bio m) (commit_ws m) {} b"
      using commit_writes [OF m, of pid] by (auto simp: m_def)
    have B: "bio_ok b" "locked_blocks b = {}" "bview b = upds (bview (bio l)) (commit_ws m)" "dirty_blocks b = {}"
      using b(2) by (simp_all add: wrote_out_def m_def)
    have v: "bview b a = bview (bio l) a" if "a \<notin> log_area (log_start l)" for a
    proof (cases "a \<in> fst ` set (commit_ws m)")
      case True
      have "bio m = bio l" by (simp add: m_def)
      show ?thesis unfolding B(3)
      proof (rule upds_in [OF True])
        fix v' assume "(a, v') \<in> set (commit_ws m)"
        moreover have "Suc i < LOGSIZE" if "i < nat (lh_n m)" for i using that log_okD(4) [OF m(1)] by simp
        ultimately show "v' = bview (bio l) a"
          using that log_block_facts(2) [OF log_okD(5) [OF m(1)]] log_start_facts(2) [OF log_okD(5) [OF m(1)]]
          by (auto simp: commit_ws_def Let_def m_def)
      qed
    next
      case False
      then show ?thesis by (simp add: B(3) upds_notin)
    qed
    show ?thesis
    proof (rule that)
      show "end_op pid l = Ok (m\<lparr>bio := b, lh_n := 0, committing := False\<rparr>)" by (simp add: e b)
      show "idle_log (m\<lparr>bio := b, lh_n := 0, committing := False\<rparr>)"
        using ok o B(1,2,4) by (simp add: idle_log_def log_ok_def m_def)
    qed (use v in \<open>simp_all add: m_def\<close>)
  qed
qed

section \<open>One chunk of filewrite\<close>

text \<open>
  A file of the inode cache that nobody has locked, with the log idle. The blocks of the file and
  the free blocks together are enough for the largest file and one transaction more.
\<close>

definition file_ready :: "'d fssys \<Rightarrow> nat \<Rightarrow> bool" where
  "file_ready s ip \<longleftrightarrow> fs_ok s \<and> idle_log (fs_log s) \<and> ino_ok s ip \<and> no_holes s ip \<and> synced s ip \<and>
     i_type (icache s ! ip) \<noteq> T_DEV \<and> i_valid (icache s ! ip) \<and> 1 \<le> i_ref (icache s ! ip) \<and> \<not> sl_locked (i_lock (icache s ! ip)) \<and>
     149 \<le> card (avail s ip)"

text \<open>The effect of writing the bytes \<^verbatim>\<open>bs\<close> at \<^verbatim>\<open>off\<close> on the whole file system.\<close>

definition wrote :: "'d fssys \<Rightarrow> nat \<Rightarrow> nat \<Rightarrow> uchar list \<Rightarrow> 'd fssys \<Rightarrow> bool" where
  "wrote s ip off bs s' \<longleftrightarrow> fs_sb s' = fs_sb s \<and> avail s' ip = avail s ip \<and> iblk s' ip = iblk s ip \<and>
     log_start (fs_log s') = log_start (fs_log s) \<and>
     unat (i_size (icache s' ! ip)) = max (unat (i_size (icache s ! ip))) (off + length bs) \<and>
     (\<forall>p. fdata s' ip p = (if off \<le> p \<and> p < off + length bs then bs ! (p - off) else fdata s ip p)) \<and>
     (\<forall>j. j \<noteq> ip \<longrightarrow> icache s' ! j = icache s ! j) \<and>
     (\<forall>b. b \<notin> avail s ip \<and> b \<noteq> fmap s \<and> b \<noteq> iblk s ip \<and> b \<notin> log_area (log_start (fs_log s)) \<longrightarrow> fview s' b = fview s b)"

lemma wrote_refl: "off \<le> unat (i_size (icache s ! ip)) \<Longrightarrow> wrote s ip off [] s"
  by (auto simp: wrote_def)

lemma wrote_trans:
  assumes "wrote s ip off xs s1" and "wrote s1 ip (off + length xs) ys s2"
  shows "wrote s ip off (xs @ ys) s2"
  using assms unfolding wrote_def by (auto simp: nth_append)

lemma nblk_1536: "n \<le> 1536 \<Longrightarrow> nblk off n \<le> 4"
proof -
  assume "n \<le> 1536"
  then have "(off + n - 1) div 512 \<le> (off + 1535) div 512" by (intro div_le_mono) simp
  moreover have "(off + 1535) div 512 \<le> off div 512 + 3" by simp
  ultimately have "(off + n - 1) div 512 - off div 512 \<le> 3" by linarith
  then show ?thesis by (simp add: nblk_def)
qed

lemma free_enough:
  assumes "fs_ok s" and "149 \<le> card (avail s ip)"
  shows "8 \<le> card (fs_free s)"
proof -
  have "owned s ip \<subseteq> sref s ip ` {..140}" by (auto simp: owned_def)
  then have "card (owned s ip) \<le> card (sref s ip ` {..140})" by (rule card_mono [rotated]) simp
  also have "\<dots> \<le> 141" using card_image_le [of "{..140 :: nat}" "sref s ip"] by simp
  finally show ?thesis using assms(2) card_Un_le [of "owned s ip" "fs_free s"] by (simp add: avail_def)
qed

lemma begin_ilock:
  assumes "file_ready s ip"
  obtains l s2 where "begin_op (fs_log s) = Ok l" "ilock pid (s\<lparr>fs_log := l\<rparr>) (Some ip) = Ok s2" "fs_same s s2" "log_ok (fs_log s2)"
    "flocked s2 = {}" "fdirty s2 = {}" "outstanding (fs_log s2) = 1" "\<not> committing (fs_log s2)" "log_size (fs_log s2) = int LOGSIZE"
    "holdingsleep pid (i_lock (icache s2 ! ip))" "\<forall>j. j \<noteq> ip \<longrightarrow> icache s2 ! j = icache s ! j"
proof -
  have r: "idle_log (fs_log s)" "ino_ok s ip" "i_valid (icache s ! ip)" "1 \<le> i_ref (icache s ! ip)" "\<not> sl_locked (i_lock (icache s ! ip))"
    using assms by (simp_all add: file_ready_def)
  define l where "l = (fs_log s)\<lparr>outstanding := 1\<rparr>"
  define lk where "lk = (i_lock (icache s ! ip))\<lparr>sl_locked := True, sl_pid := pid\<rparr>"
  define s2 where "s2 = set_i (s\<lparr>fs_log := l\<rparr>) ip ((icache s ! ip)\<lparr>i_lock := lk\<rparr>)"
  have l: "begin_op (fs_log s) = Ok l" using r(1) by (simp add: begin_op_def idle_log_def l_def)
  have i: "ilock pid (s\<lparr>fs_log := l\<rparr>) (Some ip) = Ok s2"
    using r(3-5) by (simp add: ilock_def acquiresleep_def s2_def lk_def Let_def)
  have lg: "fs_log s2 = l" "icache s2 = (icache s)[ip := (icache s ! ip)\<lparr>i_lock := lk\<rparr>]" "fs_sb s2 = fs_sb s" "fs_devs s2 = fs_devs s"
    by (simp_all add: s2_def set_i_def)
  have "fs_same s s2"
    unfolding fs_same_def lg using ino_okD(1) [OF r(2)]
    by (auto simp: l_def nolock_def map_update intro!: nth_equalityI simp: nth_list_update)
  moreover have "log_ok l" "locked_blocks (bio l) = {}" "dirty_blocks (bio l) = {}"
    "outstanding l = 1" "\<not> committing l" "log_size l = int LOGSIZE"
    using r(1) idle_log_clean [OF r(1)] by (simp_all add: l_def idle_log_def log_ok_def)
  moreover have "holdingsleep pid (i_lock (icache s2 ! ip))"
    using ino_okD(1) [OF r(2)] by (simp add: lg lk_def holdingsleep_def)
  ultimately show ?thesis using that [OF l i] by (simp add: lg)
qed

lemma iunlock_end:
  assumes fs: "fs_ok s" and ino: "ino_ok s ip" and lk: "flocked s = {}" "holdingsleep pid (i_lock (icache s ! ip))" "1 \<le> i_ref (icache s ! ip)"
    and o: "outstanding (fs_log s) = 1" "\<not> committing (fs_log s)" "log_size (fs_log s) = int LOGSIZE"
  obtains s1 l where "iunlock pid s (Some ip) = Ok s1" "end_op pid (fs_log s1) = Ok l" "fs_same s (s1\<lparr>fs_log := l\<rparr>)" "idle_log l"
    "\<not> sl_locked (i_lock (icache s1 ! ip))" "\<forall>j. j \<noteq> ip \<longrightarrow> icache s1 ! j = icache s ! j"
proof -
  define s1 where "s1 = set_i s ip ((icache s ! ip)\<lparr>i_lock := releasesleep (i_lock (icache s ! ip))\<rparr>)"
  have f: "fs_log s1 = fs_log s" "icache s1 = (icache s)[ip := (icache s ! ip)\<lparr>i_lock := releasesleep (i_lock (icache s ! ip))\<rparr>]"
    "fs_sb s1 = fs_sb s" "fs_devs s1 = fs_devs s"
    by (simp_all add: s1_def set_i_def)
  have u: "iunlock pid s (Some ip) = Ok s1" using lk by (simp add: iunlock_def Let_def s1_def)
  obtain l where l: "end_op pid (fs_log s1) = Ok l" "idle_log l" "log_start l = log_start (fs_log s)"
      "\<forall>b. b \<notin> log_area (log_start (fs_log s)) \<longrightarrow> bview (bio l) b = fview s b"
    using end_op_ok [of "fs_log s1" pid] fs_okD(1) [OF fs] lk(1) o unfolding f by metis
  have "fs_same s (s1\<lparr>fs_log := l\<rparr>)"
    unfolding fs_same_def using l(3,4) ino_okD(1) [OF ino]
    by (auto simp: f nolock_def map_update intro!: nth_equalityI simp: nth_list_update)
  moreover have "\<not> sl_locked (i_lock (icache s1 ! ip))" using ino_okD(1) [OF ino] by (simp add: f releasesleep_def)
  ultimately show ?thesis using that [OF u l(1)] l(2) by (simp add: f)
qed

lemma meta_fields: "meta j = meta i \<Longrightarrow> i_lock j = i_lock i \<and> i_valid j = i_valid i \<and> i_ref j = i_ref i"
  by (cases i; cases j) (simp add: meta_def)

lemma write_txn:
  assumes rd: "file_ready s ip" and off: "unat off \<le> unat (i_size (icache s ! ip))"
    and n: "unat n \<le> 1536" "unat off + unat n \<le> 140 * 512" "length bs = unat n"
  obtains l s2 s3 s4 l5 where "begin_op (fs_log s) = Ok l" "ilock pid (s\<lparr>fs_log := l\<rparr>) (Some ip) = Ok s2"
    "writei devs pid s2 ip bs off n = Ok (int (unat n), s3)" "iunlock pid s3 (Some ip) = Ok s4" "end_op pid (fs_log s4) = Ok l5"
    "file_ready (s4\<lparr>fs_log := l5\<rparr>) ip" "wrote s ip (unat off) bs (s4\<lparr>fs_log := l5\<rparr>)"
proof -
  have R: "fs_ok s" "ino_ok s ip" "no_holes s ip" "synced s ip" "i_type (icache s ! ip) \<noteq> T_DEV" "i_valid (icache s ! ip)"
    "1 \<le> i_ref (icache s ! ip)" "149 \<le> card (avail s ip)"
    using rd by (simp_all add: file_ready_def)
  obtain l s2 where s2: "begin_op (fs_log s) = Ok l" "ilock pid (s\<lparr>fs_log := l\<rparr>) (Some ip) = Ok s2" "fs_same s s2" "log_ok (fs_log s2)"
      "flocked s2 = {}" "fdirty s2 = {}" "outstanding (fs_log s2) = 1" "\<not> committing (fs_log s2)" "log_size (fs_log s2) = int LOGSIZE"
      "holdingsleep pid (i_lock (icache s2 ! ip))" "\<forall>j. j \<noteq> ip \<longrightarrow> icache s2 ! j = icache s ! j"
    by (rule begin_ilock [OF rd])
  note S = fs_same_file [OF R(1,2) s2(3,4)]
  have i2: "icache s2 ! ip = (icache s ! ip)\<lparr>i_lock := i_lock (icache s2 ! ip)\<rparr>"
    by (rule fs_same_inode(1) [OF s2(3) ino_okD(1) [OF R(2)]])
  have g: "i_type (icache s2 ! ip) = i_type (icache s ! ip)" "i_size (icache s2 ! ip) = i_size (icache s ! ip)"
    "i_valid (icache s2 ! ip)" "1 \<le> i_ref (icache s2 ! ip)" "i_inum (icache s2 ! ip) = i_inum (icache s ! ip)"
    by (subst i2, simp add: R)+
  have sb2: "fs_sb s2 = fs_sb s" "log_start (fs_log s2) = log_start (fs_log s)" "fs_devs s2 = fs_devs s"
    "\<And>b. b \<notin> log_area (log_start (fs_log s)) \<Longrightarrow> fview s2 b = fview s b"
    using s2(3) by (simp_all add: fs_same_def)
  let ?K = "{fmap s2, iblk s2 ip}"
  have "card ?K \<le> 2" using card_insert_le_m1 [of 2 "{iblk s2 ip}" "fmap s2"] by simp
  then have "room ?K (2 * nblk (unat off) (unat n)) s2"
    using s2(6,7,9) nblk_1536 [OF n(1), of "unat off"] by (simp add: room_def)
  then have fu: "funds ?K (2 * nblk (unat off) (unat n)) s2"
    using nblk_1536 [OF n(1), of "unat off"] free_enough [OF R(1,8)] S(4) by (simp add: funds_def)
  have c: "no_holes s2 ip" "synced s2 ip" "i_type (icache s2 ! ip) \<noteq> T_DEV" "unat off \<le> unat (i_size (icache s2 ! ip))"
    "fmap s2 \<in> ?K" "iblk s2 ip \<in> ?K"
    using S(6,7) R(3-5) off g(1,2) by simp_all
  obtain s3 i' where w3: "writei devs pid s2 ip bs off n = Ok (int (unat n), s3)" "fs_ok s3" "ino_ok s3 ip" "flocked s3 = {}"
    "no_holes s3 ip" "synced s3 ip" "icache s3 = (icache s2)[ip := i']" "i_type i' = i_type (icache s2 ! ip)" "i_inum i' = i_inum (icache s2 ! ip)"
    "unat (i_size i') = max (unat (i_size (icache s2 ! ip))) (unat off + unat n)"
    "\<forall>p. fdata s3 ip p = (if unat off \<le> p \<and> p < unat off + length bs then bs ! (p - unat off) else fdata s2 ip p)"
    "avail s3 ip = avail s2 ip" "fs_sb s3 = fs_sb s2" "\<forall>b. b \<notin> avail s2 ip \<and> b \<noteq> fmap s2 \<and> b \<noteq> iblk s2 ip \<longrightarrow> fview s3 b = fview s2 b"
    by (rule writei_ok [OF S(1,2) s2(5) c(1-4) n(2,3) c(5,6) fu, of devs pid])
  note s3 = w3 [unfolded g(1,2,5) S(3,5) sb2(1)]
  have fr: "fs_frame s2 s3" by (rule frame_writei [OF s3(1)]) (simp add: g R)
  have i3: "icache s3 ! ip = i'" using ino_okD(1) [OF S(2)] by (simp add: s3(7))
  have "map meta (icache s3) ! ip = map meta (icache s2) ! ip" using fr by (simp add: fs_frame_def)
  then have "meta (icache s3 ! ip) = meta (icache s2 ! ip)" using ino_okD(1) [OF S(2)] ino_okD(1) [OF s3(3)] by simp
  note mf = meta_fields [OF this]
  obtain s4 l5 where s4: "iunlock pid s3 (Some ip) = Ok s4" "end_op pid (fs_log s4) = Ok l5" "fs_same s3 (s4\<lparr>fs_log := l5\<rparr>)" "idle_log l5"
      "\<not> sl_locked (i_lock (icache s4 ! ip))" "\<forall>j. j \<noteq> ip \<longrightarrow> icache s4 ! j = icache s3 ! j"
    using iunlock_end [OF s3(2,3,4), of pid] mf fr s2(7-10) g(4) unfolding fs_frame_def by metis
  let ?s5 = "s4\<lparr>fs_log := l5\<rparr>"
  note T = fs_same_file [OF s3(2,3) s4(3)] and i5 = fs_same_inode(1) [OF s4(3) ino_okD(1) [OF s3(3)], simplified]
  have lo: "log_ok (fs_log ?s5)" using s4(4) by (simp add: idle_log_def)
  have h: "i_type (icache s4 ! ip) = i_type i'" "i_size (icache s4 ! ip) = i_size i'" "i_valid (icache s4 ! ip)" "1 \<le> i_ref (icache s4 ! ip)"
    by (subst i5, use mf g i3 in simp)+
  have "file_ready ?s5 ip"
    unfolding file_ready_def T(3) [OF lo] using T(1,2,6,7) [OF lo] s4(4,5) h s3(5,6,8,12) R(5,8) by simp
  moreover have "wrote s ip (unat off) bs ?s5"
  proof -
    have sl: "fs_sb ?s5 = fs_sb s" "log_start (fs_log ?s5) = log_start (fs_log s3)"
      "\<And>b. b \<notin> log_area (log_start (fs_log s3)) \<Longrightarrow> fview ?s5 b = fview s3 b"
      using s4(3) s3(13) by (simp_all add: fs_same_def)
    have st: "log_start (fs_log s3) = log_start (fs_log s)"
      using s3(2) S(1) by (simp add: fs_ok_def Let_def s3(13) sb2(1,2))
    have ic: "icache s4 ! j = icache s ! j" if "j \<noteq> ip" for j using that s4(6) s3(7) s2(11) by simp
    have ib: "IBLOCK (i_inum (icache ?s5 ! ip)) (fs_sb s) = iblk s ip" using T(8) [OF lo] by (simp add: sl i3 s3(9,13))
    show ?thesis unfolding wrote_def T(3) [OF lo] T(5) [OF lo] sl(1) using ib s3(10-12,13,14) sl(2,3) sb2 S(8) h(2) n(3) ic st by simp
  qed
  ultimately show ?thesis using that [OF s2(1,2) s3(1) s4(1,2)] by simp
qed

section \<open>All chunks\<close>

definition advanced :: "'d ksys \<Rightarrow> nat \<Rightarrow> int \<Rightarrow> 'd fssys \<Rightarrow> 'd ksys" where
  "advanced k f n s = (set_f k f ((ftable k ! f)\<lparr>f_off := f_off (ftable k ! f) + of_int n\<rparr>))\<lparr>kfs := s\<rparr>"

lemma unat_of_int: "0 \<le> n \<Longrightarrow> n \<le> 71680 \<Longrightarrow> unat (of_int n :: uint) = nat n"
proof -
  assume "0 \<le> n" "n \<le> 71680"
  then obtain m where m: "n = int m" "m \<le> 71680" by (metis nonneg_int_cases of_nat_le_iff of_nat_numeral)
  then show ?thesis using unat_of_nat_uint [of m] by simp
qed

lemma write_chunk_ok:
  assumes rd: "file_ready (kfs k) ip" and f: "f_ip (ftable k ! f) = ip" and n: "0 < n" "n \<le> 1536" "length bs = nat n"
    and off: "unat (f_off (ftable k ! f)) \<le> unat (i_size (icache (kfs k) ! ip))" "unat (f_off (ftable k ! f)) + nat n \<le> 140 * 512"
  obtains s' where "write_chunk E pid k f bs n = Ok (n, advanced k f n s')" "file_ready s' ip"
    "wrote (kfs k) ip (unat (f_off (ftable k ! f))) bs s'"
proof -
  have u: "unat (of_int n :: uint) = nat n" by (rule unat_of_int) (use n in simp_all)
  have c: "unat (of_int n :: uint) \<le> 1536" "unat (f_off (ftable k ! f)) + unat (of_int n :: uint) \<le> 140 * 512"
    "length bs = unat (of_int n :: uint)"
    unfolding u using n off by simp_all
  obtain l s2 s3 s4 l5 where t: "begin_op (fs_log (kfs k)) = Ok l" "ilock pid (kfs k\<lparr>fs_log := l\<rparr>) (Some ip) = Ok s2"
    "writei (e_devs E) pid s2 ip bs (f_off (ftable k ! f)) (of_int n) = Ok (int (unat (of_int n :: uint)), s3)"
    "iunlock pid s3 (Some ip) = Ok s4" "end_op pid (fs_log s4) = Ok l5"
    "file_ready (s4\<lparr>fs_log := l5\<rparr>) ip" "wrote (kfs k) ip (unat (f_off (ftable k ! f))) bs (s4\<lparr>fs_log := l5\<rparr>)"
    by (rule write_txn [OF rd off(1) c])
  have "write_chunk E pid k f bs n = Ok (n, advanced k f n (s4\<lparr>fs_log := l5\<rparr>))"
    using t(1-5) n(1) f by (simp add: write_chunk_def k_begin_def k_fs_def k_end_def advanced_def set_f_def u Let_def)
  then show ?thesis by (rule that [OF _ t(6,7)])
qed

lemma advanced_twice: "f < length (ftable k) \<Longrightarrow> advanced (advanced k f m s) f n s' = advanced k f (m + n) s'"
  by (simp add: advanced_def set_f_def add.assoc)

lemma advanced_fields [simp]:
  "kfs (advanced k f n s) = s" "length (ftable (advanced k f n s)) = length (ftable k)"
  "f < length (ftable k) \<Longrightarrow> ftable (advanced k f n s) ! f = (ftable k ! f)\<lparr>f_off := f_off (ftable k ! f) + of_int n\<rparr>"
  by (simp_all add: advanced_def set_f_def)

lemma write_loop_ok:
  assumes "file_ready (kfs k) ip" and "f < length (ftable k)" and "f_ip (ftable k ! f) = ip" and "0 \<le> i" "i \<le> n" "length src = nat n"
    and "unat (f_off (ftable k ! f)) \<le> unat (i_size (icache (kfs k) ! ip))" "unat (f_off (ftable k ! f)) + nat (n - i) \<le> 140 * 512"
  shows "\<exists>s'. write_loop E pid k f src n i = Ok (n, advanced k f (n - i) s') \<and> file_ready s' ip \<and>
    wrote (kfs k) ip (unat (f_off (ftable k ! f))) (drop (nat i) src) s'"
  using assms
proof (induction E pid k f src n i rule: write_loop.induct)
  case (1 E pid k f src n i)
  show ?case
  proof (cases "i < n")
    case False
    then have "i = n" using "1.prems"(5) by simp
    moreover from this have "write_loop E pid k f src n i = Ok (n, k)" by (subst write_loop.simps) simp
    moreover have "advanced k f 0 (kfs k) = k" by (simp add: advanced_def set_f_def)
    ultimately show ?thesis using "1.prems"(1,6) wrote_refl [OF "1.prems"(7)] by (intro exI [of _ "kfs k"]) simp
  next
    case True
    define m where "m = (if n - i > write_max then write_max else n - i)"
    have wm: "write_max = 1536" by (simp add: write_max_def)
    have m: "0 < m" "m \<le> 1536" "m \<le> n - i" using True by (auto simp: m_def wm)
    let ?bs = "take (nat m) (drop (nat i) src)" and ?off = "f_off (ftable k ! f)"
    have bs: "length ?bs = nat m" using m "1.prems"(4,6) by simp
    obtain s1 where s1: "write_chunk E pid k f ?bs m = Ok (m, advanced k f m s1)" "file_ready s1 ip" "wrote (kfs k) ip (unat ?off) ?bs s1"
      by (rule write_chunk_ok [OF "1.prems"(1,3) m(1,2) bs "1.prems"(7)]) (use "1.prems"(8) m in linarith)
    have "unat ?off + nat m < 4294967296" using "1.prems"(8) m by linarith
    then have u: "unat (?off + of_int m) = unat ?off + nat m"
      using unat_uint_add [of ?off "of_int m"] unat_of_int [of m] "1.prems"(8) m by simp
    have sz: "unat (i_size (icache s1 ! ip)) = max (unat (i_size (icache (kfs k) ! ip))) (unat ?off + nat m)"
      using s1(3) bs by (simp add: wrote_def)
    have "\<exists>s'. write_loop E pid (advanced k f m s1) f src n (i + m) = Ok (n, advanced (advanced k f m s1) f (n - (i + m)) s') \<and>
      file_ready s' ip \<and> wrote s1 ip (unat ?off + nat m) (drop (nat (i + m)) src) s'"
      using "1.IH" [OF True m_def s1(1) refl _ _] "1.prems" s1(2) m by (simp add: u sz) 
    then obtain s' where s': "write_loop E pid (advanced k f m s1) f src n (i + m) = Ok (n, advanced k f (n - i) s')" "file_ready s' ip"
        "wrote s1 ip (unat ?off + length ?bs) (drop (nat (i + m)) src) s'"
      unfolding bs using "1.prems"(2) by (auto simp: advanced_twice)
    have "write_loop E pid k f src n i = write_loop E pid (advanced k f m s1) f src n (i + m)"
      using True s1(1) m(1) by (subst write_loop.simps) (simp add: m_def [symmetric] Let_def)
    moreover have "?bs @ drop (nat (i + m)) src = drop (nat i) src"
      using m "1.prems"(4) append_take_drop_id [of "nat m" "drop (nat i) src"] by (simp add: nat_add_distrib add.commute)
    ultimately show ?thesis using s' wrote_trans [OF s1(3) s'(3)] by auto
  qed
qed

text \<open>
  C7: \<^verbatim>\<open>filewrite\<close> on a file of a file system whose log is idle writes all its bytes, however many transactions it takes,
  as long as the file stays below its largest size and the disk has blocks for it: it returns the number of
  bytes and moves the offset by it, the file holds the bytes at the old offset and has grown as
  needed, the other bytes of the file, the other inodes and every block that is neither free nor part of
  this file are as before, nothing of the kernel but the file system and the offset has changed, and when it returns all of it
  is on the disk and the log is idle again.
\<close>

theorem filewrite_in_transactions:
  assumes "f < length (ftable k)" and "ftable k ! f = x" and "f_writable x" "f_type x = FD_INODE"
    and "file_ready (kfs k) (f_ip x)" and "unat (f_off x) \<le> unat (i_size (icache (kfs k) ! f_ip x))"
    and "unat (f_off x) + length src \<le> 140 * 512"
  shows "\<exists>s'. filewrite E c cur k f src (int (length src)) =
      Ok (Return (int (length src)), k\<lparr>ftable := (ftable k)[f := x\<lparr>f_off := f_off x + of_nat (length src)\<rparr>], kfs := s'\<rparr>) \<and>
    file_ready s' (f_ip x) \<and> wrote (kfs k) (f_ip x) (unat (f_off x)) src s' \<and> disk_block (bio (fs_log s')) = fview s'"
proof -
  have "\<exists>s'. write_loop E (cur_pid k cur) k f src (int (length src)) 0 = Ok (int (length src), advanced k f (int (length src) - 0) s') \<and>
      file_ready s' (f_ip x) \<and> wrote (kfs k) (f_ip x) (unat (f_off (ftable k ! f))) (drop (nat 0) src) s'"
    by (rule write_loop_ok) (use assms in simp_all)
  then obtain s' where s': "write_loop E (cur_pid k cur) k f src (int (length src)) 0 = Ok (int (length src), advanced k f (int (length src)) s')"
      "file_ready s' (f_ip x)" "wrote (kfs k) (f_ip x) (unat (f_off x)) src s'"
    using assms(2) by auto
  moreover have "disk_block (bio (fs_log s')) = fview s'" using s'(2) idle_log_clean by (auto simp: file_ready_def)
  ultimately show ?thesis using assms(2-4) by (intro exI [of _ s']) (simp add: filewrite_def Let_def advanced_def set_f_def)
qed

definition idle_demo :: "unit fssys" where
  "idle_demo = (demo_file demo_ino)\<lparr>fs_log := (fs_log (demo_file demo_ino))\<lparr>outstanding := 0\<rparr>\<rparr>"

lemma idle_demo_ready: "file_ready idle_demo 0 \<and> i_size (icache idle_demo ! 0) = 0"
proof -
  have i: "i_dev demo_ino = 1" "i_inum demo_ino = 2" "i_size demo_ino = 0" "i_addrs demo_ino = replicate 13 0"
    by (simp_all add: demo_ino_def)
  note f = demo_file_facts [OF i]
  have sm: "fs_same (demo_file demo_ino) idle_demo" by (simp add: fs_same_def idle_demo_def)
  have l: "idle_log (fs_log idle_demo)"
    by (simp add: idle_log_def idle_demo_def demo_file_def demo_fs_def log_boot_def log_ok_def fresh_cache)
  then have "log_ok (fs_log idle_demo)" by (simp add: idle_log_def)
  note S = fs_same_file [OF f(1,2) sm this]
  have c: "icache idle_demo ! 0 = demo_ino" by (simp add: idle_demo_def f(6))
  have "149 \<le> card (fs_free idle_demo)"
  proof -
    have "of_nat ` {35 ..< 184 :: nat} \<subseteq> fs_free idle_demo" unfolding S(4) demo_file_def demo_fs_facts(7) by (auto simp: unat_of_nat_uint)
    then have "card (of_nat ` {35 ..< 184 :: nat} :: uint set) \<le> card (fs_free idle_demo)" by (intro card_mono) simp_all
    moreover have "inj_on (of_nat :: nat \<Rightarrow> uint) {35 ..< 184}" by (rule inj_on_inverseI [of _ unat]) (simp add: unat_of_nat_uint)
    ultimately show ?thesis by (simp add: card_image)
  qed
  also have "\<dots> \<le> card (avail idle_demo 0)" by (rule card_mono) (simp_all add: avail_def)
  finally show ?thesis
    unfolding file_ready_def using l S(1,2,6,7) f(4,5) c by (simp add: demo_ino_def initsleeplock_def)
qed

theorem filewrite_in_transactions_witness:
  "\<exists>k'. filewrite demo_env 0 0 (demo_k [\<lparr>f_type = FD_INODE, f_ref = 1, f_readable = True, f_writable = True, f_pipe = 0, f_ip = 0, f_off = 0\<rparr>]
      [Some 0] idle_demo) 0 (replicate 2000 65) 2000 = Ok (Return 2000, k') \<and>
    f_off (ftable k' ! 0) = 2000 \<and> fdata (kfs k') 0 1999 = 65 \<and> unat (i_size (icache (kfs k') ! 0)) = 2000"
proof -
  define x where "x = \<lparr>f_type = FD_INODE, f_ref = 1, f_readable = True, f_writable = True, f_pipe = 0, f_ip = 0, f_off = 0\<rparr>"
  define k where "k = demo_k [x] [Some 0] idle_demo"
  have "0 < length (ftable k)" "ftable k ! 0 = x" "f_writable x" "f_type x = FD_INODE" "file_ready (kfs k) (f_ip x)"
    "unat (f_off x) \<le> unat (i_size (icache (kfs k) ! f_ip x))" "unat (f_off x) + length (replicate 2000 (65 :: uchar)) \<le> 140 * 512"
    using idle_demo_ready by (simp_all add: k_def x_def demo_k_def)
  from filewrite_in_transactions [OF this, of demo_env 0 0]
  obtain s' where "filewrite demo_env 0 0 k 0 (replicate 2000 65) 2000 =
      Ok (Return 2000, k\<lparr>ftable := (ftable k)[0 := x\<lparr>f_off := f_off x + of_nat 2000\<rparr>], kfs := s'\<rparr>)"
    "wrote (kfs k) (f_ip x) (unat (f_off x)) (replicate 2000 65) s'" by auto
  then show ?thesis unfolding x_def [symmetric] k_def [symmetric]
    using idle_demo_ready by (intro exI [of _ "k\<lparr>ftable := (ftable k)[0 := x\<lparr>f_off := f_off x + of_nat 2000\<rparr>], kfs := s'\<rparr>"])
      (simp add: wrote_def x_def k_def demo_k_def)
qed

end
