(* ===== verification/User_Grep.thy ===== *)
theory User_Grep
  imports Xv6_Prelude
begin

text \<open>
  The \<^verbatim>\<open>grep\<close> program (\<^verbatim>\<open>src/xv6/grep.c\<close>): the matcher for patterns made of characters, \<^verbatim>\<open>.\<close>, \<^verbatim>\<open>*\<close>, \<^verbatim>\<open>^\<close>
  and \<^verbatim>\<open>$\<close>, and the loop that cuts its input into lines. A C string is the list of its bytes
  before the terminating NUL. What \<^verbatim>\<open>read\<close> returns is a parameter: the bytes of the input and, call by
  call, how many of them arrive at once.
\<close>

abbreviation STAR :: uchar where "STAR \<equiv> 42"
abbreviation DOT :: uchar where "DOT \<equiv> 46"
abbreviation DOLLAR :: uchar where "DOLLAR \<equiv> 36"
abbreviation CARET :: uchar where "CARET \<equiv> 94"
abbreviation NL :: uchar where "NL \<equiv> 10"

section \<open>The matcher\<close>

function (sequential) matchhere :: "uchar list \<Rightarrow> uchar list \<Rightarrow> bool"
  and matchstar :: "uchar \<Rightarrow> uchar list \<Rightarrow> uchar list \<Rightarrow> bool" where
  "matchhere re text =
     (if re = [] then True
      else if tl re \<noteq> [] \<and> hd (tl re) = STAR then matchstar (hd re) (tl (tl re)) text
      else if hd re = DOLLAR \<and> tl re = [] then text = []
      else if text \<noteq> [] \<and> (hd re = DOT \<or> hd re = hd text) then matchhere (tl re) (tl text)
      else False)"
| "matchstar c re text =
     (if matchhere re text then True
      else if text \<noteq> [] \<and> (hd text = c \<or> c = DOT) then matchstar c re (tl text)
      else False)"
  by pat_completeness auto
termination
  by (relation "measures [\<lambda>x. case x of Inl (re, text) \<Rightarrow> length re | Inr (c, re, text) \<Rightarrow> Suc (length re),
        \<lambda>x. case x of Inl (re, text) \<Rightarrow> length text | Inr (c, re, text) \<Rightarrow> length text]") (auto simp: neq_Nil_conv)

declare matchhere.simps [simp del] matchstar.simps [simp del]

fun match_any :: "uchar list \<Rightarrow> uchar list \<Rightarrow> bool" where
  "match_any re text =
     (if matchhere re text then True else if text \<noteq> [] then match_any re (tl text) else False)"

declare match_any.simps [simp del]

definition match :: "uchar list \<Rightarrow> uchar list \<Rightarrow> bool" where
  "match re text = (if re \<noteq> [] \<and> hd re = CARET then matchhere (tl re) text else match_any re text)"

section \<open>Reading lines\<close>

text \<open>
  The inner loop prints the matching lines of \<^verbatim>\<open>p\<close> and returns what follows the last newline;
  \<^verbatim>\<open>strchr\<close> does not look past a NUL.
\<close>

function grep_lines :: "uchar list \<Rightarrow> uchar list \<Rightarrow> uchar list \<times> uchar list" where
  "grep_lines pattern p =
     (if NL \<in> set (takeWhile (\<lambda>c. c \<noteq> 0) p)
      then let l = takeWhile (\<lambda>c. c \<noteq> NL) p
           in case grep_lines pattern (tl (dropWhile (\<lambda>c. c \<noteq> NL) p)) of
                (out, rest) \<Rightarrow> ((if match pattern l then l @ [NL] else []) @ out, rest)
      else ([], p))"
  by pat_completeness auto
termination
proof (relation "measure (\<lambda>(pattern, p). length p)")
  fix pattern p :: "uchar list"
  assume "NL \<in> set (takeWhile (\<lambda>c. c \<noteq> 0) p)"
  then have "p \<noteq> []" by auto
  moreover have "length (dropWhile (\<lambda>c. c \<noteq> NL) p) \<le> length p" by (rule length_dropWhile_le)
  ultimately have "length (tl (dropWhile (\<lambda>c. c \<noteq> NL) p)) < length p" by (cases p) auto
  then show "((pattern, tl (dropWhile (\<lambda>c. c \<noteq> NL) p)), pattern, p) \<in> measure (\<lambda>(pattern, p). length p)" for l
    by simp
qed simp

declare grep_lines.simps [simp del]

text \<open>
  The outer loop with the \<^verbatim>\<open>m\<close> bytes \<^verbatim>\<open>b\<close> in the buffer; \<^verbatim>\<open>inp\<close> is the rest of the input. A call of
  \<^verbatim>\<open>read\<close> returns at most the space left in the buffer, and at most the next of the limits \<^verbatim>\<open>ns\<close>; when
  they are used up it returns as much as it can, as a read from a file does.
\<close>

definition grep_read :: "nat \<Rightarrow> nat list \<Rightarrow> uchar list \<Rightarrow> uchar list" where
  "grep_read m ns inp = take (min (1024 - m - 1) (case ns of [] \<Rightarrow> 1024 | n # _ \<Rightarrow> n)) inp"

function grep_loop :: "uchar list \<Rightarrow> uchar list \<Rightarrow> nat list \<Rightarrow> uchar list \<Rightarrow> uchar list" where
  "grep_loop pattern b ns inp =
     (let r = grep_read (length b) ns inp
      in if r = [] then []
         else let b1 = b @ r
              in case grep_lines pattern b1 of
                   (out, p) \<Rightarrow> out @ grep_loop pattern (if length p = length b1 then [] else p) (tl ns) (drop (length r) inp))"
  by pat_completeness auto
termination
  by (relation "measure (\<lambda>(pattern, b, ns, inp). length inp)") (auto simp: grep_read_def)

declare grep_loop.simps [simp del]

definition grep :: "uchar list \<Rightarrow> nat list \<Rightarrow> uchar list \<Rightarrow> uchar list" where
  "grep pattern ns inp = grep_loop pattern [] ns inp"

section \<open>The language of a pattern\<close>

text \<open>
  A pattern without its leading \<^verbatim>\<open>^\<close> is a sequence of items, and perhaps a \<^verbatim>\<open>$\<close> at its end. The
  language of the items is defined by the bytes they admit.
\<close>

datatype item = Single uchar | Many uchar

definition admits :: "uchar \<Rightarrow> uchar \<Rightarrow> bool" where
  "admits c t \<longleftrightarrow> c = DOT \<or> t = c"

fun items :: "uchar list \<Rightarrow> item list \<times> bool" where
  "items [] = ([], False)"
| "items [c] = (if c = DOLLAR then ([], True) else ([Single c], False))"
| "items (c # d # re) =
     (if d = STAR then apfst (Cons (Many c)) (items re) else apfst (Cons (Single c)) (items (d # re)))"

fun lang :: "item list \<Rightarrow> uchar list set" where
  "lang [] = {[]}"
| "lang (Single c # is) = {t # u |t u. admits c t \<and> u \<in> lang is}"
| "lang (Many c # is) = {u @ v |u v. list_all (admits c) u \<and> v \<in> lang is}"

text \<open>The text has a match at its beginning.\<close>

definition begins :: "uchar list \<Rightarrow> uchar list \<Rightarrow> bool" where
  "begins re text \<longleftrightarrow> (\<exists>u v. text = u @ v \<and> u \<in> lang (fst (items re)) \<and> (snd (items re) \<longrightarrow> v = []))"

lemma begins_many:
  "begins (c # STAR # re) text \<longleftrightarrow> (\<exists>u v. text = u @ v \<and> list_all (admits c) u \<and> begins re v)"
proof -
  obtain xs e where x: "items re = (xs, e)" by force
  show ?thesis
  proof
    assume "begins (c # STAR # re) text"
    then obtain u v where "text = u @ v" "u \<in> lang (Many c # xs)" "e \<longrightarrow> v = []" unfolding begins_def by (auto simp: x)
    then obtain a b where "text = (a @ b) @ v" "list_all (admits c) a" "b \<in> lang xs" "e \<longrightarrow> v = []" by auto
    moreover from this have "begins re (b @ v)" by (auto simp: begins_def x)
    ultimately show "\<exists>u v. text = u @ v \<and> list_all (admits c) u \<and> begins re v" by (intro exI [of _ a] exI [of _ "b @ v"]) simp
  next
    assume "\<exists>u v. text = u @ v \<and> list_all (admits c) u \<and> begins re v"
    then obtain a w where a: "text = a @ w" "list_all (admits c) a" "begins re w" by blast
    then obtain b v where "w = b @ v" "b \<in> lang xs" "e \<longrightarrow> v = []" unfolding begins_def x fst_conv snd_conv by blast
    with a(1,2) show "begins (c # STAR # re) text" unfolding begins_def x by (intro exI [of _ "a @ b"] exI [of _ v]) (auto simp: x)
  qed
qed

lemma begins_single:
  assumes "re = [] \<Longrightarrow> c \<noteq> DOLLAR" and "re \<noteq> [] \<Longrightarrow> hd re \<noteq> STAR"
  shows "begins (c # re) text \<longleftrightarrow> (\<exists>t ts. text = t # ts \<and> admits c t \<and> begins re ts)"
proof -
  have x: "items (c # re) = (Single c # fst (items re), snd (items re))" using assms by (cases re) (auto simp: apfst_def map_prod_def split: prod.splits)
  show ?thesis
  proof
    assume "begins (c # re) text"
    then obtain w v where "text = w @ v" "w \<in> lang (Single c # fst (items re))" "snd (items re) \<longrightarrow> v = []"
      unfolding begins_def x fst_conv snd_conv by blast
    then obtain t u where "text = t # u @ v" "admits c t" "u \<in> lang (fst (items re))" "snd (items re) \<longrightarrow> v = []" by auto
    then show "\<exists>t ts. text = t # ts \<and> admits c t \<and> begins re ts" by (auto simp: begins_def)
  next
    assume "\<exists>t ts. text = t # ts \<and> admits c t \<and> begins re ts"
    then obtain t w where t: "text = t # w" "admits c t" "begins re w" by blast
    then obtain u v where "w = u @ v" "u \<in> lang (fst (items re))" "snd (items re) \<longrightarrow> v = []" unfolding begins_def by blast
    with t(1,2) show "begins (c # re) text" unfolding begins_def x by (intro exI [of _ "t # u"] exI [of _ v]) auto
  qed
qed

lemma many_unfold:
  "(\<exists>u v. text = u @ v \<and> list_all (admits c) u \<and> P v) \<longleftrightarrow>
     P text \<or> (text \<noteq> [] \<and> admits c (hd text) \<and> (\<exists>u v. tl text = u @ v \<and> list_all (admits c) u \<and> P v))"
proof
  assume "\<exists>u v. text = u @ v \<and> list_all (admits c) u \<and> P v"
  then obtain u v where "text = u @ v" "list_all (admits c) u" "P v" by blast
  then show "P text \<or> (text \<noteq> [] \<and> admits c (hd text) \<and> (\<exists>u v. tl text = u @ v \<and> list_all (admits c) u \<and> P v))"
    by (cases u) auto
next
  assume "P text \<or> (text \<noteq> [] \<and> admits c (hd text) \<and> (\<exists>u v. tl text = u @ v \<and> list_all (admits c) u \<and> P v))"
  then show "\<exists>u v. text = u @ v \<and> list_all (admits c) u \<and> P v"
  proof
    assume "P text"
    then show ?thesis by (intro exI [of _ "[]"] exI [of _ "text"]) simp
  next
    assume "text \<noteq> [] \<and> admits c (hd text) \<and> (\<exists>u v. tl text = u @ v \<and> list_all (admits c) u \<and> P v)"
    then obtain u v where "text = (hd text # u) @ v" "list_all (admits c) (hd text # u)" "P v" by (cases "text") auto
    then show ?thesis by blast
  qed
qed

lemma matchhere_begins:
  "matchhere re tx \<longleftrightarrow> begins re tx"
  "matchstar c re tx \<longleftrightarrow> (\<exists>u v. tx = u @ v \<and> list_all (admits c) u \<and> begins re v)"
proof (induction re tx and c re tx rule: matchhere_matchstar.induct)
  case (1 re tx)
  consider (Nil) "re = []" | (Star) c re' where "re = c # STAR # re'" | (Eol) "re = [DOLLAR]"
    | (One) c re' where "re = c # re'" "re' = [] \<Longrightarrow> c \<noteq> DOLLAR" "re' \<noteq> [] \<Longrightarrow> hd re' \<noteq> STAR"
    by (metis list.exhaust_sel)
  then show ?case
  proof cases
    case Nil
    then show ?thesis by (subst matchhere.simps) (simp add: begins_def)
  next
    case Star
    then show ?thesis using "1.IH"(1) by (subst matchhere.simps) (simp add: begins_many)
  next
    case Eol
    then show ?thesis by (subst matchhere.simps) (simp add: begins_def)
  next
    case (One c re')
    have "matchhere re tx \<longleftrightarrow> tx \<noteq> [] \<and> (c = DOT \<or> c = hd tx) \<and> matchhere re' (tl tx)"
      using One by (subst matchhere.simps) auto
    also have "\<dots> \<longleftrightarrow> tx \<noteq> [] \<and> admits c (hd tx) \<and> begins re' (tl tx)" using "1.IH"(2) One by (auto simp: admits_def)
    finally show ?thesis using begins_single [of re' c tx, OF One(2,3)] One(1) by (cases tx) auto
  qed
next
  case (2 c re tx)
  have "matchstar c re tx \<longleftrightarrow> matchhere re tx \<or> (tx \<noteq> [] \<and> admits c (hd tx) \<and> matchstar c re (tl tx))"
    by (subst matchstar.simps) (auto simp: admits_def)
  also have "\<dots> \<longleftrightarrow> begins re tx \<or> (tx \<noteq> [] \<and> admits c (hd tx) \<and> (\<exists>u v. tl tx = u @ v \<and> list_all (admits c) u \<and> begins re v))"
    using "2.IH" by (auto simp: admits_def [of c "hd tx"])
  finally show ?case unfolding many_unfold [of tx c "begins re"] .
qed

lemma match_any_suffix: "match_any re tx \<longleftrightarrow> (\<exists>u v. tx = u @ v \<and> begins re v)"
proof (induction re tx rule: match_any.induct)
  case (1 re tx)
  show ?case using "1.IH" many_unfold [of tx DOT "begins re"]
    by (subst match_any.simps) (auto simp: matchhere_begins list_all_iff admits_def)
qed

text \<open>The text has a match: at its beginning if the pattern starts with \<^verbatim>\<open>^\<close>, else anywhere.\<close>

definition matches :: "uchar list \<Rightarrow> uchar list \<Rightarrow> bool" where
  "matches re t \<longleftrightarrow>
     (\<exists>u v w. t = u @ v @ w \<and> (if re \<noteq> [] \<and> hd re = CARET
        then u = [] \<and> v \<in> lang (fst (items (tl re))) \<and> (snd (items (tl re)) \<longrightarrow> w = [])
        else v \<in> lang (fst (items re)) \<and> (snd (items re) \<longrightarrow> w = [])))"

lemma match_matches: "match re t \<longleftrightarrow> matches re t"
  unfolding match_def matches_def matchhere_begins match_any_suffix begins_def by auto

section \<open>The lines of the input\<close>

abbreviation unlines :: "uchar list list \<Rightarrow> uchar list" where
  "unlines ls \<equiv> concat (map (\<lambda>l. l @ [NL]) ls)"

lemma cut_exists: "\<exists>ls p. s = unlines ls @ p \<and> (\<forall>l \<in> set ls. NL \<notin> set l) \<and> NL \<notin> set p"
proof (induction s)
  case Nil
  show ?case by (intro exI [of _ "[]"]) simp
next
  case (Cons c s)
  then obtain ls p where s: "s = unlines ls @ p" "\<forall>l \<in> set ls. NL \<notin> set l" "NL \<notin> set p" by blast
  consider "c = NL" | "c \<noteq> NL" "ls = []" | l ls' where "c \<noteq> NL" "ls = l # ls'" by (cases ls) auto
  then show ?case
  proof cases
    case 1
    then show ?thesis using s by (intro exI [of _ "[] # ls"] exI [of _ p]) auto
  next
    case 2
    then show ?thesis using s by (intro exI [of _ "[]"] exI [of _ "c # p"]) auto
  next
    case (3 l ls')
    then show ?thesis using s by (intro exI [of _ "(c # l) # ls'"] exI [of _ p]) auto
  qed
qed

lemma first_line: "NL \<notin> set l \<Longrightarrow> takeWhile (\<lambda>c. c \<noteq> NL) (l @ NL # s) = l \<and> dropWhile (\<lambda>c. c \<noteq> NL) (l @ NL # s) = NL # s"
  by (induction l) auto

lemma cut_unique:
  assumes "unlines ls1 @ x = unlines ls @ rest" and "\<forall>l \<in> set ls1. NL \<notin> set l" and "\<forall>l \<in> set ls. NL \<notin> set l" and "NL \<notin> set rest"
  shows "\<exists>ls2. ls = ls1 @ ls2 \<and> x = unlines ls2 @ rest"
  using assms
proof (induction ls1 arbitrary: ls)
  case Nil
  then show ?case by simp
next
  case (Cons l ls1)
  then obtain m ms where ls: "ls = m # ms" by (cases ls) auto
  then have e: "l @ NL # (unlines ls1 @ x) = m @ NL # (unlines ms @ rest)" using Cons.prems(1) by simp
  have nl: "NL \<notin> set l" "NL \<notin> set m" using Cons.prems(2,3) ls by simp_all
  have "l = takeWhile (\<lambda>c. c \<noteq> NL) (l @ NL # (unlines ls1 @ x))" using first_line [OF nl(1)] by simp
  also have "\<dots> = m" unfolding e using first_line [OF nl(2)] by simp
  finally have lm: "l = m" .
  with e have "unlines ls1 @ x = unlines ms @ rest" by simp
  then obtain ls2 where "ms = ls1 @ ls2" "x = unlines ls2 @ rest" using Cons.IH [of ms] Cons.prems(2-4) ls by auto
  with lm ls show ?case by simp
qed

lemma grep_lines_lines:
  assumes "\<forall>l \<in> set ls. NL \<notin> set l \<and> 0 \<notin> set l" and "NL \<notin> set p"
  shows "grep_lines pattern (unlines ls @ p) = (unlines (filter (match pattern) ls), p)"
  using assms
proof (induction ls)
  case Nil
  then have "NL \<notin> set (takeWhile (\<lambda>c. c \<noteq> 0) p)" using set_takeWhileD by fastforce
  then show ?case by (subst grep_lines.simps) simp
next
  case (Cons l ls)
  have "takeWhile (\<lambda>c. c \<noteq> 0) (l @ NL # unlines ls @ p) = l @ takeWhile (\<lambda>c. c \<noteq> 0) (NL # unlines ls @ p)"
    by (rule takeWhile_append2) (use Cons.prems in auto)
  then have "NL \<in> set (takeWhile (\<lambda>c. c \<noteq> 0) (l @ NL # unlines ls @ p))" by simp
  then show ?case
    using Cons first_line [of l "unlines ls @ p"] by (subst grep_lines.simps) simp
qed

lemma grep_loop_lines:
  assumes "b @ inp = unlines ls @ rest" and "\<forall>l \<in> set ls. NL \<notin> set l \<and> 0 \<notin> set l \<and> length l \<le> 1022" and "NL \<notin> set rest"
    and "NL \<notin> set b" "length b \<le> 1022"
  shows "grep_loop pattern b [] inp = unlines (filter (match pattern) ls)"
  using assms
proof (induction "length inp" arbitrary: b inp ls rest rule: less_induct)
  case less
  define r where "r = grep_read (length b) [] inp"
  show ?case
  proof (cases "inp = []")
    case True
    then have "ls = []" using less.prems(1,4) by (cases ls) auto
    then show ?thesis using True by (subst grep_loop.simps) (simp add: grep_read_def)
  next
    case False
    then have r: "r \<noteq> []" "length r = min (1023 - length b) (length inp)" "inp = r @ drop (length r) inp"
      using less.prems(5) by (auto simp: r_def grep_read_def min_def)
    obtain ls1 p where c: "b @ r = unlines ls1 @ p" "\<forall>l \<in> set ls1. NL \<notin> set l" "NL \<notin> set p" using cut_exists by blast
    have "unlines ls1 @ (p @ drop (length r) inp) = unlines ls @ rest" using less.prems(1) r(3) c(1) by (metis append.assoc)
    then obtain ls2 where ls2: "ls = ls1 @ ls2" "p @ drop (length r) inp = unlines ls2 @ rest"
      using cut_unique c(2) less.prems(2,3) by blast
    have g: "grep_lines pattern (b @ r) = (unlines (filter (match pattern) ls1), p)"
      unfolding c(1) by (rule grep_lines_lines) (use less.prems(2) ls2(1) c(3) in auto)
    have step: "grep_loop pattern b [] inp = unlines (filter (match pattern) ls1) @
        grep_loop pattern (if length p = length (b @ r) then [] else p) [] (drop (length r) inp)"
      using r(1) g by (subst grep_loop.simps) (simp add: r_def [symmetric] Let_def)
    have dec: "length (drop (length r) inp) < length inp" using r(1) False by (cases r) auto
    show ?thesis
    proof (cases "ls1 = []")
      case False
      then have lt: "length p < length (b @ r)" using c(1) by (cases ls1) auto
      then have "grep_loop pattern p [] (drop (length r) inp) = unlines (filter (match pattern) ls2)"
        using less.hyps [OF dec ls2(2)] less.prems(2,3) ls2(1) c(3) r(2) less.prems(5) by auto
      with step lt ls2(1) show ?thesis by simp
    next
      case True
      have p: "p = b @ r" using c(1) True by simp
      have "ls2 = []"
      proof (cases ls2)
        case (Cons l ls')
        have short: "length l \<le> 1022" using Cons ls2(1) less.prems(2) by simp
        have eq: "p @ drop (length r) inp = (l @ [NL]) @ (unlines ls' @ rest)" using ls2(2) Cons by simp
        have "length p \<le> length l"
        proof (rule ccontr)
          assume "\<not> length p \<le> length l"
          then have "p ! length l = NL" using arg_cong [OF eq, of "\<lambda>x. x ! length l"] by (simp add: nth_append)
          with \<open>\<not> length p \<le> length l\<close> c(3) show False using nth_mem [of "length l" p] by simp
        qed
        then have "drop (length r) inp = []" using p r(2) short by simp
        with eq c(3) have False by (auto simp: append_eq_append_conv2)
        then show ?thesis ..
      qed simp
      then have "NL \<notin> set (drop (length r) inp)" using ls2(2) less.prems(3) by (metis UnCI append_Nil concat.simps(1) list.simps(8) set_append)
      then have "grep_loop pattern [] [] (drop (length r) inp) = []"
        using less.hyps [OF dec, of "[]" "[]" "drop (length r) inp"] by simp
      with step True p \<open>ls2 = []\<close> ls2(1) show ?thesis by simp
    qed
  qed
qed

text \<open>
  C37: on the contents of a file without NUL bytes and with lines of at most 1022 bytes, \<^verbatim>\<open>grep\<close> prints exactly
  the lines, in order, that have a match: that contain a word of the language of the pattern, at the beginning
  of the line if the pattern starts with \<^verbatim>\<open>^\<close>, and at its end if it ends with \<^verbatim>\<open>$\<close>. Bytes after the last
  newline are not printed.
\<close>

theorem grep_prints_matching_lines:
  assumes "\<forall>l \<in> set ls. NL \<notin> set l \<and> 0 \<notin> set l \<and> length l \<le> 1022" and "NL \<notin> set rest"
  shows "grep pattern [] (unlines ls @ rest) = unlines (filter (matches pattern) ls)"
proof -
  have "match pattern = matches pattern" by (rule ext) (rule match_matches)
  with grep_loop_lines [of "[]" "unlines ls @ rest" ls rest pattern] assms show ?thesis by (simp add: grep_def)
qed

text \<open>The pattern \<^verbatim>\<open>^ab*$\<close> on the lines \<^verbatim>\<open>abb\<close> and \<^verbatim>\<open>abc\<close>.\<close>

theorem grep_prints_matching_lines_witness:
  "grep [94, 97, 98, 42, 36] [] ([97, 98, 98, 10] @ [97, 98, 99, 10] @ [97]) = [97, 98, 98, 10]"
proof -
  have h: "\<forall>l \<in> set [[97, 98, 98], [97, 98, 99]]. NL \<notin> set l \<and> 0 \<notin> set l \<and> length l \<le> 1022" "NL \<notin> set [97 :: uchar]" by simp_all
  have m: "matches [94, 97, 98, 42, 36] [97, 98, 98]" "\<not> matches [94, 97, 98, 42, 36] [97, 98, 99]"
    unfolding match_matches [symmetric] by (simp_all add: match_def matchhere.simps matchstar.simps)
  from grep_prints_matching_lines [OF h, of "[94, 97, 98, 42, 36]"] show ?thesis using m by simp
qed

text \<open>A line that arrives in two reads loses its first part: the line \<^verbatim>\<open>ab\<close> is printed as \<^verbatim>\<open>b\<close>.\<close>

lemma grep_short_read: "grep [98] [1] [97, 98, 10] = [98, 10]"
  by (simp add: grep_def grep_loop.simps grep_lines.simps grep_read_def match_def match_any.simps matchhere.simps matchstar.simps)

end
