(* ===== verification/User_Sh.thy ===== *)
theory User_Sh
  imports Xv6_Prelude
begin

text \<open>
  The shell (\<^verbatim>\<open>src/xv6/sh.c\<close>): its recursive descent parser and the termination of the words
  in place. A pointer into the line is an offset; the line is the list of its bytes before the
  NUL. A panic of the shell prints its message and exits.
\<close>

section \<open>Commands\<close>

type_synonym span = "nat \<times> nat"

datatype cmd =
    EXEC "span list"
  | REDIR cmd span uint nat
  | PIPE cmd cmd
  | LIST cmd cmd
  | BACK cmd

definition MAXARGS :: nat where "MAXARGS = 10"

section \<open>Tokens\<close>

definition whitespace :: "uchar list" where "whitespace = [32, 9, 13, 10, 11]"
definition symbols :: "uchar list" where "symbols = [60, 124, 62, 38, 59, 40, 41]"

definition deref :: "uchar list \<Rightarrow> nat \<Rightarrow> uchar" where
  "deref buf s = (if s < length buf then buf ! s else 0)"

function skip_while :: "(uchar \<Rightarrow> bool) \<Rightarrow> uchar list \<Rightarrow> nat \<Rightarrow> nat" where
  "skip_while P buf s = (if s < length buf \<and> P (buf ! s) then skip_while P buf (s + 1) else s)"
  by pat_completeness auto
termination by (relation "measure (\<lambda>(P, buf, s). length buf - s)") auto

declare skip_while.simps [simp del]

abbreviation skip_ws :: "uchar list \<Rightarrow> nat \<Rightarrow> nat" where
  "skip_ws \<equiv> skip_while (\<lambda>c. c \<in> set whitespace)"

abbreviation word_char :: "uchar \<Rightarrow> bool" where
  "word_char c \<equiv> c \<notin> set whitespace \<and> c \<notin> set symbols"

text \<open>The token, where it begins and ends, and the position after it.\<close>

definition gettoken :: "uchar list \<Rightarrow> nat \<Rightarrow> uchar \<times> nat \<times> nat \<times> nat" where
  "gettoken buf ps =
     (let s = skip_ws buf ps; c = deref buf s;
          (ret, e) = (if c = 0 then (0, s)
                      else if c \<in> {124, 40, 41, 59, 38, 60} then (c, s + 1)
                      else if c = 62 then (if deref buf (s + 1) = 62 then (43, s + 2) else (62, s + 1))
                      else (97, skip_while word_char buf s))
      in (ret, s, e, skip_ws buf e))"

definition peek :: "uchar list \<Rightarrow> nat \<Rightarrow> uchar list \<Rightarrow> bool \<times> nat" where
  "peek buf ps toks =
     (let s = skip_ws buf ps in (deref buf s \<noteq> 0 \<and> deref buf s \<in> set toks, s))"

lemma skip_while_bounds: "s \<le> skip_while P buf s \<and> skip_while P buf s \<le> max s (length buf)"
proof (induction P buf s rule: skip_while.induct)
  case (1 P buf s)
  then show ?case by (subst (1 2) skip_while.simps) auto
qed

lemmas skip_while_ge [simp] = skip_while_bounds [THEN conjunct1]

lemma skip_while_stops: "skip_while P buf s < length buf \<Longrightarrow> \<not> P (buf ! skip_while P buf s)"
proof (induction P buf s rule: skip_while.induct)
  case (1 P buf s)
  then show ?case by (subst (asm) (3) skip_while.simps, subst skip_while.simps) (auto split: if_splits)
qed

lemma skip_while_all: "s \<le> i \<Longrightarrow> i < skip_while P buf s \<Longrightarrow> P (buf ! i)"
proof (induction P buf s rule: skip_while.induct)
  case (1 P buf s)
  show ?case
  proof (cases "s < length buf \<and> P (buf ! s)")
    case True
    then have "skip_while P buf s = skip_while P buf (s + 1)" by (subst skip_while.simps) simp
    with 1 True show ?thesis by (cases "i = s") auto
  next
    case False
    then have "skip_while P buf s = s" by (subst skip_while.simps) auto
    with "1.prems" show ?thesis by simp
  qed
qed

lemma skip_while_id: "skip_while P buf (skip_while P buf s) = skip_while P buf s"
  using skip_while_stops [of P buf s] by (subst skip_while.simps) auto

lemma deref_nonzero: "deref buf s \<noteq> 0 \<Longrightarrow> s < length buf"
  by (simp add: deref_def split: if_splits)

lemma skip_ws_stops: "deref buf (skip_ws buf s) \<notin> set whitespace"
  using skip_while_stops [of "\<lambda>c. c \<in> set whitespace" buf s] by (auto simp: deref_def whitespace_def)

lemma word_forward:
  assumes "deref buf s \<noteq> 0" and "word_char (deref buf s)"
  shows "s < skip_while word_char buf s \<and> skip_while word_char buf s \<le> length buf"
proof -
  have "s < length buf" using assms(1) by (rule deref_nonzero)
  moreover from this assms(2) have "skip_while word_char buf s = skip_while word_char buf (s + 1)"
    by (subst skip_while.simps) (simp add: deref_def)
  moreover have "s + 1 \<le> skip_while word_char buf (s + 1)" "skip_while word_char buf (s + 1) \<le> max (s + 1) (length buf)"
    using skip_while_bounds [of "s + 1" word_char buf] by blast+
  ultimately show ?thesis by linarith
qed

lemma gettoken_forward:
  assumes "gettoken buf s = (t, q, e, s')"
  shows "s \<le> q" "e \<le> s'" "t \<noteq> 0 \<Longrightarrow> q < e \<and> e \<le> length buf"
    "t = 97 \<Longrightarrow> i \<in> {q ..< e} \<Longrightarrow> word_char (buf ! i) \<and> i < length buf"
proof -
  let ?s = "skip_ws buf s"
  let ?c = "deref buf ?s"
  have g: "q = ?s" "s' = skip_ws buf e" using assms by (auto simp: gettoken_def Let_def split: if_splits)
  show "s \<le> q" "e \<le> s'" by (simp_all add: g)
  consider (End) "?c = 0" "t = 0" | (Sym) "?c \<noteq> 0" "t \<noteq> 97" "e = ?s + 1"
    | (App) "?c \<noteq> 0" "t \<noteq> 97" "deref buf (?s + 1) \<noteq> 0" "e = ?s + 2"
    | (Word) "?c \<noteq> 0" "t = 97" "?c \<notin> set symbols" "e = skip_while word_char buf ?s"
    using assms by (auto simp: gettoken_def Let_def symbols_def split: if_splits)
  then show "q < e \<and> e \<le> length buf" if "t \<noteq> 0"
    by cases (use that deref_nonzero [of buf ?s] deref_nonzero [of buf "?s + 1"] word_forward [of buf ?s] skip_ws_stops [of buf s] g in auto)
  show "word_char (buf ! i) \<and> i < length buf" if "t = 97" "i \<in> {q ..< e}"
  proof -
    have e: "e = skip_while word_char buf ?s" and c: "?c \<noteq> 0" "?c \<notin> set symbols" 
      using assms that(1) by (auto simp: gettoken_def Let_def symbols_def split: if_splits)
    then have "e \<le> length buf" using word_forward [of buf ?s] skip_ws_stops [of buf s] by auto
    moreover have "word_char (buf ! i)" by (rule skip_while_all [of ?s]) (use that(2) e g in auto)
    ultimately show ?thesis using that(2) by auto
  qed
qed

lemma gettoken_le: "gettoken buf s = (t, q, e, s') \<Longrightarrow> s \<le> s'"
  using gettoken_forward(1-3) [of buf s t q e s']
  by (cases "t = 0") (auto simp: gettoken_def Let_def split: if_splits intro: order.trans [OF _ skip_while_ge])

section \<open>The parser\<close>

text \<open>The redirections at a position, each with the file, the mode of \<^verbatim>\<open>fcntl.h\<close> and the descriptor.\<close>

type_synonym redir = "span \<times> uint \<times> nat"

definition redir_of :: "uchar \<Rightarrow> span \<Rightarrow> redir" where
  "redir_of tok w = (if tok = 60 then (w, 0x000, 0) else (w, 0x001 OR 0x200, 1))"

definition redircmd :: "cmd \<Rightarrow> redir \<Rightarrow> cmd" where
  "redircmd c r = (case r of (w, mode, fd) \<Rightarrow> REDIR c w mode fd)"

lemma peek_forward: "peek buf s toks = (r, s1) \<Longrightarrow> s \<le> s1"
  by (auto simp: peek_def Let_def)

lemma peek_gettoken:
  assumes "peek buf s toks = (True, s1)" and "gettoken buf s1 = (t, q, e, s2)"
  shows "t \<noteq> 0 \<and> s < s2 \<and> s < length buf"
proof -
  have s1: "s1 = skip_ws buf s" "deref buf s1 \<noteq> 0" using assms(1) by (auto simp: peek_def Let_def)
  then have "skip_ws buf s1 = s1" by (simp add: skip_while_id)
  then have t: "t \<noteq> 0" using assms(2) s1(2) by (auto simp: gettoken_def Let_def split: if_splits)
  have "s \<le> s1" by (simp add: s1(1))
  moreover have "s1 < length buf" by (rule deref_nonzero [OF s1(2)])
  ultimately show ?thesis using t gettoken_forward [OF assms(2)] by auto
qed

function parseredirs :: "uchar list \<Rightarrow> nat \<Rightarrow> (redir list \<times> nat) outcome" where
  "parseredirs buf ps =
     (case peek buf ps [60, 62] of (more, s) \<Rightarrow>
        if more
        then case gettoken buf s of (tok, _, _, s1) \<Rightarrow>
             case gettoken buf s1 of (a, q, eq, s2) \<Rightarrow>
               if a \<noteq> 97 then Panic ''missing file for redirection''
               else obind (parseredirs buf s2) (\<lambda>(rs, s3). Ok (redir_of tok (q, eq) # rs, s3))
        else Ok ([], s))"
  by pat_completeness auto
termination
proof (relation "measure (\<lambda>(buf, ps). length buf - ps)")
  fix buf :: "uchar list" and ps s s1 s2 q eq :: nat and more :: bool and tok a :: uchar and x xa xb y ya yb
  assume p: "(more, s) = peek buf ps [60, 62]" "more" "(tok, x) = gettoken buf s" "(xa, y) = x" "(ya, s1) = y"
    "(a, xb) = gettoken buf s1" "(q, yb) = xb" "(eq, s2) = yb"
  have "ps < s1 \<and> ps < length buf" using peek_gettoken [of buf ps "[60, 62]" s tok xa ya s1] p by auto
  moreover have "s1 \<le> s2" by (rule gettoken_le [of buf s1 a q eq]) (use p in auto)
  ultimately show "((buf, s2), buf, ps) \<in> measure (\<lambda>(buf, ps). length buf - ps)" by auto
qed simp

declare parseredirs.simps [simp del]

lemma parseredirs_forward: "parseredirs buf ps = Ok (rs, s) \<Longrightarrow> ps \<le> s"
proof (induction buf ps arbitrary: rs s rule: parseredirs.induct)
  case (1 buf ps)
  obtain more s0 where p: "peek buf ps [60, 62] = (more, s0)" by force
  obtain tok x y s1 where g: "gettoken buf s0 = (tok, x, y, s1)" by (metis prod_cases4)
  obtain a q eq s2 where h: "gettoken buf s1 = (a, q, eq, s2)" by (metis prod_cases4)
  show ?case
  proof (cases "more \<and> a = 97")
    case True
    then obtain rs' where "parseredirs buf s2 = Ok (rs', s)"
      using "1.prems" p g h by (subst (asm) parseredirs.simps) (auto simp: obind_eq_Ok)
    then have "s2 \<le> s" using "1.IH" [OF p [symmetric] _ g [symmetric] refl refl h [symmetric] refl refl] True by simp
    then show ?thesis using peek_forward [OF p] gettoken_le [OF g] gettoken_le [OF h] by simp
  next
    case False
    then have "s = s0" using "1.prems" p g h by (subst (asm) parseredirs.simps) (auto split: if_splits)
    then show ?thesis using peek_forward [OF p] by simp
  qed
qed

text \<open>The arguments and further redirections of a simple command that has \<open>argc\<close> arguments so far.\<close>

function parseargs :: "uchar list \<Rightarrow> nat \<Rightarrow> nat \<Rightarrow> (span list \<times> redir list \<times> nat) outcome" where
  "parseargs buf ps argc =
     (case peek buf ps [124, 41, 38, 59] of (stop, s) \<Rightarrow>
        if stop then Ok ([], [], s)
        else case gettoken buf s of (tok, q, eq, s1) \<Rightarrow>
          if tok = 0 then Ok ([], [], s1)
          else if tok \<noteq> 97 then Panic ''syntax''
          else if argc + 1 \<ge> MAXARGS then Panic ''too many args''
          else obind (parseredirs buf s1) (\<lambda>(rs, s2).
               obind (parseargs buf s2 (argc + 1)) (\<lambda>(as, rs2, s3). Ok ((q, eq) # as, rs @ rs2, s3))))"
  by pat_completeness auto
termination
  by (relation "measure (\<lambda>(buf, ps, argc). MAXARGS - argc)") auto

declare parseargs.simps [simp del]

definition execcmd :: "span list \<Rightarrow> redir list \<Rightarrow> cmd" where
  "execcmd as rs = foldl redircmd (EXEC as) rs"

function backs :: "uchar list \<Rightarrow> nat \<Rightarrow> cmd \<Rightarrow> cmd \<times> nat" where
  "backs buf ps c =
     (case peek buf ps [38] of (more, s) \<Rightarrow>
        if more then case gettoken buf s of (_, _, _, s1) \<Rightarrow> backs buf s1 (BACK c) else (c, s))"
  by pat_completeness auto
termination
proof (relation "measure (\<lambda>(buf, ps, c). length buf - ps)")
  fix buf :: "uchar list" and ps s s1 :: nat and c :: cmd and more :: bool and tok :: uchar and x xa y ya
  assume p: "(more, s) = peek buf ps [38]" "more" "(tok, x) = gettoken buf s" "(xa, y) = x" "(ya, s1) = y"
  have "ps < s1 \<and> ps < length buf" using peek_gettoken [of buf ps "[38]" s tok xa ya s1] p by auto
  then show "((buf, s1, BACK c), buf, ps, c) \<in> measure (\<lambda>(buf, ps, c). length buf - ps)" by auto
qed simp

declare backs.simps [simp del]

text \<open>
  The mutually recursive routines, with fuel. Each call of \<^verbatim>\<open>parseline\<close> inside another one comes after a
  symbol has been consumed, so four units for each byte of the line and four more are enough.
\<close>

fun parseline :: "nat \<Rightarrow> uchar list \<Rightarrow> nat \<Rightarrow> (cmd \<times> nat) outcome"
  and parsepipe :: "nat \<Rightarrow> uchar list \<Rightarrow> nat \<Rightarrow> (cmd \<times> nat) outcome"
  and parseexec :: "nat \<Rightarrow> uchar list \<Rightarrow> nat \<Rightarrow> (cmd \<times> nat) outcome"
  and parseblock :: "nat \<Rightarrow> uchar list \<Rightarrow> nat \<Rightarrow> (cmd \<times> nat) outcome" where
  "parseline 0 buf ps = Blocked"
| "parseline (Suc n) buf ps =
     obind (parsepipe n buf ps) (\<lambda>(c, s).
       case backs buf s c of (c1, s1) \<Rightarrow>
       case peek buf s1 [59] of (more, s2) \<Rightarrow>
         if more
         then case gettoken buf s2 of (_, _, _, s3) \<Rightarrow> obind (parseline n buf s3) (\<lambda>(d, s4). Ok (LIST c1 d, s4))
         else Ok (c1, s2))"
| "parsepipe 0 buf ps = Blocked"
| "parsepipe (Suc n) buf ps =
     obind (parseexec n buf ps) (\<lambda>(c, s).
       case peek buf s [124] of (more, s1) \<Rightarrow>
         if more
         then case gettoken buf s1 of (_, _, _, s2) \<Rightarrow> obind (parsepipe n buf s2) (\<lambda>(d, s3). Ok (PIPE c d, s3))
         else Ok (c, s1))"
| "parseexec 0 buf ps = Blocked"
| "parseexec (Suc n) buf ps =
     (case peek buf ps [40] of (block, s) \<Rightarrow>
        if block then parseblock n buf s
        else obind (parseredirs buf s) (\<lambda>(rs, s1).
             obind (parseargs buf s1 0) (\<lambda>(as, rs2, s2). Ok (execcmd as (rs @ rs2), s2))))"
| "parseblock 0 buf ps = Blocked"
| "parseblock (Suc n) buf ps =
     (case peek buf ps [40] of (block, s) \<Rightarrow>
        if \<not> block then Panic ''parseblock''
        else case gettoken buf s of (_, _, _, s1) \<Rightarrow>
          obind (parseline n buf s1) (\<lambda>(c, s2).
            case peek buf s2 [41] of (close, s3) \<Rightarrow>
              if \<not> close then Panic ''syntax - missing )''
              else case gettoken buf s3 of (_, _, _, s4) \<Rightarrow>
                obind (parseredirs buf s4) (\<lambda>(rs, s5). Ok (foldl redircmd c rs, s5))))"

declare parseline.simps [simp del] parsepipe.simps [simp del] parseexec.simps [simp del] parseblock.simps [simp del]

primrec nulterminate :: "cmd \<Rightarrow> (nat \<Rightarrow> uchar) \<Rightarrow> nat \<Rightarrow> uchar" where
  "nulterminate (EXEC as) b = fold (\<lambda>(q, eq) b. b(eq := 0)) as b"
| "nulterminate (REDIR c w mode fd) b = (nulterminate c b)(snd w := 0)"
| "nulterminate (PIPE c d) b = nulterminate d (nulterminate c b)"
| "nulterminate (LIST c d) b = nulterminate d (nulterminate c b)"
| "nulterminate (BACK c) b = nulterminate c b"

text \<open>\<^verbatim>\<open>parsecmd\<close> of a buffer, with the buffer that \<^verbatim>\<open>nulterminate\<close> leaves.\<close>

definition parsecmd :: "uchar list \<Rightarrow> (cmd \<times> (nat \<Rightarrow> uchar)) outcome" where
  "parsecmd line =
     (let buf = takeWhile (\<lambda>c. c \<noteq> 0) line
      in obind (parseline (4 * length buf + 4) buf 0) (\<lambda>(c, s).
         case peek buf s [] of (_, s1) \<Rightarrow>
           if s1 \<noteq> length buf then Panic ''syntax'' else Ok (c, nulterminate c (deref line))))"

section \<open>The tokens of a line\<close>

type_synonym token = "uchar \<times> nat \<times> nat"

function tokens :: "uchar list \<Rightarrow> nat \<Rightarrow> token list" where
  "tokens buf s = (case gettoken buf s of (t, q, e, s1) \<Rightarrow> if t = 0 then [] else (t, q, e) # tokens buf s1)"
  by pat_completeness auto
termination
proof (relation "measure (\<lambda>(buf, s). length buf - s)")
  fix buf :: "uchar list" and s s1 q e :: nat and t :: uchar and x y
  assume "(t, x) = gettoken buf s" "(q, y) = x" "(e, s1) = y" "t \<noteq> 0"
  then show "((buf, s1), buf, s) \<in> measure (\<lambda>(buf, s). length buf - s)"
    using gettoken_forward(1-3) [of buf s t q e s1] by auto
qed simp

declare tokens.simps [simp del]

lemma gettoken_ws: "gettoken buf (skip_ws buf s) = gettoken buf s"
  by (simp add: gettoken_def skip_while_id)

lemma tokens_ws [simp]: "tokens buf (skip_ws buf s) = tokens buf s"
  by (subst (1 2) tokens.simps) (simp add: gettoken_ws)

lemma tokens_length: "length (tokens buf s) \<le> length buf - s"
proof (induction buf s rule: tokens.induct)
  case (1 buf s)
  obtain t q e s1 where g: "gettoken buf s = (t, q, e, s1)" by (metis prod_cases4)
  show ?case
  proof (cases "t = 0")
    case True
    then show ?thesis using g by (subst tokens.simps) simp
  next
    case False
    then have "length (tokens buf s1) \<le> length buf - s1" using "1.IH" [OF g [symmetric] refl refl] by simp
    with False show ?thesis using g gettoken_forward(1-3) [OF g] by (subst tokens.simps) auto
  qed
qed

definition symbol_of :: "uchar \<Rightarrow> uchar" where
  "symbol_of t = (if t = 43 then 62 else t)"

text \<open>What \<^verbatim>\<open>peek\<close> and \<^verbatim>\<open>gettoken\<close> find is the next token.\<close>

definition next_in :: "token list \<Rightarrow> uchar list \<Rightarrow> bool" where
  "next_in ts toks \<longleftrightarrow> ts \<noteq> [] \<and> symbol_of (fst (hd ts)) \<in> set toks"

lemma gettoken_sym:
  assumes "gettoken buf s = (t, q, e, s1)"
  shows "t = 0 \<longleftrightarrow> deref buf (skip_ws buf s) = 0" "t \<noteq> 0 \<Longrightarrow> set toks \<subseteq> set symbols \<Longrightarrow> symbol_of t \<in> set toks \<longleftrightarrow> deref buf (skip_ws buf s) \<in> set toks"
  using assms by (auto simp: gettoken_def Let_def symbol_of_def symbols_def split: if_splits)

lemma peek_next:
  assumes "set toks \<subseteq> set symbols"
  shows "peek buf s toks = (next_in (tokens buf s) toks, skip_ws buf s)"
proof -
  obtain t q e s1 where g: "gettoken buf s = (t, q, e, s1)" by (metis prod_cases4)
  then have "tokens buf s = (if t = 0 then [] else (t, q, e) # tokens buf s1)" by (subst tokens.simps) simp
  then show ?thesis using gettoken_sym [OF g] assms by (auto simp: peek_def next_in_def Let_def)
qed

lemma peek_symbols:
  "peek buf s [60, 62] = (next_in (tokens buf s) [60, 62], skip_ws buf s)"
  "peek buf s [124, 41, 38, 59] = (next_in (tokens buf s) [124, 41, 38, 59], skip_ws buf s)"
  "peek buf s [38] = (next_in (tokens buf s) [38], skip_ws buf s)"
  "peek buf s [59] = (next_in (tokens buf s) [59], skip_ws buf s)"
  "peek buf s [124] = (next_in (tokens buf s) [124], skip_ws buf s)"
  "peek buf s [40] = (next_in (tokens buf s) [40], skip_ws buf s)"
  "peek buf s [41] = (next_in (tokens buf s) [41], skip_ws buf s)"
  by (rule peek_next, simp add: symbols_def)+

lemma gettoken_Cons:
  assumes "tokens buf s = (t, q, e) # ts"
  obtains s1 where "gettoken buf s = (t, q, e, s1)" "tokens buf s1 = ts" "t \<noteq> 0"
proof -
  obtain t' q' e' s1 where g: "gettoken buf s = (t', q', e', s1)" by (metis prod_cases4)
  then show ?thesis using assms that by (subst (asm) tokens.simps) (auto split: if_splits)
qed

lemma gettoken_Nil:
  assumes "tokens buf s = []"
  obtains q e s1 where "gettoken buf s = (0, q, e, s1)" "tokens buf s1 = []"
proof -
  obtain t q e s1 where g: "gettoken buf s = (t, q, e, s1)" by (metis prod_cases4)
  then have t: "t = 0" using assms by (subst (asm) tokens.simps) (auto split: if_splits)
  then have "s1 = skip_ws buf (skip_ws buf s)" using g by (auto simp: gettoken_def Let_def split: if_splits)
  then show ?thesis using that g t assms by simp
qed

section \<open>The grammar of commands\<close>

inductive gredirs :: "token list \<Rightarrow> redir list \<Rightarrow> bool" where
  no_redir: "gredirs [] []"
| a_redir: "k \<in> {60, 62, 43} \<Longrightarrow> gredirs ts rs \<Longrightarrow> gredirs ((k, a, b) # (97, q, e) # ts) (redir_of k (q, e) # rs)"

inductive gsimple :: "token list \<Rightarrow> span list \<Rightarrow> redir list \<Rightarrow> bool" where
  no_word: "gsimple [] [] []"
| a_word: "gsimple ts as rs \<Longrightarrow> gsimple ((97, q, e) # ts) ((q, e) # as) rs"
| s_redir: "k \<in> {60, 62, 43} \<Longrightarrow> gsimple ts as rs \<Longrightarrow> gsimple ((k, a, b) # (97, q, e) # ts) as (redir_of k (q, e) # rs)"

inductive gexec :: "token list \<Rightarrow> cmd \<Rightarrow> bool" and gpipe :: "token list \<Rightarrow> cmd \<Rightarrow> bool"
  and gback :: "token list \<Rightarrow> cmd \<Rightarrow> bool" and gline :: "token list \<Rightarrow> cmd \<Rightarrow> bool" where
  simple: "gsimple ts as rs \<Longrightarrow> length as < MAXARGS \<Longrightarrow> gexec ts (execcmd as rs)"
| block: "gline ts c \<Longrightarrow> gredirs us rs \<Longrightarrow> gexec ((40, a, b) # ts @ (41, x, y) # us) (foldl redircmd c rs)"
| one: "gexec ts c \<Longrightarrow> gpipe ts c"
| pipe: "gexec ts c \<Longrightarrow> gpipe us d \<Longrightarrow> gpipe (ts @ (124, a, b) # us) (PIPE c d)"
| fore: "gpipe ts c \<Longrightarrow> gback ts c"
| backgr: "gback ts c \<Longrightarrow> gback (ts @ [(38, a, b)]) (BACK c)"
| last_cmd: "gback ts c \<Longrightarrow> gline ts c"
| more_cmds: "gback ts c \<Longrightarrow> gline us d \<Longrightarrow> gline (ts @ (59, a, b) # us) (LIST c d)"

lemma gsimple_redirs: "gredirs ts rs \<Longrightarrow> gsimple us as rs2 \<Longrightarrow> gsimple (ts @ us) as (rs @ rs2)"
  by (induction rule: gredirs.induct) (auto intro: gsimple.intros)

section \<open>The parser accepts what the grammar derives\<close>

lemma sym_redir: "symbol_of k \<in> {60, 62} \<longleftrightarrow> k \<in> {60, 62, 43}"
  by (auto simp: symbol_of_def)

lemma next_redir: "next_in ((k, a, b) # ts) [60, 62] \<longleftrightarrow> k \<in> {60, 62, 43}"
  by (auto simp: next_in_def symbol_of_def)

lemma parseredirs_none: "\<not> next_in (tokens buf s) [60, 62] \<Longrightarrow> parseredirs buf s = Ok ([], skip_ws buf s)"
  by (subst parseredirs.simps) (simp add: peek_symbols)

lemma parseredirs_one:
  assumes "tokens buf s = (k, a, b) # (97, q, e) # ts" and "k \<in> {60, 62, 43}"
  obtains s2 where "tokens buf s2 = ts"
    "parseredirs buf s = obind (parseredirs buf s2) (\<lambda>(rs, s3). Ok (redir_of k (q, e) # rs, s3))"
proof -
  obtain s1 where s1: "gettoken buf s = (k, a, b, s1)" "tokens buf s1 = (97, q, e) # ts" using assms(1) by (rule gettoken_Cons)
  obtain s2 where s2: "gettoken buf s1 = (97, q, e, s2)" "tokens buf s2 = ts" using s1(2) by (rule gettoken_Cons)
  have "next_in (tokens buf s) [60, 62]" using assms sym_redir [of k] by (simp add: next_in_def)
  then have "parseredirs buf s = obind (parseredirs buf s2) (\<lambda>(rs, s3). Ok (redir_of k (q, e) # rs, s3))"
    by (subst parseredirs.simps) (simp add: peek_symbols gettoken_ws s1 s2)
  with s2(2) show ?thesis by (rule that)
qed

lemma parseredirs_bad:
  assumes "tokens buf s = (k, a, b) # ts" "k \<in> {60, 62, 43}" and "ts = [] \<or> fst (hd ts) \<noteq> 97"
  shows "\<exists>m. parseredirs buf s = Panic m"
proof -
  obtain s1 where s1: "gettoken buf s = (k, a, b, s1)" "tokens buf s1 = ts" using assms(1) by (rule gettoken_Cons)
  obtain t q e s2 where s2: "gettoken buf s1 = (t, q, e, s2)" by (metis prod_cases4)
  have "t \<noteq> 97" using s2 s1(2) assms(3) by (subst (asm) tokens.simps) auto
  moreover have "next_in (tokens buf s) [60, 62]" using assms sym_redir [of k] by (simp add: next_in_def)
  ultimately show ?thesis by (subst parseredirs.simps) (simp add: peek_symbols gettoken_ws s1 s2)
qed

lemma parseredirs_sound:
  "(\<exists>m. parseredirs buf s = Panic m) \<or>
   (\<exists>us rs s'. parseredirs buf s = Ok (rs, s') \<and> tokens buf s = us @ tokens buf s' \<and> gredirs us rs)"
proof (induction "length (tokens buf s)" arbitrary: s rule: less_induct)
  case less
  consider (None) "\<not> next_in (tokens buf s) [60, 62]"
    | (One) k a b q e ts where "tokens buf s = (k, a, b) # (97, q, e) # ts" "k \<in> {60, 62, 43}"
    | (Bad) k a b ts where "tokens buf s = (k, a, b) # ts" "k \<in> {60, 62, 43}" "ts = [] \<or> fst (hd ts) \<noteq> 97"
  proof (cases "next_in (tokens buf s) [60, 62]")
    case True
    then obtain k a b ts where t: "tokens buf s = (k, a, b) # ts" "k \<in> {60, 62, 43}"
      by (cases "tokens buf s") (auto simp: next_redir, simp add: next_in_def)
    show ?thesis
    proof (cases "ts = [] \<or> fst (hd ts) \<noteq> 97")
      case True
      with t show ?thesis by (rule that(3))
    next
      case False
      then obtain q e us where "ts = (97, q, e) # us" by (cases ts) auto
      with t show ?thesis by (intro that(2)) simp_all
    qed
  qed (rule that(1))
  then show ?case
  proof cases
    case None
    then show ?thesis using parseredirs_none [OF None] by (auto intro: gredirs.no_redir)
  next
    case One
    obtain s2 where s2: "tokens buf s2 = ts"
        "parseredirs buf s = obind (parseredirs buf s2) (\<lambda>(rs, s3). Ok (redir_of k (q, e) # rs, s3))"
      using One by (rule parseredirs_one)
    have "length (tokens buf s2) < length (tokens buf s)" using One s2(1) by simp
    from less [OF this] show ?thesis
    proof
      assume "\<exists>m. parseredirs buf s2 = Panic m"
      then show ?thesis using s2(2) by auto
    next
      assume "\<exists>us rs s'. parseredirs buf s2 = Ok (rs, s') \<and> tokens buf s2 = us @ tokens buf s' \<and> gredirs us rs"
      then obtain us rs s' where "parseredirs buf s2 = Ok (rs, s')" "tokens buf s2 = us @ tokens buf s'" "gredirs us rs" by blast
      then show ?thesis using s2 One gredirs.a_redir [OF One(2), of us rs a b q e]
        by (intro disjI2 exI [of _ "(k, a, b) # (97, q, e) # us"] exI [of _ "redir_of k (q, e) # rs"] exI [of _ s']) simp
    qed
  next
    case Bad
    then show ?thesis using parseredirs_bad by blast
  qed
qed

lemma parseredirs_complete:
  "gredirs us rs \<Longrightarrow> tokens buf s = us @ rest \<Longrightarrow> \<not> next_in rest [60, 62] \<Longrightarrow>
     \<exists>s'. parseredirs buf s = Ok (rs, s') \<and> tokens buf s' = rest"
proof (induction arbitrary: s rule: gredirs.induct)
  case no_redir
  then show ?case using parseredirs_none [of buf s] by simp
next
  case (a_redir k ts rs a b q e)
  obtain s2 where "tokens buf s2 = ts @ rest"
      "parseredirs buf s = obind (parseredirs buf s2) (\<lambda>(rs, s3). Ok (redir_of k (q, e) # rs, s3))"
    using parseredirs_one [of buf s k a b q e "ts @ rest"] a_redir.prems(1) a_redir.hyps(1) by auto
  then show ?case using a_redir.IH [of s2] a_redir.prems(2) by auto
qed

text \<open>The end of a simple command.\<close>

abbreviation ends :: "token list \<Rightarrow> bool" where
  "ends ts \<equiv> ts = [] \<or> next_in ts [124, 41, 38, 59]"

lemma parseargs_end:
  assumes "ends (tokens buf s)"
  obtains s1 where "parseargs buf s argc = Ok ([], [], s1)" "tokens buf s1 = tokens buf s"
proof (cases "tokens buf s = []")
  case True
  then have "tokens buf (skip_ws buf s) = []" by simp
  then obtain q e s1 where "gettoken buf (skip_ws buf s) = (0, q, e, s1)" "tokens buf s1 = []" by (rule gettoken_Nil)
  moreover from this have "parseargs buf s argc = Ok ([], [], s1)"
    using True by (subst parseargs.simps) (simp add: peek_symbols next_in_def)
  ultimately show ?thesis using True that [of s1] by simp
next
  case False
  then have "parseargs buf s argc = Ok ([], [], skip_ws buf s)" using assms by (subst parseargs.simps) (simp add: peek_symbols)
  then show ?thesis by (rule that) simp
qed

lemma parseargs_word:
  assumes "tokens buf s = (97, q, e) # ts" and "argc + 1 < MAXARGS"
  obtains s1 where "tokens buf s1 = ts"
    "parseargs buf s argc = obind (parseredirs buf s1) (\<lambda>(rs, s2).
       obind (parseargs buf s2 (argc + 1)) (\<lambda>(as, rs2, s3). Ok ((q, e) # as, rs @ rs2, s3)))"
proof -
  obtain s1 where s1: "gettoken buf s = (97, q, e, s1)" "tokens buf s1 = ts" using assms(1) by (rule gettoken_Cons)
  have "\<not> next_in (tokens buf s) [124, 41, 38, 59]" using assms(1) by (simp add: next_in_def symbol_of_def)
  with s1 assms(2) have "parseargs buf s argc = obind (parseredirs buf s1) (\<lambda>(rs, s2).
       obind (parseargs buf s2 (argc + 1)) (\<lambda>(as, rs2, s3). Ok ((q, e) # as, rs @ rs2, s3)))"
    by (subst parseargs.simps) (simp add: peek_symbols gettoken_ws)
  with s1(2) show ?thesis by (rule that)
qed

lemma parseargs_bad:
  assumes "tokens buf s = (t, q, e) # ts" "\<not> ends (tokens buf s)" and "t \<noteq> 97 \<or> MAXARGS \<le> argc + 1"
  shows "\<exists>m. parseargs buf s argc = Panic m"
proof -
  obtain s1 where "gettoken buf s = (t, q, e, s1)" "t \<noteq> 0" using assms(1) by (rule gettoken_Cons)
  then show ?thesis using assms(2,3) by (subst parseargs.simps) (auto simp: peek_symbols gettoken_ws)
qed

lemma parseargs_sound:
  "argc < MAXARGS \<Longrightarrow> (\<exists>m. parseargs buf s argc = Panic m) \<or>
   (\<exists>us as rs s'. parseargs buf s argc = Ok (as, rs, s') \<and> tokens buf s = us @ tokens buf s' \<and> gsimple us as rs \<and> argc + length as < MAXARGS)"
proof (induction "MAXARGS - argc" arbitrary: s argc rule: less_induct)
  case less
  consider (End) "ends (tokens buf s)" | (Word) q e ts where "tokens buf s = (97, q, e) # ts" "argc + 1 < MAXARGS"
    | (Bad) t q e ts where "tokens buf s = (t, q, e) # ts" "\<not> ends (tokens buf s)" "t \<noteq> 97 \<or> MAXARGS \<le> argc + 1"
    by (cases "tokens buf s") force+
  then show ?case
  proof cases
    case End
    then obtain s1 where "parseargs buf s argc = Ok ([], [], s1)" "tokens buf s1 = tokens buf s" by (rule parseargs_end)
    then show ?thesis using less.prems gsimple.no_word by auto
  next
    case (Word q e ts)
    then obtain s1 where s1: "tokens buf s1 = ts" "parseargs buf s argc = obind (parseredirs buf s1) (\<lambda>(rs, s2).
       obind (parseargs buf s2 (argc + 1)) (\<lambda>(as, rs2, s3). Ok ((q, e) # as, rs @ rs2, s3)))"
      by (rule parseargs_word)
    from parseredirs_sound [of buf s1] show ?thesis
    proof
      assume "\<exists>m. parseredirs buf s1 = Panic m"
      then show ?thesis using s1(2) by auto
    next
      assume "\<exists>us rs s'. parseredirs buf s1 = Ok (rs, s') \<and> tokens buf s1 = us @ tokens buf s' \<and> gredirs us rs"
      then obtain us rs s2 where r: "parseredirs buf s1 = Ok (rs, s2)" "tokens buf s1 = us @ tokens buf s2" "gredirs us rs" by blast
      have "MAXARGS - (argc + 1) < MAXARGS - argc" using less.prems by simp
      from less.hyps [OF this Word(2), of s2] show ?thesis
      proof
        assume "\<exists>m. parseargs buf s2 (argc + 1) = Panic m"
        then show ?thesis using s1(2) r(1) by auto
      next
        assume "\<exists>us as rs s'. parseargs buf s2 (argc + 1) = Ok (as, rs, s') \<and> tokens buf s2 = us @ tokens buf s' \<and> gsimple us as rs \<and> argc + 1 + length as < MAXARGS"
        then obtain vs as rs2 s3 where a: "parseargs buf s2 (argc + 1) = Ok (as, rs2, s3)" "tokens buf s2 = vs @ tokens buf s3" "gsimple vs as rs2"
          "argc + 1 + length as < MAXARGS" by blast
        have "parseargs buf s argc = Ok ((q, e) # as, rs @ rs2, s3)" using s1(2) r(1) a(1) by simp
        moreover have "tokens buf s = ((97, q, e) # us @ vs) @ tokens buf s3" using Word(1) s1(1) r(2) a(2) by simp
        moreover have "gsimple ((97, q, e) # us @ vs) ((q, e) # as) (rs @ rs2)" using gsimple.a_word gsimple_redirs [OF r(3) a(3)] by blast
        moreover have "argc + length ((q, e) # as) < MAXARGS" using a(4) by simp
        ultimately show ?thesis by blast
      qed
    qed
  next
    case (Bad t q e ts)
    then show ?thesis using parseargs_bad by blast
  qed
qed

lemma ends_no_redir: "ends ts \<Longrightarrow> \<not> next_in ts [60, 62]"
  by (auto simp: next_in_def)

lemma simple_complete:
  "gsimple us as rs \<Longrightarrow> tokens buf s = us @ rest \<Longrightarrow> ends rest \<Longrightarrow> argc + length as < MAXARGS \<Longrightarrow>
     \<exists>rs1 rs2 s1 s2. parseredirs buf s = Ok (rs1, s1) \<and> parseargs buf s1 argc = Ok (as, rs2, s2) \<and> rs = rs1 @ rs2 \<and> tokens buf s2 = rest"
proof (induction arbitrary: s argc rule: gsimple.induct)
  case no_word
  then have e: "ends (tokens buf (skip_ws buf s))" by simp
  obtain s1 where "parseargs buf (skip_ws buf s) argc = Ok ([], [], s1)" "tokens buf s1 = tokens buf (skip_ws buf s)"
    using e by (rule parseargs_end)
  then show ?case using parseredirs_none [OF ends_no_redir, of buf s] no_word by simp
next
  case (a_word ts as rs q e)
  have t: "tokens buf (skip_ws buf s) = (97, q, e) # (ts @ rest)" using a_word.prems(1) by simp
  have c: "argc + 1 < MAXARGS" using a_word.prems(3) by simp
  obtain s1 where s1: "tokens buf s1 = ts @ rest" "parseargs buf (skip_ws buf s) argc = obind (parseredirs buf s1) (\<lambda>(rs, s2).
       obind (parseargs buf s2 (argc + 1)) (\<lambda>(as, rs2, s3). Ok ((q, e) # as, rs @ rs2, s3)))"
    using t c by (rule parseargs_word)
  have n: "\<not> next_in (tokens buf s) [60, 62]" using a_word.prems(1) by (simp add: next_redir)
  have "argc + 1 + length as < MAXARGS" using a_word.prems(3) by simp
  from a_word.IH [OF s1(1) a_word.prems(2) this] show ?case using s1(2) parseredirs_none [OF n] by auto
next
  case (s_redir k ts as rs a b q e)
  obtain s2 where s2: "tokens buf s2 = ts @ rest"
      "parseredirs buf s = obind (parseredirs buf s2) (\<lambda>(rs, s3). Ok (redir_of k (q, e) # rs, s3))"
    using parseredirs_one [of buf s k a b q e "ts @ rest"] s_redir.prems(1) s_redir.hyps(1) by auto
  from s_redir.IH [OF s2(1) s_redir.prems(2,3)] s2(2) show ?case by auto
qed

lemma next_one: "c \<noteq> 62 \<Longrightarrow> next_in ts [c] \<Longrightarrow> \<exists>a b us. ts = (c, a, b) # us"
  by (cases ts) (auto simp: next_in_def symbol_of_def split: if_splits)

lemma backs_none: "\<not> next_in (tokens buf s) [38] \<Longrightarrow> backs buf s c = (c, skip_ws buf s)"
  by (subst backs.simps) (simp add: peek_symbols)

lemma backs_one:
  assumes "tokens buf s = (38, a, b) # ts"
  obtains s1 where "tokens buf s1 = ts" "backs buf s c = backs buf s1 (BACK c)"
proof -
  obtain s1 where s1: "gettoken buf s = (38, a, b, s1)" "tokens buf s1 = ts" using assms by (rule gettoken_Cons)
  have "next_in (tokens buf s) [38]" using assms by (simp add: next_in_def symbol_of_def)
  then have "backs buf s c = backs buf s1 (BACK c)" by (subst backs.simps) (simp add: peek_symbols gettoken_ws s1)
  with s1(2) show ?thesis by (rule that)
qed

lemma backs_sound:
  "gback ts c \<Longrightarrow> backs buf s c = (d, s') \<Longrightarrow> \<exists>us. tokens buf s = us @ tokens buf s' \<and> gback (ts @ us) d"
proof (induction "length (tokens buf s)" arbitrary: s c ts rule: less_induct)
  case less
  show ?case
  proof (cases "next_in (tokens buf s) [38]")
    case True
    then obtain a b us where t: "tokens buf s = (38, a, b) # us" using next_one [of 38 "tokens buf s"] by auto
    then obtain s1 where s1: "tokens buf s1 = us" "backs buf s c = backs buf s1 (BACK c)" by (rule backs_one)
    have "length (tokens buf s1) < length (tokens buf s)" using t s1(1) by simp
    from less.hyps [OF this gexec_gpipe_gback_gline.backgr [OF less.prems(1)]] s1(2) less.prems(2)
    obtain vs where "tokens buf s1 = vs @ tokens buf s'" "gback ((ts @ [(38, a, b)]) @ vs) d" by metis
    then show ?thesis using t s1(1) by (intro exI [of _ "(38, a, b) # vs"]) simp
  next
    case False
    then show ?thesis using backs_none [OF False, of c] less.prems by (intro exI [of _ "[]"]) auto
  qed
qed

definition accepts :: "(token list \<Rightarrow> cmd \<Rightarrow> bool) \<Rightarrow> uchar list \<Rightarrow> nat \<Rightarrow> (cmd \<times> nat) outcome \<Rightarrow> bool" where
  "accepts G buf s r \<longleftrightarrow> (\<exists>m. r = Panic m) \<or> (\<exists>c s' ts. r = Ok (c, s') \<and> tokens buf s = ts @ tokens buf s' \<and> G ts c)"

lemma acceptsE:
  assumes "accepts G buf s r"
  obtains m where "r = Panic m" | c s' ts where "r = Ok (c, s')" "tokens buf s = ts @ tokens buf s'" "G ts c"
  using assms by (auto simp: accepts_def)

lemma accepts_Panic [simp]: "accepts G buf s (Panic m)"
  by (simp add: accepts_def)

lemma accepts_Ok: "tokens buf s = ts @ tokens buf s' \<Longrightarrow> G ts c \<Longrightarrow> accepts G buf s (Ok (c, s'))"
  by (auto simp: accepts_def)

lemma consume:
  assumes "next_in (tokens buf s) [c]" and "c \<noteq> 62"
  obtains a b t q e s1 where "gettoken buf (skip_ws buf s) = (t, q, e, s1)" "tokens buf s = (c, a, b) # tokens buf s1"
proof -
  obtain a b us where t: "tokens buf s = (c, a, b) # us" using next_one [OF assms(2,1)] by blast
  then obtain s1 where "gettoken buf s = (c, a, b, s1)" "tokens buf s1 = us" by (rule gettoken_Cons)
  then show ?thesis using that t by (simp add: gettoken_ws)
qed

lemma parseline_sound:
  assumes p: "accepts gpipe buf s (parsepipe n buf s)"
    and l: "\<And>s1. length (tokens buf s1) < length (tokens buf s) \<Longrightarrow> accepts gline buf s1 (parseline n buf s1)"
  shows "accepts gline buf s (parseline (Suc n) buf s)"
  using p
proof (cases rule: acceptsE)
  case (2 c s1 ts)
  obtain c1 s2 where b: "backs buf s1 c = (c1, s2)" by force
  then obtain us where us: "tokens buf s1 = us @ tokens buf s2" "gback (ts @ us) c1" using backs_sound [OF gexec_gpipe_gback_gline.fore [OF 2(3)]] by blast
  show ?thesis
  proof (cases "next_in (tokens buf s2) [59]")
    case True
    then obtain a b t q e s3 where s3: "gettoken buf (skip_ws buf s2) = (t, q, e, s3)" "tokens buf s2 = (59, a, b) # tokens buf s3"
      by (rule consume) simp
    have step: "parseline (Suc n) buf s = obind (parseline n buf s3) (\<lambda>(d, s4). Ok (LIST c1 d, s4))"
      using 2(1) b True s3(1) by (simp add: peek_symbols parseline.simps)
    have "accepts gline buf s3 (parseline n buf s3)" by (rule l) (use 2(2) us(1) s3(2) in simp)
    then show ?thesis
    proof (cases rule: acceptsE)
      case (2 d s4 vs)
      have "tokens buf s = ((ts @ us) @ (59, a, b) # vs) @ tokens buf s4" using \<open>tokens buf s = ts @ tokens buf s1\<close> us(1) s3(2) 2(2) by simp
      moreover have "gline ((ts @ us) @ (59, a, b) # vs) (LIST c1 d)" by (rule gexec_gpipe_gback_gline.more_cmds [OF us(2) 2(3)])
      ultimately show ?thesis using step 2(1) by (simp add: accepts_Ok)
    qed (simp add: step)
  next
    case False
    then have "parseline (Suc n) buf s = Ok (c1, skip_ws buf s2)" using 2(1) b by (simp add: peek_symbols parseline.simps)
    moreover have "tokens buf s = (ts @ us) @ tokens buf (skip_ws buf s2)" using 2(2) us(1) by simp
    ultimately show ?thesis using gexec_gpipe_gback_gline.last_cmd [OF us(2)] by (metis accepts_Ok)
  qed
qed (simp add: parseline.simps)

lemma parsepipe_sound:
  assumes p: "accepts gexec buf s (parseexec n buf s)"
    and l: "\<And>s1. length (tokens buf s1) < length (tokens buf s) \<Longrightarrow> accepts gpipe buf s1 (parsepipe n buf s1)"
  shows "accepts gpipe buf s (parsepipe (Suc n) buf s)"
  using p
proof (cases rule: acceptsE)
  case (2 c s1 ts)
  show ?thesis
  proof (cases "next_in (tokens buf s1) [124]")
    case True
    then obtain a b t q e s2 where s2: "gettoken buf (skip_ws buf s1) = (t, q, e, s2)" "tokens buf s1 = (124, a, b) # tokens buf s2"
      by (rule consume) simp
    have step: "parsepipe (Suc n) buf s = obind (parsepipe n buf s2) (\<lambda>(d, s3). Ok (PIPE c d, s3))"
      using 2(1) True s2(1) by (simp add: peek_symbols parsepipe.simps)
    have "accepts gpipe buf s2 (parsepipe n buf s2)" by (rule l) (use 2(2) s2(2) in simp)
    then show ?thesis
    proof (cases rule: acceptsE)
      case (2 d s3 vs)
      have "tokens buf s = (ts @ (124, a, b) # vs) @ tokens buf s3" using \<open>tokens buf s = ts @ tokens buf s1\<close> s2(2) 2(2) by simp
      moreover have "gpipe (ts @ (124, a, b) # vs) (PIPE c d)" by (rule gexec_gpipe_gback_gline.pipe [OF \<open>gexec ts c\<close> 2(3)])
      ultimately show ?thesis using step 2(1) by (simp add: accepts_Ok)
    qed (simp add: step)
  next
    case False
    then have "parsepipe (Suc n) buf s = Ok (c, skip_ws buf s1)" using 2(1) by (simp add: peek_symbols parsepipe.simps)
    moreover have "tokens buf s = ts @ tokens buf (skip_ws buf s1)" using 2(2) by simp
    ultimately show ?thesis using gexec_gpipe_gback_gline.one [OF 2(3)] by (metis accepts_Ok)
  qed
qed (simp add: parsepipe.simps)

lemma parseexec_sound:
  assumes b: "next_in (tokens buf s) [40] \<Longrightarrow> accepts gexec buf s (parseblock n buf (skip_ws buf s))"
  shows "accepts gexec buf s (parseexec (Suc n) buf s)"
proof (cases "next_in (tokens buf s) [40]")
  case True
  then show ?thesis using b by (simp add: peek_symbols parseexec.simps)
next
  case False
  let ?s = "skip_ws buf s"
  from parseredirs_sound [of buf ?s] show ?thesis
  proof
    assume "\<exists>m. parseredirs buf ?s = Panic m"
    then show ?thesis using False by (auto simp: peek_symbols parseexec.simps)
  next
    assume "\<exists>us rs s'. parseredirs buf ?s = Ok (rs, s') \<and> tokens buf ?s = us @ tokens buf s' \<and> gredirs us rs"
    then obtain us rs s1 where r: "parseredirs buf ?s = Ok (rs, s1)" "tokens buf ?s = us @ tokens buf s1" "gredirs us rs" by blast
    have "(0 :: nat) < MAXARGS" by (simp add: MAXARGS_def)
    from parseargs_sound [OF this, of buf s1] show ?thesis
    proof
      assume "\<exists>m. parseargs buf s1 0 = Panic m"
      then show ?thesis using False r(1) by (auto simp: peek_symbols parseexec.simps)
    next
      assume "\<exists>us as rs s'. parseargs buf s1 0 = Ok (as, rs, s') \<and> tokens buf s1 = us @ tokens buf s' \<and> gsimple us as rs \<and> 0 + length as < MAXARGS"
      then obtain vs as rs2 s2 where a: "parseargs buf s1 0 = Ok (as, rs2, s2)" "tokens buf s1 = vs @ tokens buf s2" "gsimple vs as rs2"
        "length as < MAXARGS" by auto
      have "parseexec (Suc n) buf s = Ok (execcmd as (rs @ rs2), s2)" using False r(1) a(1) by (simp add: peek_symbols parseexec.simps)
      moreover have "tokens buf s = (us @ vs) @ tokens buf s2" using r(2) a(2) by simp
      moreover have "gexec (us @ vs) (execcmd as (rs @ rs2))" by (rule gexec_gpipe_gback_gline.simple [OF gsimple_redirs [OF r(3) a(3)] a(4)])
      ultimately show ?thesis by (simp add: accepts_Ok)
    qed
  qed
qed

lemma parseblock_sound:
  assumes n: "next_in (tokens buf s) [40]"
    and l: "\<And>s1. length (tokens buf s1) < length (tokens buf s) \<Longrightarrow> accepts gline buf s1 (parseline n buf s1)"
  shows "accepts gexec buf s (parseblock (Suc n) buf s)"
proof -
  obtain a b t q e s1 where s1: "gettoken buf (skip_ws buf s) = (t, q, e, s1)" "tokens buf s = (40, a, b) # tokens buf s1"
    using n by (rule consume) simp
  have "accepts gline buf s1 (parseline n buf s1)" by (rule l) (use s1(2) in simp)
  then show ?thesis
  proof (cases rule: acceptsE)
    case (1 m)
    then show ?thesis using n s1(1) by (simp add: peek_symbols parseblock.simps)
  next
    case (2 c s2 ts)
    show ?thesis
    proof (cases "next_in (tokens buf s2) [41]")
      case True
      then obtain x y t' q' e' s3 where s3: "gettoken buf (skip_ws buf s2) = (t', q', e', s3)" "tokens buf s2 = (41, x, y) # tokens buf s3"
        by (rule consume) simp
      have step: "parseblock (Suc n) buf s = obind (parseredirs buf s3) (\<lambda>(rs, s4). Ok (foldl redircmd c rs, s4))"
        using n s1(1) 2(1) True s3(1) by (simp add: peek_symbols parseblock.simps)
      from parseredirs_sound [of buf s3] show ?thesis
      proof
        assume "\<exists>us rs s'. parseredirs buf s3 = Ok (rs, s') \<and> tokens buf s3 = us @ tokens buf s' \<and> gredirs us rs"
        then obtain us rs s4 where r: "parseredirs buf s3 = Ok (rs, s4)" "tokens buf s3 = us @ tokens buf s4" "gredirs us rs" by blast
        have "tokens buf s = ((40, a, b) # ts @ (41, x, y) # us) @ tokens buf s4" using s1(2) 2(2) s3(2) r(2) by simp
        then show ?thesis using step r(1) gexec_gpipe_gback_gline.block [OF 2(3) r(3)] by (simp add: accepts_Ok)
      qed (auto simp: step)
    next
      case False
      then show ?thesis using n s1(1) 2(1) by (simp add: peek_symbols parseblock.simps)
    qed
  qed
qed

lemma parser_sound:
  "4 * length (tokens buf s) + 4 \<le> n \<Longrightarrow> accepts gline buf s (parseline n buf s)"
  "4 * length (tokens buf s) + 3 \<le> n \<Longrightarrow> accepts gpipe buf s (parsepipe n buf s)"
  "4 * length (tokens buf s) + 2 \<le> n \<Longrightarrow> accepts gexec buf s (parseexec n buf s)"
  "4 * length (tokens buf s) + 1 \<le> n \<Longrightarrow> next_in (tokens buf s) [40] \<Longrightarrow> accepts gexec buf s (parseblock n buf s)"
proof (induction n arbitrary: s)
  case (Suc n)
  {
    case 1
    show ?case by (rule parseline_sound) (use 1 Suc.IH(1,2) in auto)
  next
    case 2
    show ?case by (rule parsepipe_sound) (use 2 Suc.IH(2,3) in auto)
  next
    case 3
    have "accepts gexec buf (skip_ws buf s) (parseblock n buf (skip_ws buf s))" if "next_in (tokens buf s) [40]"
      using Suc.IH(4) [of "skip_ws buf s"] 3 that by simp
    then have "accepts gexec buf s (parseblock n buf (skip_ws buf s))" if "next_in (tokens buf s) [40]"
      using that by (simp add: accepts_def)
    then show ?case by (rule parseexec_sound)
  next
    case 4
    show ?case by (rule parseblock_sound) (use 4 Suc.IH(1) in auto)
  }
qed simp_all

text \<open>
  With enough fuel, and before something that may follow, a routine returns the command that the
  grammar derives, at the position after its tokens.
\<close>

definition parses :: "(nat \<Rightarrow> uchar list \<Rightarrow> nat \<Rightarrow> (cmd \<times> nat) outcome) \<Rightarrow> (token list \<Rightarrow> bool) \<Rightarrow> nat \<Rightarrow> uchar list \<Rightarrow> token list \<Rightarrow> cmd \<Rightarrow> bool" where
  "parses f follow k buf ts c \<longleftrightarrow> (\<forall>s rest n. tokens buf s = ts @ rest \<longrightarrow> follow rest \<longrightarrow> 4 * length ts + k \<le> n \<longrightarrow>
     (\<exists>s'. f n buf s = Ok (c, s') \<and> tokens buf s' = rest))"

lemma parsesD:
  "parses f follow k buf ts c \<Longrightarrow> tokens buf s = ts @ rest \<Longrightarrow> follow rest \<Longrightarrow> 4 * length ts + k \<le> n \<Longrightarrow>
     \<exists>s'. f n buf s = Ok (c, s') \<and> tokens buf s' = rest"
  by (auto simp: parses_def)

abbreviation follow_pipe :: "token list \<Rightarrow> bool" where
  "follow_pipe ts \<equiv> ts = [] \<or> next_in ts [41, 38, 59]"
abbreviation follow_line :: "token list \<Rightarrow> bool" where
  "follow_line ts \<equiv> ts = [] \<or> next_in ts [41]"

definition parses_back :: "uchar list \<Rightarrow> token list \<Rightarrow> cmd \<Rightarrow> bool" where
  "parses_back buf ts c \<longleftrightarrow> (\<forall>s rest n. tokens buf s = ts @ rest \<longrightarrow> follow_pipe rest \<longrightarrow> 4 * length ts + 3 \<le> n \<longrightarrow>
     (\<exists>c0 s0 s1. parsepipe n buf s = Ok (c0, s0) \<and> backs buf s0 c0 = backs buf s1 c \<and> tokens buf s1 = rest))"

lemma next_symbol: "t \<in> set toks \<Longrightarrow> t \<noteq> 43 \<Longrightarrow> next_in ((t, a, b) # ts) toks"
  by (simp add: next_in_def symbol_of_def)

lemma simple_parses:
  assumes "gsimple ts as rs" and "length as < MAXARGS"
  shows "parses parseexec ends 2 buf ts (execcmd as rs)"
  unfolding parses_def
proof (intro allI impI)
  fix s rest n
  assume t: "tokens buf s = ts @ rest" and e: "ends rest" and "4 * length ts + 2 \<le> n"
  then obtain m where n: "n = Suc m" by (cases n) auto
  have "\<not> next_in (tokens buf s) [40]"
    using assms(1) e unfolding t by (cases rule: gsimple.cases) (auto simp: next_in_def symbol_of_def)
  moreover obtain rs1 rs2 s1 s2 where "parseredirs buf (skip_ws buf s) = Ok (rs1, s1)" "parseargs buf s1 0 = Ok (as, rs2, s2)"
      "rs = rs1 @ rs2" "tokens buf s2 = rest"
    using simple_complete [OF assms(1) _ e, of buf "skip_ws buf s" 0] assms(2) t by auto
  ultimately show "\<exists>s'. parseexec n buf s = Ok (execcmd as rs, s') \<and> tokens buf s' = rest"
    by (simp add: n parseexec.simps peek_symbols)
qed

lemma block_parses:
  assumes l: "parses parseline follow_line 4 buf ts c" and r: "gredirs us rs"
  shows "parses parseexec ends 2 buf ((40, a, b) # ts @ (41, x, y) # us) (foldl redircmd c rs)"
  unfolding parses_def
proof (intro allI impI)
  fix s rest n
  assume t: "tokens buf s = ((40, a, b) # ts @ (41, x, y) # us) @ rest" and e: "ends rest"
    and n: "4 * length ((40 :: uchar, a, b) # ts @ (41, x, y) # us) + 2 \<le> n"
  define m where "m = n - 2"
  have n: "n = Suc (Suc m)" "4 * length ts + 4 \<le> m" using n by (simp_all add: m_def)
  have hit: "next_in (tokens buf s) [40]" unfolding t by (simp add: next_symbol)
  have "tokens buf (skip_ws buf s) = (40, a, b) # (ts @ (41, x, y) # us @ rest)" using t by simp
  then obtain s1 where s1: "gettoken buf (skip_ws buf s) = (40, a, b, s1)" "tokens buf s1 = ts @ (41, x, y) # us @ rest" by (rule gettoken_Cons)
  have "follow_line ((41, x, y) # us @ rest)" by (simp add: next_symbol)
  from parsesD [OF l s1(2) this n(2)] obtain s2 where s2: "parseline m buf s1 = Ok (c, s2)" "tokens buf s2 = (41, x, y) # us @ rest" by blast
  have hit2: "next_in (tokens buf s2) [41]" unfolding s2(2) by (simp add: next_symbol)
  have "tokens buf (skip_ws buf s2) = (41, x, y) # us @ rest" using s2(2) by simp
  then obtain s3 where s3: "gettoken buf (skip_ws buf s2) = (41, x, y, s3)" "tokens buf s3 = us @ rest" by (rule gettoken_Cons)
  obtain s4 where "parseredirs buf s3 = Ok (rs, s4)" "tokens buf s4 = rest"
    using parseredirs_complete [OF r s3(2) ends_no_redir [OF e]] by blast
  then show "\<exists>s'. parseexec n buf s = Ok (foldl redircmd c rs, s') \<and> tokens buf s' = rest"
    using hit s1(1) s2(1) hit2 s3(1) by (simp add: n parseexec.simps parseblock.simps peek_symbols skip_while_id)
qed

lemma one_parses:
  assumes "parses parseexec ends 2 buf ts c"
  shows "parses parsepipe follow_pipe 3 buf ts c"
  unfolding parses_def
proof (intro allI impI)
  fix s rest n
  assume t: "tokens buf s = ts @ rest" and e: "follow_pipe rest" and n: "4 * length ts + 3 \<le> n"
  obtain m where m: "n = Suc m" "4 * length ts + 2 \<le> m" using n by (cases n) auto
  have "ends rest" "\<not> next_in rest [124]" using e by (auto simp: next_in_def)
  from parsesD [OF assms t this(1) m(2)] this(2)
  show "\<exists>s'. parsepipe n buf s = Ok (c, s') \<and> tokens buf s' = rest" by (auto simp: m parsepipe.simps peek_symbols)
qed

lemma pipe_parses:
  assumes c: "parses parseexec ends 2 buf ts c" and d: "parses parsepipe follow_pipe 3 buf us d"
  shows "parses parsepipe follow_pipe 3 buf (ts @ (124, a, b) # us) (PIPE c d)"
  unfolding parses_def
proof (intro allI impI)
  fix s rest n
  assume t: "tokens buf s = (ts @ (124, a, b) # us) @ rest" and e: "follow_pipe rest" and n: "4 * length (ts @ (124, a, b) # us) + 3 \<le> n"
  obtain m where m: "n = Suc m" "4 * length ts + 2 \<le> m" "4 * length us + 3 \<le> m" using n by (cases n) auto
  have t': "tokens buf s = ts @ (124, a, b) # us @ rest" using t by simp
  have "ends ((124, a, b) # us @ rest)" by (simp add: next_symbol)
  from parsesD [OF c t' this m(2)] obtain s1 where s1: "parseexec m buf s = Ok (c, s1)" "tokens buf s1 = (124, a, b) # us @ rest" by blast
  have hit: "next_in (tokens buf s1) [124]" unfolding s1(2) by (simp add: next_symbol)
  have "tokens buf (skip_ws buf s1) = (124, a, b) # us @ rest" using s1(2) by simp
  then obtain s2 where s2: "gettoken buf (skip_ws buf s1) = (124, a, b, s2)" "tokens buf s2 = us @ rest" by (rule gettoken_Cons)
  from parsesD [OF d s2(2) e m(3)] s1(1) hit s2(1)
  show "\<exists>s'. parsepipe n buf s = Ok (PIPE c d, s') \<and> tokens buf s' = rest" by (auto simp: m parsepipe.simps peek_symbols)
qed

lemma back_parses:
  assumes "parses_back buf ts c"
  shows "parses_back buf (ts @ [(38, a, b)]) (BACK c)"
  unfolding parses_back_def
proof (intro allI impI)
  fix s rest n
  assume t: "tokens buf s = (ts @ [(38, a, b)]) @ rest" and e: "follow_pipe rest" and n: "4 * length (ts @ [(38 :: uchar, a, b)]) + 3 \<le> n"
  have "tokens buf s = ts @ (38, a, b) # rest" "follow_pipe ((38, a, b) # rest)" "4 * length ts + 3 \<le> n"
    using t n by (simp_all add: next_symbol)
  then obtain c0 s0 s1 where p: "parsepipe n buf s = Ok (c0, s0)" "backs buf s0 c0 = backs buf s1 c" "tokens buf s1 = (38, a, b) # rest"
    using assms unfolding parses_back_def by blast
  obtain s2 where "tokens buf s2 = rest" "backs buf s1 c = backs buf s2 (BACK c)" using p(3) by (rule backs_one)
  with p(1,2) show "\<exists>c0 s0 s1. parsepipe n buf s = Ok (c0, s0) \<and> backs buf s0 c0 = backs buf s1 (BACK c) \<and> tokens buf s1 = rest" by auto
qed

lemma last_parses:
  assumes "parses_back buf ts c"
  shows "parses parseline follow_line 4 buf ts c"
  unfolding parses_def
proof (intro allI impI)
  fix s rest n
  assume t: "tokens buf s = ts @ rest" and e: "follow_line rest" and n: "4 * length ts + 4 \<le> n"
  obtain m where m: "n = Suc m" "4 * length ts + 3 \<le> m" using n by (cases n) auto
  have f: "follow_pipe rest" "\<not> next_in rest [38]" "\<not> next_in rest [59]" using e by (auto simp: next_in_def)
  obtain c0 s0 s1 where p: "parsepipe m buf s = Ok (c0, s0)" "backs buf s0 c0 = backs buf s1 c" "tokens buf s1 = rest"
    using assms t f(1) m(2) unfolding parses_back_def by blast
  then show "\<exists>s'. parseline n buf s = Ok (c, s') \<and> tokens buf s' = rest"
    using backs_none [of buf s1 c] f(2,3) by (simp add: m parseline.simps peek_symbols)
qed

lemma more_parses:
  assumes c: "parses_back buf ts c" and d: "parses parseline follow_line 4 buf us d"
  shows "parses parseline follow_line 4 buf (ts @ (59, a, b) # us) (LIST c d)"
  unfolding parses_def
proof (intro allI impI)
  fix s rest n
  assume t: "tokens buf s = (ts @ (59, a, b) # us) @ rest" and e: "follow_line rest" and n: "4 * length (ts @ (59, a, b) # us) + 4 \<le> n"
  obtain m where m: "n = Suc m" "4 * length ts + 3 \<le> m" "4 * length us + 4 \<le> m" using n by (cases n) auto
  have "tokens buf s = ts @ (59, a, b) # us @ rest" "follow_pipe ((59, a, b) # us @ rest)" using t by (simp_all add: next_symbol)
  then obtain c0 s0 s1 where p: "parsepipe m buf s = Ok (c0, s0)" "backs buf s0 c0 = backs buf s1 c" "tokens buf s1 = (59, a, b) # us @ rest"
    using c m(2) unfolding parses_back_def by blast
  have "\<not> next_in (tokens buf s1) [38]" unfolding p(3) by (simp add: next_in_def symbol_of_def)
  then have b: "backs buf s0 c0 = (c, skip_ws buf s1)" using backs_none p(2) by simp
  have hit: "next_in (tokens buf s1) [59]" unfolding p(3) by (simp add: next_symbol)
  have "tokens buf (skip_ws buf s1) = (59, a, b) # us @ rest" using p(3) by simp
  then obtain s2 where s2: "gettoken buf (skip_ws buf s1) = (59, a, b, s2)" "tokens buf s2 = us @ rest" by (rule gettoken_Cons)
  from parsesD [OF d s2(2) e m(3)] p(1) b hit s2(1)
  show "\<exists>s'. parseline n buf s = Ok (LIST c d, s') \<and> tokens buf s' = rest"
    by (auto simp: m parseline.simps peek_symbols skip_while_id)
qed

lemma parser_complete:
  "gexec ts c \<Longrightarrow> parses parseexec ends 2 buf ts c"
  "gpipe ts c \<Longrightarrow> parses parsepipe follow_pipe 3 buf ts c"
  "gback ts c \<Longrightarrow> parses_back buf ts c"
  "gline ts c \<Longrightarrow> parses parseline follow_line 4 buf ts c"
proof (induction rule: gexec_gpipe_gback_gline.inducts)
  case (fore ts c)
  then show ?case unfolding parses_back_def parses_def by blast
qed (fact simple_parses block_parses one_parses pipe_parses back_parses last_parses more_parses
  | rule simple_parses block_parses one_parses pipe_parses back_parses last_parses more_parses; assumption)+

section \<open>The parser stays inside the line\<close>

lemma skip_while_le: "s \<le> length buf \<Longrightarrow> skip_while P buf s \<le> length buf"
  using skip_while_bounds [of s P buf] by simp

lemma peek_le: "peek buf s toks = (r, s1) \<Longrightarrow> s \<le> length buf \<Longrightarrow> s1 \<le> length buf"
  by (auto simp: peek_def Let_def skip_while_le)

lemma gettoken_in_line: "gettoken buf s = (t, q, e, s1) \<Longrightarrow> s \<le> length buf \<Longrightarrow> s1 \<le> length buf"
proof -
  assume g: "gettoken buf s = (t, q, e, s1)" and "s \<le> length buf"
  then have "e \<le> length buf" using gettoken_forward(3) [OF g] skip_while_le [of s buf]
    by (cases "t = 0") (auto simp: gettoken_def Let_def split: if_splits)
  moreover have "s1 = skip_ws buf e" using g by (auto simp: gettoken_def Let_def split: if_splits)
  ultimately show ?thesis by (simp add: skip_while_le)
qed

lemma parseredirs_in_line: "parseredirs buf s = Ok (rs, s1) \<Longrightarrow> s \<le> length buf \<Longrightarrow> s1 \<le> length buf"
proof (induction buf s arbitrary: rs s1 rule: parseredirs.induct)
  case (1 buf s)
  obtain more s0 where p: "peek buf s [60, 62] = (more, s0)" by force
  obtain tok x y s2 where g: "gettoken buf s0 = (tok, x, y, s2)" by (metis prod_cases4)
  obtain a q eq s3 where h: "gettoken buf s2 = (a, q, eq, s3)" by (metis prod_cases4)
  note le = peek_le [OF p "1.prems"(2)]
  have le3: "s3 \<le> length buf" by (rule gettoken_in_line [OF h gettoken_in_line [OF g le]])
  show ?case
  proof (cases "more \<and> a = 97")
    case True
    then obtain rs' where "parseredirs buf s3 = Ok (rs', s1)"
      using "1.prems" p g h by (subst (asm) parseredirs.simps) (auto simp: obind_eq_Ok)
    then show ?thesis using "1.IH" [OF p [symmetric] _ g [symmetric] refl refl h [symmetric] refl refl] True le3 by simp
  next
    case False
    then show ?thesis using "1.prems" p g h le by (subst (asm) parseredirs.simps) (auto split: if_splits)
  qed
qed

lemma parseargs_in_line: "parseargs buf s argc = Ok (as, rs, s1) \<Longrightarrow> s \<le> length buf \<Longrightarrow> s1 \<le> length buf"
proof (induction "MAXARGS - argc" arbitrary: s argc as rs rule: less_induct)
  case less
  obtain stop s0 where p: "peek buf s [124, 41, 38, 59] = (stop, s0)" by force
  obtain tok q e s2 where g: "gettoken buf s0 = (tok, q, e, s2)" by (metis prod_cases4)
  note le = peek_le [OF p less.prems(2)] gettoken_in_line [OF g peek_le [OF p less.prems(2)]]
  show ?case
  proof (cases "stop \<or> tok = 0")
    case True
    then show ?thesis using less.prems(1) p g le by (subst (asm) parseargs.simps) (auto split: if_splits)
  next
    case False
    then obtain rs1 s3 as' rs2 where "parseredirs buf s2 = Ok (rs1, s3)" "parseargs buf s3 (argc + 1) = Ok (as', rs2, s1)" "argc + 1 < MAXARGS"
      using less.prems(1) p g by (subst (asm) parseargs.simps) (auto simp: obind_eq_Ok split: if_splits)
    then show ?thesis using less.hyps [of "argc + 1" s3 as' rs2] parseredirs_in_line [of buf s2 rs1 s3] le(2) by simp
  qed
qed

lemma backs_in_line: "backs buf s c = (d, s1) \<Longrightarrow> s \<le> length buf \<Longrightarrow> s1 \<le> length buf"
proof (induction buf s c rule: backs.induct)
  case (1 buf s c)
  obtain more s0 where p: "peek buf s [38] = (more, s0)" by force
  obtain tok x y s2 where g: "gettoken buf s0 = (tok, x, y, s2)" by (metis prod_cases4)
  note le = peek_le [OF p "1.prems"(2)]
  show ?case
  proof (cases more)
    case True
    then show ?thesis using "1.IH" [OF p [symmetric] _ g [symmetric] refl refl] "1.prems"(1) p g gettoken_in_line [OF g le]
      by (subst (asm) (2) backs.simps) simp
  next
    case False
    then show ?thesis using "1.prems"(1) p le by (subst (asm) backs.simps) simp
  qed
qed

lemma parser_in_line:
  "parseline n buf s = Ok (c, s1) \<Longrightarrow> s \<le> length buf \<Longrightarrow> s1 \<le> length buf"
  "parsepipe n buf s = Ok (c, s1) \<Longrightarrow> s \<le> length buf \<Longrightarrow> s1 \<le> length buf"
  "parseexec n buf s = Ok (c, s1) \<Longrightarrow> s \<le> length buf \<Longrightarrow> s1 \<le> length buf"
  "parseblock n buf s = Ok (c, s1) \<Longrightarrow> s \<le> length buf \<Longrightarrow> s1 \<le> length buf"
proof (induction n arbitrary: s c s1)
  case (Suc n)
  {
    case 1
    obtain c0 s0 where a: "parsepipe n buf s = Ok (c0, s0)" using 1(1) by (auto simp: parseline.simps obind_eq_Ok)
    obtain c2 s2 where b: "backs buf s0 c0 = (c2, s2)" by force
    obtain more s3 where p: "peek buf s2 [59] = (more, s3)" by force
    obtain t q e s4 where g: "gettoken buf s3 = (t, q, e, s4)" by (metis prod_cases4)
    note le = peek_le [OF p backs_in_line [OF b Suc.IH(2) [OF a 1(2)]]]
    show ?case using 1(1) a b p g le Suc.IH(1) [of s4] gettoken_in_line [OF g le]
      by (cases more) (auto simp: parseline.simps obind_eq_Ok)
  next
    case 2
    obtain c0 s0 where a: "parseexec n buf s = Ok (c0, s0)" using 2(1) by (auto simp: parsepipe.simps obind_eq_Ok)
    obtain more s3 where p: "peek buf s0 [124] = (more, s3)" by force
    obtain t q e s4 where g: "gettoken buf s3 = (t, q, e, s4)" by (metis prod_cases4)
    note le = peek_le [OF p Suc.IH(3) [OF a 2(2)]]
    show ?case using 2(1) a p g le Suc.IH(2) [of s4] gettoken_in_line [OF g le]
      by (cases more) (auto simp: parsepipe.simps obind_eq_Ok)
  next
    case 3
    obtain block s0 where p: "peek buf s [40] = (block, s0)" by force
    note le = peek_le [OF p 3(2)]
    show ?case
    proof (cases block)
      case True
      then show ?thesis using 3(1) p Suc.IH(4) [OF _ le] by (simp add: parseexec.simps)
    next
      case False
      then obtain rs s2 as rs2 where "parseredirs buf s0 = Ok (rs, s2)" "parseargs buf s2 0 = Ok (as, rs2, s1)"
        using 3(1) p by (auto simp: parseexec.simps obind_eq_Ok)
      then show ?thesis using parseargs_in_line parseredirs_in_line le by blast
    qed
  next
    case 4
    obtain block s0 where p: "peek buf s [40] = (block, s0)" by force
    obtain t q e s2 where g: "gettoken buf s0 = (t, q, e, s2)" by (metis prod_cases4)
    obtain c0 s3 where a: "parseline n buf s2 = Ok (c0, s3)"
      using 4(1) p g by (auto simp: parseblock.simps obind_eq_Ok split: if_splits)
    obtain close s4 where p2: "peek buf s3 [41] = (close, s4)" by force
    obtain t' q' e' s5 where g2: "gettoken buf s4 = (t', q', e', s5)" by (metis prod_cases4)
    have "s3 \<le> length buf" by (rule Suc.IH(1) [OF a gettoken_in_line [OF g peek_le [OF p 4(2)]]])
    then have le: "s5 \<le> length buf" using gettoken_in_line [OF g2 peek_le [OF p2]] by simp
    obtain rs where "parseredirs buf s5 = Ok (rs, s1)"
      using 4(1) p g a p2 g2 by (auto simp: parseblock.simps obind_eq_Ok split: if_splits)
    then show ?case using le by (rule parseredirs_in_line)
  }
qed (simp_all add: parseline.simps parsepipe.simps parseexec.simps parseblock.simps)

section \<open>The words of a command\<close>

primrec cmd_words :: "cmd \<Rightarrow> span list" where
  "cmd_words (EXEC as) = as"
| "cmd_words (REDIR c w mode fd) = w # cmd_words c"
| "cmd_words (PIPE c d) = cmd_words c @ cmd_words d"
| "cmd_words (LIST c d) = cmd_words c @ cmd_words d"
| "cmd_words (BACK c) = cmd_words c"

lemma cmd_words_redirs: "set (cmd_words (foldl redircmd c rs)) = fst ` set rs \<union> set (cmd_words c)"
  by (induction rs arbitrary: c) (auto simp: redircmd_def split: prod.splits)

lemma gredirs_words: "gredirs ts rs \<Longrightarrow> w \<in> fst ` set rs \<Longrightarrow> (97, w) \<in> set ts"
  by (induction rule: gredirs.induct) (auto simp: redir_of_def split: if_splits)

lemma gsimple_words: "gsimple ts as rs \<Longrightarrow> w \<in> fst ` set rs \<union> set as \<Longrightarrow> (97, w) \<in> set ts"
  by (induction rule: gsimple.induct) (auto simp: redir_of_def split: if_splits)

lemma grammar_words:
  "gexec ts c \<Longrightarrow> w \<in> set (cmd_words c) \<Longrightarrow> (97, w) \<in> set ts"
  "gpipe ts c \<Longrightarrow> w \<in> set (cmd_words c) \<Longrightarrow> (97, w) \<in> set ts"
  "gback ts c \<Longrightarrow> w \<in> set (cmd_words c) \<Longrightarrow> (97, w) \<in> set ts"
  "gline ts c \<Longrightarrow> w \<in> set (cmd_words c) \<Longrightarrow> (97, w) \<in> set ts"
proof (induction rule: gexec_gpipe_gback_gline.inducts)
  case (simple ts as rs)
  then show ?case using gsimple_words [of ts as rs w] by (auto simp: execcmd_def cmd_words_redirs)
next
  case (block ts c us rs a b x y)
  then show ?case using gredirs_words [of us rs w] by (auto simp: cmd_words_redirs)
qed auto

lemma nulterminate_words: "nulterminate c b i = (if i \<in> snd ` set (cmd_words c) then 0 else b i)"
proof (induction c arbitrary: b)
  case (EXEC as)
  have "fold (\<lambda>(q, e) b. b(e := 0)) as b i = (if i \<in> snd ` set as then 0 else b i)"
    by (induction as arbitrary: b) (auto split: prod.splits)
  then show ?case by simp
qed auto

lemma tokens_ordered:
  "sorted_wrt (\<lambda>(_, _, e) (_, q, _). e \<le> q) (tokens buf s) \<and> (\<forall>(t, q, e) \<in> set (tokens buf s). s \<le> q \<and> q < e \<and> e \<le> length buf)"
proof (induction buf s rule: tokens.induct)
  case (1 buf s)
  obtain t q e s1 where g: "gettoken buf s = (t, q, e, s1)" by (metis prod_cases4)
  show ?case
  proof (cases "t = 0")
    case True
    then show ?thesis using g by (subst (1 2) tokens.simps) simp
  next
    case False
    then have t: "tokens buf s = (t, q, e) # tokens buf s1" using g by (subst tokens.simps) simp
    note IH = "1.IH" [OF g [symmetric] refl refl False]
    then have "sorted_wrt (\<lambda>(_, _, e) (_, q, _). e \<le> q) (tokens buf s1)"
      "\<And>t' q' e'. (t', q', e') \<in> set (tokens buf s1) \<Longrightarrow> s1 \<le> q' \<and> q' < e' \<and> e' \<le> length buf" by auto
    then show ?thesis unfolding t using gettoken_forward(1-3) [OF g] False by fastforce
  qed
qed

lemma sorted_wrt_apart:
  assumes "sorted_wrt P xs" and "x \<in> set xs" "y \<in> set xs"
  shows "x = y \<or> P x y \<or> P y x"
  using assms by (induction xs) auto

lemma word_token_chars:
  "(97, q, e) \<in> set (tokens buf s) \<Longrightarrow> i \<in> {q ..< e} \<Longrightarrow> word_char (buf ! i) \<and> i < length buf"
proof (induction buf s rule: tokens.induct)
  case (1 buf s)
  obtain t q' e' s1 where g: "gettoken buf s = (t, q', e', s1)" by (metis prod_cases4)
  have "t \<noteq> 0 \<and> ((97, q, e) = (t, q', e') \<or> (97, q, e) \<in> set (tokens buf s1))"
    using "1.prems"(1) g by (subst (asm) tokens.simps) (auto split: if_splits)
  then show ?case using "1.IH" [OF g [symmetric] refl refl] "1.prems"(2) gettoken_forward(4) [OF g] by auto
qed

lemma word_token_end: "(97, q, e) \<in> set (tokens buf s) \<Longrightarrow> e < length buf \<Longrightarrow> \<not> word_char (buf ! e)"
proof (induction buf s rule: tokens.induct)
  case (1 buf s)
  obtain t q' e' s1 where g: "gettoken buf s = (t, q', e', s1)" by (metis prod_cases4)
  have "t \<noteq> 0 \<and> ((97, q, e) = (t, q', e') \<or> (97, q, e) \<in> set (tokens buf s1))"
    using "1.prems"(1) g by (subst (asm) tokens.simps) (auto split: if_splits)
  then show ?case
  proof (elim conjE disjE)
    assume "(97, q, e) = (t, q', e')"
    then have "e = skip_while word_char buf q" using g by (auto simp: gettoken_def Let_def split: if_splits)
    then show ?thesis using skip_while_stops [of word_char buf q] "1.prems"(2) by simp
  qed (use "1.IH" [OF g [symmetric] refl refl] "1.prems"(2) in simp)
qed

lemma words_terminated:
  assumes g: "gline (tokens buf 0) c" and w: "(q, e) \<in> set (cmd_words c)"
  shows "q < e \<and> e \<le> length buf \<and> nulterminate c b e = 0 \<and> (\<forall>i \<in> {q ..< e}. word_char (buf ! i) \<and> nulterminate c b i = b i)"
proof -
  have t: "(97, q, e) \<in> set (tokens buf 0)" using grammar_words(4) [OF g w] .
  then have "q < e \<and> e \<le> length buf" using tokens_ordered [of buf 0] by auto
  moreover have "nulterminate c b e = 0" using w by (auto simp: nulterminate_words intro: rev_image_eqI)
  moreover have "nulterminate c b i = b i" if i: "i \<in> {q ..< e}" for i
  proof -
    have "i \<noteq> e2" if "(q2, e2) \<in> set (cmd_words c)" for q2 e2
    proof -
      have t2: "(97, q2, e2) \<in> set (tokens buf 0)" using grammar_words(4) [OF g that] .
      then show ?thesis using word_token_end [OF t2] word_token_chars [OF t i] by auto
    qed
    then have "i \<notin> snd ` set (cmd_words c)" by (metis imageE prod.collapse)
    then show ?thesis by (simp add: nulterminate_words)
  qed
  ultimately show ?thesis using word_token_chars [OF t] by blast
qed

section \<open>Parsing a line\<close>

lemma line_end:
  assumes "0 \<notin> set buf" "s \<le> length buf"
  shows "skip_ws buf s = length buf \<longleftrightarrow> tokens buf s = []"
proof -
  obtain t q e s1 where g: "gettoken buf s = (t, q, e, s1)" by (metis prod_cases4)
  then have "tokens buf s = [] \<longleftrightarrow> t = 0" by (subst tokens.simps) simp
  also have "\<dots> \<longleftrightarrow> deref buf (skip_ws buf s) = 0" by (rule gettoken_sym(1) [OF g])
  also have "\<dots> \<longleftrightarrow> skip_ws buf s = length buf"
  proof -
    have "buf ! i \<noteq> 0" if "i < length buf" for i using assms(1) nth_mem [OF that] by metis
    then show ?thesis using skip_while_le [OF assms(2), of "\<lambda>c. c \<in> set whitespace"] by (auto simp: deref_def)
  qed
  finally show ?thesis by blast
qed

lemma parsecmd_iff:
  fixes line :: "uchar list"
  defines "buf \<equiv> takeWhile (\<lambda>c. c \<noteq> 0) line"
  shows "parsecmd line = Ok (c, b) \<longleftrightarrow> gline (tokens buf 0) c \<and> b = nulterminate c (deref line)" (is "?L \<longleftrightarrow> ?R") "parsecmd line \<noteq> Blocked"
proof -
  let ?n = "4 * length buf + 4"
  have z: "0 \<notin> set buf" unfolding buf_def by (auto dest: set_takeWhileD)
  have len: "length (tokens buf 0) \<le> length buf" using tokens_length [of buf 0] by simp
  have acc: "accepts gline buf 0 (parseline ?n buf 0)" by (rule parser_sound(1)) (use len in simp)
  have def: "parsecmd line = obind (parseline ?n buf 0) (\<lambda>(c, s). if skip_ws buf s \<noteq> length buf then Panic ''syntax'' else Ok (c, nulterminate c (deref line)))"
    by (simp add: parsecmd_def buf_def Let_def peek_def)
  show "parsecmd line \<noteq> Blocked" using acc by (auto simp: def accepts_def split: if_splits)
  have fin: "skip_ws buf s = length buf \<longleftrightarrow> tokens buf s = []" if "parseline ?n buf 0 = Ok (d, s)" for d s
    by (rule line_end [OF z parser_in_line(1) [OF that]]) simp
  show "?L \<longleftrightarrow> ?R"
  proof
    assume ?L
    then obtain s where s: "parseline ?n buf 0 = Ok (c, s)" "skip_ws buf s = length buf" "b = nulterminate c (deref line)"
      by (auto simp: def obind_eq_Ok split: if_splits)
    moreover have "tokens buf s = []" using fin [OF s(1)] s(2) by simp
    ultimately show ?R using acc by (auto simp: accepts_def)
  next
    assume r: ?R
    have "4 * length (tokens buf 0) + 4 \<le> ?n" using len by simp
    then obtain s where s: "parseline ?n buf 0 = Ok (c, s)" "tokens buf s = []"
      using parsesD [OF parser_complete(4), of "tokens buf 0" c buf 0 "[]" ?n] r by auto
    then show ?L using fin [OF s(1)] r by (simp add: def)
  qed
qed

text \<open>
  C38: the parser of the shell comes to an end on every line, with a command exactly when the grammar derives the tokens
  of the line, and then it is the derived command; otherwise it panics. In the buffer it leaves, every word of the
  command is a C string: its bytes, none of them blank or a symbol, are those of the line, and the byte after them
  is NUL.
\<close>

theorem sh_parses_grammar:
  shows "parsecmd line \<noteq> Blocked \<and>
    (parsecmd line = Ok (c, b) \<longleftrightarrow> gline (tokens (takeWhile (\<lambda>c. c \<noteq> 0) line) 0) c \<and> b = nulterminate c (deref line)) \<and>
    (parsecmd line = Ok (c, b) \<longrightarrow> (\<forall>(q, e) \<in> set (cmd_words c). q < e \<and> b e = 0 \<and>
       (\<forall>i \<in> {q ..< e}. b i = line ! i \<and> b i \<noteq> 0 \<and> word_char (b i))))"
proof (intro conjI impI)
  define buf where "buf = takeWhile (\<lambda>c. c \<noteq> 0) line"
  assume "parsecmd line = Ok (c, b)"
  then have g: "gline (tokens buf 0) c" and b: "b = nulterminate c (deref line)" by (simp_all add: parsecmd_iff buf_def)
  have same: "deref line i = buf ! i \<and> line ! i = buf ! i \<and> buf ! i \<noteq> 0" if "i < length buf" for i
    using that length_takeWhile_le [of "\<lambda>c. c \<noteq> 0" line] nth_mem [of i buf] set_takeWhileD [of "buf ! i" "\<lambda>c. c \<noteq> 0" line]
    by (auto simp: deref_def buf_def takeWhile_nth)
  show "\<forall>(q, e) \<in> set (cmd_words c). q < e \<and> b e = 0 \<and> (\<forall>i \<in> {q ..< e}. b i = line ! i \<and> b i \<noteq> 0 \<and> word_char (b i))"
    using words_terminated [OF g, where b = "deref line"] same unfolding b by fastforce
qed (rule parsecmd_iff)+

text \<open>The line \<^verbatim>\<open>ls>f\<close> is a redirection of the command \<^verbatim>\<open>ls\<close>.\<close>

theorem sh_parses_grammar_witness:
  "\<exists>b. parsecmd [108, 115, 62, 102, 10] = Ok (REDIR (EXEC [(0, 2)]) (3, 4) 0x201 1, b) \<and> b 0 = 108 \<and> b 1 = 115 \<and> b 2 = 0 \<and> b 3 = 102 \<and> b 4 = 0"
proof -
  let ?l = "[108, 115, 62, 102, 10] :: uchar list" and ?c = "REDIR (EXEC [(0, 2)]) (3, 4) 0x201 1"
  let ?b = "nulterminate ?c (deref ?l)"
  have "tokens ?l 0 = [(97, 0, 2), (62, 2, 3), (97, 3, 4)]"
    by (simp add: tokens.simps gettoken_def skip_while.simps deref_def whitespace_def symbols_def)
  moreover have "gline [(97, 0, 2), (62, 2, 3), (97, 3, 4)] (execcmd [(0, 2)] [redir_of 62 (3, 4)])"
    by (intro gexec_gpipe_gback_gline.intros gsimple.intros) (simp_all add: MAXARGS_def)
  moreover have "execcmd [(0, 2)] [redir_of 62 (3, 4)] = ?c"
    by (simp add: execcmd_def redircmd_def redir_of_def)
  ultimately have "parsecmd ?l = Ok (?c, ?b)" using sh_parses_grammar [of ?l ?c ?b] by simp
  moreover from this have "\<forall>(q, e) \<in> set (cmd_words ?c). q < e \<and> ?b e = 0 \<and> (\<forall>i \<in> {q ..< e}. ?b i = ?l ! i \<and> ?b i \<noteq> 0 \<and> word_char (?b i))"
    using sh_parses_grammar [of ?l ?c ?b] by blast
  moreover have "?b 0 = 108" "?b 1 = 115" "?b 2 = 0" "?b 3 = 102" "?b 4 = 0" by (simp_all add: deref_def)
  ultimately show ?thesis by blast
qed

end
