(* ===== verification/Spec2Isabelle.thy ===== *)
theory Spec2Isabelle
  imports Xv6_Trap Xv6_Filewrite User_Grep User_Sh
begin

text \<open>
  A verification library for the operating system in this repository: the xv6 kernel under
  \<^verbatim>\<open>src/xv6\<close>, with the changes of the laboratories, and two of its user programs. The kernel is modelled
  from the system call down to the disk blocks and page tables, the way its C code is written; this theory
  brings the parts together.

  \<^bold>\<open>How the parts interact.\<close> A trap enters \<^verbatim>\<open>trap.c\<close>, which dispatches interrupts to the
  drivers and system calls to \<^verbatim>\<open>syscall.c\<close>. A system call reads its arguments from the memory of the process through its
  page table (\<^verbatim>\<open>vm.c\<close>), works on the process table (\<^verbatim>\<open>proc.c\<close>) or on open files (\<^verbatim>\<open>file.c\<close>, \<^verbatim>\<open>pipe.c\<close>,
  \<^verbatim>\<open>sysfile.c\<close>, \<^verbatim>\<open>exec.c\<close>). Files are inodes and directories (\<^verbatim>\<open>fs.c\<close>), changed only inside the transactions of
  the log (\<^verbatim>\<open>log.c\<close>) and reached through the buffer cache (\<^verbatim>\<open>bio.c\<close>) and the disk driver (\<^verbatim>\<open>ide.c\<close>). All of
  it rests on the page allocator (\<^verbatim>\<open>kalloc.c\<close>), spin locks and sleep locks, and \<^verbatim>\<open>string.c\<close>.

  \<^bold>\<open>Conventions.\<close> A C structure is a record, an enumeration a datatype, a C integer a word of
  its width; \<^verbatim>\<open>int\<close> values that cannot overflow where they are used are integers. Memory is a function from 32-bit addresses to bytes, and
  the free list of pages and the page tables live in it. A kernel routine takes the state and returns an
  \<^verbatim>\<open>outcome\<close>: \<^verbatim>\<open>Ok\<close> with the result and the new state, \<^verbatim>\<open>Panic\<close> with the message of \<^verbatim>\<open>panic\<close>, or \<^verbatim>\<open>Blocked\<close> when it
  would have to wait for another process or for the device; so every early return, panic and sleep
  of the source is a branch of the model. A routine that runs under one spin lock is one step. Where
  the order of steps matters, the interleavings are an inductive step relation, and the properties hold for every
  reachable state.

  \<^bold>\<open>The theories, from the bottom up.\<close>
  \<^item> \<^verbatim>\<open>Xv6_Prelude\<close>: integer types, \<^verbatim>\<open>outcome\<close>, table scans, lemmas on lists and words.
  \<^item> \<^verbatim>\<open>Xv6_String\<close> (\<^verbatim>\<open>string.c\<close>): \<^verbatim>\<open>memmove\<close> with overlap, \<^verbatim>\<open>memset\<close> by words, and the string routines are correct.
  \<^item> \<^verbatim>\<open>Xv6_Spinlock\<close> (\<^verbatim>\<open>spinlock.c\<close>, \<^verbatim>\<open>mycpu\<close> and \<^verbatim>\<open>cpuid\<close> of \<^verbatim>\<open>proc.c\<close>): processors run \<^verbatim>\<open>acquire\<close> and \<^verbatim>\<open>release\<close>
    cut at their memory accesses; mutual exclusion, no panic of any part but for a second \<^verbatim>\<open>acquire\<close> by the
    holder, and interrupt flags restored by any nesting of \<^verbatim>\<open>pushcli\<close> and \<^verbatim>\<open>popcli\<close>.
  \<^item> \<^verbatim>\<open>Xv6_Kalloc\<close> (\<^verbatim>\<open>kalloc.c\<close>): the free list in memory. The locale \<^verbatim>\<open>page_allocator\<close> is the contract on which the page tables
    rest: pages are exclusive, \<^verbatim>\<open>kinit1\<close> and \<^verbatim>\<open>kinit2\<close> free all of them.
  \<^item> \<^verbatim>\<open>Xv6_Vm\<close> (\<^verbatim>\<open>vm.c\<close>): \<^verbatim>\<open>walkpgdir\<close>, \<^verbatim>\<open>mappages\<close>, address spaces; \<^verbatim>\<open>copyuvm\<close> makes a private copy.
  \<^item> \<^verbatim>\<open>Xv6_Proc\<close> (\<^verbatim>\<open>proc.c\<close>): the process table with fork, exit, wait, sleep, wakeup, kill and the scheduler as
    the steps under \<^verbatim>\<open>ptable.lock\<close>; the invariant of the table, that no wakeup of \<^verbatim>\<open>exit\<close> is lost, and what
    \<^verbatim>\<open>wait\<close> does on every branch. \<^verbatim>\<open>sleep\<close> is cut at \<^verbatim>\<open>sched\<close>, into \<^verbatim>\<open>sleep_enter\<close> and \<^verbatim>\<open>sleep_leave\<close>; that it exchanges
    the lock of the caller for \<^verbatim>\<open>ptable.lock\<close> is what makes the first half one step.
  \<^item> \<^verbatim>\<open>Xv6_Fifo\<close>: the locale \<^verbatim>\<open>bounded_fifo\<close>, the contract of a ring with wrapping counters; interpreted
    for pipes and for console input.
  \<^item> \<^verbatim>\<open>Xv6_Sleeplock\<close> (\<^verbatim>\<open>sleeplock.c\<close>) and \<^verbatim>\<open>Xv6_Pipe\<close> (\<^verbatim>\<open>pipe.c\<close>): exclusion; first-in first-out in every interleaving,
    that a process sleeps only while it has to, and the one case in which a reader sleeps beside data.
  \<^item> \<^verbatim>\<open>Xv6_Ide\<close> (\<^verbatim>\<open>ide.c\<close>, \<^verbatim>\<open>memide.c\<close>): the queue and interrupt handler implement synchronous requests.
  \<^item> \<^verbatim>\<open>Xv6_Bio\<close> (\<^verbatim>\<open>bio.c\<close>): the linked list of buffers; coherence and the order of recycling. The locale
    \<^verbatim>\<open>block_cache\<close> is what the layers above use of it.
  \<^item> \<^verbatim>\<open>Xv6_Layout\<close> and \<^verbatim>\<open>Xv6_Log\<close> (\<^verbatim>\<open>log.c\<close>): integers in disk blocks; after a crash at any disk write of a commit,
    recovery yields the blocks before or after the transaction.
  \<^item> \<^verbatim>\<open>Xv6_Balloc\<close>, \<^verbatim>\<open>Xv6_Inode\<close>, \<^verbatim>\<open>Xv6_Dir\<close> (\<^verbatim>\<open>fs.c\<close>): block allocator, inodes, directories and path
    names. A file is a function from offsets to bytes, a directory a map from names to inode numbers; each routine
    is shown to implement the abstract operation and to leave other files alone.
  \<^item> \<^verbatim>\<open>Xv6_File\<close> (\<^verbatim>\<open>file.c\<close>, \<^verbatim>\<open>pipealloc\<close>, the whole of \<^verbatim>\<open>fork\<close> and \<^verbatim>\<open>exit\<close>), \<^verbatim>\<open>Xv6_Syscall\<close> (\<^verbatim>\<open>syscall.c\<close>, \<^verbatim>\<open>sysproc.c\<close>: arguments are accepted exactly when they lie in the process),
    \<^verbatim>\<open>Xv6_Sysfile\<close> (\<^verbatim>\<open>sysfile.c\<close>), \<^verbatim>\<open>Xv6_Exec\<close> (\<^verbatim>\<open>exec.c\<close>, \<^verbatim>\<open>loaduvm\<close>, and that the loops over user memory end), \<^verbatim>\<open>Xv6_Trap\<close> (\<^verbatim>\<open>trap.c\<close>): the state \<^verbatim>\<open>ksys\<close> of the
    whole kernel; every trap keeps the reference counts of open files equal to the number of descriptors.
  \<^item> \<^verbatim>\<open>Xv6_Filewrite\<close>: \<^verbatim>\<open>filewrite\<close> over its several transactions, down to the blocks on the disk.
  \<^item> \<^verbatim>\<open>Xv6_Console\<close> (\<^verbatim>\<open>console.c\<close>, \<^verbatim>\<open>kbd.c\<close>, \<^verbatim>\<open>uart.c\<close>): line editing, and that a typed line is what is read.
  \<^item> \<^verbatim>\<open>User_Grep\<close> (\<^verbatim>\<open>grep.c\<close>): the matcher decides the language of the pattern, and the program prints
    the matching lines.
  \<^item> \<^verbatim>\<open>User_Sh\<close> (\<^verbatim>\<open>sh.c\<close>): the parser of the shell accepts exactly a grammar of commands and always ends.

  \<^bold>\<open>Parameters.\<close> The device table, the addresses that the linker chooses (\<^verbatim>\<open>end\<close>, \<^verbatim>\<open>data\<close>), the entry points
  \<^verbatim>\<open>forkret\<close> and \<^verbatim>\<open>trapret\<close>, the values read from the ports of the devices and the sizes of the
  reads of \<^verbatim>\<open>grep\<close> are arguments of the definitions that use them.

  \<^bold>\<open>Bounds and fuel.\<close> The scans of the buffer list take \<^verbatim>\<open>NBUF + 1\<close> steps of fuel, one more than the list
  has buffers, and the walk to the end of the disk queue as many as there are buffers; the lemmas on \<^verbatim>\<open>scan\<close> and \<^verbatim>\<open>queue_last\<close> show that
  well-formed lists never use them up. The parser of the shell has four units of fuel for each byte of the line and four more, which its theorem shows to be enough. The loops of \<^verbatim>\<open>deallocuvm\<close>, \<^verbatim>\<open>copyuvm\<close> and \<^verbatim>\<open>loaduvm\<close>, whose counter may wrap around, and \<^verbatim>\<open>strlen\<close> are
  partial functions; the first three are proved to return for every size up to \<^verbatim>\<open>KERNBASE\<close>. All other loops are structural or have a termination proof.
  The file system has the size that \<^verbatim>\<open>mkfs\<close> gives it, at most 1000 blocks, so its bitmap is one block, and the log 30 blocks; a file has at most
  140 blocks.

  \<^bold>\<open>Not modelled.\<close>
  \<^item> Assembly code and what programs the processor or a controller only by port or register writes: \<^verbatim>\<open>entry.S\<close>,
    \<^verbatim>\<open>swtch.S\<close>, \<^verbatim>\<open>trapasm.S\<close>, \<^verbatim>\<open>bootasm.S\<close>, \<^verbatim>\<open>bootmain.c\<close>, \<^verbatim>\<open>lapic.c\<close>, \<^verbatim>\<open>ioapic.c\<close>, \<^verbatim>\<open>picirq.c\<close>, \<^verbatim>\<open>mp.c\<close>, \<^verbatim>\<open>main.c\<close>, \<^verbatim>\<open>seginit\<close>, \<^verbatim>\<open>switchuvm\<close> but for its checks,
    \<^verbatim>\<open>uartinit\<close>, \<^verbatim>\<open>tvinit\<close>: their effect is on hardware that the C code does not read back.
  \<^item> \<^verbatim>\<open>mkfs.c\<close> runs on the development host; the theorems assume of a disk what it writes.
  \<^item> The other user programs and the laboratory programs under \<^verbatim>\<open>src/lab-*\<close>: tests and exercises that call the kernel or the
    threads, semaphores and message queues of another operating system, and whose output is their only effect.
  \<^item> Several processes inside the file system at once. Its routines are single steps on a state with
    locks; where another process holds a lock the outcome is \<^verbatim>\<open>Blocked\<close>. Their state has no process table, so the wakeups of
    \<^verbatim>\<open>end_op\<close>, \<^verbatim>\<open>ideintr\<close> and of the sleep locks inside them are not part of it; a wakeup there lets a blocked call be tried again.
    The wakeups of sleep locks are modelled, with the process table, in \<^verbatim>\<open>Xv6_Sleeplock\<close>.
  \<^item> In a trap, what a process does after \<^verbatim>\<open>yield\<close> has given up the processor: the last check of \<^verbatim>\<open>trap\<close> is a definition of
    its own, \<^verbatim>\<open>trap_last\<close>, for when the process runs again.
  \<^item> \<^verbatim>\<open>runcmd\<close> and the loop of the shell, which only issue system calls, and the allocator of user memory \<^verbatim>\<open>umalloc.c\<close>.
\<close>

end
